(* ===== verification/Rw_Prelude.thy ===== *)
theory Rw_Prelude
  imports Main "HOL-Library.Word"
begin

text \<open>
  Shared vocabulary of the Redwing OS development: machine integers, the outcome of a fallible
  Rust computation (a value, an error of the function's own error type, or a panic), the
  state-passing composition that Rust's \<open>?\<close> operator performs, and the generic facts on lists
  that the components share.
\<close>

section \<open>Machine integers and bytes\<close>

type_synonym u8 = "8 word"
type_synonym u32 = "32 word"
type_synonym u64 = "64 word"
type_synonym bytes = "u8 list"

text \<open>\<open>usize::MAX + 1\<close> and \<open>u64::MAX + 1\<close> on the 64-bit target.\<close>

definition usize_limit :: nat where
  "usize_limit = 2 ^ 64"

text \<open>\<open>usize::div_ceil\<close>.\<close>

definition div_ceil :: "nat \<Rightarrow> nat \<Rightarrow> nat" where
  "div_ceil a b = (a + b - 1) div b"

lemma div_ceil_ge: "0 < b \<Longrightarrow> a \<le> div_ceil a b * b"
proof -
  assume b: "0 < b"
  have "a + b - 1 = (a + b - 1) div b * b + (a + b - 1) mod b" by simp
  moreover have "(a + b - 1) mod b \<le> b - 1" using b by (metis Suc_pred' less_Suc_eq_le mod_less_divisor)
  ultimately show ?thesis using b unfolding div_ceil_def by linarith
qed

lemma div_ceil_le: "0 < b \<Longrightarrow> a \<le> c * b \<Longrightarrow> div_ceil a b \<le> c"
proof -
  assume b: "0 < b" and a: "a \<le> c * b"
  have "a + b - 1 < Suc c * b" using a b by simp
  then have "(a + b - 1) div b < Suc c" by (metis less_mult_imp_div_less)
  then show ?thesis by (simp add: div_ceil_def)
qed

lemma div_ceil_pos: "0 < b \<Longrightarrow> 0 < a \<Longrightarrow> 0 < div_ceil a b"
  by (simp add: div_ceil_def div_greater_zero_iff)

section \<open>Outcomes of Rust computations\<close>

text \<open>
  \<open>Result<T, E>\<close> together with the third way a Rust call can end: a panic (a failed \<open>assert!\<close>,
  \<open>unwrap\<close> on \<open>None\<close>, an index out of range or, in a checked build, an arithmetic overflow).
\<close>

datatype ('e, 'a) outcome = Ok 'a | Err 'e | Panic

text \<open>A call that threads the state \<open>'s\<close>; the state is returned on errors too, since Rust code
  that returns early keeps the mutations it has made.\<close>

type_synonym ('s, 'e, 'a) call = "'s \<Rightarrow> ('e, 'a) outcome \<times> 's"

definition ret :: "'a \<Rightarrow> ('s, 'e, 'a) call" where
  "ret x = (\<lambda>s. (Ok x, s))"

definition fail :: "'e \<Rightarrow> ('s, 'e, 'a) call" where
  "fail e = (\<lambda>s. (Err e, s))"

definition panic :: "('s, 'e, 'a) call" where
  "panic = (\<lambda>s. (Panic, s))"

text \<open>Sequencing with Rust's \<open>?\<close>: an error or a panic ends the caller too.\<close>

definition bind :: "('s, 'e, 'a) call \<Rightarrow> ('a \<Rightarrow> ('s, 'e, 'b) call) \<Rightarrow> ('s, 'e, 'b) call" where
  "bind m k = (\<lambda>s. case m s of
      (Ok x, s') \<Rightarrow> k x s'
    | (Err e, s') \<Rightarrow> (Err e, s')
    | (Panic, s') \<Rightarrow> (Panic, s'))"

definition assert_that :: "bool \<Rightarrow> ('s, 'e, unit) call" where
  "assert_that b = (if b then ret () else panic)"

lemma bind_cong [fundef_cong]:
  assumes "m s = m' s'" "s = s'"
    and "\<And>x t. m' s' = (Ok x, t) \<Longrightarrow> k x t = k' x t"
  shows "bind m k s = bind m' k' s'"
  using assms by (auto simp: bind_def split: prod.splits outcome.splits)

named_theorems call_simps \<open>unfolding of the state-passing combinators\<close>

lemma bind_ret [simp]: "bind (ret x) k = k x"
  by (simp add: bind_def ret_def)

lemma ret_app [simp, call_simps]: "ret x s = (Ok x, s)"
  by (simp add: ret_def)

lemma fail_app [simp, call_simps]: "fail e s = (Err e, s)"
  by (simp add: fail_def)

lemma panic_app [simp, call_simps]: "panic s = (Panic, s)"
  by (simp add: panic_def)

lemma bind_Ok: "m s = (Ok x, s') \<Longrightarrow> bind m k s = k x s'"
  by (simp add: bind_def)

lemma bind_Err: "m s = (Err e, s') \<Longrightarrow> bind m k s = (Err e, s')"
  by (simp add: bind_def)

lemma bind_Panic: "m s = (Panic, s') \<Longrightarrow> bind m k s = (Panic, s')"
  by (simp add: bind_def)

lemma bind_eq_Ok:
  "bind m k s = (Ok y, t) \<longleftrightarrow> (\<exists>x s'. m s = (Ok x, s') \<and> k x s' = (Ok y, t))"
  by (auto simp: bind_def split: prod.splits outcome.splits)

lemma bind_OkE:
  assumes "bind m k s = (Ok y, t)"
  obtains x s' where "m s = (Ok x, s')" "k x s' = (Ok y, t)"
  using assms by (auto simp: bind_eq_Ok)

lemma assert_that_simps [simp]:
  "bind (assert_that True) k = k ()" "assert_that False s = (Panic, s)"
  "assert_that True = ret ()"
  by (simp_all add: assert_that_def)

section \<open>Lists\<close>

lemma take_drop_append_mid:
  "length a = m \<Longrightarrow> take n (drop m (a @ b @ c)) = take n (b @ c)"
  by simp

lemma nth_take_drop [simp]:
  "i < n \<Longrightarrow> m + i < length xs \<Longrightarrow> take n (drop m xs) ! i = xs ! (m + i)"
  by simp

text \<open>\<open>dst[a..a+len].copy_from_slice(src)\<close> on a buffer held as a list.\<close>

definition splice :: "'a list \<Rightarrow> nat \<Rightarrow> 'a list \<Rightarrow> 'a list" where
  "splice xs a ys = take a xs @ ys @ drop (a + length ys) xs"

lemma length_splice [simp]: "a + length ys \<le> length xs \<Longrightarrow> length (splice xs a ys) = length xs"
  by (simp add: splice_def)

lemma nth_splice:
  assumes "a + length ys \<le> length xs" "i < length xs"
  shows "splice xs a ys ! i = (if a \<le> i \<and> i < a + length ys then ys ! (i - a) else xs ! i)"
  using assms by (auto simp: splice_def nth_append)

end
