(* ===== verification/Rw_Path.thy ===== *)
theory Rw_Path
  imports Rw_Prelude
begin

text \<open>
  The path crate (src/common/path/src/lib.rs): a path is a byte string, and
  \<open>Components\<close> is a double-ended iterator over its components. The iterator is modelled with its
  own cursor fields; the theory relates it to a reference parser that splits the path at every
  slash, and shows that the backward traversal is the mirror image of the forward one.
\<close>

section \<open>Data\<close>

datatype component = RootDir | CurDir | ParentDir | Normal bytes

abbreviation slash :: u8 where "slash \<equiv> 47"
abbreviation dot :: u8 where "dot \<equiv> 46"

fun component_as_bytes :: "component \<Rightarrow> bytes" where
  "component_as_bytes RootDir = [slash]"
| "component_as_bytes CurDir = [dot]"
| "component_as_bytes ParentDir = [dot, dot]"
| "component_as_bytes (Normal nm) = nm"

record components =
  buf :: bytes
  front :: nat
  back' :: nat

definition components_new :: "bytes \<Rightarrow> components" where
  "components_new path = \<lparr>buf = path, front = 0, back' = length path\<rparr>"

text \<open>The cursors of every iterator reachable from \<open>components_new\<close> satisfy this.\<close>

definition components_wf :: "components \<Rightarrow> bool" where
  "components_wf c \<longleftrightarrow> front c \<le> back' c \<and> back' c \<le> length (buf c)"

text \<open>\<open>buf[a..b]\<close>.\<close>

definition slice :: "bytes \<Rightarrow> nat \<Rightarrow> nat \<Rightarrow> bytes" where
  "slice b i j = take (j - i) (drop i b)"

section \<open>The iterator\<close>

text \<open>\<open>while end < self.back && self.buf[end] != b'/' { end += 1; }\<close>\<close>

function seg_end :: "bytes \<Rightarrow> nat \<Rightarrow> nat \<Rightarrow> nat" where
  "seg_end b bk e = (if e < bk \<and> b ! e \<noteq> slash then seg_end b bk (Suc e) else e)"
  by pat_completeness auto
termination
  by (relation "measure (\<lambda>(b, bk, e). bk - e)") auto

text \<open>\<open>while end > self.front && self.buf[end - 1] == b'/' { end -= 1; }\<close>\<close>

fun skip_slashes_back :: "bytes \<Rightarrow> nat \<Rightarrow> nat \<Rightarrow> nat" where
  "skip_slashes_back b fr e =
     (if fr < e \<and> b ! (e - 1) = slash then skip_slashes_back b fr (e - 1) else e)"

text \<open>\<open>while start > self.front && self.buf[start - 1] != b'/' { start -= 1; }\<close>\<close>

fun seg_start :: "bytes \<Rightarrow> nat \<Rightarrow> nat \<Rightarrow> nat" where
  "seg_start b fr s =
     (if fr < s \<and> b ! (s - 1) \<noteq> slash then seg_start b fr (s - 1) else s)"

declare seg_end.simps [simp del] skip_slashes_back.simps [simp del] seg_start.simps [simp del]

lemma seg_end_bounds: "e \<le> bk \<Longrightarrow> e \<le> seg_end b bk e \<and> seg_end b bk e \<le> bk"
proof (induction b bk e rule: seg_end.induct)
  case (1 b bk e)
  then show ?case by (cases "e < bk \<and> b ! e \<noteq> slash") (auto simp: seg_end.simps [of b bk e])
qed

lemma seg_end_stop: "e \<le> bk \<Longrightarrow> seg_end b bk e < bk \<Longrightarrow> b ! seg_end b bk e = slash"
proof (induction b bk e rule: seg_end.induct)
  case (1 b bk e)
  then show ?case by (cases "e < bk \<and> b ! e \<noteq> slash") (auto simp: seg_end.simps [of b bk e])
qed

lemma seg_end_noslash: "e \<le> i \<Longrightarrow> i < seg_end b bk e \<Longrightarrow> b ! i \<noteq> slash"
proof (induction b bk e rule: seg_end.induct)
  case (1 b bk e)
  show ?case
  proof (cases "e < bk \<and> b ! e \<noteq> slash")
    case True
    with 1 show ?thesis by (cases "i = e") (auto simp: seg_end.simps [of b bk e])
  next
    case False
    with 1 show ?thesis by (auto simp: seg_end.simps [of b bk e])
  qed
qed

lemma skip_slashes_back_bounds:
  "fr \<le> e \<Longrightarrow> fr \<le> skip_slashes_back b fr e \<and> skip_slashes_back b fr e \<le> e"
proof (induction b fr e rule: skip_slashes_back.induct)
  case (1 b fr e)
  show ?case
  proof (cases "fr < e \<and> b ! (e - 1) = slash")
    case True
    then have "fr \<le> e - 1" by linarith
    with True "1.IH" have "fr \<le> skip_slashes_back b fr (e - 1) \<and> skip_slashes_back b fr (e - 1) \<le> e - 1"
      by blast
    with True show ?thesis by (simp add: skip_slashes_back.simps [of b fr e]) linarith
  next
    case False
    with "1.prems" show ?thesis by (auto simp: skip_slashes_back.simps [of b fr e])
  qed
qed

lemma seg_start_bounds:
  "fr \<le> s \<Longrightarrow> fr \<le> seg_start b fr s \<and> seg_start b fr s \<le> s"
proof (induction b fr s rule: seg_start.induct)
  case (1 b fr s)
  show ?case
  proof (cases "fr < s \<and> b ! (s - 1) \<noteq> slash")
    case True
    then have "fr \<le> s - 1" by linarith
    with True "1.IH" have "fr \<le> seg_start b fr (s - 1) \<and> seg_start b fr (s - 1) \<le> s - 1"
      by blast
    with True show ?thesis by (simp add: seg_start.simps [of b fr s]) linarith
  next
    case False
    with "1.prems" show ?thesis by (auto simp: seg_start.simps [of b fr s])
  qed
qed

lemma next_front_progress:
  assumes "fr < bk" "en = seg_end b bk fr"
    and "fr' = (if en < bk \<and> b ! en = slash then en + 1 else en)"
  shows "fr < fr' \<and> fr' \<le> bk"
  using assms seg_end_bounds [of fr bk b] seg_end_stop [of fr bk b] by (cases "en < bk") auto

text \<open>
  \<open>Components::next\<close>. The code tests \<open>front == back\<close>; \<open>components_wf\<close>, which every operation
  keeps, makes that the same as \<open>back' \<le> front\<close>.
\<close>

function components_next :: "components \<Rightarrow> component option \<times> components" where
  "components_next c =
     (if back' c \<le> front c then (None, c)
      else
        let start = front c;
            en = seg_end (buf c) (back' c) (front c);
            fr = (if en < back' c \<and> buf c ! en = slash then en + 1 else en);
            c' = c\<lparr>front := fr\<rparr>;
            s = slice (buf c) start en
        in if s = [] then
             (if start = 0 then (Some RootDir, c') else components_next c')
           else if s = [dot] then
             (if start = 0 then (Some CurDir, c') else components_next c')
           else if s = [dot, dot] then (Some ParentDir, c')
           else (Some (Normal s), c'))"
  by pat_completeness auto
termination
proof (relation "measure (\<lambda>c. back' c - front c)", goal_cases)
  case (2 c start en fr c' s)
  with next_front_progress [of "front c" "back' c" en "buf c" fr] show ?case by auto
next
  case (3 c start en fr c' s)
  with next_front_progress [of "front c" "back' c" en "buf c" fr] show ?case by auto
qed simp

declare components_next.simps [simp del]

text \<open>\<open>Components::next_back\<close>.\<close>

lemma next_back_progress:
  assumes "fr < bk" "en = skip_slashes_back b fr bk" "st = seg_start b fr en"
  shows "fr \<le> st \<and> st < bk"
proof (cases "b ! (bk - 1) = slash")
  case True
  then have "en = skip_slashes_back b fr (bk - 1)"
    using assms by (simp add: skip_slashes_back.simps [of b fr bk])
  then show ?thesis
    using assms(1,3) skip_slashes_back_bounds [of fr "bk - 1" b] seg_start_bounds [of fr en b] by linarith
next
  case False
  then have "en = bk" using assms by (simp add: skip_slashes_back.simps [of b fr bk])
  then have "st = seg_start b fr (bk - 1)"
    using assms False by (simp add: seg_start.simps [of b fr bk])
  then show ?thesis using assms(1) seg_start_bounds [of fr "bk - 1" b] by linarith
qed

function components_next_back :: "components \<Rightarrow> component option \<times> components" where
  "components_next_back c =
     (if back' c \<le> front c then (None, c)
      else
        let en = skip_slashes_back (buf c) (front c) (back' c);
            start = seg_start (buf c) (front c) en;
            cmp = slice (buf c) start en;
            c' = c\<lparr>back' := start\<rparr>
        in if cmp = [] then
             (if start = 0 then (Some RootDir, c') else components_next_back c')
           else if cmp = [dot] then
             (if start = 0 then (Some CurDir, c') else components_next_back c')
           else if cmp = [dot, dot] then (Some ParentDir, c')
           else (Some (Normal cmp), c'))"
  by pat_completeness auto
termination
proof (relation "measure (\<lambda>c. back' c - front c)", goal_cases)
  case (2 c en start cmp c')
  with next_back_progress [of "front c" "back' c" en "buf c" start] show ?case by auto
next
  case (3 c en start cmp c')
  with next_back_progress [of "front c" "back' c" en "buf c" start] show ?case by auto
qed simp

declare components_next_back.simps [simp del]

text \<open>\<open>Components::as_path\<close>; the slice \<open>buf[front..=e]\<close> panics when \<open>front\<close> is past \<open>e + 1\<close>.\<close>

fun trim_slashes :: "bytes \<Rightarrow> nat \<Rightarrow> nat" where
  "trim_slashes b e = (if e \<noteq> 0 \<and> b ! e = slash then trim_slashes b (e - 1) else e)"

declare trim_slashes.simps [simp del]

definition components_as_path :: "components \<Rightarrow> (unit, bytes) outcome" where
  "components_as_path c =
     (if back' c = 0 then Ok []
      else let e = trim_slashes (buf c) (back' c - 1)
           in if front c \<le> e + 1 \<and> e + 1 \<le> length (buf c)
              then Ok (slice (buf c) (front c) (e + 1)) else Panic)"

section \<open>Operations on paths\<close>

definition path_parent :: "bytes \<Rightarrow> (unit, bytes option) outcome" where
  "path_parent p =
     (case components_next_back (components_new p) of
        (None, _) \<Rightarrow> Ok None
      | (Some cmp, c) \<Rightarrow>
          (case cmp of
             Normal _ \<Rightarrow> (case components_as_path c of Ok q \<Rightarrow> Ok (Some q) | Err e \<Rightarrow> Err e | Panic \<Rightarrow> Panic)
           | ParentDir \<Rightarrow> (case components_as_path c of Ok q \<Rightarrow> Ok (Some q) | Err e \<Rightarrow> Err e | Panic \<Rightarrow> Panic)
           | RootDir \<Rightarrow> Ok None
           | CurDir \<Rightarrow> Ok None))"

definition path_name :: "bytes \<Rightarrow> bytes option" where
  "path_name p =
     (case fst (components_next_back (components_new p)) of
        Some (Normal nm) \<Rightarrow> Some nm
      | _ \<Rightarrow> None)"

definition is_absolute :: "bytes \<Rightarrow> bool" where
  "is_absolute p = (case p of [] \<Rightarrow> False | b # _ \<Rightarrow> b = slash)"

definition is_relative :: "bytes \<Rightarrow> bool" where
  "is_relative p = (\<not> is_absolute p)"

definition ends_with :: "bytes \<Rightarrow> bytes \<Rightarrow> bool" where
  "ends_with p s = (length s \<le> length p \<and> drop (length p - length s) p = s)"

definition is_dir :: "bytes \<Rightarrow> bool" where
  "is_dir p = (ends_with p [slash] \<or> ends_with p [slash, dot] \<or> p = [dot]
     \<or> ends_with p [slash, dot, dot] \<or> p = [dot, dot])"

definition is_file :: "bytes \<Rightarrow> bool" where
  "is_file p = (\<not> is_dir p)"

definition is_root :: "bytes \<Rightarrow> bool" where
  "is_root p = (case fst (components_next_back (components_new p)) of
      Some RootDir \<Rightarrow> True | _ \<Rightarrow> False)"

text \<open>Draining the iterator from the front, as \<open>for\<close> loops over \<open>components()\<close> do.\<close>

lemma components_next_Some:
  "components_next c = (Some x, c') \<Longrightarrow>
     buf c' = buf c \<and> back' c' = back' c \<and> front c < front c' \<and> front c' \<le> back' c"
proof (induction c arbitrary: x c' rule: components_next.induct)
  case (1 c)
  from "1.prems" have lt: "front c < back' c"
    by (subst (asm) components_next.simps) (simp split: if_splits)
  define en where "en = seg_end (buf c) (back' c) (front c)"
  define fr where "fr = (if en < back' c \<and> buf c ! en = slash then en + 1 else en)"
  define c1 where "c1 = c\<lparr>front := fr\<rparr>"
  define s where "s = slice (buf c) (front c) en"
  have pr: "front c < fr \<and> fr \<le> back' c"
    using next_front_progress [OF lt en_def fr_def] .
  have IH: "\<lbrakk>s = [] \<or> s = [dot]; front c \<noteq> 0; components_next c1 = (Some x, c')\<rbrakk>
      \<Longrightarrow> buf c' = buf c1 \<and> back' c' = back' c1 \<and> front c1 < front c' \<and> front c' \<le> back' c1"
    using "1.IH" [OF _ refl en_def fr_def c1_def s_def] lt by auto
  have eq: "components_next c =
     (if s = [] then (if front c = 0 then (Some RootDir, c1) else components_next c1)
      else if s = [dot] then (if front c = 0 then (Some CurDir, c1) else components_next c1)
      else if s = [dot, dot] then (Some ParentDir, c1) else (Some (Normal s), c1))"
    using lt by (subst components_next.simps) (simp add: Let_def en_def fr_def c1_def s_def)
  have "(s = [] \<or> s = [dot]) \<and> front c \<noteq> 0 \<and> components_next c1 = (Some x, c') \<or> c' = c1"
    using "1.prems" unfolding eq by (simp split: if_splits)
  then show ?case
  proof
    assume "(s = [] \<or> s = [dot]) \<and> front c \<noteq> 0 \<and> components_next c1 = (Some x, c')"
    then have "buf c' = buf c1 \<and> back' c' = back' c1 \<and> front c1 < front c' \<and> front c' \<le> back' c1"
      by (intro IH) auto
    with pr show ?thesis by (simp add: c1_def)
  next
    assume "c' = c1"
    with pr show ?thesis by (simp add: c1_def)
  qed
qed

function components_list :: "components \<Rightarrow> component list" where
  "components_list c =
     (case components_next c of
        (None, _) \<Rightarrow> []
      | (Some x, c') \<Rightarrow> x # components_list c')"
  by pat_completeness auto
termination
  by (relation "measure (\<lambda>c. back' c - front c)")
     (auto dest!: components_next_Some [OF sym])

declare components_list.simps [simp del]


section \<open>The reference parser\<close>

text \<open>
  The documented grammar: split at every slash; repeated slashes, a trailing slash and every
  \<open>.\<close> but a leading one disappear; a leading empty segment is the root.
\<close>

fun split_path :: "bytes \<Rightarrow> bytes list" where
  "split_path [] = [[]]"
| "split_path (x # xs) =
     (if x = slash then [] # split_path xs
      else (x # hd (split_path xs)) # tl (split_path xs))"

definition seg_comps :: "bool \<Rightarrow> bytes \<Rightarrow> component list" where
  "seg_comps at_start s =
     (if s = [] then (if at_start then [RootDir] else [])
      else if s = [dot] then (if at_start then [CurDir] else [])
      else if s = [dot, dot] then [ParentDir]
      else [Normal s])"

definition parse_from :: "bool \<Rightarrow> bytes \<Rightarrow> component list" where
  "parse_from at_start p =
     (if p = [] then []
      else seg_comps at_start (hd (split_path p))
             @ concat (map (seg_comps False) (tl (split_path p))))"

definition parse_path :: "bytes \<Rightarrow> component list" where
  "parse_path p = parse_from True p"

lemma split_path_nonempty [simp]: "split_path p \<noteq> []"
  by (cases p) auto

lemma split_path_append: "split_path (a @ slash # b) = split_path a @ split_path b"
  by (induction a) auto

lemma split_path_noslash: "slash \<notin> set s \<Longrightarrow> split_path s = [s]"
  by (induction s) auto

lemma split_path_slashes: "set sl \<subseteq> {slash} \<Longrightarrow> split_path sl = replicate (Suc (length sl)) []"
  by (induction sl) auto

lemma split_path_seg_slashes:
  assumes "slash \<notin> set s" "set sl \<subseteq> {slash}"
  shows "split_path (s @ sl) = s # replicate (length sl) []"
proof (cases sl)
  case Nil
  with assms show ?thesis by (simp add: split_path_noslash)
next
  case (Cons x xs)
  with assms show ?thesis
    by (simp add: split_path_append split_path_noslash split_path_slashes)
qed

lemma seg_comps_empty [simp]: "seg_comps False [] = []"
  by (simp add: seg_comps_def)

lemma parse_from_split:
  "p \<noteq> [] \<or> \<not> at \<Longrightarrow> parse_from at p =
     seg_comps at (hd (split_path p)) @ concat (map (seg_comps False) (tl (split_path p)))"
  by (cases p) (auto simp: parse_from_def)

lemma parse_from_False: "parse_from False p = concat (map (seg_comps False) (split_path p))"
proof (cases "split_path p")
  case (Cons s ss)
  then show ?thesis by (cases "p = []") (auto simp: parse_from_def)
qed simp

lemma parse_from_snoc_seg:
  assumes "slash \<notin> set s" "set sl \<subseteq> {slash}"
  shows "parse_from at ((q @ [slash]) @ s @ sl) = parse_from at (q @ [slash]) @ seg_comps False s"
proof -
  have 1: "split_path ((q @ [slash]) @ s @ sl) = split_path q @ s # replicate (length sl) []"
    using split_path_append [of q "s @ sl"] split_path_seg_slashes [OF assms] by simp
  have 2: "split_path (q @ [slash]) = split_path q @ [[]]"
    using split_path_append [of q "[]"] by simp
  show ?thesis
    by (simp add: parse_from_split 1 2 del: append_assoc)
qed

lemma parse_from_seg:
  assumes "slash \<notin> set s" "set sl \<subseteq> {slash}" "s @ sl \<noteq> []"
  shows "parse_from at (s @ sl) = seg_comps at s"
  using assms by (simp add: parse_from_split split_path_seg_slashes)

lemma parse_from_trailing:
  assumes "set sl \<subseteq> {slash}" "q \<noteq> []"
  shows "parse_from at (q @ sl) = parse_from at q"
proof (cases "slash \<in> set q")
  case False
  then show ?thesis
    using parse_from_seg [OF False, of sl at] parse_from_seg [OF False, of "[]" at] assms by simp
next
  case True
  from split_list_last [OF True] obtain a s where q: "q = a @ slash # s" "slash \<notin> set s" by blast
  then show ?thesis
    using parse_from_snoc_seg [of s sl at a] parse_from_snoc_seg [of s "[]" at a] assms by simp
qed

section \<open>The iterator against the parser\<close>

definition remaining :: "components \<Rightarrow> bytes" where
  "remaining c = slice (buf c) (front c) (back' c)"

lemma slice_Cons: "i < j \<Longrightarrow> j \<le> length b \<Longrightarrow> slice b i j = b ! i # slice b (Suc i) j"
proof -
  assume a: "i < j" "j \<le> length b"
  then have "drop i b = b ! i # drop (Suc i) b" by (simp add: Cons_nth_drop_Suc)
  moreover have "j - i = Suc (j - Suc i)" using a by simp
  ultimately show ?thesis by (simp add: slice_def)
qed

lemma slice_empty [simp]: "j \<le> i \<Longrightarrow> slice b i j = []"
  by (simp add: slice_def)

lemma length_slice [simp]: "j \<le> length b \<Longrightarrow> length (slice b i j) = j - i"
  by (simp add: slice_def)

lemma slice_snoc: "i < j \<Longrightarrow> j \<le> length b \<Longrightarrow> slice b i j = slice b i (j - 1) @ [b ! (j - 1)]"
proof -
  assume a: "i < j" "j \<le> length b"
  have "j - i = Suc (j - 1 - i)" using a by linarith
  then have "slice b i j = take (Suc (j - 1 - i)) (drop i b)" by (simp only: slice_def)
  also have "\<dots> = take (j - 1 - i) (drop i b) @ [drop i b ! (j - 1 - i)]"
    using a by (intro take_Suc_conv_app_nth) simp
  also have "drop i b ! (j - 1 - i) = b ! (j - 1)" using a by simp
  finally show ?thesis by (simp add: slice_def)
qed

lemma slice_prefix: "i \<le> j \<Longrightarrow> j \<le> k \<Longrightarrow> slice b i j = take (j - i) (slice b i k)"
  by (simp add: slice_def min_def)

lemma slice_suffix: "i \<le> j \<Longrightarrow> slice b j k = drop (j - i) (slice b i k)"
  by (simp add: slice_def drop_take)

lemma seg_end_takeWhile:
  "e \<le> bk \<Longrightarrow> bk \<le> length b \<Longrightarrow>
     seg_end b bk e = e + length (takeWhile (\<lambda>x. x \<noteq> slash) (slice b e bk))"
proof (induction b bk e rule: seg_end.induct)
  case (1 b bk e)
  then show ?case
    by (cases "e < bk") (auto simp: seg_end.simps [of b bk e] seg_end.simps [of b bk bk] slice_Cons)
qed

lemma skip_slashes_back_dropWhile:
  "fr \<le> e \<Longrightarrow> e \<le> length b \<Longrightarrow>
     skip_slashes_back b fr e = fr + length (dropWhile (\<lambda>x. x = slash) (rev (slice b fr e)))"
proof (induction b fr e rule: skip_slashes_back.induct)
  case (1 b fr e)
  then show ?case
    by (cases "fr < e") (auto simp: skip_slashes_back.simps [of b fr e] skip_slashes_back.simps [of b e e] slice_snoc)
qed

lemma seg_start_dropWhile:
  "fr \<le> e \<Longrightarrow> e \<le> length b \<Longrightarrow>
     seg_start b fr e = fr + length (dropWhile (\<lambda>x. x \<noteq> slash) (rev (slice b fr e)))"
proof (induction b fr e rule: seg_start.induct)
  case (1 b fr e)
  then show ?case
    by (cases "fr < e") (auto simp: seg_start.simps [of b fr e] seg_start.simps [of b e e] slice_snoc)
qed


lemma components_next_step:
  assumes "components_wf c" "front c < back' c"
  defines "s \<equiv> takeWhile (\<lambda>x. x \<noteq> slash) (remaining c)"
  obtains c' where "components_wf c'" "buf c' = buf c" "back' c' = back' c" "front c < front c'"
    and "remaining c' = drop (Suc (length s)) (remaining c)"
    and "components_next c =
     (if s = [] then (if front c = 0 then (Some RootDir, c') else components_next c')
      else if s = [dot] then (if front c = 0 then (Some CurDir, c') else components_next c')
      else if s = [dot, dot] then (Some ParentDir, c') else (Some (Normal s), c'))"
proof -
  define en where "en = seg_end (buf c) (back' c) (front c)"
  define fr where "fr = (if en < back' c \<and> buf c ! en = slash then en + 1 else en)"
  define c1 where "c1 = c\<lparr>front := fr\<rparr>"
  have len: "back' c \<le> length (buf c)" using assms by (simp add: components_wf_def)
  have pr: "front c < fr \<and> fr \<le> back' c"
    using next_front_progress [OF assms(2) en_def fr_def] .
  have en: "en = front c + length s"
    using assms(2) len by (simp add: en_def seg_end_takeWhile s_def remaining_def)
  have "en \<le> back' c" using assms(2) seg_end_bounds [of "front c" "back' c" "buf c"] en_def by simp
  then have "slice (buf c) (front c) en = take (length s) (remaining c)"
    unfolding remaining_def by (subst slice_prefix [of _ en "back' c"]) (use en in auto)
  then have sl: "slice (buf c) (front c) en = s"
    by (simp add: s_def takeWhile_eq_take [symmetric])
  have "en < back' c \<Longrightarrow> buf c ! en = slash"
    using assms(2) seg_end_stop [of "front c" "back' c" "buf c"] en_def by simp
  then have fr2: "fr = (if en < back' c then Suc en else en)" by (simp add: fr_def)
  have "remaining c1 = drop (fr - front c) (remaining c)"
    unfolding remaining_def c1_def using pr by (simp add: slice_suffix [of "front c" fr])
  also have "\<dots> = drop (Suc (length s)) (remaining c)"
    using fr2 en \<open>en \<le> back' c\<close> len by (auto simp: remaining_def)
  finally have rem: "remaining c1 = drop (Suc (length s)) (remaining c)" .
  have "components_next c =
     (if s = [] then (if front c = 0 then (Some RootDir, c1) else components_next c1)
      else if s = [dot] then (if front c = 0 then (Some CurDir, c1) else components_next c1)
      else if s = [dot, dot] then (Some ParentDir, c1) else (Some (Normal s), c1))"
    using assms(2) by (subst components_next.simps)
      (unfold Let_def, fold en_def, fold fr_def, fold c1_def, unfold sl, simp)
  moreover have "components_wf c1" using pr len by (simp add: components_wf_def c1_def)
  ultimately show ?thesis using that [of c1] pr rem by (simp add: c1_def)
qed

lemma split_path_takeWhile:
  "split_path r = takeWhile (\<lambda>x. x \<noteq> slash) r #
     (if slash \<in> set r then split_path (drop (Suc (length (takeWhile (\<lambda>x. x \<noteq> slash) r))) r) else [])"
  by (induction r) auto

lemma components_list_parse_from:
  "components_wf c \<Longrightarrow> components_list c = parse_from (front c = 0) (remaining c)"
proof (induction "back' c - front c" arbitrary: c rule: less_induct)
  case less
  show ?case
  proof (cases "front c < back' c")
    case False
    then show ?thesis
      by (subst components_list.simps, subst components_next.simps)
        (simp add: remaining_def parse_from_def)
  next
    case True
    define s where "s = takeWhile (\<lambda>x. x \<noteq> slash) (remaining c)"
    from components_next_step [OF less.prems True] obtain c' where
      c': "components_wf c'" "buf c' = buf c" "back' c' = back' c" "front c < front c'"
      "remaining c' = drop (Suc (length s)) (remaining c)"
      and nx: "components_next c =
       (if s = [] then (if front c = 0 then (Some RootDir, c') else components_next c')
        else if s = [dot] then (if front c = 0 then (Some CurDir, c') else components_next c')
        else if s = [dot, dot] then (Some ParentDir, c') else (Some (Normal s), c'))"
      by (rule components_next_step [OF less.prems True, folded s_def])
    have IH: "components_list c' = parse_from False (remaining c')"
      using less.hyps [of c'] c' True by simp
    have unf: "components_list c = seg_comps (front c = 0) s @ components_list c'"
    proof (cases "(s = [] \<or> s = [dot]) \<and> front c \<noteq> 0")
      case True
      then have "components_next c = components_next c'" using nx by (auto split: if_splits)
      then show ?thesis
        using True by (auto simp: components_list.simps [of c] components_list.simps [of c'] seg_comps_def)
    next
      case False
      then show ?thesis
        using nx by (auto simp: components_list.simps [of c] seg_comps_def)
    qed
    have ne: "remaining c \<noteq> []"
      using True less.prems by (simp add: remaining_def components_wf_def slice_Cons)
    have "parse_from (front c = 0) (remaining c) =
        seg_comps (front c = 0) s @ parse_from False (remaining c')"
    proof (cases "slash \<in> set (remaining c)")
      case True
      then have "split_path (remaining c) = s # split_path (remaining c')"
        using split_path_takeWhile [of "remaining c"] unfolding c'(5) s_def by (simp only: if_True)
      then show ?thesis
        using ne by (simp add: parse_from_def [of "front c = 0"] parse_from_False)
    next
      case False
      then have "s = remaining c" by (auto simp: s_def)
      then show ?thesis
        using ne split_path_noslash [OF False] c'(5) by (simp add: parse_from_def)
    qed
    then show ?thesis using unf IH by simp
  qed
qed


lemma components_next_back_step:
  assumes "components_wf c" "front c < back' c"
  obtains q sg sl c' where "remaining c = q @ sg @ sl" "slash \<notin> set sg" "set sl \<subseteq> {slash}"
    and "q = [] \<or> (sg \<noteq> [] \<and> last q = slash)"
    and "c' = c\<lparr>back' := front c + length q\<rparr>" "components_wf c'" "remaining c' = q" "back' c' < back' c"
    and "components_next_back c =
     (if sg = [] then (if front c + length q = 0 then (Some RootDir, c') else components_next_back c')
      else if sg = [dot] then (if front c + length q = 0 then (Some CurDir, c') else components_next_back c')
      else if sg = [dot, dot] then (Some ParentDir, c') else (Some (Normal sg), c'))"
proof -
  define en where "en = skip_slashes_back (buf c) (front c) (back' c)"
  define st where "st = seg_start (buf c) (front c) en"
  define r where "r = remaining c"
  define body where "body = rev (dropWhile (\<lambda>x. x = slash) (rev r))"
  define q where "q = rev (dropWhile (\<lambda>x. x \<noteq> slash) (rev body))"
  define sg where "sg = rev (takeWhile (\<lambda>x. x \<noteq> slash) (rev body))"
  define sl where "sl = rev (takeWhile (\<lambda>x. x = slash) (rev r))"
  define c1 where "c1 = c\<lparr>back' := st\<rparr>"
  have len: "back' c \<le> length (buf c)" using assms by (simp add: components_wf_def)
  have lr: "length r = back' c - front c" using len by (simp add: r_def remaining_def)
  have r1: "r = body @ sl"
    by (metis body_def sl_def rev_append rev_rev_ident takeWhile_dropWhile_id)
  have b1: "body = q @ sg"
    by (metis q_def sg_def rev_append rev_rev_ident takeWhile_dropWhile_id)
  have slq: "set sl \<subseteq> {slash}" by (auto simp: sl_def dest: set_takeWhileD)
  have sgq: "slash \<notin> set sg" by (auto simp: sg_def dest: set_takeWhileD)
  have en: "en = front c + length body"
    using assms(2) len by (simp add: en_def skip_slashes_back_dropWhile body_def r_def remaining_def)
  have enb: "front c \<le> en" "en \<le> back' c"
    using en lr r1 assms(2) by auto
  have sb: "slice (buf c) (front c) en = body"
    using slice_prefix [OF enb, of "buf c"] en r1 by (simp add: r_def remaining_def)
  have st: "st = front c + length q"
    using enb len by (simp add: st_def seg_start_dropWhile sb q_def)
  have sls: "slice (buf c) st en = sg"
    using slice_suffix [of "front c" st "buf c" en] st sb b1 by simp
  have lastq: "q = [] \<or> (sg \<noteq> [] \<and> last q = slash)"
  proof (cases "q = []")
    case False
    have "last q = slash"
      using False hd_dropWhile [of "\<lambda>x. x \<noteq> slash" "rev body"] by (simp add: q_def last_rev)
    moreover have "dropWhile (\<lambda>x. x = slash) (rev r) \<noteq> []"
      using False b1 body_def by force
    then have "last body \<noteq> slash"
      using hd_dropWhile [of "\<lambda>x. x = slash" "rev r"] by (simp add: body_def last_rev)
    ultimately show ?thesis using b1 by auto
  qed simp
  have pr: "front c \<le> st \<and> st < back' c" using next_back_progress [OF assms(2) en_def st_def] .
  have rem: "remaining c1 = q"
    using slice_prefix [of "front c" st "back' c" "buf c"] pr st r1 b1
    by (simp add: remaining_def c1_def r_def)
  have "components_next_back c =
     (if sg = [] then (if front c + length q = 0 then (Some RootDir, c1) else components_next_back c1)
      else if sg = [dot] then (if front c + length q = 0 then (Some CurDir, c1) else components_next_back c1)
      else if sg = [dot, dot] then (Some ParentDir, c1) else (Some (Normal sg), c1))"
    using assms(2) by (subst components_next_back.simps)
      (unfold Let_def, fold en_def, fold st_def, fold c1_def, unfold sls, unfold st [symmetric], simp)
  moreover have "components_wf c1" using pr len by (simp add: components_wf_def c1_def)
  ultimately show ?thesis
    using that [of q sg sl c1] r1 b1 slq sgq lastq rem pr st by (simp add: r_def c1_def)
qed

lemma components_next_back_list:
  "components_wf c \<Longrightarrow> components_next_back c = (r, c') \<Longrightarrow>
     components_wf c' \<and> front c' = front c \<and> buf c' = buf c \<and>
     components_list c = (case r of None \<Rightarrow> [] | Some x \<Rightarrow> components_list c' @ [x])"
proof (induction "back' c - front c" arbitrary: c rule: less_induct)
  case less
  show ?case
  proof (cases "front c < back' c")
    case False
    then show ?thesis
      using less.prems components_list_parse_from [of c]
      by (auto simp: components_next_back.simps [of c] remaining_def parse_from_def)
  next
    case True
    obtain q sg sl c1 where r: "remaining c = q @ sg @ sl" "slash \<notin> set sg" "set sl \<subseteq> {slash}"
      and q: "q = [] \<or> (sg \<noteq> [] \<and> last q = slash)"
      and c1: "c1 = c\<lparr>back' := front c + length q\<rparr>" "components_wf c1" "remaining c1 = q"
        "back' c1 < back' c"
      and nb: "components_next_back c =
       (if sg = [] then (if front c + length q = 0 then (Some RootDir, c1) else components_next_back c1)
        else if sg = [dot] then (if front c + length q = 0 then (Some CurDir, c1) else components_next_back c1)
        else if sg = [dot, dot] then (Some ParentDir, c1) else (Some (Normal sg), c1))"
      by (rule components_next_back_step [OF less.prems(1) True])
    have fr: "front c1 = front c" "buf c1 = buf c" using c1 by simp_all
    have ne: "remaining c \<noteq> []"
      using True less.prems by (simp add: remaining_def components_wf_def slice_Cons)
    define at where "at = (front c + length q = 0)"
    have "parse_from (front c = 0) (remaining c) = parse_from (front c = 0) q @ seg_comps at sg"
    proof (cases "q = []")
      case True
      then show ?thesis
        using parse_from_seg [OF r(2,3), of "front c = 0"] ne r(1) by (simp add: at_def parse_from_def)
    next
      case False
      then obtain q' where "q = q' @ [slash]" using q by (metis append_butlast_last_id)
      then show ?thesis
        using parse_from_snoc_seg [OF r(2,3), of "front c = 0" q'] r(1) by (simp add: at_def)
    qed
    then have ls: "components_list c = components_list c1 @ seg_comps at sg"
      using components_list_parse_from [OF less.prems(1)] components_list_parse_from [OF c1(2)] fr c1(3)
      by simp
    show ?thesis
    proof (cases "(sg = [] \<or> sg = [dot]) \<and> \<not> at")
      case True
      then have "components_next_back c = components_next_back c1" and "seg_comps at sg = []"
        using nb by (auto simp: at_def seg_comps_def)
      moreover have "back' c1 - front c1 < back' c - front c" using c1 fr \<open>front c < back' c\<close> by simp
      ultimately show ?thesis using less.hyps [of c1] less.prems c1(2) ls fr by simp
    next
      case False
      then show ?thesis
        using nb less.prems ls fr c1(2) by (auto simp: at_def seg_comps_def split: if_splits)
    qed
  qed
qed


lemma trim_slashes_spec:
  "trim_slashes b e \<le> e \<and> (\<forall>i. trim_slashes b e < i \<and> i \<le> e \<longrightarrow> b ! i = slash)"
proof (induction b e rule: trim_slashes.induct)
  case (1 b e)
  show ?case
  proof (cases "e \<noteq> 0 \<and> b ! e = slash")
    case True
    then have eq: "trim_slashes b e = trim_slashes b (e - 1)" by (subst trim_slashes.simps) simp
    with True "1.IH" have "trim_slashes b (e - 1) \<le> e - 1"
      and IH: "\<forall>i. trim_slashes b (e - 1) < i \<and> i \<le> e - 1 \<longrightarrow> b ! i = slash" by auto
    moreover have "i \<le> e \<Longrightarrow> i \<le> e - 1 \<or> i = e" for i by linarith
    ultimately show ?thesis using True eq by (metis diff_le_self le_trans)
  next
    case False
    then have "trim_slashes b e = e" by (subst trim_slashes.simps) auto
    then show ?thesis by auto
  qed
qed

lemma components_as_path_parse:
  assumes "components_wf c" "front c = 0"
  obtains q where "components_as_path c = Ok q" "parse_path q = components_list c"
proof (cases "back' c = 0")
  case True
  then show ?thesis
    using that [of "[]"] components_list_parse_from [OF assms(1)] assms
    by (simp add: components_as_path_def parse_path_def parse_from_def remaining_def)
next
  case False
  define e where "e = trim_slashes (buf c) (back' c - 1)"
  have len: "back' c \<le> length (buf c)" using assms by (simp add: components_wf_def)
  have e: "e < back' c" using trim_slashes_spec [of "buf c" "back' c - 1"] False by (auto simp: e_def)
  define q where "q = slice (buf c) 0 (e + 1)"
  have ap: "components_as_path c = Ok q"
    using False assms(2) e len by (simp add: components_as_path_def e_def q_def Let_def)
  have "remaining c = q @ drop (e + 1) (remaining c)"
    using slice_prefix [of 0 "e + 1" "back' c" "buf c"] e assms(2) by (simp add: q_def remaining_def)
  moreover have "set (drop (e + 1) (remaining c)) \<subseteq> {slash}"
  proof
    fix x assume "x \<in> set (drop (e + 1) (remaining c))"
    then obtain i where "i < length (drop (e + 1) (remaining c))" "x = drop (e + 1) (remaining c) ! i"
      by (auto simp: in_set_conv_nth)
    then have "e + 1 + i < back' c" "x = buf c ! (e + 1 + i)"
      using assms(2) len by (auto simp: remaining_def slice_def)
    then show "x \<in> {slash}" using trim_slashes_spec [of "buf c" "back' c - 1"] by (auto simp: e_def)
  qed
  moreover have "q \<noteq> []" using e len by (auto simp: q_def slice_def)
  ultimately have "parse_from True (remaining c) = parse_from True q"
    by (metis parse_from_trailing)
  then show ?thesis
    using that [OF ap] components_list_parse_from [OF assms(1)] assms(2) by (simp add: parse_path_def)
qed

lemma components_wf_new [simp]: "components_wf (components_new p)"
  by (simp add: components_wf_def components_new_def)

lemma components_list_new: "components_list (components_new p) = parse_path p"
  using components_list_parse_from [of "components_new p"]
  by (simp add: parse_path_def components_new_def components_wf_def remaining_def slice_def)

lemma components_next_back_new:
  obtains r c where "components_next_back (components_new p) = (r, c)" "components_wf c" "front c = 0"
    and "parse_path p = (case r of None \<Rightarrow> [] | Some x \<Rightarrow> components_list c @ [x])"
  using components_next_back_list [OF components_wf_new, of p] components_list_new [of p]
  by (cases "components_next_back (components_new p)") (auto simp: components_new_def)

section \<open>Properties\<close>

text \<open>C36: iterating over \<open>Path::components\<close> yields exactly what the documented grammar
  prescribes: the path split at every slash, with empty segments and non-leading dots dropped and
  the leading segment deciding between root, current directory and a plain name.\<close>

theorem path_components_reference: "components_list (components_new p) = parse_path p"
  by (rule components_list_new)

text \<open>C37: the double-ended iterator is consistent from both ends. From any well-formed cursor state
  \<open>next_back\<close> removes exactly the last of the components that forward iteration would still
  produce, reports the end only when none are left, and keeps the cursors well-formed.\<close>

theorem path_next_back_mirror:
  assumes "components_wf c" "components_next_back c = (r, c')"
  shows "components_wf c' \<and>
    components_list c = (case r of None \<Rightarrow> [] | Some x \<Rightarrow> components_list c' @ [x])"
  using components_next_back_list [OF assms] by simp

theorem path_next_back_mirror_witness:
  "components_wf \<lparr>buf = [46, 47, 97], front = 2, back' = 3\<rparr> \<and>
   components_next_back \<lparr>buf = [46, 47, 97], front = 2, back' = 3\<rparr>
     = (Some (Normal [97]), \<lparr>buf = [46, 47, 97], front = 2, back' = 2\<rparr>) \<and>
   components_list \<lparr>buf = [46, 47, 97], front = 2, back' = 3\<rparr>
     = components_list \<lparr>buf = [46, 47, 97], front = 2, back' = 2\<rparr> @ [Normal [97]]"
proof -
  have wf: "components_wf \<lparr>buf = [46, 47, 97], front = 2, back' = 3\<rparr>"
    by (simp add: components_wf_def)
  have nb: "components_next_back \<lparr>buf = [46, 47, 97], front = 2, back' = 3\<rparr>
     = (Some (Normal [97]), \<lparr>buf = [46, 47, 97], front = 2, back' = 2\<rparr>)"
    by (simp add: components_next_back.simps skip_slashes_back.simps seg_start.simps slice_def Let_def)
  show ?thesis using path_next_back_mirror [OF wf nb] wf nb by simp
qed


end
