(* ===== verification/Rw_Vfs.thy ===== *)
theory Rw_Vfs
  imports Rw_Prelude
begin

text \<open>
  The interface crate of the file systems (src/fs/redwing_vfs): error kinds, their
  translation to system-call errors, file types, and the validation of file names. An error's
  message is not modelled: no code branches on it.
\<close>

section \<open>Errors\<close>

datatype fs_error_kind = OutOfMemory | IOError | AlreadyExists | FileTooLarge | FileNameTooLong
  | NoSuchFileOrDirectory | NoSuchDev | IsADirectory | NotADirectory | NotEmpty | PermissionDenied
  | NoSpaceLeft | ExDev | FileSystemCorruption | InvalidArgument | Unsupported | InvalidData
  | InvalidUt8Str

datatype sys_error_kind = SysNotPermitted | SysOutOfMemory | SysNoSys | SysNoSuchProcess
  | SysInterrupted | SysIOError | SysAlreadyExists | SysBadFileDescriptor | SysFileTooLarge
  | SysFileNameTooLong | SysNoSuchFileOrDirectory | SysIsADirectory | SysNotADirectory | SysNotEmpty
  | SysPermissionDenied | SysTooManyOpenFiles | SysNoSpaceLeft | SysNoSuchDev | SysNoExec | SysPipe
  | SysExDev | SysBadFs | SysNoTty | SysInvalidArgument | SysUnsupported | SysInvalidData
  | SysExecFormat | SysFault | SysInvalidUt8Str | SysTooManyTasks

text \<open>\<open>From<FsError> for SysError\<close>.\<close>

fun fs_to_sys :: "fs_error_kind \<Rightarrow> sys_error_kind" where
  "fs_to_sys OutOfMemory = SysOutOfMemory"
| "fs_to_sys IOError = SysIOError"
| "fs_to_sys AlreadyExists = SysAlreadyExists"
| "fs_to_sys FileTooLarge = SysFileTooLarge"
| "fs_to_sys FileNameTooLong = SysFileNameTooLong"
| "fs_to_sys NoSuchFileOrDirectory = SysNoSuchFileOrDirectory"
| "fs_to_sys NoSuchDev = SysNoSuchDev"
| "fs_to_sys IsADirectory = SysIsADirectory"
| "fs_to_sys NotADirectory = SysNotADirectory"
| "fs_to_sys NotEmpty = SysNotEmpty"
| "fs_to_sys PermissionDenied = SysPermissionDenied"
| "fs_to_sys NoSpaceLeft = SysNoSpaceLeft"
| "fs_to_sys ExDev = SysExDev"
| "fs_to_sys FileSystemCorruption = SysBadFs"
| "fs_to_sys InvalidArgument = SysInvalidArgument"
| "fs_to_sys Unsupported = SysUnsupported"
| "fs_to_sys InvalidData = SysInvalidData"
| "fs_to_sys InvalidUt8Str = SysInvalidUt8Str"

lemma fs_to_sys_inject: "fs_to_sys a = fs_to_sys b \<Longrightarrow> a = b"
  by (cases a; cases b) simp_all

type_synonym 'a fs_result = "(fs_error_kind, 'a) outcome"
type_synonym 'a sys_result = "(sys_error_kind, 'a) outcome"

section \<open>File types and metadata\<close>

text \<open>\<open>rw_ulib_types::fcntl::FileType\<close> and \<open>Stat\<close>.\<close>

datatype vfs_file_type = RegularFile | VDirectory | VSymlink | VDevice

record stat =
  st_ino :: nat
  st_dev_no :: nat
  st_typ :: vfs_file_type
  st_size :: nat
  st_nlink :: nat

text \<open>\<open>check_type_is_file\<close> and \<open>is_file\<close> of \<open>dyn VfsINodeOps\<close>, on the result of \<open>file_type()\<close>.\<close>

fun check_type_is_file :: "vfs_file_type \<Rightarrow> unit fs_result" where
  "check_type_is_file VDirectory = Err IsADirectory"
| "check_type_is_file VSymlink = Err Unsupported"
| "check_type_is_file RegularFile = Ok ()"
| "check_type_is_file VDevice = Ok ()"

fun is_file_type :: "vfs_file_type \<Rightarrow> bool fs_result" where
  "is_file_type VDirectory = Ok False"
| "is_file_type VSymlink = Err Unsupported"
| "is_file_type RegularFile = Ok True"
| "is_file_type VDevice = Ok True"

section \<open>Strings\<close>

text \<open>
  \<open>str::from_utf8\<close>: the code points of a byte string, or nothing when the bytes are not UTF-8
  (overlong forms, surrogates and values past U+10FFFF are refused).
\<close>

definition cont_byte :: "u8 \<Rightarrow> bool" where
  "cont_byte b = (128 \<le> unat b \<and> unat b < 192)"

fun utf8_chars :: "bytes \<Rightarrow> nat list option" where
  "utf8_chars [] = Some []"
| "utf8_chars (a # xs) =
     (if unat a < 128 then map_option (Cons (unat a)) (utf8_chars xs)
      else if 194 \<le> unat a \<and> unat a < 224 then
        (case xs of
           b # ys \<Rightarrow>
             (if cont_byte b
              then map_option (Cons ((unat a - 192) * 64 + (unat b - 128))) (utf8_chars ys)
              else None)
         | _ \<Rightarrow> None)
      else if 224 \<le> unat a \<and> unat a < 240 then
        (case xs of
           b # c # ys \<Rightarrow>
             (if cont_byte b \<and> cont_byte c \<and> (unat a = 224 \<longrightarrow> 160 \<le> unat b) \<and> (unat a = 237 \<longrightarrow> unat b < 160)
              then map_option (Cons ((unat a - 224) * 4096 + (unat b - 128) * 64 + (unat c - 128)))
                     (utf8_chars ys)
              else None)
         | _ \<Rightarrow> None)
      else if 240 \<le> unat a \<and> unat a < 245 then
        (case xs of
           b # c # d # ys \<Rightarrow>
             (if cont_byte b \<and> cont_byte c \<and> cont_byte d \<and> (unat a = 240 \<longrightarrow> 144 \<le> unat b)
                 \<and> (unat a = 244 \<longrightarrow> unat b < 144)
              then map_option (Cons ((unat a - 240) * 262144 + (unat b - 128) * 4096
                     + (unat c - 128) * 64 + (unat d - 128))) (utf8_chars ys)
              else None)
         | _ \<Rightarrow> None)
      else None)"

lemma utf8_ascii_byte_is_char:
  "utf8_chars s = Some cs \<Longrightarrow> b \<in> set s \<Longrightarrow> unat b < 128 \<Longrightarrow> unat b \<in> set cs"
proof (induction s arbitrary: cs rule: utf8_chars.induct)
  case 1
  then show ?case by simp
next
  case (2 a xs)
  then show ?case
    by (auto simp: cont_byte_def split: if_splits list.splits)
qed

section \<open>File names\<close>

definition FILE_NAME_LEN :: nat where
  "FILE_NAME_LEN = 256"

text \<open>\<open>char::is_ascii_control\<close>: U+0000 to U+001F and U+007F.\<close>

definition is_ascii_control :: "nat \<Rightarrow> bool" where
  "is_ascii_control ch = (ch < 32 \<or> ch = 127)"

text \<open>A \<open>&str\<close> is a byte string that \<open>utf8_chars\<close> accepts; \<open>name.chars()\<close> are its code points.\<close>

definition check_contains_invalid_char :: "nat list \<Rightarrow> unit fs_result" where
  "check_contains_invalid_char chars =
     (if list_ex (\<lambda>ch. ch = 47 \<or> ch = 0 \<or> is_ascii_control ch) chars
      then Err InvalidArgument else Ok ())"

text \<open>\<open>ValidFileName::try_from(&[u8])\<close>: UTF-8 validation, then \<open>ValidFileName::try_from(&str)\<close>.\<close>

definition valid_file_name :: "bytes \<Rightarrow> bytes fs_result" where
  "valid_file_name name =
     (case utf8_chars name of
        None \<Rightarrow> Err InvalidUt8Str
      | Some chars \<Rightarrow>
          (if length name > FILE_NAME_LEN then Err FileNameTooLong
           else if name = [46] \<or> name = [46, 46] then Err InvalidArgument
           else (case check_contains_invalid_char chars of
                   Ok _ \<Rightarrow> Ok name | Err e \<Rightarrow> Err e | Panic \<Rightarrow> Panic)))"

definition valid_lookup_name :: "bytes \<Rightarrow> bytes fs_result" where
  "valid_lookup_name name =
     (case utf8_chars name of
        None \<Rightarrow> Err InvalidUt8Str
      | Some chars \<Rightarrow>
          (if length name > FILE_NAME_LEN then Err FileNameTooLong
           else (case check_contains_invalid_char chars of
                   Ok _ \<Rightarrow> Ok name | Err e \<Rightarrow> Err e | Panic \<Rightarrow> Panic)))"

section \<open>Properties\<close>

text \<open>C39: a byte string accepted as a file name is a single, harmless path component: it is the
  string itself, valid UTF-8 of at most 256 bytes, neither dot nor dot-dot, and none of its bytes
  is a slash, a NUL or an ASCII control byte, so no multi-byte encoding can smuggle one in.\<close>

theorem valid_file_name_safe:
  assumes "valid_file_name s = Ok name"
  shows "name = s \<and> utf8_chars s \<noteq> None \<and> length s \<le> 256 \<and> s \<noteq> [46] \<and> s \<noteq> [46, 46] \<and>
    (\<forall>b \<in> set s. b \<noteq> 47 \<and> b \<noteq> 0 \<and> \<not> is_ascii_control (unat b))"
proof -
  from assms obtain cs where cs: "utf8_chars s = Some cs"
    by (cases "utf8_chars s") (simp_all add: valid_file_name_def)
  note unf = assms [unfolded valid_file_name_def cs option.case FILE_NAME_LEN_def]
  have rest: "length s \<le> 256" "s \<noteq> [46]" "s \<noteq> [46, 46]"
    using unf by (simp_all split: if_splits)
  have inv: "check_contains_invalid_char cs = Ok ()" and nm: "name = s"
    using unf by (simp_all split: if_splits outcome.splits)
  from inv have ok: "ch \<noteq> 47 \<and> ch \<noteq> 0 \<and> \<not> is_ascii_control ch" if "ch \<in> set cs" for ch
    using that by (auto simp: check_contains_invalid_char_def list_ex_iff split: if_splits)
  have "b \<noteq> 47 \<and> b \<noteq> 0 \<and> \<not> is_ascii_control (unat b)" if "b \<in> set s" for b
  proof (cases "unat b < 128")
    case True
    from ok [OF utf8_ascii_byte_is_char [OF cs that True]] show ?thesis by auto
  next
    case False
    then show ?thesis by (auto simp: is_ascii_control_def)
  qed
  then show ?thesis using cs rest nm by blast
qed

theorem valid_file_name_safe_witness:
  "valid_file_name [97, 195, 169] = Ok [97, 195, 169] \<and>
   \<not> is_ascii_control (unat (195 :: u8)) \<and> \<not> is_ascii_control (unat (169 :: u8))"
proof -
  have v: "valid_file_name [97, 195, 169] = Ok [97, 195, 169]"
    by (simp add: valid_file_name_def cont_byte_def check_contains_invalid_char_def
        is_ascii_control_def FILE_NAME_LEN_def)
  show ?thesis using v valid_file_name_safe [OF v] by simp
qed

end
