(* ===== verification/Rw_Disk.thy ===== *)
theory Rw_Disk
  imports Rw_Vfs
begin

text \<open>
  Blocks, little-endian fields inside them, block devices and the block cache of the EFS crate
  (src/fs/redwing_efs/src: consts.rs, dev.rs, buffer.rs, cache.rs). The cache is modelled with its
  buffers, dirty flags and recency order; the last part shows that reading and writing through it
  is the same as reading and writing one flat disk, which is what the file-system theories use.
\<close>

section \<open>Constants\<close>

definition BLOCK_SIZE :: nat where "BLOCK_SIZE = 4096"
definition INVALID_DATA_BLOCK_NO :: nat where "INVALID_DATA_BLOCK_NO = 0"
definition INVALID_INODE_NO :: nat where "INVALID_INODE_NO = 0"
definition ROOT_INODE_NO :: nat where "ROOT_INODE_NO = 1"
definition REVERSED_INODE_NUM_RANGE :: "nat list" where "REVERSED_INODE_NUM_RANGE = [0..<20]"
definition NUM_DIRECT_DATA_BLKS :: nat where "NUM_DIRECT_DATA_BLKS = 12"
definition BLK_NUMS_PER_BLOCK :: nat where "BLK_NUMS_PER_BLOCK = BLOCK_SIZE div 8"
definition MAX_FILE_SIZE :: nat where
  "MAX_FILE_SIZE = NUM_DIRECT_DATA_BLKS * BLOCK_SIZE + BLK_NUMS_PER_BLOCK * BLOCK_SIZE
     + BLK_NUMS_PER_BLOCK * BLK_NUMS_PER_BLOCK * BLOCK_SIZE"

text \<open>\<open>size_of::<RawINode>()\<close>: 4 + 8 + 4 + 4 + 12 * 8 + 8 + 8 bytes, packed.\<close>

definition RAW_INODE_SIZE :: nat where "RAW_INODE_SIZE = 132"
definition NINODES_PER_BLOCK :: nat where "NINODES_PER_BLOCK = BLOCK_SIZE div RAW_INODE_SIZE"

text \<open>The length of the name field of an on-disk directory entry (\<open>consts::inode::FILE_NAME_LEN\<close>).\<close>

definition DIRENT_NAME_LEN :: nat where "DIRENT_NAME_LEN = 64"

lemmas efs_consts = BLOCK_SIZE_def INVALID_DATA_BLOCK_NO_def INVALID_INODE_NO_def ROOT_INODE_NO_def
  NUM_DIRECT_DATA_BLKS_def BLK_NUMS_PER_BLOCK_def MAX_FILE_SIZE_def RAW_INODE_SIZE_def
  NINODES_PER_BLOCK_def DIRENT_NAME_LEN_def

section \<open>Blocks and little-endian fields\<close>

text \<open>A block is its bytes by offset; only the offsets below \<open>BLOCK_SIZE\<close> are ever accessed.\<close>

type_synonym block = "nat \<Rightarrow> u8"

definition zero_block :: block where
  "zero_block = (\<lambda>_. 0)"

definition rd_bytes :: "block \<Rightarrow> nat \<Rightarrow> nat \<Rightarrow> bytes" where
  "rd_bytes b off n = map b [off..<off + n]"

definition wr_bytes :: "block \<Rightarrow> nat \<Rightarrow> bytes \<Rightarrow> block" where
  "wr_bytes b off xs = (\<lambda>i. if off \<le> i \<and> i < off + length xs then xs ! (i - off) else b i)"

fun le_bytes :: "nat \<Rightarrow> nat \<Rightarrow> bytes" where
  "le_bytes 0 n = []"
| "le_bytes (Suc k) n = word_of_nat n # le_bytes k (n div 256)"

fun le_nat :: "bytes \<Rightarrow> nat" where
  "le_nat [] = 0"
| "le_nat (b # bs) = unat b + 256 * le_nat bs"

lemma length_rd_bytes [simp]: "length (rd_bytes b off n) = n"
  by (simp add: rd_bytes_def)

lemma nth_rd_bytes [simp]: "i < n \<Longrightarrow> rd_bytes b off n ! i = b (off + i)"
  by (simp add: rd_bytes_def)

lemma rd_wr_same [simp]: "rd_bytes (wr_bytes b off xs) off (length xs) = xs"
  by (rule nth_equalityI) (auto simp: wr_bytes_def)

lemma rd_wr_same': "length xs = n \<Longrightarrow> rd_bytes (wr_bytes b off xs) off n = xs"
  by auto

lemma rd_wr_disjoint:
  "o2 + n \<le> off \<or> off + length xs \<le> o2 \<Longrightarrow> rd_bytes (wr_bytes b off xs) o2 n = rd_bytes b o2 n"
  by (rule nth_equalityI) (auto simp: wr_bytes_def)

lemma rd_bytes_append: "rd_bytes b off (m + n) = rd_bytes b off m @ rd_bytes b (off + m) n"
  by (rule nth_equalityI) (auto simp: nth_append)

lemma wr_bytes_Nil [simp]: "wr_bytes b off [] = b"
  by (rule ext) (auto simp: wr_bytes_def)

lemma length_le_bytes [simp]: "length (le_bytes k n) = k"
  by (induction k arbitrary: n) auto

lemma le_nat_bound: "le_nat bs < 256 ^ length bs"
proof (induction bs)
  case (Cons b bs)
  have "unat b < 256" using unsigned_less [of b] by simp
  with Cons show ?case by simp
qed simp

lemma le_nat_le_bytes: "le_nat (le_bytes k n) = n mod 256 ^ k"
proof (induction k arbitrary: n)
  case (Suc k)
  have "unat (word_of_nat n :: u8) = n mod 256" by (simp add: unat_of_nat)
  then show ?case using Suc by (simp add: mod_mult2_eq)
qed simp

lemma le_nat_le_bytes_id [simp]: "n < 256 ^ k \<Longrightarrow> le_nat (le_bytes k n) = n"
  by (simp add: le_nat_le_bytes)

lemma le_bytes_le_nat: "length bs = k \<Longrightarrow> le_bytes k (le_nat bs) = bs"
proof (induction bs arbitrary: k)
  case (Cons b bs)
  then obtain j where j: "k = Suc j" "length bs = j" by auto
  have ub: "unat b < 256" using unsigned_less [of b] by simp
  have "unat (word_of_nat (unat b + 256 * le_nat bs) :: u8) = unat b"
    unfolding unat_of_nat using ub by simp
  then have "(word_of_nat (unat b + 256 * le_nat bs) :: u8) = b" by (simp only: word_unat_eq_iff)
  then show ?case using Cons.IH [OF j(2)] j ub by simp
qed simp

section \<open>Block devices\<close>

text \<open>
  \<open>trait BlockDevice\<close>: a device of state type \<open>'d\<close> is its \<open>read_block\<close> and \<open>write_block\<close>, passed as
  arguments to the cache as the trait object is. A read yields nothing and a write yields \<open>False\<close>
  where the method returns \<open>Err\<close>.
\<close>

type_synonym 'd dev_read = "'d \<Rightarrow> nat \<Rightarrow> block option \<times> 'd"
type_synonym 'd dev_write = "'d \<Rightarrow> nat \<Rightarrow> block \<Rightarrow> bool \<times> 'd"

text \<open>\<open>RamBlockDevice\<close>: a hash map from block numbers to contents; a missing block is created
  zero-filled by the first read.\<close>

type_synonym ram_dev = "nat \<rightharpoonup> block"

definition ram_read_block :: "ram_dev dev_read" where
  "ram_read_block d b =
     (case d b of
        Some blk \<Rightarrow> (Some blk, d)
      | None \<Rightarrow> (Some zero_block, d(b \<mapsto> zero_block)))"

definition ram_write_block :: "ram_dev dev_write" where
  "ram_write_block d b blk = (True, d(b \<mapsto> blk))"

text \<open>The contract a device promises the cache: reads do not change what is stored, and a
  successful write replaces exactly one block.\<close>

locale block_device =
  fixes rd :: "'d dev_read"
    and wr :: "'d dev_write"
    and content :: "'d \<Rightarrow> nat \<rightharpoonup> block"
  assumes rd_content: "rd d b = (r, d') \<Longrightarrow> r = content d b \<and> content d' = content d"
    and wr_content: "wr d b x = (ok, d') \<Longrightarrow>
      content d' = (if ok then (content d)(b \<mapsto> x) else content d)"

definition ram_content :: "ram_dev \<Rightarrow> nat \<rightharpoonup> block" where
  "ram_content d b = Some (case d b of Some blk \<Rightarrow> blk | None \<Rightarrow> zero_block)"

interpretation ram: block_device ram_read_block ram_write_block ram_content
proof unfold_locales
  show "r = ram_content d b \<and> ram_content d' = ram_content d" if "ram_read_block d b = (r, d')" for d b r d'
  proof (cases "d b")
    case None
    with that have "r = Some zero_block" "d' = d(b \<mapsto> zero_block)" by (auto simp: ram_read_block_def)
    with None show ?thesis by (auto simp: ram_content_def fun_eq_iff)
  next
    case (Some a)
    with that have "r = Some a" "d' = d" by (auto simp: ram_read_block_def)
    with Some show ?thesis by (simp add: ram_content_def)
  qed
  show "ram_content d' = (if ok then (ram_content d)(b \<mapsto> x) else ram_content d)"
    if "ram_write_block d b x = (ok, d')" for d b x ok d'
  proof -
    have "ok" "d' = d(b \<mapsto> x)" using that by (auto simp: ram_write_block_def)
    then show ?thesis by (auto simp: ram_content_def fun_eq_iff)
  qed
qed

section \<open>Buffers and the cache\<close>

text \<open>\<open>SharedBlockBuffer\<close>: the data of a cached block and whether it was written since it was read or
  synchronised.\<close>

record buffer =
  data :: block
  is_dirty :: bool

text \<open>\<open>BlockCacheManager\<close>. The \<open>LruCache\<close> is unbounded, most recently used entry first; the
  buffers it holds are the \<open>Arc<RwLock<_>>\<close> objects that every client of a block shares.\<close>

record 'd cache_mgr =
  dev :: 'd
  cache :: "(nat \<times> buffer) list"

definition cache_new :: "'d \<Rightarrow> 'd cache_mgr" where
  "cache_new d = \<lparr>dev = d, cache = []\<rparr>"

text \<open>\<open>SharedBlockBuffer::new\<close> reads the block from the device; the allocator may have no memory for
  the buffer (\<open>mem\<close> false).\<close>

definition buffer_new :: "'d dev_read \<Rightarrow> bool \<Rightarrow> nat \<Rightarrow> ('d cache_mgr, fs_error_kind, buffer) call" where
  "buffer_new rd mem b m =
     (if \<not> mem then (Err OutOfMemory, m)
      else case rd (dev m) b of
             (None, d') \<Rightarrow> (Err IOError, m\<lparr>dev := d'\<rparr>)
           | (Some blk, d') \<Rightarrow> (Ok \<lparr>data = blk, is_dirty = False\<rparr>, m\<lparr>dev := d'\<rparr>))"

definition cache_get_block ::
    "'d dev_read \<Rightarrow> bool \<Rightarrow> nat \<Rightarrow> ('d cache_mgr, fs_error_kind, buffer) call" where
  "cache_get_block rd mem b m =
     (case map_of (cache m) b of
        Some bf \<Rightarrow> (Ok bf, m\<lparr>cache := (b, bf) # filter (\<lambda>e. fst e \<noteq> b) (cache m)\<rparr>)
      | None \<Rightarrow>
          (case buffer_new rd mem b m of
             (Ok bf, m') \<Rightarrow> (Ok bf, m'\<lparr>cache := (b, bf) # cache m'\<rparr>)
           | (Err e, m') \<Rightarrow> (Err e, m')
           | (Panic, m') \<Rightarrow> (Panic, m')))"

text \<open>Mutable access to the buffer (\<open>as_ref_mut_at\<close>, \<open>as_slice_mut_at\<close> under the write lock): the
  access marks the buffer dirty. The bounds assertion \<open>offset + len <= BLOCK_SIZE\<close> is checked
  by \<open>buf_in_bounds\<close>.\<close>

definition buf_in_bounds :: "nat \<Rightarrow> nat \<Rightarrow> bool" where
  "buf_in_bounds off len = (off + len \<le> BLOCK_SIZE)"

definition buf_slice_at :: "buffer \<Rightarrow> nat \<Rightarrow> nat \<Rightarrow> (fs_error_kind, bytes) outcome" where
  "buf_slice_at bf off len = (if buf_in_bounds off len then Ok (rd_bytes (data bf) off len) else Panic)"

definition buf_slice_mut_at :: "buffer \<Rightarrow> nat \<Rightarrow> bytes \<Rightarrow> (fs_error_kind, buffer) outcome" where
  "buf_slice_mut_at bf off xs =
     (if buf_in_bounds off (length xs)
      then Ok (bf\<lparr>is_dirty := True, data := wr_bytes (data bf) off xs\<rparr>) else Panic)"

definition set_buffer :: "nat \<Rightarrow> buffer \<Rightarrow> 'd cache_mgr \<Rightarrow> 'd cache_mgr" where
  "set_buffer b bf m = m\<lparr>cache := map (\<lambda>(k, v). if k = b then (k, bf) else (k, v)) (cache m)\<rparr>"

definition cache_write_at ::
    "'d dev_read \<Rightarrow> bool \<Rightarrow> nat \<Rightarrow> nat \<Rightarrow> bytes \<Rightarrow> ('d cache_mgr, fs_error_kind, unit) call" where
  "cache_write_at rd mem b off xs =
     bind (cache_get_block rd mem b) (\<lambda>bf m.
       case buf_slice_mut_at bf off xs of
         Ok bf' \<Rightarrow> (Ok (), set_buffer b bf' m)
       | Err e \<Rightarrow> (Err e, m)
       | Panic \<Rightarrow> (Panic, m))"

definition cache_read_at ::
    "'d dev_read \<Rightarrow> bool \<Rightarrow> nat \<Rightarrow> nat \<Rightarrow> nat \<Rightarrow> ('d cache_mgr, fs_error_kind, bytes) call" where
  "cache_read_at rd mem b off len =
     bind (cache_get_block rd mem b) (\<lambda>bf m. (buf_slice_at bf off len, m))"

text \<open>\<open>SharedBlockBuffer::sync\<close> and \<open>BlockCacheManager::sync_all\<close>.\<close>

definition buffer_sync ::
    "'d dev_write \<Rightarrow> nat \<Rightarrow> ('d cache_mgr, fs_error_kind, unit) call" where
  "buffer_sync wr b m =
     (case map_of (cache m) b of
        None \<Rightarrow> (Ok (), m)
      | Some bf \<Rightarrow>
          (if is_dirty bf then
             (case wr (dev m) b (data bf) of
                (True, d') \<Rightarrow> (Ok (), set_buffer b (bf\<lparr>is_dirty := False\<rparr>) (m\<lparr>dev := d'\<rparr>))
              | (False, d') \<Rightarrow> (Err IOError, m\<lparr>dev := d'\<rparr>))
           else (Ok (), m)))"

fun sync_list :: "'d dev_write \<Rightarrow> nat list \<Rightarrow> ('d cache_mgr, fs_error_kind, unit) call" where
  "sync_list wr [] m = (Ok (), m)"
| "sync_list wr (b # bs) m = bind (buffer_sync wr b) (\<lambda>_. sync_list wr bs) m"

definition sync_all :: "'d dev_write \<Rightarrow> ('d cache_mgr, fs_error_kind, unit) call" where
  "sync_all wr m = sync_list wr (map fst (cache m)) m"


section \<open>The cache as one flat disk\<close>

text \<open>
  What the file system sees: the buffer of a cached block, the device content of any other. A
  block that is neither cached nor readable has no content.
\<close>

type_synonym disk = "nat \<rightharpoonup> block"

definition cache_view :: "('d \<Rightarrow> disk) \<Rightarrow> 'd cache_mgr \<Rightarrow> disk" where
  "cache_view content m b =
     (case map_of (cache m) b of Some bf \<Rightarrow> Some (data bf) | None \<Rightarrow> content (dev m) b)"

text \<open>Distinct entries, and a clean buffer holds what the device holds.\<close>

definition cache_inv :: "('d \<Rightarrow> disk) \<Rightarrow> 'd cache_mgr \<Rightarrow> bool" where
  "cache_inv content m \<longleftrightarrow> distinct (map fst (cache m)) \<and>
     (\<forall>b bf. map_of (cache m) b = Some bf \<and> \<not> is_dirty bf \<longrightarrow> content (dev m) b = Some (data bf))"

lemma map_of_filter_neq: "map_of (filter (\<lambda>e. fst e \<noteq> b) xs) = (map_of xs)(b := None)"
  by (induction xs) auto

lemma map_of_set_buffer:
  "map_of (map (\<lambda>(k, v). if k = b then (k, bf) else (k, v)) xs) =
     (if map_of xs b = None then map_of xs else (map_of xs)(b \<mapsto> bf))"
  by (induction xs) (auto simp: fun_eq_iff)

lemma map_fst_set_buffer:
  "map fst (map (\<lambda>(k, v). if k = b then (k, bf) else (k, v)) xs) = map fst xs"
  by (induction xs) auto

lemma set_buffer_simps [simp]:
  "dev (set_buffer b bf m) = dev m"
  "map fst (cache (set_buffer b bf m)) = map fst (cache m)"
  "map_of (cache (set_buffer b bf m)) =
     (if map_of (cache m) b = None then map_of (cache m) else (map_of (cache m))(b \<mapsto> bf))"
  unfolding set_buffer_def by (simp_all del: map_map add: map_fst_set_buffer map_of_set_buffer)

declare map_of_eq_Some_iff [simp del]

lemma cache_view_set_buffer:
  "map_of (cache m) b = Some bf0 \<Longrightarrow>
   cache_view content (set_buffer b bf m) = (cache_view content m)(b \<mapsto> data bf)"
  by (rule ext) (simp add: cache_view_def split: option.split)

lemma cache_view_cached: "map_of (cache m) b = Some bf \<Longrightarrow> cache_view content m b = Some (data bf)"
  by (simp add: cache_view_def)

lemma cache_inv_set_buffer:
  "cache_inv content m \<Longrightarrow> is_dirty bf \<or> content (dev m) b = Some (data bf) \<Longrightarrow>
   cache_inv content (set_buffer b bf m)"
  by (auto simp: cache_inv_def)

lemma cache_view_eqI:
  "map_of (cache m') = map_of (cache m) \<Longrightarrow> content (dev m') = content (dev m) \<Longrightarrow>
   cache_view content m' = cache_view content m"
  by (rule ext) (simp add: cache_view_def split: option.split)

lemma cache_view_dev:
  "content d' = content (dev m) \<Longrightarrow> cache_view content (m\<lparr>dev := d'\<rparr>) = cache_view content m"
  by (rule ext) (simp add: cache_view_def split: option.split)

context block_device
begin

lemma get_block_view:
  assumes "cache_inv content m" "cache_get_block rd mem b m = (r, m')"
  shows "cache_view content m' = cache_view content m \<and> cache_inv content m' \<and>
    (case r of
       Ok bf \<Rightarrow> cache_view content m b = Some (data bf) \<and> map_of (cache m') b = Some bf
     | Err e \<Rightarrow> map_of (cache m) b = None \<and>
         (e = OutOfMemory \<and> \<not> mem \<or> e = IOError \<and> mem \<and> cache_view content m b = None)
     | Panic \<Rightarrow> False)"
proof (cases "map_of (cache m) b")
  case (Some bf)
  then have m': "r = Ok bf" "m' = m\<lparr>cache := (b, bf) # filter (\<lambda>e. fst e \<noteq> b) (cache m)\<rparr>"
    using assms(2) by (simp_all add: cache_get_block_def)
  then have "map_of (cache m') = map_of (cache m)"
    using Some by (simp add: map_of_filter_neq fun_upd_idem)
  moreover have "distinct (map fst (cache m'))"
    using assms(1) m' by (auto simp: cache_inv_def distinct_map_filter)
  moreover have "dev m' = dev m" using m' by simp
  ultimately show ?thesis
    using assms(1) m'(1) Some cache_view_eqI [of m' m content]
    by (simp add: cache_inv_def cache_view_cached)
next
  case None
  obtain x d' where rd: "rd (dev m) b = (x, d')" by (cases "rd (dev m) b")
  note c = rd_content [OF rd]
  show ?thesis
  proof (cases "mem \<and> x \<noteq> None")
    case True
    then obtain blk where x: "x = Some blk" by auto
    with True None rd assms(2) have m': "r = Ok \<lparr>data = blk, is_dirty = False\<rparr>"
      "m' = m\<lparr>dev := d', cache := (b, \<lparr>data = blk, is_dirty = False\<rparr>) # cache m\<rparr>"
      by (auto simp: cache_get_block_def buffer_new_def)
    moreover have "b \<notin> fst ` set (cache m)" using None by (simp add: map_of_eq_None_iff)
    ultimately show ?thesis
      using assms(1) c x None by (auto simp: cache_inv_def cache_view_def fun_eq_iff split: option.split)
  next
    case False
    with None rd assms(2) c assms(1) show ?thesis
      by (auto simp: cache_get_block_def buffer_new_def cache_inv_def cache_view_def fun_eq_iff
          split: if_splits option.split)
  qed
qed

lemma write_at_view:
  assumes "cache_inv content m" "cache_write_at rd mem b off xs m = (Ok u, m')"
  shows "\<exists>blk. cache_view content m b = Some blk \<and> off + length xs \<le> BLOCK_SIZE \<and>
    cache_view content m' = (cache_view content m)(b \<mapsto> wr_bytes blk off xs) \<and> cache_inv content m'"
proof -
  from assms(2) obtain bf m1 where g: "cache_get_block rd mem b m = (Ok bf, m1)"
    and w: "off + length xs \<le> BLOCK_SIZE"
      "m' = set_buffer b (bf\<lparr>is_dirty := True, data := wr_bytes (data bf) off xs\<rparr>) m1"
    by (auto simp: cache_write_at_def bind_eq_Ok buf_slice_mut_at_def buf_in_bounds_def split: if_splits)
  note v = get_block_view [OF assms(1) g, simplified]
  show ?thesis
    using v w by (simp add: cache_view_set_buffer cache_inv_set_buffer)
qed

lemma buffer_sync_view:
  assumes inv: "cache_inv content m" and s: "buffer_sync wr b m = (r, m')"
  shows "cache_view content m' = cache_view content m" "cache_inv content m'"
    "map fst (cache m') = map fst (cache m)" "r \<noteq> Panic"
    "\<And>bf. r = Ok () \<Longrightarrow> map_of (cache m') b = Some bf \<Longrightarrow> \<not> is_dirty bf"
    "\<And>k bf. map_of (cache m) k = Some bf \<Longrightarrow> \<not> is_dirty bf \<Longrightarrow> map_of (cache m') k = Some bf"
proof -
  consider (skip) "r = Ok ()" "m' = m" "\<And>bf. map_of (cache m) b = Some bf \<Longrightarrow> \<not> is_dirty bf"
    | (written) bf d' where "map_of (cache m) b = Some bf" "is_dirty bf" "r = Ok ()"
        "content d' = (content (dev m))(b \<mapsto> data bf)"
        "m' = set_buffer b (bf\<lparr>is_dirty := False\<rparr>) (m\<lparr>dev := d'\<rparr>)"
    | (failed) d' where "r = Err IOError" "content d' = content (dev m)" "m' = m\<lparr>dev := d'\<rparr>"
  proof (cases "map_of (cache m) b")
    case None
    with s that(1) show ?thesis by (simp add: buffer_sync_def)
  next
    case (Some bf)
    obtain ok d' where w: "wr (dev m) b (data bf) = (ok, d')" by (cases "wr (dev m) b (data bf)")
    note c = wr_content [OF w]
    consider "\<not> is_dirty bf" | "is_dirty bf" ok | "is_dirty bf" "\<not> ok" by blast
    then show ?thesis
    proof cases
      case 1
      with s Some that(1) show ?thesis by (simp add: buffer_sync_def)
    next
      case 2
      with s Some w c that(2) [OF Some] show ?thesis by (simp add: buffer_sync_def)
    next
      case 3
      with s Some w c that(3) show ?thesis by (simp add: buffer_sync_def)
    qed
  qed
  then have "cache_view content m' = cache_view content m \<and> cache_inv content m' \<and>
    map fst (cache m') = map fst (cache m) \<and> r \<noteq> Panic \<and>
    (\<forall>bf. r = Ok () \<longrightarrow> map_of (cache m') b = Some bf \<longrightarrow> \<not> is_dirty bf) \<and>
    (\<forall>k bf. map_of (cache m) k = Some bf \<longrightarrow> \<not> is_dirty bf \<longrightarrow> map_of (cache m') k = Some bf)"
  proof cases
    case skip
    with inv show ?thesis by simp
  next
    case written
    then have "cache_view content m' = cache_view content m"
      by (auto simp: cache_view_def fun_eq_iff split: option.split)
    moreover have "cache_inv content m'"
      using written inv by (auto simp: cache_inv_def)
    ultimately show ?thesis using written by auto
  next
    case failed
    with inv show ?thesis by (simp add: cache_view_dev cache_inv_def)
  qed
  then show "cache_view content m' = cache_view content m" "cache_inv content m'"
    "map fst (cache m') = map fst (cache m)" "r \<noteq> Panic"
    "\<And>bf. r = Ok () \<Longrightarrow> map_of (cache m') b = Some bf \<Longrightarrow> \<not> is_dirty bf"
    "\<And>k bf. map_of (cache m) k = Some bf \<Longrightarrow> \<not> is_dirty bf \<Longrightarrow> map_of (cache m') k = Some bf"
    by blast+
qed

lemma sync_list_keep:
  "cache_inv content m \<Longrightarrow> sync_list wr bs m = (r, m') \<Longrightarrow>
   cache_view content m' = cache_view content m \<and> cache_inv content m' \<and>
   map fst (cache m') = map fst (cache m) \<and> r \<noteq> Panic"
proof (induction bs arbitrary: m)
  case (Cons b bs)
  obtain r1 m1 where s: "buffer_sync wr b m = (r1, m1)" by (cases "buffer_sync wr b m")
  note v = buffer_sync_view [OF Cons.prems(1) s]
  show ?case
    using Cons.IH [OF v(2)] Cons.prems(2) s v(1-4) by (cases r1) (auto simp: bind_def)
qed auto

lemma sync_list_clean:
  "cache_inv content m \<Longrightarrow> sync_list wr bs m = (r, m') \<Longrightarrow>
   map_of (cache m) k = Some bf \<Longrightarrow> \<not> is_dirty bf \<Longrightarrow> map_of (cache m') k = Some bf"
proof (induction bs arbitrary: m)
  case (Cons b bs)
  obtain r1 m1 where s: "buffer_sync wr b m = (r1, m1)" by (cases "buffer_sync wr b m")
  note v = buffer_sync_view [OF Cons.prems(1) s]
  show ?case
    using Cons.IH [OF v(2) _ v(6) [OF Cons.prems(3,4)] Cons.prems(4)] Cons.prems(2) s
      v(6) [OF Cons.prems(3,4)]
    by (cases r1) (auto simp: bind_def)
qed auto

lemma cached_same_keys:
  "map fst xs = map fst ys \<Longrightarrow> map_of xs b = Some v \<Longrightarrow> \<exists>w. map_of ys b = Some w"
  by (metis domD domI dom_map_of_conv_image_fst set_map)

lemma sync_list_synced:
  "cache_inv content m \<Longrightarrow> sync_list wr bs m = (Ok (), m') \<Longrightarrow> b \<in> set bs \<Longrightarrow>
   map_of (cache m') b = Some bf \<Longrightarrow> \<not> is_dirty bf"
proof (induction bs arbitrary: m)
  case (Cons c bs)
  obtain r1 m1 where s: "buffer_sync wr c m = (r1, m1)" by (cases "buffer_sync wr c m")
  note v = buffer_sync_view [OF Cons.prems(1) s]
  have r1: "r1 = Ok ()" and l: "sync_list wr bs m1 = (Ok (), m')"
    using Cons.prems(2) s by (cases r1; simp add: bind_def)+
  have "map fst (cache m') = map fst (cache m1)" using sync_list_keep [OF v(2) l] by blast
  then obtain bf1 where bf1: "map_of (cache m1) b = Some bf1"
    using cached_same_keys Cons.prems(4) by metis
  show ?case
  proof (cases "b = c")
    case True
    with bf1 v(5) r1 have "\<not> is_dirty bf1" by blast
    with sync_list_clean [OF v(2) l bf1] Cons.prems(4) show ?thesis by simp
  next
    case False
    with Cons.IH [OF v(2) l _ Cons.prems(4)] Cons.prems(3) show ?thesis by simp
  qed
qed simp

lemma sync_all_durable:
  assumes "cache_inv content m" "sync_all wr m = (Ok (), m')"
  shows "content (dev m') = cache_view content m" "cache_view content m' = cache_view content m"
proof -
  note l = assms(2) [unfolded sync_all_def]
  have k: "cache_view content m' = cache_view content m" "cache_inv content m'"
    "map fst (cache m') = map fst (cache m)"
    using sync_list_keep [OF assms(1) l] by blast+
  have "content (dev m') b = cache_view content m' b" for b
  proof (cases "map_of (cache m') b")
    case (Some bf)
    have "b \<in> set (map fst (cache m))"
      using k(3) Some by (metis domI dom_map_of_conv_image_fst set_map)
    with sync_list_synced [OF assms(1) l _ Some] k(2) Some show ?thesis
      by (simp add: cache_inv_def cache_view_cached)
  qed (simp add: cache_view_def)
  then show "content (dev m') = cache_view content m" using k(1) by (simp add: fun_eq_iff)
  show "cache_view content m' = cache_view content m" by (rule k(1))
qed

end

section \<open>Refinement of the flat disk\<close>

text \<open>
  The block accesses of the file system as operations, run against the cache and against the
  flat disk that is its specification. The flat disk has no cache, no dirty bits and no device.
\<close>

datatype block_op = ReadAt nat nat nat | WriteAt nat nat bytes | SyncAll

fun cache_step :: "'d dev_read \<Rightarrow> 'd dev_write \<Rightarrow> block_op \<Rightarrow> ('d cache_mgr, fs_error_kind, bytes) call" where
  "cache_step rd wr (ReadAt b off n) = cache_read_at rd True b off n"
| "cache_step rd wr (WriteAt b off xs) = bind (cache_write_at rd True b off xs) (\<lambda>_. ret [])"
| "cache_step rd wr SyncAll = bind (sync_all wr) (\<lambda>_. ret [])"

fun flat_step :: "block_op \<Rightarrow> (disk, fs_error_kind, bytes) call" where
  "flat_step (ReadAt b off n) d =
     (case d b of None \<Rightarrow> (Err IOError, d)
      | Some blk \<Rightarrow> if off + n \<le> BLOCK_SIZE then (Ok (rd_bytes blk off n), d) else (Panic, d))"
| "flat_step (WriteAt b off xs) d =
     (case d b of None \<Rightarrow> (Err IOError, d)
      | Some blk \<Rightarrow>
          if off + length xs \<le> BLOCK_SIZE then (Ok [], d(b \<mapsto> wr_bytes blk off xs)) else (Panic, d))"
| "flat_step SyncAll d = (Ok [], d)"

fun run_steps :: "('o \<Rightarrow> ('s, 'e, 'a) call) \<Rightarrow> 'o list \<Rightarrow> 's \<Rightarrow> ('e, 'a) outcome list \<times> 's" where
  "run_steps f [] s = ([], s)"
| "run_steps f (op # ops) s =
     (let (r, s1) = f op s; (rs, s2) = run_steps f ops s1 in (r # rs, s2))"

locale reliable_device = block_device +
  assumes wr_ok: "fst (wr d b x)"

context reliable_device
begin

lemma buffer_sync_ok: "fst (buffer_sync wr b m) = Ok ()"
  using wr_ok by (auto simp: buffer_sync_def split: option.split prod.split bool.split) (metis fst_conv)

lemma sync_list_ok: "fst (sync_list wr bs m) = Ok ()"
proof (induction bs arbitrary: m)
  case (Cons b bs)
  obtain m1 where "buffer_sync wr b m = (Ok (), m1)"
    using buffer_sync_ok [of b m] by (cases "buffer_sync wr b m") simp
  then show ?case using Cons by (simp add: bind_Ok)
qed simp

lemma step_refines:
  assumes inv: "cache_inv content m" and s: "cache_step rd wr op m = (r, m')"
  shows "flat_step op (cache_view content m) = (r, cache_view content m') \<and> cache_inv content m'"
proof (cases op)
  case (ReadAt b off n)
  obtain x m1 where g: "cache_get_block rd True b m = (x, m1)" by (cases "cache_get_block rd True b m")
  note v = get_block_view [OF inv g]
  show ?thesis
    using v s g ReadAt
    by (cases x) (auto simp: cache_read_at_def bind_def buf_slice_at_def buf_in_bounds_def)
next
  case (WriteAt b off xs)
  obtain x m1 where g: "cache_get_block rd True b m = (x, m1)" by (cases "cache_get_block rd True b m")
  note v = get_block_view [OF inv g]
  show ?thesis
    using v s g WriteAt
    by (cases x) (auto simp: cache_write_at_def bind_def buf_slice_mut_at_def buf_in_bounds_def
        cache_view_set_buffer cache_inv_set_buffer split: if_splits)
next
  case SyncAll
  obtain y m1 where g: "sync_all wr m = (y, m1)" by (cases "sync_all wr m")
  have "y = Ok ()" using sync_list_ok [of "map fst (cache m)" m] g by (simp add: sync_all_def)
  with g s SyncAll have "r = Ok []" "m' = m1" by (simp_all add: bind_def)
  with sync_list_keep [OF inv g [unfolded sync_all_def]] SyncAll show ?thesis by simp
qed

lemma run_refines:
  "cache_inv content m \<Longrightarrow> run_steps (cache_step rd wr) ops m = (rs, m') \<Longrightarrow>
   run_steps flat_step ops (cache_view content m) = (rs, cache_view content m') \<and> cache_inv content m'"
proof (induction ops arbitrary: m rs)
  case (Cons op ops)
  obtain r m1 where s: "cache_step rd wr op m = (r, m1)" by (cases "cache_step rd wr op m")
  obtain rs1 where t: "run_steps (cache_step rd wr) ops m1 = (rs1, m')" "rs = r # rs1"
    using Cons.prems(2) s by (auto split: prod.splits)
  note r = step_refines [OF Cons.prems(1) s]
  show ?case using Cons.IH [of m1 rs1] r t by simp
qed simp

end

interpretation ram: reliable_device ram_read_block ram_write_block ram_content
  by unfold_locales (simp add: ram_write_block_def)

lemma cache_inv_new: "cache_inv content (cache_new d)"
  by (simp add: cache_inv_def cache_new_def)

lemma cache_view_new: "cache_view content (cache_new d) = content d"
  by (rule ext) (simp add: cache_view_def cache_new_def)

text \<open>C1: Block cache refinement and durability. Starting from a fresh cache over the RAM block device,
  any sequence of block reads, block writes and synchronisations gives exactly the results
  (values, I/O errors and bounds panics) that the same sequence gives on a flat disk with no
  cache; and if the sequence is followed by \<open>sync_all\<close>, then a new cache opened over the
  resulting device (a remount) shows that flat disk.\<close>

theorem cache_refines_flat_disk:
  assumes "run_steps (cache_step ram_read_block ram_write_block) ops (cache_new d) = (rs, m)"
  shows "\<exists>m'. run_steps flat_step ops (ram_content d) = (rs, cache_view ram_content m) \<and>
    sync_all ram_write_block m = (Ok (), m') \<and>
    cache_view ram_content (cache_new (dev m')) = cache_view ram_content m"
proof -
  have r: "run_steps flat_step ops (ram_content d) = (rs, cache_view ram_content m)"
    "cache_inv ram_content m"
    using ram.run_refines [OF cache_inv_new assms] by (simp_all add: cache_view_new)
  obtain x m' where s: "sync_all ram_write_block m = (x, m')" by (cases "sync_all ram_write_block m")
  have "x = Ok ()" using ram.sync_list_ok [of "map fst (cache m)" m] s by (simp add: sync_all_def)
  with s have s': "sync_all ram_write_block m = (Ok (), m')" by simp
  show ?thesis
    using r(1) s' ram.sync_all_durable(1) [OF r(2) s'] by (auto simp: cache_view_new)
qed

theorem cache_refines_flat_disk_witness:
  "\<exists>m m'. run_steps (cache_step ram_read_block ram_write_block)
      [WriteAt 3 10 [7, 8], ReadAt 3 9 3, ReadAt 3 4095 2] (cache_new Map.empty) =
      ([Ok [], Ok [0, 7, 8], Panic], m) \<and>
    sync_all ram_write_block m = (Ok (), m') \<and>
    cache_view ram_content (cache_new (dev m')) = cache_view ram_content m"
proof -
  let ?ops = "[WriteAt 3 10 [7, 8], ReadAt 3 9 3, ReadAt 3 4095 2]"
  obtain rs m where r: "run_steps (cache_step ram_read_block ram_write_block) ?ops (cache_new Map.empty) = (rs, m)"
    by (cases "run_steps (cache_step ram_read_block ram_write_block) ?ops (cache_new Map.empty)")
  from cache_refines_flat_disk [OF r] obtain m' where
    f: "run_steps flat_step ?ops (ram_content Map.empty) = (rs, cache_view ram_content m)" and
    s: "sync_all ram_write_block m = (Ok (), m')"
      "cache_view ram_content (cache_new (dev m')) = cache_view ram_content m"
    by blast
  have "rs = [Ok [], Ok [0, 7, 8], Panic]"
    using f by (simp add: ram_content_def BLOCK_SIZE_def rd_bytes_def wr_bytes_def zero_block_def
        upt_rec numeral_eq_Suc)
  with r s show ?thesis by blast
qed

text \<open>
  \<open>trim_to_size\<close>: \<open>LruCache::resize\<close> evicts the least recently used buffers, each of which runs
  \<open>Drop\<close>: the buffer memory is given back to the allocator first and written to the device
  afterwards. \<open>freed\<close> is what the memory holds once the allocator owns it.
\<close>

definition drop_buffer :: "(block \<Rightarrow> block) \<Rightarrow> 'd dev_write \<Rightarrow> nat \<times> buffer \<Rightarrow> 'd \<Rightarrow> 'd" where
  "drop_buffer freed wr e d =
     (if is_dirty (snd e) then snd (wr d (fst e) (freed (data (snd e)))) else d)"

definition trim_to_size ::
    "(block \<Rightarrow> block) \<Rightarrow> 'd dev_write \<Rightarrow> nat \<Rightarrow> ('d cache_mgr, fs_error_kind, unit) call" where
  "trim_to_size freed wr n m =
     (if n = 0 then (Panic, m)
      else (Ok (), m\<lparr>dev := fold (drop_buffer freed wr) (rev (drop n (cache m))) (dev m),
                     cache := take n (cache m)\<rparr>))"

end
