(* ===== verification/Rw_Bitmap.thy ===== *)
theory Rw_Bitmap
  imports Rw_Disk
begin

text \<open>
  The allocation bitmaps of EFS (src/fs/redwing_efs/src/bitmap.rs) over the flat disk that the block
  cache implements. \<open>alloc_bit\<close> is modelled with its two nested loops and the index accumulator of
  its closure; the theory shows that it is first-fit allocation, and states the contract
  of a bit allocator as a locale which both bitmaps of a file system satisfy.
\<close>

unbundle bit_operations_syntax

section \<open>Blocks of the flat disk\<close>

definition get_block :: "nat \<Rightarrow> (disk, fs_error_kind, block) call" where
  "get_block b d = (case d b of None \<Rightarrow> (Err IOError, d) | Some blk \<Rightarrow> (Ok blk, d))"

definition put_block :: "nat \<Rightarrow> block \<Rightarrow> (disk, fs_error_kind, unit) call" where
  "put_block b blk d = (Ok (), d(b \<mapsto> blk))"

text \<open>The 64-bit words of a bitmap block, in the byte order of the machine (little endian).\<close>

definition u64_at :: "block \<Rightarrow> nat \<Rightarrow> u64" where
  "u64_at blk k = word_of_nat (le_nat (rd_bytes blk (8 * k) 8))"

definition put_u64 :: "block \<Rightarrow> nat \<Rightarrow> u64 \<Rightarrow> block" where
  "put_u64 blk k w = wr_bytes blk (8 * k) (le_bytes 8 (unat w))"

lemma u64_at_put_same [simp]: "u64_at (put_u64 blk k w) k = w"
proof -
  have "unat w < 256 ^ 8" using unsigned_less [of w] by simp
  then show ?thesis by (simp add: u64_at_def put_u64_def rd_wr_same')
qed

lemma u64_at_put_other [simp]: "j \<noteq> k \<Longrightarrow> u64_at (put_u64 blk k w) j = u64_at blk j"
proof -
  assume "j \<noteq> k"
  then have "8 * j + 8 \<le> 8 * k \<or> 8 * k + 8 \<le> 8 * j" by arith
  then show ?thesis by (simp add: u64_at_def put_u64_def rd_wr_disjoint)
qed

lemma wr_rd_same: "wr_bytes blk off (rd_bytes blk off n) = blk"
  by (rule ext) (auto simp: wr_bytes_def)

lemma put_u64_id [simp]: "put_u64 blk k (u64_at blk k) = blk"
proof -
  have "le_nat (rd_bytes blk (8 * k) 8) < 2 ^ 64"
    using le_nat_bound [of "rd_bytes blk (8 * k) 8"] by simp
  then have "unat (u64_at blk k) = le_nat (rd_bytes blk (8 * k) 8)"
    unfolding u64_at_def unat_of_nat by simp
  then show ?thesis by (simp add: put_u64_def le_bytes_le_nat wr_rd_same)
qed

section \<open>The bitmap operations\<close>

definition U64_BITS :: nat where "U64_BITS = 64"
definition BLOCK_BITS :: nat where "BLOCK_BITS = BLOCK_SIZE * 8"

lemmas bitmap_consts = U64_BITS_def BLOCK_BITS_def BLOCK_SIZE_def

record bitmap_blocks =
  start_blk_no :: nat
  end_blk_no :: nat
  bits_len :: nat

definition bitmap_new :: "nat \<Rightarrow> nat \<Rightarrow> bitmap_blocks" where
  "bitmap_new start len =
     \<lparr>start_blk_no = start, end_blk_no = start + div_ceil len BLOCK_BITS, bits_len = len\<rparr>"

text \<open>\<open>u64::trailing_ones\<close> and \<open>u64::count_ones\<close>.\<close>

definition trailing_ones :: "u64 \<Rightarrow> nat" where
  "trailing_ones w = length (takeWhile (bit w) [0..<64])"

definition count_ones :: "u64 \<Rightarrow> nat" where
  "count_ones w = length (filter (bit w) [0..<64])"

text \<open>
  \<open>foreach_64_bits_mut\<close>: the loop over the words of one block and the loop over the blocks. The
  closure \<open>f\<close> gets its captured state, the index of the word and the word, and returns its answer,
  the word it leaves and its new captured state. A block walk ends with an answer, by passing the last word of
  the bitmap, or at the end of the block.
\<close>

datatype 't walk = Found 't | Exhausted | Continue

fun walk_words_mut ::
    "('c \<Rightarrow> nat \<Rightarrow> u64 \<Rightarrow> 't option \<times> u64 \<times> 'c) \<Rightarrow> nat \<Rightarrow> nat list \<Rightarrow> block \<Rightarrow> nat \<Rightarrow> 'c \<Rightarrow>
     't walk \<times> block \<times> nat \<times> 'c" where
  "walk_words_mut f len [] blk u c = (Continue, blk, u, c)"
| "walk_words_mut f len (j # js) blk u c =
     (case f c u (u64_at blk j) of
        (Some t, w, c') \<Rightarrow> (Found t, put_u64 blk j w, u, c')
      | (None, w, c') \<Rightarrow>
          if len \<le> Suc u * U64_BITS then (Exhausted, put_u64 blk j w, Suc u, c')
          else walk_words_mut f len js (put_u64 blk j w) (Suc u) c')"

fun walk_blocks_mut ::
    "('c \<Rightarrow> nat \<Rightarrow> u64 \<Rightarrow> 't option \<times> u64 \<times> 'c) \<Rightarrow> nat \<Rightarrow> nat list \<Rightarrow> nat \<Rightarrow> 'c \<Rightarrow>
     (disk, fs_error_kind, 't option) call" where
  "walk_blocks_mut f len [] u c d = (Ok None, d)"
| "walk_blocks_mut f len (b # bs) u c d =
     bind (get_block b) (\<lambda>blk d.
       case walk_words_mut f len [0..<BLOCK_SIZE div 8] blk u c of
         (r, blk', u', c') \<Rightarrow>
           bind (put_block b blk') (\<lambda>_ d.
             case r of
               Found t \<Rightarrow> (Ok (Some t), d)
             | Exhausted \<Rightarrow> (Ok None, d)
             | Continue \<Rightarrow> walk_blocks_mut f len bs u' c' d) d) d"

definition foreach_64_bits_mut ::
    "bitmap_blocks \<Rightarrow> ('c \<Rightarrow> nat \<Rightarrow> u64 \<Rightarrow> 't option \<times> u64 \<times> 'c) \<Rightarrow> 'c \<Rightarrow>
     (disk, fs_error_kind, 't option) call" where
  "foreach_64_bits_mut bm f c =
     walk_blocks_mut f (bits_len bm) [start_blk_no bm..<end_blk_no bm] 0 c"

text \<open>The closure of \<open>alloc_bit\<close>; its captured state is \<open>bit_idx\<close>.\<close>

definition alloc_bit_step :: "nat \<Rightarrow> nat \<Rightarrow> nat \<Rightarrow> u64 \<Rightarrow> nat option \<times> u64 \<times> nat" where
  "alloc_bit_step len bit_idx idx bits =
     (let i = trailing_ones bits in
      if i = U64_BITS then (None, bits, bit_idx + U64_BITS)
      else if len \<le> bit_idx + i then (None, bits, bit_idx + i)
      else (Some (idx * U64_BITS + i), bits OR push_bit i 1, bit_idx + i))"

definition alloc_bit :: "bitmap_blocks \<Rightarrow> (disk, fs_error_kind, nat option) call" where
  "alloc_bit bm = foreach_64_bits_mut bm (alloc_bit_step (bits_len bm)) 0"

definition locate_bit_pos :: "bitmap_blocks \<Rightarrow> nat \<Rightarrow> nat \<times> nat \<times> nat" where
  "locate_bit_pos bm index =
     (let blk_no = index div BLOCK_BITS in
      (start_blk_no bm + blk_no, (index - blk_no * BLOCK_BITS) div U64_BITS, index mod U64_BITS))"

definition bitmap_modify :: "nat \<Rightarrow> (block \<Rightarrow> block) \<Rightarrow> (disk, fs_error_kind, unit) call" where
  "bitmap_modify b f = bind (get_block b) (\<lambda>blk. put_block b (f blk))"

definition bitmap_read :: "nat \<Rightarrow> (block \<Rightarrow> 'a) \<Rightarrow> (disk, fs_error_kind, 'a) call" where
  "bitmap_read b f = bind (get_block b) (\<lambda>blk. ret (f blk))"

definition get_bit :: "bitmap_blocks \<Rightarrow> nat \<Rightarrow> (disk, fs_error_kind, bool) call" where
  "get_bit bm index =
     (if bits_len bm \<le> index then fail InvalidArgument
      else case locate_bit_pos bm index of (b, w, i) \<Rightarrow>
        bitmap_read b (\<lambda>blk. drop_bit i (u64_at blk w) AND 1 = 1))"

definition clear_bit :: "bitmap_blocks \<Rightarrow> nat \<Rightarrow> (disk, fs_error_kind, unit) call" where
  "clear_bit bm index =
     (if bits_len bm \<le> index then fail InvalidArgument
      else case locate_bit_pos bm index of (b, w, i) \<Rightarrow>
        bitmap_modify b (\<lambda>blk. put_u64 blk w (u64_at blk w AND NOT (push_bit i 1))))"

definition set_bit' :: "bitmap_blocks \<Rightarrow> nat \<Rightarrow> (disk, fs_error_kind, unit) call" where
  "set_bit' bm index =
     (if bits_len bm \<le> index then fail InvalidArgument
      else case locate_bit_pos bm index of (b, w, i) \<Rightarrow>
        bitmap_modify b (\<lambda>blk. put_u64 blk w (u64_at blk w OR push_bit i 1)))"

text \<open>\<open>foreach_64_bits\<close>, whose closure may panic (the counter of \<open>count_allocated_bits\<close> is a \<open>u32\<close>).\<close>

fun walk_words ::
    "('c \<Rightarrow> nat \<Rightarrow> u64 \<Rightarrow> 'c option) \<Rightarrow> nat \<Rightarrow> nat list \<Rightarrow> block \<Rightarrow> nat \<Rightarrow> 'c \<Rightarrow> (bool \<times> nat \<times> 'c) option" where
  "walk_words f len [] blk u c = Some (False, u, c)"
| "walk_words f len (j # js) blk u c =
     (case f c u (u64_at blk j) of
        None \<Rightarrow> None
      | Some c' \<Rightarrow>
          if len \<le> Suc u * U64_BITS then Some (True, Suc u, c')
          else walk_words f len js blk (Suc u) c')"

fun walk_blocks ::
    "('c \<Rightarrow> nat \<Rightarrow> u64 \<Rightarrow> 'c option) \<Rightarrow> nat \<Rightarrow> nat list \<Rightarrow> nat \<Rightarrow> 'c \<Rightarrow> (disk, fs_error_kind, 'c) call" where
  "walk_blocks f len [] u c d = (Ok c, d)"
| "walk_blocks f len (b # bs) u c d =
     bind (get_block b) (\<lambda>blk d.
       case walk_words f len [0..<BLOCK_SIZE div 8] blk u c of
         None \<Rightarrow> (Panic, d)
       | Some (True, u', c') \<Rightarrow> (Ok c', d)
       | Some (False, u', c') \<Rightarrow> walk_blocks f len bs u' c' d) d"

definition foreach_64_bits ::
    "bitmap_blocks \<Rightarrow> ('c \<Rightarrow> nat \<Rightarrow> u64 \<Rightarrow> 'c option) \<Rightarrow> 'c \<Rightarrow> (disk, fs_error_kind, 'c) call" where
  "foreach_64_bits bm f c = walk_blocks f (bits_len bm) [start_blk_no bm..<end_blk_no bm] 0 c"

definition count_allocated_bits :: "bitmap_blocks \<Rightarrow> (disk, fs_error_kind, nat) call" where
  "count_allocated_bits bm =
     foreach_64_bits bm (\<lambda>total _ bits.
       if total + count_ones bits < 2 ^ 32 then Some (total + count_ones bits) else None) 0"

section \<open>Bits of a block and of a bitmap\<close>

definition blk_bit :: "block \<Rightarrow> nat \<Rightarrow> bool" where
  "blk_bit blk i = bit (u64_at blk (i div 64)) (i mod 64)"

definition upd_blk_bit :: "block \<Rightarrow> nat \<Rightarrow> bool \<Rightarrow> block" where
  "upd_blk_bit blk i v = put_u64 blk (i div 64)
     (if v then u64_at blk (i div 64) OR push_bit (i mod 64) 1
      else u64_at blk (i div 64) AND NOT (push_bit (i mod 64) 1))"

lemma blk_bit_upd: "blk_bit (upd_blk_bit blk i v) j = (if j = i then v else blk_bit blk j)"
proof (cases "j div 64 = i div 64")
  case True
  then have e: "j = i \<longleftrightarrow> j mod 64 = i mod 64" by (metis div_mult_mod_eq)
  show ?thesis
    unfolding blk_bit_def upd_blk_bit_def True e
    by (auto simp: bit_or_iff bit_and_iff bit_not_iff bit_exp_iff)
next
  case False
  then show ?thesis by (auto simp: blk_bit_def upd_blk_bit_def)
qed

lemma trailing_ones_le: "trailing_ones w \<le> 64"
  using length_takeWhile_le [of "bit w" "[0..<64]"] by (simp add: trailing_ones_def)

lemma trailing_ones_set: "i < trailing_ones w \<Longrightarrow> bit w i"
  using trailing_ones_le [of w] takeWhile_nth [of i "bit w" "[0..<64]"]
    nth_mem [of i "takeWhile (bit w) [0..<64]"]
  by (auto simp: trailing_ones_def dest: set_takeWhileD)

lemma trailing_ones_clear: "trailing_ones w < 64 \<Longrightarrow> \<not> bit w (trailing_ones w)"
  using nth_length_takeWhile [of "bit w" "[0..<64]"] by (simp add: trailing_ones_def)

text \<open>One word of a block: the bits \<open>64 * j + k\<close>.\<close>

lemma blk_bit_word: "k < 64 \<Longrightarrow> blk_bit blk (64 * j + k) = bit (u64_at blk j) k"
  by (simp add: blk_bit_def)

lemma word_range: "64 * j \<le> i \<Longrightarrow> i < 64 * Suc j \<Longrightarrow> \<exists>k<64. i = 64 * j + (k::nat)"
  by (rule exI [of _ "i - 64 * j"]) auto

lemma walk_words_alloc:
  assumes "walk_words_mut (alloc_bit_step len) len [j..<n] blk u (u * 64) = (r, blk', u', c')" "j \<le> n"
  shows "case r of
      Found t \<Rightarrow> \<exists>i. 64 * j \<le> i \<and> i < 64 * n \<and> t + 64 * j = u * 64 + i \<and> t < len \<and> \<not> blk_bit blk i \<and>
        (\<forall>k. 64 * j \<le> k \<and> k < i \<longrightarrow> blk_bit blk k) \<and> blk' = upd_blk_bit blk i True
    | Exhausted \<Rightarrow> blk' = blk \<and> len + 64 * j \<le> u * 64 + 64 * n \<and>
        (\<forall>k. 64 * j \<le> k \<and> u * 64 + k < len + 64 * j \<longrightarrow> blk_bit blk k)
    | Continue \<Rightarrow> blk' = blk \<and> u' = u + (n - j) \<and> c' = u' * 64 \<and>
        (\<forall>k. 64 * j \<le> k \<and> k < 64 * n \<longrightarrow> blk_bit blk k)"
  using assms
proof (induction "n - j" arbitrary: j u)
  case 0
  then show ?case by auto
next
  case (Suc x)
  then have jn: "j < n" by simp
  let ?w = "u64_at blk j" and ?t = "trailing_ones (u64_at blk j)"
  have low: "blk_bit blk i" if "64 * j \<le> i" "i < 64 * j + ?t" for i
  proof -
    have "i - 64 * j < ?t" using that by linarith
    with trailing_ones_set have "bit ?w (i - 64 * j)" by blast
    with blk_bit_word [of "i - 64 * j" blk j] that trailing_ones_le [of ?w] show ?thesis by simp
  qed
  have upt: "[j..<n] = j # [Suc j..<n]" using jn by (simp add: upt_conv_Cons)
  consider (full) "?t = 64" | (past) "?t < 64" "len \<le> u * 64 + ?t" | (hit) "?t < 64" "u * 64 + ?t < len"
    using trailing_ones_le [of ?w] by linarith
  then show ?case
  proof cases
    case full
    show ?thesis
    proof (cases "len \<le> Suc u * 64")
      case True
      with Suc.prems(1) full have "r = Exhausted" "blk' = blk"
        unfolding upt by (auto simp: alloc_bit_step_def bitmap_consts)
      with True jn low full show ?thesis by auto
    next
      case False
      with Suc.prems(1) full have
        "walk_words_mut (alloc_bit_step len) len [Suc j..<n] blk (Suc u) (Suc u * 64) = (r, blk', u', c')"
        unfolding upt by (simp add: alloc_bit_step_def bitmap_consts add.commute)
      from Suc.hyps(1) [OF _ this] have ih: "case r of
          Found t \<Rightarrow> \<exists>i. 64 * Suc j \<le> i \<and> i < 64 * n \<and> t + 64 * Suc j = Suc u * 64 + i \<and> t < len \<and>
            \<not> blk_bit blk i \<and> (\<forall>k. 64 * Suc j \<le> k \<and> k < i \<longrightarrow> blk_bit blk k) \<and> blk' = upd_blk_bit blk i True
        | Exhausted \<Rightarrow> blk' = blk \<and> len + 64 * Suc j \<le> Suc u * 64 + 64 * n \<and>
            (\<forall>k. 64 * Suc j \<le> k \<and> Suc u * 64 + k < len + 64 * Suc j \<longrightarrow> blk_bit blk k)
        | Continue \<Rightarrow> blk' = blk \<and> u' = Suc u + (n - Suc j) \<and> c' = u' * 64 \<and>
            (\<forall>k. 64 * Suc j \<le> k \<and> k < 64 * n \<longrightarrow> blk_bit blk k)"
        using Suc.hyps(2) jn by simp
      have ext: "\<forall>k. 64 * j \<le> k \<and> P k \<longrightarrow> blk_bit blk k"
        if "\<forall>k. 64 * Suc j \<le> k \<and> P k \<longrightarrow> blk_bit blk k" for P
        using that low full by (metis mult_Suc_right add.commute not_le)
      show ?thesis
      proof (cases r)
        case (Found t)
        with ih obtain i where "64 * Suc j \<le> i" "i < 64 * n" "t + 64 * Suc j = Suc u * 64 + i" "t < len"
          "\<not> blk_bit blk i" "\<forall>k. 64 * Suc j \<le> k \<and> k < i \<longrightarrow> blk_bit blk k" "blk' = upd_blk_bit blk i True"
          by auto
        with Found ext [of "\<lambda>k. k < i"] show ?thesis by (auto intro!: exI [of _ i])
      next
        case Exhausted
        with ih ext [of "\<lambda>k. u * 64 + k < len + 64 * j"] show ?thesis by simp
      next
        case Continue
        with ih ext [of "\<lambda>k. k < 64 * n"] jn show ?thesis by auto
      qed
    qed
  next
    case past
    then have "len \<le> Suc u * 64" by simp
    with Suc.prems(1) past have "r = Exhausted" "blk' = blk"
      unfolding upt by (auto simp: alloc_bit_step_def bitmap_consts)
    with past low jn show ?thesis by auto
  next
    case hit
    with Suc.prems(1) have r: "r = Found (u * 64 + ?t)" "blk' = put_u64 blk j (?w OR push_bit ?t 1)"
      unfolding upt by (auto simp: alloc_bit_step_def bitmap_consts Let_def)
    have "blk' = upd_blk_bit blk (64 * j + ?t) True" using r hit by (simp add: upd_blk_bit_def)
    moreover have "\<not> blk_bit blk (64 * j + ?t)"
      using blk_bit_word hit trailing_ones_clear by blast
    ultimately show ?thesis
      unfolding r(1) walk.case using hit low jn by (intro exI [of _ "64 * j + ?t"]) simp
  qed
qed

text \<open>The bits of the bitmap that starts at block \<open>s\<close>.\<close>

definition disk_bit :: "disk \<Rightarrow> nat \<Rightarrow> nat \<Rightarrow> bool" where
  "disk_bit d s i = blk_bit (the (d (s + i div BLOCK_BITS))) (i mod BLOCK_BITS)"

definition upd_disk_bit :: "disk \<Rightarrow> nat \<Rightarrow> nat \<Rightarrow> bool \<Rightarrow> disk" where
  "upd_disk_bit d s i v =
     d(s + i div BLOCK_BITS \<mapsto> upd_blk_bit (the (d (s + i div BLOCK_BITS))) (i mod BLOCK_BITS) v)"

lemma disk_bit_upd: "disk_bit (upd_disk_bit d s i v) s j = (if j = i then v else disk_bit d s j)"
proof (cases "j div BLOCK_BITS = i div BLOCK_BITS")
  case True
  then have "j = i \<longleftrightarrow> j mod BLOCK_BITS = i mod BLOCK_BITS" by (metis div_mult_mod_eq)
  then show ?thesis by (simp add: disk_bit_def upd_disk_bit_def True blk_bit_upd)
next
  case False
  then show ?thesis by (auto simp: disk_bit_def upd_disk_bit_def)
qed

lemma get_block_mapped: "d b = Some blk \<Longrightarrow> get_block b d = (Ok blk, d)"
  by (simp add: get_block_def)

lemma block_index:
  "i < BLOCK_BITS \<Longrightarrow> (m * BLOCK_BITS + i) div BLOCK_BITS = m \<and> (m * BLOCK_BITS + i) mod BLOCK_BITS = i"
  by simp

lemma disk_bit_block:
  "d (s + m) = Some blk \<Longrightarrow> k < BLOCK_BITS \<Longrightarrow> disk_bit d s (m * BLOCK_BITS + k) = blk_bit blk k"
  by (simp add: disk_bit_def)

lemma disk_bit_range:
  assumes "d (s + m) = Some blk" "m * BLOCK_BITS \<le> k" "k < Suc m * BLOCK_BITS"
  shows "disk_bit d s k = blk_bit blk (k - m * BLOCK_BITS)"
  using disk_bit_block [of d s m blk "k - m * BLOCK_BITS"] assms by simp

lemma walk_blocks_alloc:
  assumes "\<forall>k. m \<le> k \<and> k < n \<longrightarrow> d (s + k) \<noteq> None" "m \<le> n"
  shows "\<exists>x d'. walk_blocks_mut (alloc_bit_step len) len [s + m..<s + n] (m * 512) (m * 512 * 64) d = (Ok x, d') \<and>
    (case x of
       Some t \<Rightarrow> m * BLOCK_BITS \<le> t \<and> t < len \<and> t < n * BLOCK_BITS \<and> \<not> disk_bit d s t \<and>
         (\<forall>k. m * BLOCK_BITS \<le> k \<and> k < t \<longrightarrow> disk_bit d s k) \<and> d' = upd_disk_bit d s t True
     | None \<Rightarrow> d' = d \<and> (\<forall>k. m * BLOCK_BITS \<le> k \<and> k < len \<and> k < n * BLOCK_BITS \<longrightarrow> disk_bit d s k))"
  using assms
proof (induction "n - m" arbitrary: m)
  case 0
  then show ?case by auto
next
  case (Suc x)
  then have mn: "m < n" by simp
  have bb: "BLOCK_BITS = 32768" by (simp add: bitmap_consts)
  have upt: "[s + m..<s + n] = (s + m) # [s + Suc m..<s + n]" using mn by (simp add: upt_conv_Cons)
  obtain blk where blk: "d (s + m) = Some blk" using Suc.prems(1) mn by blast
  then have triv: "d(s + m \<mapsto> blk) = d" by auto
  obtain r blk' u' c' where w:
    "walk_words_mut (alloc_bit_step len) len [0..<512] blk (m * 512) (m * 512 * 64) = (r, blk', u', c')"
    by (metis prod_cases4)
  let ?rec = "walk_blocks_mut (alloc_bit_step len) len [s + Suc m..<s + n] u' c'"
  have eq: "walk_blocks_mut (alloc_bit_step len) len [s + m..<s + n] (m * 512) (m * 512 * 64) d =
    (case r of Found t \<Rightarrow> (Ok (Some t), d(s + m \<mapsto> blk')) | Exhausted \<Rightarrow> (Ok None, d(s + m \<mapsto> blk'))
     | Continue \<Rightarrow> ?rec (d(s + m \<mapsto> blk')))"
    unfolding upt using w
    by (simp add: get_block_mapped blk bind_def put_block_def BLOCK_SIZE_def split: walk.split)
  note ww = walk_words_alloc [OF w, simplified]
  have rng: "disk_bit d s k" if "\<forall>i. P (m * BLOCK_BITS + i) \<and> i < BLOCK_BITS \<longrightarrow> blk_bit blk i"
    "m * BLOCK_BITS \<le> k" "k < Suc m * BLOCK_BITS" "P k" for k P
    using disk_bit_range [of d s m blk k, OF blk that(2,3)] that
    by (metis add_diff_cancel_left' le_add_diff_inverse less_diff_conv2 mult_Suc add.commute)
  show ?case
  proof (cases r)
    case (Found t)
    with ww obtain i where i: "i < 32768" "t = m * BLOCK_BITS + i" "t < len" "\<not> blk_bit blk i"
      "\<forall>k<i. blk_bit blk k" "blk' = upd_blk_bit blk i True"
      by (auto simp: bb)
    have "d(s + m \<mapsto> blk') = upd_disk_bit d s t True"
      using i blk by (simp add: upd_disk_bit_def bb)
    moreover have "\<not> disk_bit d s t" using disk_bit_block [of d s m blk i, OF blk] i by (simp add: bb)
    moreover have "disk_bit d s k" if "m * BLOCK_BITS \<le> k" "k < t" for k
      using rng [of "\<lambda>k. k < t" k] that i by (simp add: bb)
    moreover have "t < n * BLOCK_BITS" using i mn by (simp add: bb)
    ultimately show ?thesis using eq Found i by simp
  next
    case Exhausted
    with ww have e: "blk' = blk" "len \<le> m * 32768 + 32768"
      "\<forall>k. m * 32768 + k < len \<longrightarrow> blk_bit blk k" by auto
    have "disk_bit d s k" if "m * BLOCK_BITS \<le> k" "k < len" for k
      using rng [of "\<lambda>k. k < len" k] that e by (simp add: bb)
    then show ?thesis using eq Exhausted e triv by simp
  next
    case Continue
    with ww have e: "blk' = blk" "u' = Suc m * 512" "c' = Suc m * 512 * 64" "\<forall>k<32768. blk_bit blk k"
      by auto
    have here: "disk_bit d s k" if "m * BLOCK_BITS \<le> k" "k < Suc m * BLOCK_BITS" for k
      using rng [of "\<lambda>_. True" k] that e by (simp add: bb)
    have "Suc m \<le> n" "x = n - Suc m" "\<forall>k. Suc m \<le> k \<and> k < n \<longrightarrow> d (s + k) \<noteq> None"
      using Suc.hyps(2) Suc.prems mn by auto
    from Suc.hyps(1) [OF this(2,3,1)] obtain y d' where y:
      "?rec d = (Ok y, d')"
      "case y of
       Some t \<Rightarrow> Suc m * BLOCK_BITS \<le> t \<and> t < len \<and> t < n * BLOCK_BITS \<and> \<not> disk_bit d s t \<and>
         (\<forall>k. Suc m * BLOCK_BITS \<le> k \<and> k < t \<longrightarrow> disk_bit d s k) \<and> d' = upd_disk_bit d s t True
     | None \<Rightarrow> d' = d \<and> (\<forall>k. Suc m * BLOCK_BITS \<le> k \<and> k < len \<and> k < n * BLOCK_BITS \<longrightarrow> disk_bit d s k)"
      unfolding e by blast
    have all: "\<forall>k. m * BLOCK_BITS \<le> k \<and> P k \<longrightarrow> disk_bit d s k"
      if "\<forall>k. Suc m * BLOCK_BITS \<le> k \<and> P k \<longrightarrow> disk_bit d s k" for P
      using that here by (meson not_le)
    show ?thesis
    proof (cases y)
      case None
      with y all [of "\<lambda>k. k < len \<and> k < n * BLOCK_BITS"] eq Continue e triv show ?thesis by simp
    next
      case (Some t)
      with y all [of "\<lambda>k. k < t"] eq Continue e triv show ?thesis by (auto simp: bb)
    qed
  qed
qed

section \<open>The contract of a bit allocator\<close>

text \<open>What the file system relies on: a set of used indices below \<open>len\<close>, allocation of the lowest
  free index or failure when there is none, and release of an index.\<close>

locale bit_allocator =
  fixes ok :: "'s \<Rightarrow> bool"
    and used :: "'s \<Rightarrow> nat set"
    and len :: nat
    and alloc :: "('s, 'e, nat option) call"
    and clear :: "nat \<Rightarrow> ('s, 'e, unit) call"
  assumes used_bound: "used s \<subseteq> {..<len}"
    and alloc_law: "ok s \<Longrightarrow> \<exists>x s'. alloc s = (Ok x, s') \<and> ok s' \<and>
      (case x of
         Some i \<Rightarrow> i < len \<and> i \<notin> used s \<and> used s' = insert i (used s) \<and> (\<forall>k<i. k \<in> used s)
       | None \<Rightarrow> s' = s \<and> used s = {..<len})"
    and clear_law: "ok s \<Longrightarrow> i < len \<Longrightarrow> \<exists>s'. clear i s = (Ok (), s') \<and> ok s' \<and> used s' = used s - {i}"

text \<open>Repeated allocation, as a client that needs \<open>n\<close> indices performs it.\<close>

fun alloc_many :: "('s, 'e, nat option) call \<Rightarrow> nat \<Rightarrow> ('s, 'e, nat option list) call" where
  "alloc_many alloc 0 = ret []"
| "alloc_many alloc (Suc n) = bind alloc (\<lambda>x. bind (alloc_many alloc n) (\<lambda>xs. ret (x # xs)))"

context bit_allocator
begin

lemma finite_used: "finite (used s)"
  using used_bound finite_subset by blast

lemma card_used: "card (used s) \<le> len"
  using card_mono [OF _ used_bound] by simp

lemma alloc_cases:
  assumes "ok s"
  obtains (full) "alloc s = (Ok None, s)" "used s = {..<len}"
    | (hit) i s' where "alloc s = (Ok (Some i), s')" "ok s'" "i < len" "i \<notin> used s"
        "used s' = insert i (used s)" "\<forall>k<i. k \<in> used s"
proof -
  from alloc_law [OF assms] obtain x s' where a: "alloc s = (Ok x, s')" "ok s'" and
    c: "case x of
         Some i \<Rightarrow> i < len \<and> i \<notin> used s \<and> used s' = insert i (used s) \<and> (\<forall>k<i. k \<in> used s)
       | None \<Rightarrow> s' = s \<and> used s = {..<len}"
    by blast
  show thesis
  proof (cases x)
    case None
    with a c have "alloc s = (Ok None, s)" "used s = {..<len}" by simp_all
    then show thesis by (rule full)
  next
    case (Some i)
    with a c have "alloc s = (Ok (Some i), s')" "i < len" "i \<notin> used s" "used s' = insert i (used s)"
      "\<forall>k<i. k \<in> used s" by simp_all
    with a(2) show thesis by (intro hit)
  qed
qed

lemma alloc_many_fits:
  assumes "ok s" "card (used s) + n \<le> len"
  shows "\<exists>is s'. alloc_many alloc n s = (Ok (map Some is), s') \<and> length is = n \<and> distinct is \<and>
    set is \<inter> used s = {} \<and> sorted is \<and> used s' = used s \<union> set is \<and> ok s'"
  using assms
proof (induction n arbitrary: s)
  case 0
  then show ?case by simp
next
  case (Suc n)
  from Suc.prems(1) show ?case
  proof (cases rule: alloc_cases)
    case full
    with Suc.prems(2) show ?thesis by simp
  next
    case (hit i s1)
    have "card (used s1) + n \<le> len" using hit Suc.prems(2) finite_used by simp
    from Suc.IH [OF hit(2) this] obtain "is" s' where r: "alloc_many alloc n s1 = (Ok (map Some is), s')"
      "length is = n" "distinct is" "set is \<inter> used s1 = {}" "sorted is" "used s' = used s1 \<union> set is" "ok s'"
      by blast
    have "\<forall>k\<in>set is. i < k" using r(4) hit by (metis disjoint_iff insertCI linorder_neqE_nat)
    then have "sorted (i # is)" using r(5) by (auto intro: less_imp_le)
    moreover have "alloc_many alloc (Suc n) s = (Ok (map Some (i # is)), s')"
      using hit(1) r(1) by (simp add: bind_def)
    ultimately show ?thesis using r hit by (intro exI [of _ "i # is"] exI [of _ s']) auto
  qed
qed

lemma alloc_full_iff:
  assumes "ok s"
  shows "fst (alloc s) = Ok None \<longleftrightarrow> card (used s) = len"
proof (cases rule: alloc_cases [OF assms])
  case 1
  then show ?thesis by simp
next
  case (2 i s')
  then have "insert i (used s) \<subseteq> {..<len}" using used_bound by auto
  then have "Suc (card (used s)) \<le> len"
    using 2 finite_used card_mono [of "{..<len}" "insert i (used s)"] by simp
  with 2 show ?thesis by simp
qed

text \<open>A released index that is below every free one is what the next allocation returns.\<close>

lemma clear_alloc:
  assumes "ok s" "i \<in> used s" "\<forall>k<i. k \<in> used s"
  shows "\<exists>s1 s2. clear i s = (Ok (), s1) \<and> alloc s1 = (Ok (Some i), s2) \<and> used s2 = used s \<and> ok s2"
proof -
  have i: "i < len" using assms(2) used_bound by auto
  from clear_law [OF assms(1) i] obtain s1 where s1: "clear i s = (Ok (), s1)" "ok s1" "used s1 = used s - {i}"
    by blast
  from s1(2) show ?thesis
  proof (cases rule: alloc_cases)
    case full
    with s1 i show ?thesis by auto
  next
    case (hit j s2)
    have "j = i"
      using hit(4,6) s1(3) assms(3) by (metis DiffI linorder_neqE_nat singletonD insertCI Diff_iff)
    with hit s1 assms(2) show ?thesis by auto
  qed
qed

end

section \<open>The bitmaps implement the contract\<close>

definition allocated :: "bitmap_blocks \<Rightarrow> disk \<Rightarrow> nat set" where
  "allocated bm d = {i. i < bits_len bm \<and> disk_bit d (start_blk_no bm) i}"

text \<open>The bitmap covers its bits, its blocks can be read, and the unused bits of its last word
  are clear.\<close>

definition bitmap_ok :: "bitmap_blocks \<Rightarrow> disk \<Rightarrow> bool" where
  "bitmap_ok bm d \<longleftrightarrow>
     end_blk_no bm = start_blk_no bm + div_ceil (bits_len bm) BLOCK_BITS \<and>
     (\<forall>b. start_blk_no bm \<le> b \<and> b < end_blk_no bm \<longrightarrow> d b \<noteq> None) \<and>
     (\<forall>i. bits_len bm \<le> i \<and> i < 64 * div_ceil (bits_len bm) 64 \<longrightarrow> \<not> disk_bit d (start_blk_no bm) i)"

lemma bitmap_covers: "i < bits_len bm \<Longrightarrow> bitmap_ok bm d \<Longrightarrow>
    start_blk_no bm + i div BLOCK_BITS < end_blk_no bm"
proof -
  assume i: "i < bits_len bm" and ok: "bitmap_ok bm d"
  have p: "0 < BLOCK_BITS" by (simp add: bitmap_consts)
  have "i < div_ceil (bits_len bm) BLOCK_BITS * BLOCK_BITS"
    using div_ceil_ge [OF p, of "bits_len bm"] i by linarith
  then have "i div BLOCK_BITS < div_ceil (bits_len bm) BLOCK_BITS" by (simp add: less_mult_imp_div_less)
  then show ?thesis using ok by (simp add: bitmap_ok_def)
qed

lemma bitmap_ok_upd:
  assumes ok: "bitmap_ok bm d" and i: "i < bits_len bm"
  shows "bitmap_ok bm (upd_disk_bit d (start_blk_no bm) i v)"
proof -
  have "upd_disk_bit d (start_blk_no bm) i v b \<noteq> None" if "d b \<noteq> None" for b
    using that by (simp add: upd_disk_bit_def)
  then show ?thesis using ok i by (auto simp: bitmap_ok_def disk_bit_upd)
qed

lemma allocated_upd:
  "i < bits_len bm \<Longrightarrow> allocated bm (upd_disk_bit d (start_blk_no bm) i v) =
    (if v then insert i (allocated bm d) else allocated bm d - {i})"
  by (auto simp: allocated_def disk_bit_upd)

lemma alloc_bit_spec:
  assumes "bitmap_ok bm d"
  shows "\<exists>x d'. alloc_bit bm d = (Ok x, d') \<and>
    (case x of
       Some t \<Rightarrow> t < bits_len bm \<and> t \<notin> allocated bm d \<and> (\<forall>k<t. k \<in> allocated bm d) \<and>
         d' = upd_disk_bit d (start_blk_no bm) t True
     | None \<Rightarrow> d' = d \<and> allocated bm d = {..<bits_len bm})"
proof -
  let ?s = "start_blk_no bm" and ?n = "div_ceil (bits_len bm) BLOCK_BITS"
  have p: "0 < BLOCK_BITS" by (simp add: bitmap_consts)
  have cover: "bits_len bm \<le> ?n * BLOCK_BITS" using div_ceil_ge [OF p] .
  have "\<forall>k. 0 \<le> k \<and> k < ?n \<longrightarrow> d (?s + k) \<noteq> None" using assms by (simp add: bitmap_ok_def)
  from walk_blocks_alloc [OF this, of "bits_len bm"] obtain x d' where r:
    "walk_blocks_mut (alloc_bit_step (bits_len bm)) (bits_len bm) [?s..<?s + ?n] 0 0 d = (Ok x, d')"
    "case x of
       Some t \<Rightarrow> t < bits_len bm \<and> \<not> disk_bit d ?s t \<and> (\<forall>k<t. disk_bit d ?s k) \<and> d' = upd_disk_bit d ?s t True
     | None \<Rightarrow> d' = d \<and> (\<forall>k. k < bits_len bm \<and> k < ?n * BLOCK_BITS \<longrightarrow> disk_bit d ?s k)"
    by (auto split: option.splits)
  have "alloc_bit bm d = (Ok x, d')"
    using r(1) assms by (simp add: alloc_bit_def foreach_64_bits_mut_def bitmap_ok_def)
  then show ?thesis
    using r(2) cover by (cases x) (auto simp: allocated_def)
qed

lemma locate_bit_pos_eq:
  "locate_bit_pos bm i = (start_blk_no bm + i div BLOCK_BITS, (i mod BLOCK_BITS) div 64, (i mod BLOCK_BITS) mod 64)"
proof -
  have "i - i div BLOCK_BITS * BLOCK_BITS = i mod BLOCK_BITS" by (simp add: minus_div_mult_eq_mod)
  moreover have "i mod BLOCK_BITS mod 64 = i mod 64" by (simp add: bitmap_consts mod_mod_cancel)
  ultimately show ?thesis by (simp add: locate_bit_pos_def U64_BITS_def)
qed

lemma bitmap_modify_upd:
  assumes "bitmap_ok bm d" "i < bits_len bm"
  shows "clear_bit bm i d = (Ok (), upd_disk_bit d (start_blk_no bm) i False)"
    "set_bit' bm i d = (Ok (), upd_disk_bit d (start_blk_no bm) i True)"
    "get_bit bm i d = (Ok (i \<in> allocated bm d), d)"
proof -
  have "start_blk_no bm + i div BLOCK_BITS < end_blk_no bm" by (rule bitmap_covers [OF assms(2,1)])
  then obtain blk where blk: "d (start_blk_no bm + i div BLOCK_BITS) = Some blk"
    using assms(1) by (fastforce simp: bitmap_ok_def)
  note d = bitmap_modify_def bitmap_read_def locate_bit_pos_eq bind_def get_block_def put_block_def
    upd_disk_bit_def upd_blk_bit_def
  show "clear_bit bm i d = (Ok (), upd_disk_bit d (start_blk_no bm) i False)"
    using blk assms(2) by (simp add: clear_bit_def d)
  show "set_bit' bm i d = (Ok (), upd_disk_bit d (start_blk_no bm) i True)"
    using blk assms(2) by (simp add: set_bit'_def d)
  show "get_bit bm i d = (Ok (i \<in> allocated bm d), d)"
    using blk assms(2)
    by (simp add: get_bit_def d allocated_def disk_bit_def blk_bit_def and_one_eq bit_iff_odd_drop_bit
        odd_iff_mod_2_eq_one)
qed

lemma bitmap_allocator:
  "bit_allocator (bitmap_ok bm) (allocated bm) (bits_len bm) (alloc_bit bm) (clear_bit bm)"
proof
  show "allocated bm s \<subseteq> {..<bits_len bm}" for s by (auto simp: allocated_def)
next
  fix s assume ok: "bitmap_ok bm s"
  from alloc_bit_spec [OF ok] obtain x d' where a: "alloc_bit bm s = (Ok x, d')" and
    c: "case x of
       Some t \<Rightarrow> t < bits_len bm \<and> t \<notin> allocated bm s \<and> (\<forall>k<t. k \<in> allocated bm s) \<and>
         d' = upd_disk_bit s (start_blk_no bm) t True
     | None \<Rightarrow> d' = s \<and> allocated bm s = {..<bits_len bm}"
    by blast
  show "\<exists>x s'. alloc_bit bm s = (Ok x, s') \<and> bitmap_ok bm s' \<and>
      (case x of
         Some i \<Rightarrow> i < bits_len bm \<and> i \<notin> allocated bm s \<and> allocated bm s' = insert i (allocated bm s) \<and>
           (\<forall>k<i. k \<in> allocated bm s)
       | None \<Rightarrow> s' = s \<and> allocated bm s = {..<bits_len bm})"
    using a c ok by (intro exI [of _ x] exI [of _ d'])
      (cases x; simp add: bitmap_ok_upd allocated_upd)
next
  fix s i assume "bitmap_ok bm s" "i < bits_len bm"
  then show "\<exists>s'. clear_bit bm i s = (Ok (), s') \<and> bitmap_ok bm s' \<and> allocated bm s' = allocated bm s - {i}"
    by (simp add: bitmap_modify_upd bitmap_ok_upd allocated_upd)
qed

interpretation bmp: bit_allocator "bitmap_ok bm" "allocated bm" "bits_len bm" "alloc_bit bm" "clear_bit bm"
  for bm
  by (rule bitmap_allocator)

section \<open>Counting\<close>

definition ones :: "(nat \<Rightarrow> bool) \<Rightarrow> nat \<Rightarrow> nat \<Rightarrow> nat" where
  "ones P a b = card {i. a \<le> i \<and> i < b \<and> P i}"

lemma ones_split: "a \<le> b \<Longrightarrow> b \<le> c \<Longrightarrow> ones P a c = ones P a b + ones P b c"
proof -
  assume "a \<le> b" "b \<le> c"
  then have "{i. a \<le> i \<and> i < c \<and> P i} = {i. a \<le> i \<and> i < b \<and> P i} \<union> {i. b \<le> i \<and> i < c \<and> P i}" by auto
  moreover have "card ({i. a \<le> i \<and> i < b \<and> P i} \<union> {i. b \<le> i \<and> i < c \<and> P i}) =
      card {i. a \<le> i \<and> i < b \<and> P i} + card {i. b \<le> i \<and> i < c \<and> P i}"
    by (rule card_Un_disjoint) auto
  ultimately show ?thesis unfolding ones_def by simp
qed

lemma ones_same [simp]: "ones P a a = 0"
  by (simp add: ones_def)

lemma ones_cong: "(\<And>i. a \<le> i \<Longrightarrow> i < b \<Longrightarrow> P i = Q i) \<Longrightarrow> ones P a b = ones Q a b"
  unfolding ones_def by (rule arg_cong [where f = card]) auto

lemma ones_shift: "ones P (m + a) (m + b) = ones (\<lambda>i. P (m + i)) a b"
proof -
  have "{i. m + a \<le> i \<and> i < m + b \<and> P i} = (+) m ` {i. a \<le> i \<and> i < b \<and> P (m + i)}"
    by (auto simp: image_iff) (metis le_add1 le_add_diff_inverse le_trans nat_add_left_cancel_le nat_add_left_cancel_less)
  then show ?thesis unfolding ones_def by (simp add: card_image)
qed

lemma count_ones_blk: "count_ones (u64_at blk j) = ones (blk_bit blk) (64 * j) (64 * Suc j)"
proof -
  have "ones (blk_bit blk) (64 * j + 0) (64 * j + 64) = ones (\<lambda>i. blk_bit blk (64 * j + i)) 0 64"
    by (rule ones_shift)
  also have "\<dots> = ones (bit (u64_at blk j)) 0 64" by (rule ones_cong) (simp add: blk_bit_word)
  also have "\<dots> = card (set (filter (bit (u64_at blk j)) [0..<64]))"
    unfolding ones_def by (rule arg_cong [where f = card]) auto
  also have "\<dots> = count_ones (u64_at blk j)"
    unfolding count_ones_def by (rule distinct_card) simp
  finally show ?thesis by (simp add: add.commute)
qed

abbreviation count_step :: "nat \<Rightarrow> nat \<Rightarrow> u64 \<Rightarrow> nat option" where
  "count_step \<equiv> (\<lambda>total _ bits.
     if total + count_ones bits < 2 ^ 32 then Some (total + count_ones bits) else None)"

text \<open>The walk over a block counts up to the last word of the bitmap, the \<open>e\<close>-th of this block, if that is
  inside the block.\<close>

lemma walk_words_count:
  assumes "j \<le> n" "j < e" "u + (e - j) = div_ceil len 64"
    "c + ones (blk_bit blk) (64 * j) (64 * min e n) < 2 ^ 32"
  shows "walk_words count_step len [j..<n] blk u c =
    Some (e \<le> n, u + (min e n - j), c + ones (blk_bit blk) (64 * j) (64 * min e n))"
  using assms
proof (induction "n - j" arbitrary: j u c)
  case 0
  then show ?case by simp
next
  case (Suc x)
  then have jn: "j < n" by simp
  then have upt: "[j..<n] = j # [Suc j..<n]" by (simp add: upt_conv_Cons)
  have sp: "ones (blk_bit blk) (64 * j) (64 * min e n) =
      count_ones (u64_at blk j) + ones (blk_bit blk) (64 * Suc j) (64 * min e n)"
    unfolding count_ones_blk using Suc.prems(2) jn by (intro ones_split) auto
  then have small: "c + count_ones (u64_at blk j) < 2 ^ 32" using Suc.prems(4) by linarith
  have last: "len \<le> Suc u * 64 \<longleftrightarrow> e = Suc j"
  proof
    assume "len \<le> Suc u * 64"
    then have "div_ceil len 64 \<le> Suc u" by (intro div_ceil_le) auto
    then show "e = Suc j" using Suc.prems(2,3) by linarith
  next
    assume "e = Suc j"
    then have "div_ceil len 64 = Suc u" using Suc.prems(3) by simp
    then show "len \<le> Suc u * 64" using div_ceil_ge [of 64 len] by simp
  qed
  show ?case
  proof (cases "e = Suc j")
    case True
    then show ?thesis unfolding upt using small last sp jn by (simp add: U64_BITS_def)
  next
    case False
    have "walk_words count_step len [Suc j..<n] blk (Suc u) (c + count_ones (u64_at blk j)) =
      Some (e \<le> n, Suc u + (min e n - Suc j),
        c + count_ones (u64_at blk j) + ones (blk_bit blk) (64 * Suc j) (64 * min e n))"
    proof (rule Suc.hyps(1))
      show "c + count_ones (u64_at blk j) + ones (blk_bit blk) (64 * Suc j) (64 * min e n) < 2 ^ 32"
        using Suc.prems(4) sp by simp
    qed (use Suc False jn in auto)
    then show ?thesis unfolding upt using small last False sp jn Suc.prems(2) by (simp add: U64_BITS_def)
  qed
qed

lemma walk_blocks_count:
  assumes "\<forall>k. m \<le> k \<and> k < n \<longrightarrow> d (s + k) \<noteq> None" "m < n"
    "W = div_ceil len 64" "m * 512 < W" "W \<le> n * 512"
    "c + ones (disk_bit d s) (m * BLOCK_BITS) (64 * W) < 2 ^ 32"
  shows "walk_blocks count_step len [s + m..<s + n] (m * 512) c d =
    (Ok (c + ones (disk_bit d s) (m * BLOCK_BITS) (64 * W)), d)"
  using assms
proof (induction "n - m" arbitrary: m c)
  case (Suc x)
  have bb: "BLOCK_BITS = 32768" by (simp add: bitmap_consts)
  have upt: "[s + m..<s + n] = (s + m) # [s + Suc m..<s + n]" using Suc.prems(2) by (simp add: upt_conv_Cons)
  obtain blk where blk: "d (s + m) = Some blk" using Suc.prems(1,2) by blast
  let ?e = "W - m * 512"
  have shift: "ones (disk_bit d s) (m * BLOCK_BITS + a) (m * BLOCK_BITS + b) = ones (blk_bit blk) a b"
    if "b \<le> BLOCK_BITS" for a b
    unfolding ones_shift by (rule ones_cong) (use that blk in \<open>simp add: disk_bit_def\<close>)
  let ?t = "ones (blk_bit blk) 0 (64 * min ?e 512)"
  have t: "?t = ones (disk_bit d s) (m * BLOCK_BITS) (m * BLOCK_BITS + 64 * min ?e 512)"
    using shift [of "64 * min ?e 512" 0] by (simp add: bb)
  have sp: "ones (disk_bit d s) (m * BLOCK_BITS) (64 * W) =
      ?t + ones (disk_bit d s) (m * BLOCK_BITS + 64 * min ?e 512) (64 * W)"
    unfolding t using Suc.prems(4) by (intro ones_split) (auto simp: bb)
  have w: "walk_words count_step len [0..<512] blk (m * 512) c =
      Some (?e \<le> 512, m * 512 + min ?e 512, c + ?t)"
    using walk_words_count [of 0 512 ?e "m * 512" len c blk] Suc.prems(3,4,6) sp by simp
  have g: "get_block (s + m) d = (Ok blk, d)" using blk by (simp add: get_block_def)
  show ?case
  proof (cases "?e \<le> 512")
    case True
    then have "m * BLOCK_BITS + 64 * min ?e 512 = 64 * W" using Suc.prems(4) by (simp add: bb)
    then have "ones (disk_bit d s) (m * BLOCK_BITS) (64 * W) = ?t" using sp by simp
    then show ?thesis unfolding upt using w g True by (simp add: bind_def BLOCK_SIZE_def)
  next
    case False
    have m': "m * BLOCK_BITS + 64 * min ?e 512 = Suc m * BLOCK_BITS" using False by (simp add: bb)
    have "walk_blocks count_step len [s + Suc m..<s + n] (Suc m * 512) (c + ?t) d =
      (Ok (c + ?t + ones (disk_bit d s) (Suc m * BLOCK_BITS) (64 * W)), d)"
    proof (rule Suc.hyps(1))
      show "c + ?t + ones (disk_bit d s) (Suc m * BLOCK_BITS) (64 * W) < 2 ^ 32"
        using Suc.prems(6) sp m' by simp
    qed (use Suc False in auto)
    then show ?thesis unfolding upt using w g False sp m' by (simp add: bind_def BLOCK_SIZE_def add.commute)
  qed
qed simp

lemma count_allocated_bits_eq:
  assumes ok: "bitmap_ok bm d" and small: "bits_len bm < 2 ^ 32"
  shows "count_allocated_bits bm d = (Ok (card (allocated bm d)), d)"
proof (cases "bits_len bm = 0")
  case True
  then show ?thesis using ok
    by (simp add: bitmap_ok_def count_allocated_bits_def foreach_64_bits_def allocated_def div_ceil_def bitmap_consts)
next
  case False
  let ?s = "start_blk_no bm" and ?n = "div_ceil (bits_len bm) BLOCK_BITS" and ?W = "div_ceil (bits_len bm) 64"
  have "{i. i < 64 * ?W \<and> disk_bit d ?s i} = allocated bm d"
  proof -
    have ge: "bits_len bm \<le> 64 * ?W" using div_ceil_ge [of 64 "bits_len bm"] by simp
    have tail: "i < bits_len bm" if "i < 64 * ?W" "disk_bit d ?s i" for i
      using ok that unfolding bitmap_ok_def by (meson not_le)
    show ?thesis using ge tail unfolding allocated_def by (blast intro: less_le_trans)
  qed
  then have tot: "ones (disk_bit d ?s) 0 (64 * ?W) = card (allocated bm d)" by (simp add: ones_def)
  have "card (allocated bm d) < 2 ^ 32" using bmp.card_used [of bm d] small by linarith
  moreover have "?W \<le> ?n * 512"
    using div_ceil_ge [of BLOCK_BITS "bits_len bm"] by (intro div_ceil_le) (auto simp: bitmap_consts)
  moreover have "0 < ?n" "0 < ?W" using False by (auto intro!: div_ceil_pos simp: bitmap_consts)
  ultimately have "walk_blocks count_step (bits_len bm) [?s + 0..<?s + ?n] (0 * 512) 0 d =
      (Ok (0 + ones (disk_bit d ?s) (0 * BLOCK_BITS) (64 * ?W)), d)"
    using ok tot by (intro walk_blocks_count) (auto simp: bitmap_ok_def)
  then show ?thesis using ok tot
    by (simp add: count_allocated_bits_def foreach_64_bits_def bitmap_ok_def)
qed

section \<open>Properties\<close>

lemma le_nat_zeros: "le_nat (replicate n 0) = 0"
  by (induction n) auto

lemma blk_bit_zero [simp]: "\<not> blk_bit zero_block i"
proof -
  have "rd_bytes zero_block off 8 = replicate 8 0" for off
    by (rule nth_equalityI) (auto simp: rd_bytes_def zero_block_def)
  then show ?thesis by (simp add: blk_bit_def u64_at_def le_nat_zeros)
qed

lemma fresh_bitmap:
  "bitmap_ok (bitmap_new s n) (\<lambda>_. Some zero_block)" "allocated (bitmap_new s n) (\<lambda>_. Some zero_block) = {}"
  by (simp_all add: bitmap_ok_def allocated_def bitmap_new_def disk_bit_def)

lemma bits_len_new [simp]: "bits_len (bitmap_new s n) = n"
  by (simp add: bitmap_new_def)

lemma upd_disk_bit_frame: "b \<noteq> s + i div BLOCK_BITS \<Longrightarrow> upd_disk_bit d s i v b = d b"
  by (simp add: upd_disk_bit_def)

lemma upd_bitmap_frame:
  assumes "bitmap_ok bm d" "i < bits_len bm" "b < start_blk_no bm \<or> end_blk_no bm \<le> b"
  shows "upd_disk_bit d (start_blk_no bm) i v b = d b"
  using bitmap_covers [OF assms(2,1)] assms(3) by (intro upd_disk_bit_frame) auto

text \<open>C32: Bitmap allocation is first-fit. On a bitmap whose blocks are readable, \<open>alloc_bit\<close> never fails with an
  error: it returns \<open>None\<close> exactly when all bits are taken, leaving the disk as it was, and otherwise returns the lowest
  free index, which becomes allocated while every other bit and every block outside the bitmap keep
  their values.\<close>

theorem alloc_bit_first_fit:
  assumes "bitmap_ok bm d"
  shows "\<exists>x d'. alloc_bit bm d = (Ok x, d') \<and> bitmap_ok bm d' \<and>
    (x = None \<longleftrightarrow> card (allocated bm d) = bits_len bm) \<and>
    (case x of
       None \<Rightarrow> d' = d
     | Some i \<Rightarrow> i < bits_len bm \<and> i \<notin> allocated bm d \<and> {..<i} \<subseteq> allocated bm d \<and>
         allocated bm d' = insert i (allocated bm d)) \<and>
    (\<forall>b. b < start_blk_no bm \<or> end_blk_no bm \<le> b \<longrightarrow> d' b = d b)"
proof -
  from alloc_bit_spec [OF assms] obtain x d' where a: "alloc_bit bm d = (Ok x, d')" and
    c: "case x of
       Some t \<Rightarrow> t < bits_len bm \<and> t \<notin> allocated bm d \<and> (\<forall>k<t. k \<in> allocated bm d) \<and>
         d' = upd_disk_bit d (start_blk_no bm) t True
     | None \<Rightarrow> d' = d \<and> allocated bm d = {..<bits_len bm}"
    by blast
  have full: "x = None \<longleftrightarrow> card (allocated bm d) = bits_len bm"
    using bmp.alloc_full_iff [OF assms] a by simp
  show ?thesis
  proof (cases x)
    case None
    with a c full assms show ?thesis by auto
  next
    case (Some i)
    with c have i: "i < bits_len bm" "i \<notin> allocated bm d" "{..<i} \<subseteq> allocated bm d"
      "d' = upd_disk_bit d (start_blk_no bm) i True" by auto
    with Some a full assms show ?thesis
      by (intro exI [of _ x] exI [of _ d']) (simp add: bitmap_ok_upd allocated_upd upd_bitmap_frame)
  qed
qed

theorem alloc_bit_first_fit_witness:
  "\<exists>d'. alloc_bit (bitmap_new 4 70) (\<lambda>_. Some zero_block) = (Ok (Some 0), d') \<and>
     allocated (bitmap_new 4 70) d' = {0}"
proof -
  let ?bm = "bitmap_new 4 70" and ?d = "\<lambda>_. Some zero_block"
  from alloc_bit_first_fit [OF fresh_bitmap(1) [of 4 70]] obtain x d' where
    a: "alloc_bit ?bm ?d = (Ok x, d')" "x = None \<longleftrightarrow> card (allocated ?bm ?d) = bits_len ?bm"
      "case x of None \<Rightarrow> d' = ?d
       | Some i \<Rightarrow> i < bits_len ?bm \<and> i \<notin> allocated ?bm ?d \<and> {..<i} \<subseteq> allocated ?bm ?d \<and>
         allocated ?bm d' = insert i (allocated ?bm ?d)"
    by blast
  then obtain i where "x = Some i" by (auto simp: fresh_bitmap(2))
  with a show ?thesis by (auto simp: fresh_bitmap(2) lessThan_empty_iff)
qed

text \<open>C33: Allocation up to capacity. If \<open>n\<close> more bits fit, then \<open>n\<close> successive calls of \<open>alloc_bit\<close> all
  succeed and return \<open>n\<close> different, increasing indices none of which was in use, and the bitmap afterwards
  counts (\<open>count_allocated_bits\<close>, \<open>get_bit\<close>) exactly the old and the new ones.\<close>

theorem alloc_bit_capacity:
  assumes "bitmap_ok bm d" "card (allocated bm d) + n \<le> bits_len bm" "bits_len bm < 2 ^ 32"
  shows "\<exists>is d'. alloc_many (alloc_bit bm) n d = (Ok (map Some is), d') \<and> length is = n \<and>
    distinct is \<and> sorted is \<and> set is \<inter> allocated bm d = {} \<and>
    count_allocated_bits bm d' = (Ok (card (allocated bm d) + n), d') \<and>
    (\<forall>i<bits_len bm. get_bit bm i d' = (Ok (i \<in> allocated bm d \<or> i \<in> set is), d'))"
proof -
  from bmp.alloc_many_fits [OF assms(1,2)] obtain "is" d' where
    r: "alloc_many (alloc_bit bm) n d = (Ok (map Some is), d')" "length is = n" "distinct is"
      "set is \<inter> allocated bm d = {}" "sorted is" "allocated bm d' = allocated bm d \<union> set is" "bitmap_ok bm d'"
    by blast
  have "card (allocated bm d') = card (allocated bm d) + n"
    using r bmp.finite_used by (simp add: card_Un_disjoint Int_commute distinct_card)
  then show ?thesis
    using r count_allocated_bits_eq [OF r(7) assms(3)] bitmap_modify_upd(3) [OF r(7)] by auto
qed

theorem alloc_bit_capacity_witness:
  "\<exists>is d'. alloc_many (alloc_bit (bitmap_new 4 3)) 3 (\<lambda>_. Some zero_block) = (Ok (map Some is), d') \<and>
     distinct is \<and> length is = 3 \<and> count_allocated_bits (bitmap_new 4 3) d' = (Ok 3, d')"
  using alloc_bit_capacity [OF fresh_bitmap(1) [of 4 3], of 3]
  by (auto simp: fresh_bitmap(2))

end
