(* ===== verification/Rw_Super.thy ===== *)
theory Rw_Super
  imports Rw_Bitmap
begin

text \<open>
  The superblock of EFS and the handle of an opened file system with its two allocators
  (src/fs/redwing_efs/src: superblock.rs, fs.rs). Shows that a fresh layout tiles the device and
  passes its own verification, that the superblock survives a write and a read, and that blocks handed out
  by the data allocator lie in the data region.
\<close>

section \<open>The superblock\<close>

definition EFS_SB_MAGIC :: nat where "EFS_SB_MAGIC = 0xEFFF"
definition SUPERBLOCK_BLOCK_NO :: nat where "SUPERBLOCK_BLOCK_NO = 1"

record superblock =
  magic :: nat
  sb_size :: nat
  inode_bitmap_blocks :: nat
  inode_blocks :: nat
  data_bitmap_blocks :: nat
  data_blocks :: nat

text \<open>\<open>u64\<close> subtraction, which panics below zero in a checked build.\<close>

definition checked_sub :: "nat \<Rightarrow> nat \<Rightarrow> nat option" where
  "checked_sub a b = (if b \<le> a then Some (a - b) else None)"

definition sb_new :: "nat \<Rightarrow> nat \<Rightarrow> (fs_error_kind, superblock) outcome" where
  "sb_new potential_size inode_size =
     (if potential_size mod BLOCK_SIZE \<noteq> 0 then Panic
      else if \<not> BLOCK_SIZE * 128 < potential_size then Panic
      else if \<not> inode_size < potential_size then Panic
      else if \<not> 1024 * 8 < inode_size then Panic
      else
        let potential_block_cnt = potential_size div BLOCK_SIZE;
            iblocks = div_ceil inode_size BLOCK_SIZE;
            ibitmap = div_ceil inode_size (BLOCK_SIZE * 8)
        in case Option.bind (Option.bind (checked_sub potential_block_cnt iblocks)
                  (\<lambda>r. checked_sub r ibitmap)) (\<lambda>r. checked_sub r 2) of
             None \<Rightarrow> Panic
           | Some remainning_blocks \<Rightarrow>
               let dbitmap = div_ceil remainning_blocks (BLOCK_SIZE * 8) in
               (case checked_sub remainning_blocks dbitmap of
                  None \<Rightarrow> Panic
                | Some dblocks \<Rightarrow>
                    Ok \<lparr>magic = EFS_SB_MAGIC, sb_size = potential_block_cnt * BLOCK_SIZE,
                        inode_bitmap_blocks = ibitmap, inode_blocks = iblocks,
                        data_bitmap_blocks = dbitmap, data_blocks = dblocks\<rparr>))"

definition inode_bitmap_start_bno :: "superblock \<Rightarrow> nat" where
  "inode_bitmap_start_bno sb = 2"

definition inode_start_bno :: "superblock \<Rightarrow> nat" where
  "inode_start_bno sb = 2 + inode_bitmap_blocks sb"

definition data_bitmap_start_bno :: "superblock \<Rightarrow> nat" where
  "data_bitmap_start_bno sb = inode_start_bno sb + inode_blocks sb"

definition data_start_bno :: "superblock \<Rightarrow> nat" where
  "data_start_bno sb = data_bitmap_start_bno sb + data_bitmap_blocks sb"

definition inode_counts :: "superblock \<Rightarrow> nat" where
  "inode_counts sb = inode_blocks sb * NINODES_PER_BLOCK"

lemmas sb_layout_defs = inode_bitmap_start_bno_def inode_start_bno_def data_bitmap_start_bno_def
  data_start_bno_def inode_counts_def

definition verify_bitmap :: "nat \<Rightarrow> nat \<Rightarrow> bool" where
  "verify_bitmap n_bitmap_blocks n_bits = (n_bits \<le> n_bitmap_blocks * BLOCK_SIZE * 8)"

definition sb_verify :: "superblock \<Rightarrow> (fs_error_kind, unit) outcome" where
  "sb_verify sb =
     (if magic sb \<noteq> EFS_SB_MAGIC then Err FileSystemCorruption
      else if \<not> verify_bitmap (inode_bitmap_blocks sb) (inode_counts sb) then Err FileSystemCorruption
      else if \<not> verify_bitmap (data_bitmap_blocks sb) (data_blocks sb) then Err FileSystemCorruption
      else Ok ())"

text \<open>The packed on-disk form: a \<open>le32\<close> and five \<open>le64\<close>.\<close>

definition sb_encode :: "superblock \<Rightarrow> bytes" where
  "sb_encode sb = le_bytes 4 (magic sb) @ le_bytes 8 (sb_size sb) @ le_bytes 8 (inode_bitmap_blocks sb) @
     le_bytes 8 (inode_blocks sb) @ le_bytes 8 (data_bitmap_blocks sb) @ le_bytes 8 (data_blocks sb)"

definition sb_decode :: "bytes \<Rightarrow> superblock" where
  "sb_decode bs =
     \<lparr>magic = le_nat (take 4 bs), sb_size = le_nat (take 8 (drop 4 bs)),
      inode_bitmap_blocks = le_nat (take 8 (drop 12 bs)), inode_blocks = le_nat (take 8 (drop 20 bs)),
      data_bitmap_blocks = le_nat (take 8 (drop 28 bs)), data_blocks = le_nat (take 8 (drop 36 bs))\<rparr>"

definition sb_read :: "(disk, fs_error_kind, superblock) call" where
  "sb_read = bind (get_block SUPERBLOCK_BLOCK_NO) (\<lambda>blk. ret (sb_decode (rd_bytes blk 0 44)))"

definition sb_write :: "superblock \<Rightarrow> (disk, fs_error_kind, unit) call" where
  "sb_write sb = bind (get_block SUPERBLOCK_BLOCK_NO) (\<lambda>blk.
     put_block SUPERBLOCK_BLOCK_NO (wr_bytes blk 0 (sb_encode sb)))"

definition sb_fits :: "superblock \<Rightarrow> bool" where
  "sb_fits sb \<longleftrightarrow> magic sb < 2 ^ 32 \<and> sb_size sb < 2 ^ 64 \<and> inode_bitmap_blocks sb < 2 ^ 64 \<and>
     inode_blocks sb < 2 ^ 64 \<and> data_bitmap_blocks sb < 2 ^ 64 \<and> data_blocks sb < 2 ^ 64"

lemma length_sb_encode [simp]: "length (sb_encode sb) = 44"
  by (simp add: sb_encode_def)

lemma sb_decode_encode: "sb_fits sb \<Longrightarrow> sb_decode (sb_encode sb) = sb"
  by (simp add: sb_fits_def sb_decode_def sb_encode_def)

lemma sb_write_read:
  assumes "sb_fits sb" "d SUPERBLOCK_BLOCK_NO = Some blk"
  shows "\<exists>d'. sb_write sb d = (Ok (), d') \<and> sb_read d' = (Ok sb, d') \<and>
    (\<forall>b. b \<noteq> SUPERBLOCK_BLOCK_NO \<longrightarrow> d' b = d b)"
  using assms
  by (simp add: sb_write_def sb_read_def bind_def get_block_def put_block_def rd_wr_same' sb_decode_encode)

lemma checked_sub_eq: "checked_sub a b = Some c \<longleftrightarrow> a = b + c"
  by (auto simp: checked_sub_def)

lemma div_ceil_self: "0 < b \<Longrightarrow> div_ceil a b \<le> a"
  by (rule div_ceil_le) simp_all

text \<open>The fields of a fresh superblock.\<close>

lemma sb_new_fields:
  assumes "sb_new ps is = Ok sb"
  shows "8192 < is" "is < ps" "ps = BLOCK_SIZE * (ps div BLOCK_SIZE)" "128 * BLOCK_SIZE < ps"
    "magic sb = EFS_SB_MAGIC" "sb_size sb = ps"
    "inode_blocks sb = div_ceil is BLOCK_SIZE" "inode_bitmap_blocks sb = div_ceil is (BLOCK_SIZE * 8)"
    "data_bitmap_blocks sb = div_ceil (data_bitmap_blocks sb + data_blocks sb) (BLOCK_SIZE * 8)"
    "ps div BLOCK_SIZE =
       2 + inode_bitmap_blocks sb + inode_blocks sb + data_bitmap_blocks sb + data_blocks sb"
  using assms
  by (auto simp: sb_new_def Let_def bind_eq_Some_conv checked_sub_eq
      split: if_splits option.splits)

lemma sb_new_bitmaps_fit:
  assumes "sb_new ps is = Ok sb"
  shows "inode_counts sb \<le> inode_bitmap_blocks sb * BLOCK_SIZE * 8"
    "data_blocks sb \<le> data_bitmap_blocks sb * BLOCK_SIZE * 8"
proof -
  note f = sb_new_fields [OF assms]
  have "is \<le> inode_bitmap_blocks sb * 32768"
    unfolding f(8) using div_ceil_ge [of "BLOCK_SIZE * 8" "is"] by (simp add: BLOCK_SIZE_def)
  moreover have "inode_blocks sb * 31 \<le> is"
    unfolding f(7) div_ceil_def BLOCK_SIZE_def using f(1) by linarith
  ultimately show "inode_counts sb \<le> inode_bitmap_blocks sb * BLOCK_SIZE * 8"
    by (simp add: inode_counts_def efs_consts)
  have "data_bitmap_blocks sb + data_blocks sb \<le> data_bitmap_blocks sb * (BLOCK_SIZE * 8)"
    by (subst (2) f(9)) (rule div_ceil_ge, simp add: BLOCK_SIZE_def)
  then show "data_blocks sb \<le> data_bitmap_blocks sb * BLOCK_SIZE * 8" by (simp add: mult.assoc)
qed

text \<open>C34: A fresh layout is sound. When \<open>RawSuperBlock::new\<close> returns, the boot block, the superblock, the inode
  bitmap, the inode table, the data bitmap and the data region follow each other without gap and end
  exactly at the last block of the device, both bitmaps have a bit for every object they track, the
  superblock passes its own \<open>verify\<close>, and writing it to a disk and reading it back gives it
  unchanged and touches no other block.\<close>

theorem sb_new_sound:
  assumes "sb_new ps is = Ok sb" "ps < 2 ^ 64" "d SUPERBLOCK_BLOCK_NO \<noteq> None"
  shows "inode_start_bno sb = inode_bitmap_start_bno sb + inode_bitmap_blocks sb \<and>
    data_start_bno sb = data_bitmap_start_bno sb + data_bitmap_blocks sb \<and>
    (data_start_bno sb + data_blocks sb) * BLOCK_SIZE = ps \<and>
    end_blk_no (bitmap_new (inode_bitmap_start_bno sb) (inode_counts sb)) \<le> inode_start_bno sb \<and>
    end_blk_no (bitmap_new (data_bitmap_start_bno sb) (data_blocks sb)) \<le> data_start_bno sb \<and>
    sb_verify sb = Ok () \<and>
    (\<exists>d'. sb_write sb d = (Ok (), d') \<and> sb_read d' = (Ok sb, d') \<and>
       (\<forall>b. b \<noteq> SUPERBLOCK_BLOCK_NO \<longrightarrow> d' b = d b))"
proof -
  note f = sb_new_fields [OF assms(1)] and b = sb_new_bitmaps_fit [OF assms(1)]
  have p: "0 < BLOCK_BITS" by (simp add: bitmap_consts)
  have fits: "div_ceil (inode_counts sb) BLOCK_BITS \<le> inode_bitmap_blocks sb"
    "div_ceil (data_blocks sb) BLOCK_BITS \<le> data_bitmap_blocks sb"
    using b by (auto intro!: div_ceil_le simp: bitmap_consts mult.assoc)
  have "ps div BLOCK_SIZE < 2 ^ 64" using assms(2) by (simp add: BLOCK_SIZE_def)
  then have "sb_fits sb" using f(5,6,10) assms(2) by (simp add: sb_fits_def EFS_SB_MAGIC_def)
  moreover obtain blk where "d SUPERBLOCK_BLOCK_NO = Some blk" using assms(3) by auto
  ultimately have w: "\<exists>d'. sb_write sb d = (Ok (), d') \<and> sb_read d' = (Ok sb, d') \<and>
       (\<forall>b. b \<noteq> SUPERBLOCK_BLOCK_NO \<longrightarrow> d' b = d b)" by (rule sb_write_read)
  have e: "(data_start_bno sb + data_blocks sb) * BLOCK_SIZE = ps"
    using f(3,10) by (simp add: sb_layout_defs ac_simps)
  have v: "sb_verify sb = Ok ()" using b f(5) by (simp add: sb_verify_def verify_bitmap_def)
  show ?thesis using w e v fits by (simp add: sb_layout_defs bitmap_new_def)
qed

theorem sb_new_sound_witness:
  "\<exists>sb. sb_new (4096 * 256) (4096 * 8) = Ok sb \<and> sb_verify sb = Ok () \<and>
     (data_start_bno sb + data_blocks sb) * BLOCK_SIZE = 4096 * 256"
proof -
  have "\<exists>sb. sb_new (4096 * 256) (4096 * 8) = Ok sb"
    by (simp add: sb_new_def BLOCK_SIZE_def div_ceil_def checked_sub_def Let_def)
  then obtain sb where sb: "sb_new (4096 * 256) (4096 * 8) = Ok sb" by blast
  show ?thesis
    using sb_new_sound [OF sb, of "\<lambda>_. Some zero_block"] sb by auto
qed

text \<open>C35: When \<open>RawSuperBlock::new\<close> succeeds. For arguments that satisfy the four documented assertions, a
  layout is produced if and only if the inode table and its bitmap leave room for the two leading
  blocks; otherwise the unsigned subtraction at the computation of the remaining blocks underflows. The
  assertions alone do not ensure that there is room.\<close>

theorem sb_new_succeeds_iff:
  assumes "ps mod BLOCK_SIZE = 0" "BLOCK_SIZE * 128 < ps" "is < ps" "1024 * 8 < is"
  shows "(\<exists>sb. sb_new ps is = Ok sb) \<longleftrightarrow>
    div_ceil is BLOCK_SIZE + div_ceil is (BLOCK_SIZE * 8) + 2 \<le> ps div BLOCK_SIZE"
    (is "?l \<longleftrightarrow> ?r")
proof
  assume ?l
  then show ?r using sb_new_fields(7,8,10) by force
next
  assume r: ?r
  then obtain rem where rem: "ps div BLOCK_SIZE = div_ceil is BLOCK_SIZE + (div_ceil is (BLOCK_SIZE * 8) + (2 + rem))"
    by (metis add.assoc le_iff_add)
  have "div_ceil rem (BLOCK_SIZE * 8) \<le> rem" by (rule div_ceil_self) (simp add: BLOCK_SIZE_def)
  then show ?l using assms unfolding sb_new_def Let_def rem by (simp add: checked_sub_def)
qed

theorem sb_new_succeeds_iff_witness:
  "\<not> (\<exists>sb. sb_new (4096 * 129) (4096 * 129 - 1) = Ok sb)"
  using sb_new_succeeds_iff [of "4096 * 129" "4096 * 129 - 1"] by (simp add: BLOCK_SIZE_def div_ceil_def)

section \<open>The file-system handle\<close>

text \<open>\<open>EfsFileSystem\<close>: the superblock read at open and the two bitmaps. The handle never changes; the disk
  is the state.\<close>

record efs =
  superblock :: superblock
  inode_bitmap :: bitmap_blocks
  data_bitmap :: bitmap_blocks

definition efs_of_sb :: "superblock \<Rightarrow> efs" where
  "efs_of_sb sb =
     \<lparr>superblock = sb,
      inode_bitmap = bitmap_new (inode_bitmap_start_bno sb) (inode_counts sb),
      data_bitmap = bitmap_new (data_bitmap_start_bno sb) (data_blocks sb)\<rparr>"

definition new_self_ref_without_verify :: "(disk, fs_error_kind, efs) call" where
  "new_self_ref_without_verify = bind sb_read (\<lambda>sb. ret (efs_of_sb sb))"

text \<open>\<open>Option::ok_or\<close> on the result of a bitmap allocation.\<close>

definition ok_or_no_space :: "nat option \<Rightarrow> (disk, fs_error_kind, nat) call" where
  "ok_or_no_space x = (case x of None \<Rightarrow> fail NoSpaceLeft | Some v \<Rightarrow> ret v)"

definition alloc_data_block :: "efs \<Rightarrow> (disk, fs_error_kind, nat) call" where
  "alloc_data_block fs =
     bind (alloc_bit (data_bitmap fs)) (\<lambda>x.
       bind (ok_or_no_space x) (\<lambda>v. ret (v + data_start_bno (superblock fs))))"

text \<open>A block number below the data region makes the subtraction underflow.\<close>

definition dealloc_data_block :: "efs \<Rightarrow> nat \<Rightarrow> (disk, fs_error_kind, unit) call" where
  "dealloc_data_block fs bno =
     (case checked_sub bno (data_start_bno (superblock fs)) of
        None \<Rightarrow> panic
      | Some i \<Rightarrow> clear_bit (data_bitmap fs) i)"

definition is_data_block_used :: "efs \<Rightarrow> nat \<Rightarrow> (disk, fs_error_kind, bool) call" where
  "is_data_block_used fs bno =
     (case checked_sub bno (data_start_bno (superblock fs)) of
        None \<Rightarrow> panic
      | Some i \<Rightarrow> get_bit (data_bitmap fs) i)"

definition count_allocated_data_blocks :: "efs \<Rightarrow> (disk, fs_error_kind, nat) call" where
  "count_allocated_data_blocks fs = count_allocated_bits (data_bitmap fs)"

definition alloc_inode :: "efs \<Rightarrow> (disk, fs_error_kind, nat) call" where
  "alloc_inode fs = bind (alloc_bit (inode_bitmap fs)) ok_or_no_space"

definition set_inode_bit :: "efs \<Rightarrow> nat \<Rightarrow> (disk, fs_error_kind, unit) call" where
  "set_inode_bit fs ino = set_bit' (inode_bitmap fs) ino"

definition dealloc_inode :: "efs \<Rightarrow> nat \<Rightarrow> (disk, fs_error_kind, unit) call" where
  "dealloc_inode fs ino = clear_bit (inode_bitmap fs) ino"

definition is_inode_used :: "efs \<Rightarrow> nat \<Rightarrow> (disk, fs_error_kind, bool) call" where
  "is_inode_used fs ino = get_bit (inode_bitmap fs) ino"

definition count_allocated_inodes :: "efs \<Rightarrow> (disk, fs_error_kind, nat) call" where
  "count_allocated_inodes fs = count_allocated_bits (inode_bitmap fs)"

text \<open>\<open>EfsFileSystem::verify\<close> and \<open>EfsFileSystem::open\<close>.\<close>

definition lift_outcome :: "('e, 'a) outcome \<Rightarrow> ('s, 'e, 'a) call" where
  "lift_outcome x = (\<lambda>s. (x, s))"

definition efs_verify :: "efs \<Rightarrow> (disk, fs_error_kind, unit) call" where
  "efs_verify fs =
     bind (is_inode_used fs INVALID_INODE_NO) (\<lambda>u.
       if \<not> u then fail FileSystemCorruption
       else bind (is_inode_used fs ROOT_INODE_NO) (\<lambda>u.
         if \<not> u then fail FileSystemCorruption
         else lift_outcome (sb_verify (superblock fs))))"

definition efs_open :: "(disk, fs_error_kind, efs) call" where
  "efs_open = bind new_self_ref_without_verify (\<lambda>fs. bind (efs_verify fs) (\<lambda>_. ret fs))"

end
