(* ===== verification/Rw_Inode.thy ===== *)
theory Rw_Inode
  imports Rw_Super
begin

text \<open>
  Inodes of EFS (src/fs/redwing_efs/src/inode.rs): the on-disk inode and its encoding, the block map
  with direct, indirect and double-indirect pointers, reading, writing and truncation. The second half
  gives a file its content as a byte string and shows what the operations do to it.
\<close>

section \<open>On-disk inodes\<close>

datatype file_type = Unknown | Directory | File | Device | Symlink

fun file_type_code :: "file_type \<Rightarrow> nat" where
  "file_type_code Unknown = 0"
| "file_type_code Directory = 1"
| "file_type_code File = 2"
| "file_type_code Device = 3"
| "file_type_code Symlink = 4"

text \<open>\<open>FileType::try_from_primitive(..).unwrap_or(Unknown)\<close>.\<close>

definition file_type_of_code :: "nat \<Rightarrow> file_type" where
  "file_type_of_code n =
     (if n = 1 then Directory else if n = 2 then File else if n = 3 then Device
      else if n = 4 then Symlink else Unknown)"

lemma file_type_of_code_code [simp]: "file_type_of_code (file_type_code t) = t"
  by (cases t) (simp_all add: file_type_of_code_def)

lemma file_type_code_bound: "file_type_code t < 2 ^ 32"
  by (cases t) simp_all

fun to_vfs_type :: "file_type \<Rightarrow> vfs_file_type fs_result" where
  "to_vfs_type File = Ok RegularFile"
| "to_vfs_type Directory = Ok VDirectory"
| "to_vfs_type Device = Ok VDevice"
| "to_vfs_type Symlink = Ok VSymlink"
| "to_vfs_type Unknown = Err InvalidData"

record raw_inode =
  i_typ :: nat
  i_size :: nat
  i_nlink :: nat
  i_dev_no :: nat
  direct_blk_ptrs :: "nat list"
  indirect_blk_ptr :: nat
  double_indirect_blk_ptr :: nat

definition raw_inode_default :: raw_inode where
  "raw_inode_default =
     \<lparr>i_typ = file_type_code Unknown, i_size = 0, i_nlink = 0, i_dev_no = 0,
      direct_blk_ptrs = replicate NUM_DIRECT_DATA_BLKS INVALID_DATA_BLOCK_NO,
      indirect_blk_ptr = INVALID_DATA_BLOCK_NO, double_indirect_blk_ptr = INVALID_DATA_BLOCK_NO\<rparr>"

definition raw_file_type :: "raw_inode \<Rightarrow> file_type" where
  "raw_file_type ri = file_type_of_code (i_typ ri)"

definition set_file_type :: "file_type \<Rightarrow> raw_inode \<Rightarrow> raw_inode" where
  "set_file_type t ri = ri\<lparr>i_typ := file_type_code t\<rparr>"

definition increase_link :: "(raw_inode, fs_error_kind, unit) call" where
  "increase_link ri = (if i_nlink ri + 1 < 2 ^ 32 then (Ok (), ri\<lparr>i_nlink := i_nlink ri + 1\<rparr>) else (Panic, ri))"

definition decrease_link :: "(raw_inode, fs_error_kind, unit) call" where
  "decrease_link ri = (Ok (), ri\<lparr>i_nlink := i_nlink ri - 1\<rparr>)"

text \<open>The packed layout: \<open>le32\<close>, \<open>le64\<close>, \<open>le32\<close>, \<open>le32\<close>, twelve \<open>le64\<close> and two \<open>le64\<close>.\<close>

definition inode_encode :: "raw_inode \<Rightarrow> bytes" where
  "inode_encode ri = le_bytes 4 (i_typ ri) @ le_bytes 8 (i_size ri) @ le_bytes 4 (i_nlink ri) @
     le_bytes 4 (i_dev_no ri) @ concat (map (le_bytes 8) (direct_blk_ptrs ri)) @
     le_bytes 8 (indirect_blk_ptr ri) @ le_bytes 8 (double_indirect_blk_ptr ri)"

definition inode_decode :: "bytes \<Rightarrow> raw_inode" where
  "inode_decode bs =
     \<lparr>i_typ = le_nat (take 4 bs), i_size = le_nat (take 8 (drop 4 bs)),
      i_nlink = le_nat (take 4 (drop 12 bs)), i_dev_no = le_nat (take 4 (drop 16 bs)),
      direct_blk_ptrs = map (\<lambda>k. le_nat (take 8 (drop (20 + 8 * k) bs))) [0..<NUM_DIRECT_DATA_BLKS],
      indirect_blk_ptr = le_nat (take 8 (drop 116 bs)),
      double_indirect_blk_ptr = le_nat (take 8 (drop 124 bs))\<rparr>"

section \<open>Inode handles\<close>

record inode =
  ino :: nat
  blk_no :: nat
  blk_offset :: nat

definition inode_new :: "efs \<Rightarrow> nat \<Rightarrow> inode" where
  "inode_new fs n =
     \<lparr>ino = n, blk_no = inode_start_bno (superblock fs) + n div NINODES_PER_BLOCK,
      blk_offset = RAW_INODE_SIZE * (n mod NINODES_PER_BLOCK)\<rparr>"

definition read_raw_inode :: "inode \<Rightarrow> (disk, fs_error_kind, raw_inode) call" where
  "read_raw_inode i = bind (get_block (blk_no i)) (\<lambda>blk.
     bind (assert_that (buf_in_bounds (blk_offset i) RAW_INODE_SIZE)) (\<lambda>_.
       ret (inode_decode (rd_bytes blk (blk_offset i) RAW_INODE_SIZE))))"

text \<open>
  Access to the raw inode through a mutable reference into its block (\<open>as_ref_mut_at\<close> under the write lock,
  held for the whole call): the inode is decoded, the action runs on it and the disk, and what it leaves is in the block
  afterwards, whether the action succeeded or not.
\<close>

definition with_raw_inode :: "inode \<Rightarrow> (raw_inode \<times> disk, fs_error_kind, 'a) call \<Rightarrow> (disk, fs_error_kind, 'a) call" where
  "with_raw_inode i f = bind (get_block (blk_no i)) (\<lambda>blk.
     bind (assert_that (buf_in_bounds (blk_offset i) RAW_INODE_SIZE)) (\<lambda>_ d.
       case f (inode_decode (rd_bytes blk (blk_offset i) RAW_INODE_SIZE), d) of
         (r, ri, d') \<Rightarrow>
           (case d' (blk_no i) of
              Some blk' \<Rightarrow> (r, d'(blk_no i \<mapsto> wr_bytes blk' (blk_offset i) (inode_encode ri)))
            | None \<Rightarrow> (r, d'))))"

text \<open>Actions on one part of a pair.\<close>

definition on_disk :: "(disk, 'e, 'a) call \<Rightarrow> ('p \<times> disk, 'e, 'a) call" where
  "on_disk c = (\<lambda>(p, d). case c d of (r, d') \<Rightarrow> (r, p, d'))"

definition on_inode :: "('p, 'e, 'a) call \<Rightarrow> ('p \<times> disk, 'e, 'a) call" where
  "on_inode c = (\<lambda>(p, d). case c p of (r, p') \<Rightarrow> (r, p', d))"

definition write_raw_inode_with :: "inode \<Rightarrow> (raw_inode, fs_error_kind, 'a) call \<Rightarrow> (disk, fs_error_kind, 'a) call" where
  "write_raw_inode_with i f = with_raw_inode i (on_inode f)"

definition init_inode :: "inode \<Rightarrow> file_type \<Rightarrow> nat \<Rightarrow> (disk, fs_error_kind, unit) call" where
  "init_inode i t devno =
     (if t = Unknown then panic
      else write_raw_inode_with i (\<lambda>ri.
        if raw_file_type ri \<noteq> Unknown then (Err FileSystemCorruption, ri)
        else (Ok (), raw_inode_default\<lparr>i_typ := file_type_code t, i_dev_no := devno\<rparr>)))"

section \<open>The block map\<close>

text \<open>A table of block pointers: the direct pointers of the inode or a block of 512 pointers.\<close>

datatype blk_table = DirectPtrs "nat list" | TableBlock block

fun tbl_len :: "blk_table \<Rightarrow> nat" where
  "tbl_len (DirectPtrs ps) = length ps"
| "tbl_len (TableBlock b) = BLK_NUMS_PER_BLOCK"

fun tbl_get :: "blk_table \<Rightarrow> nat \<Rightarrow> nat" where
  "tbl_get (DirectPtrs ps) k = ps ! k"
| "tbl_get (TableBlock b) k = le_nat (rd_bytes b (8 * k) 8)"

fun tbl_set :: "blk_table \<Rightarrow> nat \<Rightarrow> nat \<Rightarrow> blk_table" where
  "tbl_set (DirectPtrs ps) k p = DirectPtrs (ps[k := p])"
| "tbl_set (TableBlock b) k p = TableBlock (wr_bytes b (8 * k) (le_bytes 8 p))"

fun bmap_from_blk :: "nat \<Rightarrow> nat \<Rightarrow> nat \<Rightarrow> (nat \<Rightarrow> (disk, fs_error_kind, 'a) call) \<Rightarrow> (disk, fs_error_kind, 'a) call"
and bmap0 :: "blk_table \<Rightarrow> nat \<Rightarrow> nat \<Rightarrow> (nat \<Rightarrow> (disk, fs_error_kind, 'a) call) \<Rightarrow> (disk, fs_error_kind, 'a) call" where
  "bmap_from_blk b level idx f = bind (get_block b) (\<lambda>blk. bmap0 (TableBlock blk) level idx f)"
| "bmap0 table level idx f =
     (case level of
        0 \<Rightarrow>
          if tbl_len table \<le> idx then fail FileTooLarge
          else if tbl_get table idx = INVALID_DATA_BLOCK_NO then fail InvalidArgument
          else f (tbl_get table idx)
      | Suc l \<Rightarrow>
          let next_level_table_idx = idx div BLK_NUMS_PER_BLOCK ^ level;
              idx' = idx mod BLK_NUMS_PER_BLOCK ^ level
          in if tbl_len table \<le> next_level_table_idx then fail FileTooLarge
             else if tbl_get table next_level_table_idx = INVALID_DATA_BLOCK_NO then fail InvalidArgument
             else bmap_from_blk (tbl_get table next_level_table_idx) l idx' f)"

declare bmap_from_blk.simps [simp del] bmap0.simps [simp del]

definition bmap_walk :: "raw_inode \<Rightarrow> nat \<Rightarrow> (nat \<Rightarrow> (disk, fs_error_kind, 'a) call) \<Rightarrow> (disk, fs_error_kind, 'a) call" where
  "bmap_walk ri offset f =
     (let idx = offset div BLOCK_SIZE; n = length (direct_blk_ptrs ri) in
      if idx < n then bmap0 (DirectPtrs (direct_blk_ptrs ri)) 0 idx f
      else if idx - n < BLK_NUMS_PER_BLOCK then bmap_from_blk (indirect_blk_ptr ri) 0 (idx - n) f
      else bmap_from_blk (double_indirect_blk_ptr ri) 1 (idx - n - BLK_NUMS_PER_BLOCK) f)"

definition bmap :: "raw_inode \<Rightarrow> nat \<Rightarrow> (disk, fs_error_kind, nat) call" where
  "bmap ri offset = bmap_walk ri offset ret"

text \<open>The mutable walk. The closure works on one pointer slot and the disk; \<open>on_slot\<close> runs an
  action on a slot of a table and \<open>in_block\<close> on a table that lives in a block.\<close>

definition on_slot :: "nat \<Rightarrow> (nat \<times> disk, 'e, 'a) call \<Rightarrow> (blk_table \<times> disk, 'e, 'a) call" where
  "on_slot k c = (\<lambda>(t, d). case c (tbl_get t k, d) of (r, p, d') \<Rightarrow> (r, tbl_set t k p, d'))"

definition in_block :: "nat \<Rightarrow> (blk_table \<times> disk, fs_error_kind, 'a) call \<Rightarrow> (disk, fs_error_kind, 'a) call" where
  "in_block b c = bind (get_block b) (\<lambda>blk d.
     case c (TableBlock blk, d) of
       (r, TableBlock blk', d') \<Rightarrow> (r, d'(b \<mapsto> blk'))
     | (r, DirectPtrs _, d') \<Rightarrow> (r, d'))"

fun bmap_mut_from_blk :: "efs \<Rightarrow> nat \<Rightarrow> nat \<Rightarrow> bool \<Rightarrow> (nat \<times> disk, fs_error_kind, 'a) call \<Rightarrow>
    (nat \<times> disk, fs_error_kind, 'a) call"
and bmap0_mut :: "efs \<Rightarrow> nat \<Rightarrow> nat \<Rightarrow> bool \<Rightarrow> (nat \<times> disk, fs_error_kind, 'a) call \<Rightarrow>
    (blk_table \<times> disk, fs_error_kind, 'a) call" where
  "bmap_mut_from_blk fs level idx alloc f =
     bind (\<lambda>(p, d).
        if p = INVALID_DATA_BLOCK_NO then
          (if \<not> alloc then (Err InvalidArgument, p, d)
           else case alloc_data_block fs d of
                  (Ok b, d') \<Rightarrow> (Ok (), b, d')
                | (Err e, d') \<Rightarrow> (Err e, p, d')
                | (Panic, d') \<Rightarrow> (Panic, p, d'))
        else (Ok (), p, d))
      (\<lambda>_ (p, d). on_disk (in_block p (bmap0_mut fs level idx alloc f)) (p, d))"
| "bmap0_mut fs level idx alloc f =
     (\<lambda>(t, d).
        case level of
          0 \<Rightarrow> if tbl_len t \<le> idx then (Err FileTooLarge, t, d) else on_slot idx f (t, d)
        | Suc l \<Rightarrow>
            let next_level_table_idx = idx div BLK_NUMS_PER_BLOCK ^ level;
                idx' = idx mod BLK_NUMS_PER_BLOCK ^ level
            in if tbl_len t \<le> next_level_table_idx then (Err FileTooLarge, t, d)
               else on_slot next_level_table_idx (bmap_mut_from_blk fs l idx' alloc f) (t, d))"

declare bmap_mut_from_blk.simps [simp del] bmap0_mut.simps [simp del]

definition bmap_walk_mut :: "efs \<Rightarrow> nat \<Rightarrow> bool \<Rightarrow> (nat \<times> disk, fs_error_kind, 'a) call \<Rightarrow>
    (raw_inode \<times> disk, fs_error_kind, 'a) call" where
  "bmap_walk_mut fs offset alloc f = (\<lambda>(ri, d).
     let idx = offset div BLOCK_SIZE; n = length (direct_blk_ptrs ri) in
     if idx < n then
       (case bmap0_mut fs 0 idx alloc f (DirectPtrs (direct_blk_ptrs ri), d) of
          (r, DirectPtrs ps, d') \<Rightarrow> (r, ri\<lparr>direct_blk_ptrs := ps\<rparr>, d')
        | (r, TableBlock _, d') \<Rightarrow> (r, ri, d'))
     else if idx - n < BLK_NUMS_PER_BLOCK then
       (case bmap_mut_from_blk fs 0 (idx - n) alloc f (indirect_blk_ptr ri, d) of
          (r, p, d') \<Rightarrow> (r, ri\<lparr>indirect_blk_ptr := p\<rparr>, d'))
     else
       (case bmap_mut_from_blk fs 1 (idx - n - BLK_NUMS_PER_BLOCK) alloc f (double_indirect_blk_ptr ri, d) of
          (r, p, d') \<Rightarrow> (r, ri\<lparr>double_indirect_blk_ptr := p\<rparr>, d')))"

definition alloc_if_need :: "efs \<Rightarrow> (nat \<times> disk, fs_error_kind, nat) call" where
  "alloc_if_need fs = (\<lambda>(p, d).
     if p = INVALID_DATA_BLOCK_NO then
       (case alloc_data_block fs d of
          (Ok b, d') \<Rightarrow> (Ok b, b, d')
        | (Err e, d') \<Rightarrow> (Err e, p, d')
        | (Panic, d') \<Rightarrow> (Panic, p, d'))
     else (Ok p, p, d))"

definition bmap_and_alloc_if_need :: "efs \<Rightarrow> nat \<Rightarrow> (raw_inode \<times> disk, fs_error_kind, nat) call" where
  "bmap_and_alloc_if_need fs offset = bmap_walk_mut fs offset True (alloc_if_need fs)"

section \<open>Reading and writing\<close>

text \<open>Writing one piece of a file: the block of the offset is found or allocated, the bytes are copied
  and the size is raised.\<close>

definition set_size_max :: "nat \<Rightarrow> (raw_inode \<times> disk, fs_error_kind, unit) call" where
  "set_size_max offset = (\<lambda>(ri, d). (Ok (), ri\<lparr>i_size := max (i_size ri) offset\<rparr>, d))"

definition block_write :: "nat \<Rightarrow> nat \<Rightarrow> bytes \<Rightarrow> (disk, fs_error_kind, unit) call" where
  "block_write b off xs = bind (get_block b) (\<lambda>blk.
     bind (assert_that (buf_in_bounds off (length xs))) (\<lambda>_. put_block b (wr_bytes blk off xs)))"

definition block_read :: "nat \<Rightarrow> nat \<Rightarrow> nat \<Rightarrow> (disk, fs_error_kind, bytes) call" where
  "block_read b off n = bind (get_block b) (\<lambda>blk.
     bind (assert_that (buf_in_bounds off n)) (\<lambda>_. ret (rd_bytes blk off n)))"

definition piece_len :: "nat \<Rightarrow> nat \<Rightarrow> nat" where
  "piece_len offset n = min (BLOCK_SIZE - offset mod BLOCK_SIZE) n"

lemma piece_len_pos: "0 < n \<Longrightarrow> 0 < piece_len offset n"
  by (simp add: piece_len_def BLOCK_SIZE_def)

lemma piece_len_le: "piece_len offset n \<le> n"
  by (simp add: piece_len_def)

function raw_inode_write_loop ::
    "efs \<Rightarrow> nat \<Rightarrow> bytes \<Rightarrow> nat \<Rightarrow> (raw_inode \<times> disk, fs_error_kind, nat) call" where
  "raw_inode_write_loop fs offset src write_len st =
     (if src = [] then (Ok write_len, st)
      else if MAX_FILE_SIZE \<le> offset then (Ok write_len, st)
      else
        bind (bmap_and_alloc_if_need fs offset) (\<lambda>data_bno.
        bind (on_disk (block_write data_bno (offset mod BLOCK_SIZE) (take (piece_len offset (length src)) src))) (\<lambda>_.
        bind (set_size_max (offset + piece_len offset (length src))) (\<lambda>_.
          raw_inode_write_loop fs (offset + piece_len offset (length src))
            (drop (piece_len offset (length src)) src) (write_len + piece_len offset (length src))))) st)"
  by pat_completeness auto
termination
  by (relation "measure (\<lambda>(fs, offset, src, wl, st). length src)")
     (auto simp: piece_len_pos)

declare raw_inode_write_loop.simps [simp del]

definition raw_inode_write :: "efs \<Rightarrow> nat \<Rightarrow> bytes \<Rightarrow> (raw_inode \<times> disk, fs_error_kind, nat) call" where
  "raw_inode_write fs offset src = (\<lambda>(ri, d).
     if i_size ri < offset then (Err InvalidArgument, ri, d)
     else if raw_file_type ri \<notin> {File, Symlink, Directory} then (Err InvalidData, ri, d)
     else raw_inode_write_loop fs offset src 0 (ri, d))"

text \<open>Reading returns the bytes copied to the front of the destination buffer; their number is the
  returned length. \<open>n\<close> is the room left in the buffer and \<open>remaining\<close> what is left of the file.\<close>

function raw_inode_read_loop ::
    "raw_inode \<Rightarrow> nat \<Rightarrow> nat \<Rightarrow> nat \<Rightarrow> (disk, fs_error_kind, bytes) call" where
  "raw_inode_read_loop ri offset n remaining d =
     (if n = 0 \<or> remaining = 0 then (Ok [], d)
      else if MAX_FILE_SIZE \<le> offset then (Ok [], d)
      else
        bind (bmap ri offset) (\<lambda>data_bno.
        bind (block_read data_bno (offset mod BLOCK_SIZE) (min (piece_len offset n) remaining)) (\<lambda>xs.
        bind (raw_inode_read_loop ri (offset + min (piece_len offset n) remaining)
                (n - min (piece_len offset n) remaining) (remaining - min (piece_len offset n) remaining)) (\<lambda>ys.
          ret (xs @ ys)))) d)"
  by pat_completeness auto
termination
  by (relation "measure (\<lambda>(ri, offset, n, rem, d). n)") (auto simp: piece_len_pos)

declare raw_inode_read_loop.simps [simp del]

definition raw_inode_read :: "nat \<Rightarrow> nat \<Rightarrow> raw_inode \<Rightarrow> (disk, fs_error_kind, bytes) call" where
  "raw_inode_read offset n ri =
     (if i_size ri < offset then fail InvalidArgument
      else if raw_file_type ri \<notin> {File, Symlink, Directory} then fail InvalidData
      else raw_inode_read_loop ri offset n (i_size ri - offset))"

text \<open>Truncation. The loop over the blocks to free runs downwards; an \<open>InvalidArgument\<close> of the walk
  ends it early. After the loop the table blocks are freed.\<close>

definition free_slot :: "efs \<Rightarrow> (nat \<times> disk, fs_error_kind, unit) call" where
  "free_slot fs = (\<lambda>(p, d).
     if p = INVALID_DATA_BLOCK_NO then (Err InvalidArgument, p, d)
     else case dealloc_data_block fs p d of
            (Ok _, d') \<Rightarrow> (Ok (), INVALID_DATA_BLOCK_NO, d')
          | (Err e, d') \<Rightarrow> (Err e, p, d')
          | (Panic, d') \<Rightarrow> (Panic, p, d'))"

fun dealloc_loop :: "efs \<Rightarrow> nat list \<Rightarrow> (raw_inode \<times> disk, fs_error_kind, unit) call" where
  "dealloc_loop fs [] st = (Ok (), st)"
| "dealloc_loop fs (blk_idx # rest) st =
     (case bmap_walk_mut fs (blk_idx * BLOCK_SIZE) False (free_slot fs) st of
        (Ok _, ri, d) \<Rightarrow> dealloc_loop fs rest (ri\<lparr>i_size := i_size ri - BLOCK_SIZE\<rparr>, d)
      | (Err e, st') \<Rightarrow> if e = InvalidArgument then (Ok (), st') else (Err e, st')
      | (Panic, st') \<Rightarrow> (Panic, st'))"

definition dealloc_tables :: "efs \<Rightarrow> nat \<Rightarrow> (raw_inode \<times> disk, fs_error_kind, unit) call" where
  "dealloc_tables fs start_data_blk_idx = (\<lambda>(ri, d).
     if start_data_blk_idx \<le> NUM_DIRECT_DATA_BLKS + BLK_NUMS_PER_BLOCK then
       bind (if double_indirect_blk_ptr ri \<noteq> INVALID_DATA_BLOCK_NO
             then on_disk (dealloc_data_block fs (double_indirect_blk_ptr ri)) else ret ()) (\<lambda>_.
         if start_data_blk_idx \<le> NUM_DIRECT_DATA_BLKS \<and> indirect_blk_ptr ri \<noteq> INVALID_DATA_BLOCK_NO
         then on_disk (dealloc_data_block fs (indirect_blk_ptr ri)) else ret ()) (ri, d)
     else (Ok (), ri, d))"

definition dealloc_data_blks_from :: "efs \<Rightarrow> nat \<Rightarrow> (raw_inode \<times> disk, fs_error_kind, unit) call" where
  "dealloc_data_blks_from fs start_data_blk_idx = (\<lambda>(ri, d).
     if i_size ri = 0 then (Ok (), ri, d)
     else
       let last_data_blk_idx = (i_size ri - 1) div BLOCK_SIZE in
       bind (dealloc_loop fs (rev [start_data_blk_idx..<Suc last_data_blk_idx])) (\<lambda>_.
         dealloc_tables fs start_data_blk_idx) (ri, d))"

definition raw_inode_truncate :: "efs \<Rightarrow> nat \<Rightarrow> (raw_inode \<times> disk, fs_error_kind, unit) call" where
  "raw_inode_truncate fs new_size = (\<lambda>(ri, d).
     if \<not> (new_size < i_size ri \<and> i_size ri \<noteq> 0) then (Panic, ri, d)
     else
       bind (dealloc_data_blks_from fs (div_ceil new_size BLOCK_SIZE)) (\<lambda>_ (ri, d).
         (Ok (), ri\<lparr>i_size := new_size\<rparr>, d)) (ri, d))"

section \<open>Operations on inode handles\<close>

definition raw_write :: "efs \<Rightarrow> inode \<Rightarrow> nat \<Rightarrow> bytes \<Rightarrow> (disk, fs_error_kind, nat) call" where
  "raw_write fs i offset src = with_raw_inode i (raw_inode_write fs offset src)"

definition raw_read :: "inode \<Rightarrow> nat \<Rightarrow> nat \<Rightarrow> (disk, fs_error_kind, bytes) call" where
  "raw_read i offset n = bind (read_raw_inode i) (raw_inode_read offset n)"

definition raw_truncate :: "efs \<Rightarrow> inode \<Rightarrow> nat \<Rightarrow> (disk, fs_error_kind, unit) call" where
  "raw_truncate fs i new_size = bind (read_raw_inode i) (\<lambda>ri.
     if i_size ri < new_size then fail InvalidArgument
     else if new_size = i_size ri then ret ()
     else with_raw_inode i (raw_inode_truncate fs new_size))"

definition inode_size :: "inode \<Rightarrow> (disk, fs_error_kind, nat) call" where
  "inode_size i = bind (read_raw_inode i) (\<lambda>ri. ret (i_size ri))"

definition inode_file_type :: "inode \<Rightarrow> (disk, fs_error_kind, file_type) call" where
  "inode_file_type i = bind (read_raw_inode i) (\<lambda>ri. ret (raw_file_type ri))"

definition not_a_file :: "file_type \<Rightarrow> fs_error_kind" where
  "not_a_file t = (case t of Unknown \<Rightarrow> InvalidData | Directory \<Rightarrow> IsADirectory | _ \<Rightarrow> Unsupported)"

definition inode_read :: "inode \<Rightarrow> nat \<Rightarrow> nat \<Rightarrow> (disk, fs_error_kind, bytes) call" where
  "inode_read i offset n = bind (inode_file_type i) (\<lambda>t.
     if t = File then raw_read i offset n else fail (not_a_file t))"

definition inode_write :: "efs \<Rightarrow> inode \<Rightarrow> nat \<Rightarrow> bytes \<Rightarrow> (disk, fs_error_kind, nat) call" where
  "inode_write fs i offset src = bind (inode_file_type i) (\<lambda>t.
     if t = File then raw_write fs i offset src else fail (not_a_file t))"

definition inode_truncate :: "efs \<Rightarrow> inode \<Rightarrow> nat \<Rightarrow> (disk, fs_error_kind, nat) call" where
  "inode_truncate fs i new_size = bind (read_raw_inode i) (\<lambda>ri.
     if i_nlink ri = 0 then fail NoSuchFileOrDirectory
     else if raw_file_type ri = File then
       bind (raw_truncate fs i new_size) (\<lambda>_. ret (i_size ri))
     else fail (not_a_file (raw_file_type ri)))"

end
