(* ===== verification/Rw_File.thy ===== *)
theory Rw_File
  imports Rw_Inode
begin

text \<open>
  What the inode operations of EFS do to files. A file whose size is within the direct pointers
  (48 KiB) has a byte string as content; on a well-formed disk with a set of such files, writing, reading and
  truncating one of them is the corresponding operation on its byte string, and
  no other file, inode or metadata block changes.
\<close>

section \<open>Encoding of inodes\<close>

definition inode_fits :: "raw_inode \<Rightarrow> bool" where
  "inode_fits ri \<longleftrightarrow> i_typ ri < 2 ^ 32 \<and> i_size ri < 2 ^ 64 \<and> i_nlink ri < 2 ^ 32 \<and> i_dev_no ri < 2 ^ 32 \<and>
     length (direct_blk_ptrs ri) = NUM_DIRECT_DATA_BLKS \<and> (\<forall>p \<in> set (direct_blk_ptrs ri). p < 2 ^ 64) \<and>
     indirect_blk_ptr ri < 2 ^ 64 \<and> double_indirect_blk_ptr ri < 2 ^ 64"

lemma take_drop_concat:
  "k < length ps \<Longrightarrow> take 8 (drop (8 * k) (concat (map (le_bytes 8) ps) @ ys)) = le_bytes 8 (ps ! k)"
proof (induction ps arbitrary: k)
  case (Cons p ps)
  then show ?case by (cases k) auto
qed simp

lemma length_concat_le [simp]: "length (concat (map (le_bytes 8) ps)) = 8 * length ps"
  by (induction ps) auto

lemma length_inode_encode: "length (direct_blk_ptrs ri) = NUM_DIRECT_DATA_BLKS \<Longrightarrow> length (inode_encode ri) = RAW_INODE_SIZE"
  by (simp add: inode_encode_def efs_consts)

lemma inode_decode_encode:
  assumes "inode_fits ri"
  shows "inode_decode (inode_encode ri) = ri"
proof -
  let ?ps = "direct_blk_ptrs ri"
  let ?t = "le_bytes 8 (indirect_blk_ptr ri) @ le_bytes 8 (double_indirect_blk_ptr ri)"
  have len: "length ?ps = 12" and ps: "\<forall>p \<in> set ?ps. p < 2 ^ 64"
    using assms by (simp_all add: inode_fits_def NUM_DIRECT_DATA_BLKS_def)
  have "take 8 (drop (20 + 8 * k) (inode_encode ri)) = le_bytes 8 (?ps ! k)" if "k < 12" for k
    using take_drop_concat [of k ?ps ?t] that len by (simp add: inode_encode_def)
  moreover have "le_nat (le_bytes 8 (?ps ! k)) = ?ps ! k" if "k < 12" for k
    using ps nth_mem [of k ?ps] that len by simp
  ultimately have "map (\<lambda>k. le_nat (take 8 (drop (20 + 8 * k) (inode_encode ri)))) [0..<12] = ?ps"
    by (intro nth_equalityI) (simp_all add: len)
  moreover have "i_typ ri < 256 ^ 4" "i_size ri < 256 ^ 8" "i_nlink ri < 256 ^ 4" "i_dev_no ri < 256 ^ 4"
    "indirect_blk_ptr ri < 256 ^ 8" "double_indirect_blk_ptr ri < 256 ^ 8"
    using assms by (simp_all add: inode_fits_def)
  then have "le_nat (take 4 (inode_encode ri)) = i_typ ri" "le_nat (take 8 (drop 4 (inode_encode ri))) = i_size ri"
    "le_nat (take 4 (drop 12 (inode_encode ri))) = i_nlink ri" "le_nat (take 4 (drop 16 (inode_encode ri))) = i_dev_no ri"
    "le_nat (take 8 (drop 116 (inode_encode ri))) = indirect_blk_ptr ri"
    "le_nat (take 8 (drop 124 (inode_encode ri))) = double_indirect_blk_ptr ri"
    using len by (simp_all add: inode_encode_def)
  ultimately show ?thesis unfolding inode_decode_def NUM_DIRECT_DATA_BLKS_def by simp
qed

lemma le_nat_take_bound: "le_nat (take k bs) < 256 ^ k"
proof -
  have "le_nat (take k bs) < 256 ^ length (take k bs)" by (rule le_nat_bound)
  also have "\<dots> \<le> 256 ^ k" by (rule power_increasing) auto
  finally show ?thesis .
qed

lemma inode_fits_decode: "inode_fits (inode_decode bs)"
  using le_nat_take_bound [of 4] le_nat_take_bound [of 8]
  by (simp add: inode_fits_def inode_decode_def)

section \<open>Well-formed disks\<close>

text \<open>The handle is the one \<open>open\<close> builds from a superblock that passes \<open>verify\<close>, and block numbers
  fit in 64 bits.\<close>

definition efs_layout :: "efs \<Rightarrow> bool" where
  "efs_layout fs \<longleftrightarrow> fs = efs_of_sb (superblock fs) \<and> sb_verify (superblock fs) = Ok () \<and>
     data_start_bno (superblock fs) + data_blocks (superblock fs) \<le> 2 ^ 64"

definition efs_ok :: "efs \<Rightarrow> disk \<Rightarrow> bool" where
  "efs_ok fs d \<longleftrightarrow> efs_layout fs \<and>
     (\<forall>b < data_start_bno (superblock fs) + data_blocks (superblock fs). d b \<noteq> None) \<and>
     bitmap_ok (inode_bitmap fs) d \<and> bitmap_ok (data_bitmap fs) d"

lemma efs_layout_order:
  assumes "efs_layout fs"
  shows "start_blk_no (inode_bitmap fs) = 2" "end_blk_no (inode_bitmap fs) \<le> inode_start_bno (superblock fs)"
    "start_blk_no (data_bitmap fs) = data_bitmap_start_bno (superblock fs)"
    "end_blk_no (data_bitmap fs) \<le> data_start_bno (superblock fs)"
    "bits_len (data_bitmap fs) = data_blocks (superblock fs)"
    "bits_len (inode_bitmap fs) = inode_counts (superblock fs)"
    "inode_start_bno (superblock fs) + inode_blocks (superblock fs) = data_bitmap_start_bno (superblock fs)"
    "2 \<le> inode_start_bno (superblock fs)"
    "data_bitmap_start_bno (superblock fs) \<le> data_start_bno (superblock fs)"
proof -
  let ?sb = "superblock fs"
  have fs: "inode_bitmap fs = bitmap_new 2 (inode_counts ?sb)"
    "data_bitmap fs = bitmap_new (data_bitmap_start_bno ?sb) (data_blocks ?sb)"
    using assms unfolding efs_layout_def efs_of_sb_def inode_bitmap_start_bno_def
    by (metis efs.select_convs(2), metis efs.select_convs(3))
  have v: "inode_counts ?sb \<le> inode_bitmap_blocks ?sb * BLOCK_BITS" "data_blocks ?sb \<le> data_bitmap_blocks ?sb * BLOCK_BITS"
    using assms by (auto simp: efs_layout_def sb_verify_def verify_bitmap_def bitmap_consts mult.assoc split: if_splits)
  then have c: "div_ceil (inode_counts ?sb) BLOCK_BITS \<le> inode_bitmap_blocks ?sb"
    "div_ceil (data_blocks ?sb) BLOCK_BITS \<le> data_bitmap_blocks ?sb"
    by (auto intro!: div_ceil_le simp: bitmap_consts)
  show "start_blk_no (inode_bitmap fs) = 2" "start_blk_no (data_bitmap fs) = data_bitmap_start_bno ?sb"
    "bits_len (data_bitmap fs) = data_blocks ?sb" "bits_len (inode_bitmap fs) = inode_counts ?sb"
    by (simp_all add: fs bitmap_new_def)
  show "end_blk_no (inode_bitmap fs) \<le> inode_start_bno ?sb" "end_blk_no (data_bitmap fs) \<le> data_start_bno ?sb"
    using c by (simp_all add: fs bitmap_new_def sb_layout_defs)
  show "inode_start_bno ?sb + inode_blocks ?sb = data_bitmap_start_bno ?sb" "2 \<le> inode_start_bno ?sb"
    "data_bitmap_start_bno ?sb \<le> data_start_bno ?sb"
    by (simp_all add: sb_layout_defs)
qed

text \<open>The data blocks in use, by block number.\<close>

definition used_blocks :: "efs \<Rightarrow> disk \<Rightarrow> nat set" where
  "used_blocks fs d = (\<lambda>i. data_start_bno (superblock fs) + i) ` allocated (data_bitmap fs) d"

definition data_region :: "efs \<Rightarrow> nat set" where
  "data_region fs = {data_start_bno (superblock fs)..<data_start_bno (superblock fs) + data_blocks (superblock fs)}"

text \<open>The blocks of the data bitmap.\<close>

definition bitmap_region :: "efs \<Rightarrow> nat set" where
  "bitmap_region fs = {start_blk_no (data_bitmap fs)..<end_blk_no (data_bitmap fs)}"

text \<open>Two disks that differ in data blocks only have the same bitmaps.\<close>

lemma disk_bit_cong: "(\<And>b. s \<le> b \<Longrightarrow> b \<le> s + i div BLOCK_BITS \<Longrightarrow> d' b = d b) \<Longrightarrow> disk_bit d' s i = disk_bit d s i"
  by (simp add: disk_bit_def)

lemma bitmap_cong:
  assumes ok: "bitmap_ok bm d" and same: "\<And>b. start_blk_no bm \<le> b \<Longrightarrow> b < end_blk_no bm \<Longrightarrow> d' b = d b"
  shows "bitmap_ok bm d'" "allocated bm d' = allocated bm d"
proof -
  have p: "0 < BLOCK_BITS" by (simp add: bitmap_consts)
  have e: "end_blk_no bm = start_blk_no bm + div_ceil (bits_len bm) BLOCK_BITS" using ok by (simp add: bitmap_ok_def)
  have bit: "disk_bit d' (start_blk_no bm) i = disk_bit d (start_blk_no bm) i"
    if "i < 64 * div_ceil (bits_len bm) 64" for i
  proof -
    have "bits_len bm \<le> 64 * (div_ceil (bits_len bm) BLOCK_BITS * 512)"
      using div_ceil_ge [OF p, of "bits_len bm"] by (simp add: bitmap_consts)
    then have "div_ceil (bits_len bm) 64 \<le> div_ceil (bits_len bm) BLOCK_BITS * 512"
      by (intro div_ceil_le) simp_all
    then have "i < div_ceil (bits_len bm) BLOCK_BITS * BLOCK_BITS" using that by (simp add: bitmap_consts)
    then have "i div BLOCK_BITS < div_ceil (bits_len bm) BLOCK_BITS" by (rule less_mult_imp_div_less)
    then show ?thesis using same e by (intro disk_bit_cong) simp
  qed
  have "bits_len bm \<le> 64 * div_ceil (bits_len bm) 64" using div_ceil_ge [of 64 "bits_len bm"] by simp
  then have "disk_bit d' (start_blk_no bm) i = disk_bit d (start_blk_no bm) i" if "i < bits_len bm" for i
    using bit that by simp
  then show "allocated bm d' = allocated bm d" by (auto simp: allocated_def)
  show "bitmap_ok bm d'" using ok same bit by (simp add: bitmap_ok_def)
qed

lemma alloc_data_block_spec:
  assumes ok: "efs_ok fs d"
  obtains (full) "alloc_data_block fs d = (Err NoSpaceLeft, d)" "used_blocks fs d = data_region fs"
    | (hit) b d' where "alloc_data_block fs d = (Ok b, d')" "efs_ok fs d'" "b \<in> data_region fs"
        "b \<notin> used_blocks fs d" "used_blocks fs d' = insert b (used_blocks fs d)"
        "\<forall>c. c \<notin> bitmap_region fs \<longrightarrow> d' c = d c"
proof -
  note lay = efs_layout_order [OF ok [unfolded efs_ok_def, THEN conjunct1]]
  have bm: "bitmap_ok (data_bitmap fs) d" and bi: "bitmap_ok (inode_bitmap fs) d" using ok by (simp_all add: efs_ok_def)
  from bm show thesis
  proof (cases rule: bmp.alloc_cases)
    case a: full
    from a have "alloc_data_block fs d = (Err NoSpaceLeft, d)"
      by (simp add: alloc_data_block_def bind_def ok_or_no_space_def)
    moreover have "used_blocks fs d = data_region fs"
    proof -
      have "{..<n} = {0..<n}" for n :: nat by auto
      then show ?thesis using a(2) lay(5) by (simp add: used_blocks_def data_region_def image_add_atLeastLessThan add.commute)
    qed
    ultimately show thesis by (rule full)
  next
    case a: (hit i d')
    let ?b = "data_start_bno (superblock fs) + i"
    from alloc_bit_spec [OF bm] a(1) have u: "d' = upd_disk_bit d (start_blk_no (data_bitmap fs)) i True" by auto
    have fr: "d' c = d c" if "c \<notin> bitmap_region fs" for c
      using that upd_bitmap_frame [OF bm a(3)] unfolding u by (auto simp: bitmap_region_def)
    have mapped: "d' c \<noteq> None" if "d c \<noteq> None" for c using that unfolding u upd_disk_bit_def by simp
    have "bitmap_ok (inode_bitmap fs) d'"
      using fr lay by (intro bitmap_cong(1) [OF bi]) (auto simp: bitmap_region_def)
    with ok a(2) mapped have ok': "efs_ok fs d'" unfolding efs_ok_def by blast
    have al: "alloc_data_block fs d = (Ok ?b, d')"
      using a(1) by (simp add: alloc_data_block_def bind_def ok_or_no_space_def add.commute)
    show thesis
      by (rule hit [OF al ok']) (use a lay(5) fr in \<open>auto simp: data_region_def used_blocks_def\<close>)
  qed
qed

section \<open>Small files and their contents\<close>

definition SMALL_SIZE :: nat where
  "SMALL_SIZE = NUM_DIRECT_DATA_BLKS * BLOCK_SIZE"

definition owned :: "raw_inode \<Rightarrow> nat set" where
  "owned ri = set (direct_blk_ptrs ri) - {INVALID_DATA_BLOCK_NO}"

definition small_ok :: "efs \<Rightarrow> disk \<Rightarrow> raw_inode \<Rightarrow> bool" where
  "small_ok fs d ri \<longleftrightarrow> inode_fits ri \<and> i_size ri \<le> SMALL_SIZE \<and>
     (\<forall>k<NUM_DIRECT_DATA_BLKS. k * BLOCK_SIZE < i_size ri \<longrightarrow> direct_blk_ptrs ri ! k \<noteq> INVALID_DATA_BLOCK_NO) \<and>
     owned ri \<subseteq> used_blocks fs d \<and>
     (\<forall>j<NUM_DIRECT_DATA_BLKS. \<forall>k<NUM_DIRECT_DATA_BLKS.
        direct_blk_ptrs ri ! j \<noteq> INVALID_DATA_BLOCK_NO \<longrightarrow> direct_blk_ptrs ri ! j = direct_blk_ptrs ri ! k \<longrightarrow> j = k)"

definition file_byte :: "disk \<Rightarrow> raw_inode \<Rightarrow> nat \<Rightarrow> u8" where
  "file_byte d ri i = the (d (direct_blk_ptrs ri ! (i div BLOCK_SIZE))) (i mod BLOCK_SIZE)"

definition content :: "disk \<Rightarrow> raw_inode \<Rightarrow> bytes" where
  "content d ri = map (file_byte d ri) [0..<i_size ri]"

lemma length_content [simp]: "length (content d ri) = i_size ri"
  by (simp add: content_def)

text \<open>Overwriting a byte string at an offset inside it or at its end.\<close>

definition patch :: "bytes \<Rightarrow> nat \<Rightarrow> bytes \<Rightarrow> bytes" where
  "patch c off xs = take off c @ xs @ drop (off + length xs) c"

lemma length_patch: "off \<le> length c \<Longrightarrow> length (patch c off xs) = max (length c) (off + length xs)"
  by (simp add: patch_def)

lemma nth_patch:
  "off \<le> length c \<Longrightarrow> i < max (length c) (off + length xs) \<Longrightarrow>
   patch c off xs ! i = (if off \<le> i \<and> i < off + length xs then xs ! (i - off) else c ! i)"
  by (auto simp: patch_def nth_append)

lemma patch_Nil [simp]: "off \<le> length c \<Longrightarrow> patch c off [] = c"
  by (simp add: patch_def)

lemma patch_patch:
  "off \<le> length c \<Longrightarrow> patch (patch c off xs) (off + length xs) ys = patch c off (xs @ ys)"
  by (rule nth_equalityI) (auto simp: length_patch nth_patch nth_append)

text \<open>What an operation on one inode may change on the disk: the data bitmap, by the blocks the
  inode gains, and the blocks that the inode owns afterwards.\<close>

definition write_frame :: "efs \<Rightarrow> raw_inode \<Rightarrow> disk \<Rightarrow> raw_inode \<Rightarrow> disk \<Rightarrow> bool" where
  "write_frame fs ri d ri' d' \<longleftrightarrow>
     (\<forall>c. c \<notin> bitmap_region fs \<and> c \<notin> owned ri' \<longrightarrow> d' c = d c) \<and>
     owned ri \<subseteq> owned ri' \<and> owned ri' \<inter> used_blocks fs d \<subseteq> owned ri \<and>
     used_blocks fs d' = used_blocks fs d \<union> owned ri' \<and>
     i_typ ri' = i_typ ri \<and> i_nlink ri' = i_nlink ri \<and> i_dev_no ri' = i_dev_no ri \<and>
     indirect_blk_ptr ri' = indirect_blk_ptr ri \<and> double_indirect_blk_ptr ri' = double_indirect_blk_ptr ri"

lemma write_frame_refl: "small_ok fs d ri \<Longrightarrow> write_frame fs ri d ri d"
  by (auto simp: write_frame_def small_ok_def)

lemma write_frame_trans:
  assumes "write_frame fs r0 d0 r1 d1" "write_frame fs r1 d1 r2 d2"
  shows "write_frame fs r0 d0 r2 d2"
proof -
  have a: "owned r0 \<subseteq> owned r1" "owned r1 \<inter> used_blocks fs d0 \<subseteq> owned r0"
    "used_blocks fs d1 = used_blocks fs d0 \<union> owned r1"
    "\<And>c. c \<notin> bitmap_region fs \<Longrightarrow> c \<notin> owned r1 \<Longrightarrow> d1 c = d0 c"
    using assms(1) by (auto simp: write_frame_def)
  have b: "owned r1 \<subseteq> owned r2" "owned r2 \<inter> used_blocks fs d1 \<subseteq> owned r1"
    "used_blocks fs d2 = used_blocks fs d1 \<union> owned r2"
    "\<And>c. c \<notin> bitmap_region fs \<Longrightarrow> c \<notin> owned r2 \<Longrightarrow> d2 c = d1 c"
    using assms(2) by (auto simp: write_frame_def)
  have "owned r2 \<inter> used_blocks fs d0 \<subseteq> owned r0" using a b by blast
  moreover have "used_blocks fs d2 = used_blocks fs d0 \<union> owned r2" using a b by blast
  moreover have "d2 c = d0 c" if "c \<notin> bitmap_region fs" "c \<notin> owned r2" for c
    using a(4) [of c] b(4) [of c] b(1) that by auto
  ultimately show ?thesis using a(1) b(1) assms unfolding write_frame_def by auto
qed

lemma used_subset_region: "efs_ok fs d \<Longrightarrow> used_blocks fs d \<subseteq> data_region fs"
  using efs_layout_order(5) by (auto simp: efs_ok_def used_blocks_def data_region_def allocated_def)

lemma region_disjoint: "efs_layout fs \<Longrightarrow> b \<in> data_region fs \<Longrightarrow> b \<notin> bitmap_region fs \<and> b \<noteq> 0"
  using efs_layout_order(3,4,7,8,9) [of fs] by (auto simp: data_region_def bitmap_region_def)

lemma data_upd:
  assumes ok: "efs_ok fs d" and same: "\<And>c. c \<notin> data_region fs \<Longrightarrow> d' c = d c"
    and mapped: "\<And>c. d c \<noteq> None \<Longrightarrow> d' c \<noteq> None"
  shows "efs_ok fs d'" "used_blocks fs d' = used_blocks fs d"
proof -
  have lay: "efs_layout fs" using ok by (simp add: efs_ok_def)
  note o = efs_layout_order [OF lay]
  have bi: "bitmap_ok (inode_bitmap fs) d" and bd: "bitmap_ok (data_bitmap fs) d" using ok by (simp_all add: efs_ok_def)
  have si: "d' b = d b" if "start_blk_no (inode_bitmap fs) \<le> b" "b < end_blk_no (inode_bitmap fs)" for b
    using that o by (intro same) (auto simp: data_region_def)
  have sd: "d' b = d b" if "start_blk_no (data_bitmap fs) \<le> b" "b < end_blk_no (data_bitmap fs)" for b
    using that o by (intro same) (auto simp: data_region_def)
  show "efs_ok fs d'"
    using ok mapped bitmap_cong(1) [OF bi si] bitmap_cong(1) [OF bd sd] unfolding efs_ok_def by blast
  show "used_blocks fs d' = used_blocks fs d"
    using bitmap_cong(2) [OF bd sd] by (simp add: used_blocks_def)
qed

section \<open>Writing one piece\<close>

lemma bmap_alloc_direct:
  assumes "offset div BLOCK_SIZE < length (direct_blk_ptrs ri)"
  shows "bmap_and_alloc_if_need fs offset (ri, d) =
    (case alloc_if_need fs (direct_blk_ptrs ri ! (offset div BLOCK_SIZE), d) of
       (r, p, d') \<Rightarrow> (r, ri\<lparr>direct_blk_ptrs := (direct_blk_ptrs ri)[offset div BLOCK_SIZE := p]\<rparr>, d'))"
  using assms
  by (simp add: bmap_and_alloc_if_need_def bmap_walk_mut_def bmap0_mut.simps on_slot_def Let_def split: prod.split)

lemma set_list_update_distinct:
  "k < length xs \<Longrightarrow> set (xs[k := y]) - {z} \<subseteq> insert y (set xs - {z})"
  using set_update_subset_insert by fastforce

lemma owned_update:
  assumes "k < length (direct_blk_ptrs ri)" "direct_blk_ptrs ri ! k = INVALID_DATA_BLOCK_NO" "p \<noteq> INVALID_DATA_BLOCK_NO"
  shows "owned (ri\<lparr>direct_blk_ptrs := (direct_blk_ptrs ri)[k := p]\<rparr>) = insert p (owned ri)"
proof -
  have "x \<in> set ((direct_blk_ptrs ri)[k := p])" if "x \<in> set (direct_blk_ptrs ri)" "x \<noteq> INVALID_DATA_BLOCK_NO" for x
  proof -
    from that(1) obtain j where "j < length (direct_blk_ptrs ri)" "direct_blk_ptrs ri ! j = x" by (auto simp: in_set_conv_nth)
    with that(2) assms(2) show ?thesis by (metis length_list_update nth_list_update_neq nth_mem)
  qed
  moreover have "p \<in> set ((direct_blk_ptrs ri)[k := p])" using assms(1) by (rule set_update_memI)
  ultimately show ?thesis
    using set_update_subset_insert [of "direct_blk_ptrs ri" k p] assms(3) by (auto simp: owned_def)
qed

lemma small_okD:
  assumes "small_ok fs d ri"
  shows "inode_fits ri" "length (direct_blk_ptrs ri) = 12" "i_size ri \<le> 49152" "owned ri \<subseteq> used_blocks fs d"
    "\<And>k. k * BLOCK_SIZE < i_size ri \<Longrightarrow> direct_blk_ptrs ri ! k \<in> owned ri"
    "\<And>j k. j < 12 \<Longrightarrow> k < 12 \<Longrightarrow> direct_blk_ptrs ri ! j \<noteq> 0 \<Longrightarrow> direct_blk_ptrs ri ! j = direct_blk_ptrs ri ! k \<Longrightarrow> j = k"
proof -
  show "inode_fits ri" "i_size ri \<le> 49152" "owned ri \<subseteq> used_blocks fs d"
    using assms by (simp_all add: small_ok_def SMALL_SIZE_def efs_consts)
  show len: "length (direct_blk_ptrs ri) = 12" using assms by (simp add: small_ok_def inode_fits_def NUM_DIRECT_DATA_BLKS_def)
  show "direct_blk_ptrs ri ! k \<in> owned ri" if "k * BLOCK_SIZE < i_size ri" for k
  proof -
    have "k < 12" using that assms by (simp add: small_ok_def SMALL_SIZE_def efs_consts)
    then show ?thesis using that assms len by (simp add: small_ok_def owned_def NUM_DIRECT_DATA_BLKS_def)
  qed
  show "j = k" if "j < 12" "k < 12" "direct_blk_ptrs ri ! j \<noteq> 0" "direct_blk_ptrs ri ! j = direct_blk_ptrs ri ! k" for j k
    using that assms by (simp add: small_ok_def efs_consts)
qed

lemma owned_nth: "k < length (direct_blk_ptrs ri) \<Longrightarrow> direct_blk_ptrs ri ! k \<noteq> 0 \<Longrightarrow> direct_blk_ptrs ri ! k \<in> owned ri"
  by (simp add: owned_def INVALID_DATA_BLOCK_NO_def)

lemma block_index_lt: "(i::nat) < 12 * BLOCK_SIZE \<Longrightarrow> i div BLOCK_SIZE < 12"
  by (rule less_mult_imp_div_less)

lemma div_block_less: "i < n \<Longrightarrow> i div BLOCK_SIZE * BLOCK_SIZE < (n :: nat)"
  using div_times_less_eq_dividend le_less_trans by blast

text \<open>Adding a fresh block to a file at the index where its mapped part ends.\<close>

lemma small_ok_extend:
  assumes ok: "efs_ok fs d" and sm: "small_ok fs d ri" and k: "k < 12" and z: "direct_blk_ptrs ri ! k = 0"
    and b: "b \<in> data_region fs" "b \<notin> used_blocks fs d" and u: "used_blocks fs d' = insert b (used_blocks fs d)"
    and fr: "\<And>c. c \<notin> bitmap_region fs \<Longrightarrow> d' c = d c"
  defines "ri' \<equiv> ri\<lparr>direct_blk_ptrs := (direct_blk_ptrs ri)[k := b]\<rparr>"
  shows "small_ok fs d' ri'" "write_frame fs ri d ri' d'" "b \<in> owned ri'" "i_size ri \<le> k * BLOCK_SIZE"
    "\<And>i. i < i_size ri \<Longrightarrow> file_byte d' ri' i = file_byte d ri i"
proof -
  note D = small_okD [OF sm]
  have lay: "efs_layout fs" using ok by (simp add: efs_ok_def)
  have b0: "b \<noteq> 0" "b \<notin> bitmap_region fs" using region_disjoint [OF lay b(1)] by simp_all
  have own: "owned ri' = insert b (owned ri)"
    unfolding ri'_def using owned_update [of k ri b] k z b0 D(2) by (simp add: INVALID_DATA_BLOCK_NO_def)
  show "b \<in> owned ri'" using own by simp
  show size: "i_size ri \<le> k * BLOCK_SIZE"
    using D(5) [of k] z k by (fastforce simp: owned_def INVALID_DATA_BLOCK_NO_def)
  have nth: "direct_blk_ptrs ri' ! j = (if j = k then b else direct_blk_ptrs ri ! j)" if "j < 12" for j
    using that D(2) k by (simp add: ri'_def nth_list_update)
  have old: "direct_blk_ptrs ri ! j \<noteq> b" if "j < 12" for j
    using that D(2,4) b(2) b0(1) owned_nth [of j ri] by auto
  have "b < 2 ^ 64" using b(1) lay by (simp add: data_region_def efs_layout_def)
  then have fits: "inode_fits ri'"
    using D(1,2) set_update_subset_insert [of "direct_blk_ptrs ri" k b]
    by (auto simp: inode_fits_def ri'_def)
  show "small_ok fs d' ri'"
    unfolding small_ok_def
  proof (intro conjI allI impI)
    show "inode_fits ri'" by (rule fits)
    show "i_size ri' \<le> SMALL_SIZE" using D(3) by (simp add: ri'_def SMALL_SIZE_def efs_consts)
    show "direct_blk_ptrs ri' ! j \<noteq> INVALID_DATA_BLOCK_NO"
      if "j < NUM_DIRECT_DATA_BLKS" "j * BLOCK_SIZE < i_size ri'" for j
      using that nth [of j] b0 D(5) [of j] by (simp add: efs_consts ri'_def owned_def split: if_splits)
    show "owned ri' \<subseteq> used_blocks fs d'" using own u D(4) by blast
    show "i = j" if "i < NUM_DIRECT_DATA_BLKS" "j < NUM_DIRECT_DATA_BLKS"
      "direct_blk_ptrs ri' ! i \<noteq> INVALID_DATA_BLOCK_NO" "direct_blk_ptrs ri' ! i = direct_blk_ptrs ri' ! j" for i j
      using that nth [of i] nth [of j] old [of i] old [of j] D(6) [of i j]
      by (simp add: efs_consts split: if_splits)
  qed
  have "owned ri \<subseteq> used_blocks fs d" by (rule D(4))
  then show "write_frame fs ri d ri' d'"
    using own u b(2) fr by (auto simp: write_frame_def ri'_def)
  show "file_byte d' ri' i = file_byte d ri i" if i: "i < i_size ri" for i
  proof -
    have lt: "i div BLOCK_SIZE < 12" using i D(3) by (intro block_index_lt) (simp add: BLOCK_SIZE_def)
    have "direct_blk_ptrs ri ! (i div BLOCK_SIZE) \<in> owned ri" by (rule D(5) [OF div_block_less [OF i]])
    then have "direct_blk_ptrs ri ! (i div BLOCK_SIZE) \<in> data_region fs"
      using D(4) used_subset_region [OF ok] by blast
    then have "d' (direct_blk_ptrs ri ! (i div BLOCK_SIZE)) = d (direct_blk_ptrs ri ! (i div BLOCK_SIZE))"
      using region_disjoint [OF lay] fr by blast
    moreover have "i div BLOCK_SIZE \<noteq> k" using i size by (metis div_block_less not_le)
    ultimately show ?thesis using nth [OF lt] by (simp add: file_byte_def)
  qed
qed

lemma locate_block:
  assumes ok: "efs_ok fs d" and sm: "small_ok fs d ri" and off: "offset < SMALL_SIZE"
  obtains (full) "bmap_and_alloc_if_need fs offset (ri, d) = (Err NoSpaceLeft, ri, d)" "used_blocks fs d = data_region fs"
        "i_size ri \<le> offset"
    | (found) p ri' d' where "bmap_and_alloc_if_need fs offset (ri, d) = (Ok p, ri', d')" "efs_ok fs d'"
        "small_ok fs d' ri'" "write_frame fs ri d ri' d'" "p = direct_blk_ptrs ri' ! (offset div BLOCK_SIZE)"
        "p \<in> owned ri'" "i_size ri' = i_size ri" "\<forall>i < i_size ri. file_byte d' ri' i = file_byte d ri i"
proof -
  note D = small_okD [OF sm]
  let ?k = "offset div BLOCK_SIZE"
  have k: "?k < 12" using off by (intro block_index_lt) (simp add: SMALL_SIZE_def efs_consts)
  have bd: "?k < length (direct_blk_ptrs ri)" using k D(2) by simp
  show thesis
  proof (cases "direct_blk_ptrs ri ! ?k = 0")
    case False
    have "bmap_and_alloc_if_need fs offset (ri, d) = (Ok (direct_blk_ptrs ri ! ?k), ri, d)"
      using bmap_alloc_direct [OF bd] False by (simp add: alloc_if_need_def INVALID_DATA_BLOCK_NO_def)
    then show thesis
      using found ok sm write_frame_refl [OF sm] owned_nth [OF bd False] by blast
  next
    case z: True
    from ok show thesis
    proof (cases rule: alloc_data_block_spec)
      case a: full
      then have "bmap_and_alloc_if_need fs offset (ri, d) = (Err NoSpaceLeft, ri, d)"
        using bmap_alloc_direct [OF bd] z list_update_id [of "direct_blk_ptrs ri" ?k]
        by (simp add: alloc_if_need_def INVALID_DATA_BLOCK_NO_def)
      moreover have "i_size ri \<le> offset"
      proof (rule ccontr)
        assume "\<not> i_size ri \<le> offset"
        then have "?k * BLOCK_SIZE < i_size ri" by (metis div_times_less_eq_dividend le_less_trans not_le)
        then show False using D(5) [of ?k] z by (simp add: owned_def INVALID_DATA_BLOCK_NO_def)
      qed
      ultimately show thesis using a(2) full by blast
    next
      case a: (hit b d')
      let ?ri = "ri\<lparr>direct_blk_ptrs := (direct_blk_ptrs ri)[?k := b]\<rparr>"
      have fr: "d' c = d c" if "c \<notin> bitmap_region fs" for c using a(6) that by blast
      note e = small_ok_extend [OF ok sm k z a(3,4,5) fr]
      have r: "bmap_and_alloc_if_need fs offset (ri, d) = (Ok b, ?ri, d')"
        using bmap_alloc_direct [OF bd] z a(1) by (simp add: alloc_if_need_def INVALID_DATA_BLOCK_NO_def)
      show thesis
        by (rule found [OF r a(2) e(1,2)]) (use bd e(3,5) in auto)
    qed
  qed
qed

text \<open>Copying bytes into a block that the file owns and raising the size.\<close>

lemma block_write_owned:
  assumes ok: "efs_ok fs d" and sm: "small_ok fs d ri"
    and off: "offset \<le> i_size ri" and k: "offset div BLOCK_SIZE < 12"
    and p: "p = direct_blk_ptrs ri ! (offset div BLOCK_SIZE)" "p \<in> owned ri"
    and xs: "offset mod BLOCK_SIZE + length xs \<le> BLOCK_SIZE" "xs \<noteq> []"
  shows "\<exists>d'. block_write p (offset mod BLOCK_SIZE) xs d = (Ok (), d') \<and>
    (let ri' = ri\<lparr>i_size := max (i_size ri) (offset + length xs)\<rparr> in
      efs_ok fs d' \<and> small_ok fs d' ri' \<and> write_frame fs ri d ri' d' \<and>
      content d' ri' = patch (content d ri) offset xs)"
proof -
  note D = small_okD [OF sm]
  let ?k = "offset div BLOCK_SIZE" and ?o = "offset mod BLOCK_SIZE"
  let ?ri = "ri\<lparr>i_size := max (i_size ri) (offset + length xs)\<rparr>"
  have split: "offset = ?k * BLOCK_SIZE + ?o" by simp
  have reg: "p \<in> data_region fs" using p(2) D(4) used_subset_region [OF ok] by blast
  then obtain blk where blk: "d p = Some blk"
    using ok by (fastforce simp: efs_ok_def data_region_def)
  let ?d = "d(p \<mapsto> wr_bytes blk ?o xs)"
  have w: "block_write p ?o xs d = (Ok (), ?d)"
    using blk xs(1) by (simp add: block_write_def bind_def get_block_def put_block_def buf_in_bounds_def)
  have ok': "efs_ok fs ?d" by (rule data_upd(1) [OF ok]) (use reg in auto)
  have used: "used_blocks fs ?d = used_blocks fs d" by (rule data_upd(2) [OF ok]) (use reg in auto)
  have top: "offset + length xs \<le> Suc ?k * BLOCK_SIZE" using xs(1) split unfolding mult_Suc by linarith
  also have "\<dots> \<le> 12 * BLOCK_SIZE" using k by (intro mult_le_mono1) simp
  finally have lim: "offset + length xs \<le> 49152" by (simp add: BLOCK_SIZE_def)
  have ptr: "direct_blk_ptrs ri ! j \<in> owned ri" if "j * BLOCK_SIZE < i_size ?ri" for j
  proof (cases "j * BLOCK_SIZE < i_size ri")
    case True
    then show ?thesis by (rule D(5))
  next
    case False
    with that have "j * BLOCK_SIZE < offset + length xs" by (auto simp: max_def split: if_splits)
    with top have "j * BLOCK_SIZE < Suc ?k * BLOCK_SIZE" by linarith
    then have "j \<le> ?k" by (simp add: BLOCK_SIZE_def)
    moreover have "?k \<le> j"
      using False off split by (metis div_le_mono div_mult_self_is_m le_trans not_le BLOCK_SIZE_def zero_less_numeral)
    ultimately show ?thesis using p by simp
  qed
  have sm': "small_ok fs ?d ?ri"
    unfolding small_ok_def
  proof (intro conjI allI impI)
    show "inode_fits ?ri" using D(1) lim D(3) by (simp add: inode_fits_def)
    show "i_size ?ri \<le> SMALL_SIZE" using lim D(3) by (simp add: SMALL_SIZE_def efs_consts)
    show "direct_blk_ptrs ?ri ! j \<noteq> INVALID_DATA_BLOCK_NO" if "j * BLOCK_SIZE < i_size ?ri" for j
      using ptr [OF that] by (simp add: owned_def)
    show "owned ?ri \<subseteq> used_blocks fs ?d" using D(4) used by (simp add: owned_def)
  qed (use D(6) in \<open>simp add: efs_consts\<close>)
  have fr: "write_frame fs ri d ?ri ?d"
    using p(2) used D(4) by (auto simp: write_frame_def owned_def)
  have byte: "file_byte ?d ?ri i = (if offset \<le> i \<and> i < offset + length xs then xs ! (i - offset) else file_byte d ri i)"
    if i: "i < i_size ?ri" for i
  proof (cases "i div BLOCK_SIZE = ?k")
    case True
    have e: "i mod BLOCK_SIZE + ?k * BLOCK_SIZE = i" using True by (metis add.commute div_mult_mod_eq)
    then have "?o \<le> i mod BLOCK_SIZE \<longleftrightarrow> offset \<le> i"
      "i mod BLOCK_SIZE < ?o + length xs \<longleftrightarrow> i < offset + length xs" "i mod BLOCK_SIZE - ?o = i - offset"
      using split by linarith+
    then show ?thesis using True p(1) blk by (simp add: file_byte_def wr_bytes_def)
  next
    case False
    have j: "i div BLOCK_SIZE < 12" using i lim D(3) by (intro block_index_lt) (simp add: BLOCK_SIZE_def)
    have "direct_blk_ptrs ri ! (i div BLOCK_SIZE) \<in> owned ri" using ptr [OF div_block_less [OF i]] .
    then have ne: "direct_blk_ptrs ri ! (i div BLOCK_SIZE) \<noteq> p"
      using D(6) [OF j k] False p(1) by (auto simp: owned_def INVALID_DATA_BLOCK_NO_def)
    have "\<not> (offset \<le> i \<and> i < offset + length xs)"
    proof
      assume a: "offset \<le> i \<and> i < offset + length xs"
      then have "?k \<le> i div BLOCK_SIZE" by (simp add: div_le_mono)
      moreover have "i div BLOCK_SIZE < Suc ?k" using a top by (intro less_mult_imp_div_less) simp
      ultimately show False using False by simp
    qed
    with ne show ?thesis by (auto simp: file_byte_def)
  qed
  have "content ?d ?ri = patch (content d ri) offset xs"
    by (rule nth_equalityI) (use off byte in \<open>auto simp: length_patch nth_patch content_def\<close>)
  then show ?thesis using w ok' sm' fr by (auto simp: Let_def)
qed

section \<open>Writing\<close>

lemma write_loop_spec:
  assumes "efs_ok fs d" "small_ok fs d ri" "offset \<le> i_size ri" "offset + length src \<le> SMALL_SIZE"
  shows "\<exists>n r ri' d'. raw_inode_write_loop fs offset src wl (ri, d) = (r, ri', d') \<and> n \<le> length src \<and>
    (r = Ok (wl + length src) \<and> n = length src \<or>
     r = Err NoSpaceLeft \<and> n < length src \<and> used_blocks fs d' = data_region fs \<and>
       i_size ri < offset + length src) \<and>
    efs_ok fs d' \<and> small_ok fs d' ri' \<and> write_frame fs ri d ri' d' \<and>
    content d' ri' = patch (content d ri) offset (take n src)"
  using assms
proof (induction src arbitrary: offset wl ri d rule: length_induct)
  case (1 src)
  note prems = "1.prems"
  show ?case
  proof (cases "src = []")
    case True
    then have "raw_inode_write_loop fs offset src wl (ri, d) = (Ok wl, ri, d)"
      by (simp add: raw_inode_write_loop.simps)
    then show ?thesis using True prems write_frame_refl [OF prems(2)] by auto
  next
    case False
    let ?l = "piece_len offset (length src)"
    let ?xs = "take ?l src"
    have l: "0 < ?l" "?l \<le> length src" using False by (simp_all add: piece_len_pos piece_len_le)
    have lo: "offset < SMALL_SIZE" using prems(4) False by (cases src) auto
    have k: "offset div BLOCK_SIZE < 12" using lo by (intro block_index_lt) (simp add: SMALL_SIZE_def efs_consts)
    have small: "\<not> MAX_FILE_SIZE \<le> offset" using lo by (simp add: SMALL_SIZE_def efs_consts)
    have bound: "offset mod BLOCK_SIZE + length ?xs \<le> BLOCK_SIZE"
      using l by (simp add: piece_len_def BLOCK_SIZE_def)
    from prems(1,2) lo show ?thesis
    proof (cases rule: locate_block)
      case full
      then have "raw_inode_write_loop fs offset src wl (ri, d) = (Err NoSpaceLeft, ri, d)"
        using False small by (subst raw_inode_write_loop.simps) (simp add: bind_def)
      then show ?thesis
        using False prems write_frame_refl [OF prems(2)] full(2,3)
        by (intro exI [of _ 0]) (auto intro: le_less_trans)
    next
      case f: (found p ri1 d1)
      have off1: "offset \<le> i_size ri1" using prems(3) f(7) by simp
      have xs: "?xs \<noteq> []" using l False by simp
      obtain d2 where w: "block_write p (offset mod BLOCK_SIZE) ?xs d1 = (Ok (), d2)"
        and ri2: "efs_ok fs d2" "small_ok fs d2 (ri1\<lparr>i_size := max (i_size ri1) (offset + ?l)\<rparr>)"
          "write_frame fs ri1 d1 (ri1\<lparr>i_size := max (i_size ri1) (offset + ?l)\<rparr>) d2"
          "content d2 (ri1\<lparr>i_size := max (i_size ri1) (offset + ?l)\<rparr>) = patch (content d1 ri1) offset ?xs"
        using block_write_owned [OF f(2,3) off1 k f(5,6) bound xs] l by (auto simp: Let_def)
      let ?ri2 = "ri1\<lparr>i_size := max (i_size ri1) (offset + ?l)\<rparr>"
      have eq: "raw_inode_write_loop fs offset src wl (ri, d) =
          raw_inode_write_loop fs (offset + ?l) (drop ?l src) (wl + ?l) (?ri2, d2)"
        using False small f(1) w
        by (subst raw_inode_write_loop.simps) (simp add: bind_def on_disk_def set_size_max_def)
      have pre: "length (drop ?l src) < length src" "offset + ?l \<le> i_size ?ri2"
        "offset + ?l + length (drop ?l src) \<le> SMALL_SIZE"
        using l prems(4) by auto
      from "1.IH" [rule_format, OF pre(1) ri2(1,2) pre(2,3), of "wl + ?l"] obtain n r ri3 d3 where
        r: "raw_inode_write_loop fs (offset + ?l) (drop ?l src) (wl + ?l) (?ri2, d2) = (r, ri3, d3)"
          "n \<le> length (drop ?l src)"
          "r = Ok (wl + ?l + length (drop ?l src)) \<and> n = length (drop ?l src) \<or>
           r = Err NoSpaceLeft \<and> n < length (drop ?l src) \<and> used_blocks fs d3 = data_region fs \<and>
             i_size ?ri2 < offset + ?l + length (drop ?l src)"
          "efs_ok fs d3" "small_ok fs d3 ri3" "write_frame fs ?ri2 d2 ri3 d3"
          "content d3 ri3 = patch (content d2 ?ri2) (offset + ?l) (take n (drop ?l src))"
        by blast
      have c1: "content d1 ri1 = content d ri"
        using f(7,8) by (auto simp: content_def)
      have "content d3 ri3 = patch (content d ri) offset (?xs @ take n (drop ?l src))"
        unfolding r(7) ri2(4) c1 using patch_patch [of offset "content d ri" ?xs] prems(3) l by simp
      also have "?xs @ take n (drop ?l src) = take (?l + n) src" by (simp add: take_add)
      finally have cont: "content d3 ri3 = patch (content d ri) offset (take (?l + n) src)" .
      have frame: "write_frame fs ri d ri3 d3"
        using write_frame_trans [OF write_frame_trans [OF f(4) ri2(3)] r(6)] .
      show ?thesis
        using eq r(1-5) cont frame l f(7) by (intro exI [of _ "?l + n"] exI [of _ r] exI [of _ ri3] exI [of _ d3]) auto
    qed
  qed
qed

section \<open>Reading\<close>

lemma bmap_direct:
  assumes "offset div BLOCK_SIZE < length (direct_blk_ptrs ri)" "direct_blk_ptrs ri ! (offset div BLOCK_SIZE) \<noteq> 0"
  shows "bmap ri offset d = (Ok (direct_blk_ptrs ri ! (offset div BLOCK_SIZE)), d)"
  using assms by (simp add: bmap_def bmap_walk_def bmap0.simps Let_def INVALID_DATA_BLOCK_NO_def)

lemma owned_mapped:
  assumes "efs_ok fs d" "small_ok fs d ri" "p \<in> owned ri"
  shows "\<exists>blk. d p = Some blk"
  using small_okD(4) [OF assms(2)] used_subset_region [OF assms(1)] assms(1,3)
  by (fastforce simp: efs_ok_def data_region_def)

lemma div_mod_shift:
  fixes a b i :: nat
  assumes "a mod b + i < b"
  shows "(a + i) div b = a div b" "(a + i) mod b = a mod b + i"
proof -
  have e: "a + i = (a mod b + i) + a div b * b" by simp
  have b: "b \<noteq> 0" using assms by simp
  have "((a mod b + i) + a div b * b) div b = a div b" using assms b by (subst div_mult_self1) simp_all
  then show "(a + i) div b = a div b" by (simp only: e [symmetric])
  have "((a mod b + i) + a div b * b) mod b = a mod b + i" using assms b by (subst mod_mult_self1) simp
  then show "(a + i) mod b = a mod b + i" by (simp only: e [symmetric])
qed

lemma read_loop_spec:
  assumes "efs_ok fs d" "small_ok fs d ri" "offset + rem \<le> i_size ri"
  shows "raw_inode_read_loop ri offset n rem d = (Ok (take (min n rem) (drop offset (content d ri))), d)"
  using assms(3)
proof (induction n arbitrary: offset rem rule: less_induct)
  case (less n)
  note D = small_okD [OF assms(2)]
  show ?case
  proof (cases "n = 0 \<or> rem = 0")
    case True
    then show ?thesis by (auto simp: raw_inode_read_loop.simps)
  next
    case False
    let ?l = "min (piece_len offset n) rem" and ?k = "offset div BLOCK_SIZE"
    have l: "0 < ?l" "?l \<le> n" "?l \<le> rem" using False piece_len_pos piece_len_le by (auto simp: min_le_iff_disj)
    have bound: "offset mod BLOCK_SIZE + ?l \<le> BLOCK_SIZE" by (simp add: piece_len_def BLOCK_SIZE_def min_le_iff_disj)
    have off: "offset < i_size ri" using less.prems False by linarith
    then have k: "?k < 12" using D(3) by (intro block_index_lt) (simp add: BLOCK_SIZE_def)
    have own: "direct_blk_ptrs ri ! ?k \<in> owned ri" by (rule D(5) [OF div_block_less [OF off]])
    then have b: "bmap ri offset d = (Ok (direct_blk_ptrs ri ! ?k), d)"
      using k D(2) by (intro bmap_direct) (auto simp: owned_def INVALID_DATA_BLOCK_NO_def)
    obtain blk where blk: "d (direct_blk_ptrs ri ! ?k) = Some blk"
      using owned_mapped [OF assms(1,2) own] by blast
    have small: "\<not> MAX_FILE_SIZE \<le> offset" using off D(3) by (simp add: efs_consts)
    have rd: "block_read (direct_blk_ptrs ri ! ?k) (offset mod BLOCK_SIZE) ?l d = (Ok (rd_bytes blk (offset mod BLOCK_SIZE) ?l), d)"
      using blk bound by (simp add: block_read_def bind_def get_block_def buf_in_bounds_def)
    have piece: "rd_bytes blk (offset mod BLOCK_SIZE) ?l = take ?l (drop offset (content d ri))"
    proof (rule nth_equalityI)
      show "length (rd_bytes blk (offset mod BLOCK_SIZE) ?l) = length (take ?l (drop offset (content d ri)))"
        using less.prems l by simp
      fix i assume "i < length (rd_bytes blk (offset mod BLOCK_SIZE) ?l)"
      then have i: "i < ?l" by simp
      have m: "offset mod BLOCK_SIZE + i < BLOCK_SIZE" using i bound by linarith
      note dm = div_mod_shift [OF m]
      from dm show "rd_bytes blk (offset mod BLOCK_SIZE) ?l ! i = take ?l (drop offset (content d ri)) ! i"
        using i less.prems l blk by (simp add: content_def file_byte_def)
    qed
    have "raw_inode_read_loop ri (offset + ?l) (n - ?l) (rem - ?l) d =
        (Ok (take (min (n - ?l) (rem - ?l)) (drop (offset + ?l) (content d ri))), d)"
      by (rule less.IH) (use l less.prems in auto)
    moreover have "take (min n rem) (drop offset (content d ri)) =
        take ?l (drop offset (content d ri)) @ take (min (n - ?l) (rem - ?l)) (drop (offset + ?l) (content d ri))"
    proof -
      have e: "min n rem = ?l + min (n - ?l) (rem - ?l)" using l by linarith
      show ?thesis unfolding e take_add drop_drop add.commute [of offset] ..
    qed
    ultimately show ?thesis
      using False small b rd piece
      by (subst raw_inode_read_loop.simps) (simp add: bind_def)
  qed
qed

section \<open>Inodes in the inode table\<close>

definition rinode :: "efs \<Rightarrow> disk \<Rightarrow> nat \<Rightarrow> raw_inode" where
  "rinode fs d n = inode_decode (rd_bytes (the (d (blk_no (inode_new fs n)))) (blk_offset (inode_new fs n)) RAW_INODE_SIZE)"

definition inode_region :: "efs \<Rightarrow> nat set" where
  "inode_region fs = {inode_start_bno (superblock fs)..<data_bitmap_start_bno (superblock fs)}"

lemma inode_in_bounds: "buf_in_bounds (blk_offset (inode_new fs n)) RAW_INODE_SIZE"
proof -
  have "n mod 31 \<le> 30" using mod_less_divisor [of 31 n] by linarith
  then show ?thesis by (simp add: buf_in_bounds_def inode_new_def efs_consts)
qed

lemma inode_in_region:
  "n < inode_counts (superblock fs) \<Longrightarrow> blk_no (inode_new fs n) \<in> inode_region fs"
  by (simp add: inode_new_def inode_region_def inode_counts_def data_bitmap_start_bno_def less_mult_imp_div_less)

lemma inode_slots_disjoint:
  assumes "n \<noteq> m" "blk_no (inode_new fs n) = blk_no (inode_new fs m)"
  shows "blk_offset (inode_new fs m) + RAW_INODE_SIZE \<le> blk_offset (inode_new fs n) \<or>
    blk_offset (inode_new fs n) + RAW_INODE_SIZE \<le> blk_offset (inode_new fs m)"
proof -
  have "n div 31 = m div 31" using assms(2) by (simp add: inode_new_def efs_consts)
  then have "n mod 31 \<noteq> m mod 31" using assms(1) by (metis div_mult_mod_eq)
  then have "Suc (n mod 31) \<le> m mod 31 \<or> Suc (m mod 31) \<le> n mod 31" by linarith
  then show ?thesis by (auto simp: inode_new_def efs_consts)
qed

lemma efs_ok_mapped:
  "efs_ok fs d \<Longrightarrow> b \<in> inode_region fs \<or> b \<in> data_region fs \<Longrightarrow> \<exists>blk. d b = Some blk"
  using efs_layout_order(9) [of fs] by (fastforce simp: efs_ok_def inode_region_def data_region_def)

lemma read_raw_inode_eq:
  assumes "efs_ok fs d" "n < inode_counts (superblock fs)"
  shows "read_raw_inode (inode_new fs n) d = (Ok (rinode fs d n), d)"
  using efs_ok_mapped [OF assms(1)] inode_in_region [OF assms(2)] inode_in_bounds [of fs n]
  by (fastforce simp: read_raw_inode_def rinode_def bind_def get_block_def)

text \<open>Storing a raw inode changes its slot and nothing else.\<close>

definition put_inode :: "efs \<Rightarrow> nat \<Rightarrow> raw_inode \<Rightarrow> disk \<Rightarrow> disk" where
  "put_inode fs n ri d = d(blk_no (inode_new fs n) \<mapsto>
     wr_bytes (the (d (blk_no (inode_new fs n)))) (blk_offset (inode_new fs n)) (inode_encode ri))"

lemma rinode_put:
  assumes "inode_fits ri"
  shows "rinode fs (put_inode fs n ri d) m = (if m = n then ri else rinode fs d m)"
proof -
  have len: "length (inode_encode ri) = RAW_INODE_SIZE"
    using assms by (intro length_inode_encode) (simp add: inode_fits_def)
  show ?thesis
  proof (cases "m = n")
    case True
    then show ?thesis using assms len by (simp add: rinode_def put_inode_def rd_wr_same' inode_decode_encode)
  next
    case False
    then show ?thesis
      using inode_slots_disjoint [of n m fs] len
      by (cases "blk_no (inode_new fs m) = blk_no (inode_new fs n)")
        (simp_all add: rinode_def put_inode_def rd_wr_disjoint)
  qed
qed

lemma put_inode_frame: "b \<noteq> blk_no (inode_new fs n) \<Longrightarrow> put_inode fs n ri d b = d b"
  by (simp add: put_inode_def)

lemma inode_region_disjoint:
  assumes "efs_layout fs" "b \<in> inode_region fs"
  shows "b \<notin> data_region fs" "b \<notin> bitmap_region fs"
    "\<not> (start_blk_no (inode_bitmap fs) \<le> b \<and> b < end_blk_no (inode_bitmap fs))"
  using efs_layout_order [OF assms(1)] assms(2) by (auto simp: inode_region_def data_region_def bitmap_region_def)

lemma put_inode_ok:
  assumes ok: "efs_ok fs d" and n: "n < inode_counts (superblock fs)"
  shows "efs_ok fs (put_inode fs n ri d)" "used_blocks fs (put_inode fs n ri d) = used_blocks fs d"
    "allocated (inode_bitmap fs) (put_inode fs n ri d) = allocated (inode_bitmap fs) d"
proof -
  let ?d = "put_inode fs n ri d" and ?b = "blk_no (inode_new fs n)"
  have lay: "efs_layout fs" using ok by (simp add: efs_ok_def)
  have reg: "?b \<in> inode_region fs" by (rule inode_in_region [OF n])
  have bi: "bitmap_ok (inode_bitmap fs) d" and bd: "bitmap_ok (data_bitmap fs) d" using ok by (simp_all add: efs_ok_def)
  have si: "?d b = d b" if "start_blk_no (inode_bitmap fs) \<le> b" "b < end_blk_no (inode_bitmap fs)" for b
    using that inode_region_disjoint(3) [OF lay reg] by (intro put_inode_frame) auto
  have sd: "?d b = d b" if "start_blk_no (data_bitmap fs) \<le> b" "b < end_blk_no (data_bitmap fs)" for b
    using that inode_region_disjoint(2) [OF lay reg] by (intro put_inode_frame) (auto simp: bitmap_region_def)
  have "?d c \<noteq> None" if "d c \<noteq> None" for c using that by (simp add: put_inode_def)
  then show "efs_ok fs ?d"
    using ok bitmap_cong(1) [OF bi si] bitmap_cong(1) [OF bd sd] unfolding efs_ok_def by blast
  show "used_blocks fs ?d = used_blocks fs d"
    using bitmap_cong(2) [OF bd sd] by (simp add: used_blocks_def)
  show "allocated (inode_bitmap fs) ?d = allocated (inode_bitmap fs) d"
    using bitmap_cong(2) [OF bi si] .
qed

lemma with_raw_inode_eq:
  assumes "efs_ok fs d" "n < inode_counts (superblock fs)"
    and f: "f (rinode fs d n, d) = (r, ri, d')" and mapped: "d' (blk_no (inode_new fs n)) \<noteq> None"
  shows "with_raw_inode (inode_new fs n) f d = (r, put_inode fs n ri d')"
proof -
  obtain blk where "d (blk_no (inode_new fs n)) = Some blk"
    using efs_ok_mapped [OF assms(1)] inode_in_region [OF assms(2)] by blast
  moreover obtain blk' where "d' (blk_no (inode_new fs n)) = Some blk'" using mapped by blast
  ultimately show ?thesis
    using f inode_in_bounds [of fs n]
    by (simp add: with_raw_inode_def bind_def get_block_def put_inode_def rinode_def)
qed

section \<open>A disk with files\<close>

text \<open>The inodes of \<open>I\<close> are small files that own pairwise disjoint sets of allocated blocks.\<close>

definition files_ok :: "efs \<Rightarrow> disk \<Rightarrow> nat set \<Rightarrow> bool" where
  "files_ok fs d I \<longleftrightarrow> efs_ok fs d \<and>
     (\<forall>n\<in>I. n < inode_counts (superblock fs) \<and> small_ok fs d (rinode fs d n)) \<and>
     (\<forall>n\<in>I. \<forall>m\<in>I. n \<noteq> m \<longrightarrow> owned (rinode fs d n) \<inter> owned (rinode fs d m) = {})"

definition file_content :: "efs \<Rightarrow> disk \<Rightarrow> nat \<Rightarrow> bytes" where
  "file_content fs d n = content d (rinode fs d n)"

lemma files_okD:
  assumes "files_ok fs d I"
  shows "efs_ok fs d" "efs_layout fs" "\<And>n. n \<in> I \<Longrightarrow> n < inode_counts (superblock fs)"
    "\<And>n. n \<in> I \<Longrightarrow> small_ok fs d (rinode fs d n)"
    "\<And>n m. n \<in> I \<Longrightarrow> m \<in> I \<Longrightarrow> n \<noteq> m \<Longrightarrow> owned (rinode fs d n) \<inter> owned (rinode fs d m) = {}"
  using assms by (auto simp: files_ok_def efs_ok_def)

lemma small_ok_mono: "small_ok fs d ri \<Longrightarrow> owned ri \<subseteq> used_blocks fs d' \<Longrightarrow> small_ok fs d' ri"
  by (simp add: small_ok_def)

lemma content_cong:
  assumes "small_ok fs d ri" "\<And>b. b \<in> owned ri \<Longrightarrow> d' b = d b"
  shows "content d' ri = content d ri"
  unfolding content_def
proof (rule map_cong [OF refl])
  fix i assume "i \<in> set [0..<i_size ri]"
  then have "direct_blk_ptrs ri ! (i div BLOCK_SIZE) \<in> owned ri"
    by (intro small_okD(5) [OF assms(1)] div_block_less) simp
  then show "file_byte d' ri i = file_byte d ri i" using assms(2) by (simp add: file_byte_def)
qed

lemma owned_region: "efs_ok fs d \<Longrightarrow> small_ok fs d ri \<Longrightarrow> owned ri \<subseteq> data_region fs"
  using small_okD(4) used_subset_region by blast

lemma rinode_cong: "d' (blk_no (inode_new fs m)) = d (blk_no (inode_new fs m)) \<Longrightarrow> rinode fs d' m = rinode fs d m"
  by (simp add: rinode_def)

text \<open>The frame of any operation on one inode, shrinking ones included.\<close>

definition inode_frame :: "efs \<Rightarrow> raw_inode \<Rightarrow> disk \<Rightarrow> raw_inode \<Rightarrow> disk \<Rightarrow> bool" where
  "inode_frame fs ri d ri' d' \<longleftrightarrow>
     (\<forall>c. c \<notin> bitmap_region fs \<and> c \<notin> owned ri' \<longrightarrow> d' c = d c) \<and>
     owned ri' \<inter> used_blocks fs d \<subseteq> owned ri \<and>
     used_blocks fs d' = used_blocks fs d - owned ri \<union> owned ri'"

lemma write_frame_inode_frame: "write_frame fs ri d ri' d' \<Longrightarrow> inode_frame fs ri d ri' d'"
  by (auto simp: write_frame_def inode_frame_def)

text \<open>The effect on the whole disk of an operation on one file that stays within its frame.\<close>

lemma update_file:
  assumes F: "files_ok fs d I" and n: "n \<in> I"
    and fr: "inode_frame fs (rinode fs d n) d ri' d'" and ok: "efs_ok fs d'" and sm: "small_ok fs d' ri'"
  defines "d2 \<equiv> put_inode fs n ri' d'"
  shows "files_ok fs d2 I" "file_content fs d2 n = content d' ri'" "rinode fs d2 n = ri'"
    "\<And>m. m < inode_counts (superblock fs) \<Longrightarrow> m \<noteq> n \<Longrightarrow> rinode fs d2 m = rinode fs d m"
    "\<And>m. m \<in> I \<Longrightarrow> m \<noteq> n \<Longrightarrow> file_content fs d2 m = file_content fs d m"
    "used_blocks fs d2 = used_blocks fs d - owned (rinode fs d n) \<union> owned ri'"
proof -
  note D = files_okD [OF F]
  have nc: "n < inode_counts (superblock fs)" by (rule D(3) [OF n])
  have fits: "inode_fits ri'" by (rule small_okD(1) [OF sm])
  note put = put_inode_ok [OF ok nc, of ri']
  have own': "owned ri' \<subseteq> data_region fs" by (rule owned_region [OF ok sm])
  have ireg: "d' b = d b" if "b \<in> inode_region fs" for b
    using fr that own' inode_region_disjoint(1,2) [OF D(2) that] by (auto simp: inode_frame_def)
  have in2: "blk_no (inode_new fs n) \<in> inode_region fs" by (rule inode_in_region [OF nc])
  have dreg: "d2 b = d' b" if "b \<in> data_region fs" for b
    unfolding d2_def using that inode_region_disjoint(1) [OF D(2) in2] by (intro put_inode_frame) auto
  have used2: "used_blocks fs d2 = used_blocks fs d'" unfolding d2_def by (rule put(2))
  have used': "used_blocks fs d' = used_blocks fs d - owned (rinode fs d n) \<union> owned ri'" using fr by (simp add: inode_frame_def)
  show rn: "rinode fs d2 n = ri'" unfolding d2_def using rinode_put [OF fits] by simp
  show rm: "rinode fs d2 m = rinode fs d m" if "m < inode_counts (superblock fs)" "m \<noteq> n" for m
  proof -
    have "rinode fs d2 m = rinode fs d' m" unfolding d2_def using that rinode_put [OF fits] by simp
    also have "\<dots> = rinode fs d m" by (rule rinode_cong) (rule ireg [OF inode_in_region [OF that(1)]])
    finally show ?thesis .
  qed
  have sm2: "small_ok fs d2 (rinode fs d2 m)" if m: "m \<in> I" for m
  proof (cases "m = n")
    case True
    then show ?thesis using rn small_ok_mono [OF sm] small_okD(4) [OF sm] used2 by simp
  next
    case False
    then have "owned (rinode fs d m) \<subseteq> used_blocks fs d2"
      using small_okD(4) [OF D(4) [OF m]] used2 used' D(5) [OF m n] by blast
    then show ?thesis
      using False rm [OF D(3) [OF m]] small_ok_mono [OF D(4) [OF m]] by simp
  qed
  have apart: "owned (rinode fs d m) \<inter> owned ri' = {}" if m: "m \<in> I" "m \<noteq> n" for m
  proof -
    have "owned ri' \<inter> used_blocks fs d \<subseteq> owned (rinode fs d n)" using fr by (simp add: inode_frame_def)
    then show ?thesis using D(5) [OF m(1) n m(2)] small_okD(4) [OF D(4) [OF m(1)]] by blast
  qed
  have disj: "owned (rinode fs d2 k) \<inter> owned (rinode fs d2 m) = {}" if k: "k \<in> I" "m \<in> I" "k \<noteq> m" for k m
    using rn rm [OF D(3) [OF k(1)]] rm [OF D(3) [OF k(2)]] D(5) [OF k] apart k
    by (cases "k = n"; cases "m = n") auto
  show "files_ok fs d2 I"
    unfolding files_ok_def using put(1) sm2 disj D(3) by (auto simp: d2_def)
  show "file_content fs d2 n = content d' ri'"
    unfolding file_content_def rn using own' dreg by (intro content_cong [OF sm]) auto
  show "file_content fs d2 m = file_content fs d m" if m: "m \<in> I" "m \<noteq> n" for m
  proof -
    have "d2 b = d b" if b: "b \<in> owned (rinode fs d m)" for b
    proof -
      have br: "b \<in> data_region fs" using b owned_region [OF D(1) D(4) [OF m(1)]] by blast
      have "b \<notin> owned ri'" using b apart [OF m] by blast
      then have "d' b = d b" using fr region_disjoint [OF D(2) br] by (simp add: inode_frame_def)
      then show ?thesis using dreg [OF br] by simp
    qed
    then show ?thesis
      unfolding file_content_def rm [OF D(3) [OF m(1)] m(2)] by (rule content_cong [OF D(4) [OF m(1)]])
  qed
  show "used_blocks fs d2 = used_blocks fs d - owned (rinode fs d n) \<union> owned ri'" using used2 used' by simp
qed

lemma inode_block_mapped:
  assumes F: "files_ok fs d I" and n: "n \<in> I" and ok: "efs_ok fs d'"
  shows "d' (blk_no (inode_new fs n)) \<noteq> None"
  using efs_ok_mapped [OF ok] inode_in_region [OF files_okD(3) [OF F n]] by fastforce

text \<open>An operation that touches the file \<open>n\<close> only.\<close>

definition only_file :: "efs \<Rightarrow> nat set \<Rightarrow> nat \<Rightarrow> disk \<Rightarrow> disk \<Rightarrow> bool" where
  "only_file fs I n d d' \<longleftrightarrow> files_ok fs d' I \<and>
     i_typ (rinode fs d' n) = i_typ (rinode fs d n) \<and> i_nlink (rinode fs d' n) = i_nlink (rinode fs d n) \<and>
     indirect_blk_ptr (rinode fs d' n) = indirect_blk_ptr (rinode fs d n) \<and>
     double_indirect_blk_ptr (rinode fs d' n) = double_indirect_blk_ptr (rinode fs d n) \<and>
     allocated (inode_bitmap fs) d' = allocated (inode_bitmap fs) d \<and>
     (\<forall>m < inode_counts (superblock fs). m \<noteq> n \<longrightarrow> rinode fs d' m = rinode fs d m) \<and>
     (\<forall>m \<in> I. m \<noteq> n \<longrightarrow> file_content fs d' m = file_content fs d m)"

lemma only_file_refl: "files_ok fs d I \<Longrightarrow> only_file fs I n d d"
  by (simp add: only_file_def)

lemma only_file_trans: "only_file fs I n d d1 \<Longrightarrow> only_file fs I n d1 d2 \<Longrightarrow> only_file fs I n d d2"
  by (auto simp: only_file_def)

lemma only_fileD:
  assumes "only_file fs I n d d'"
  shows "files_ok fs d' I" "raw_file_type (rinode fs d' n) = raw_file_type (rinode fs d n)"
    "\<And>m. m < inode_counts (superblock fs) \<Longrightarrow> m \<noteq> n \<Longrightarrow> rinode fs d' m = rinode fs d m"
    "\<And>m. m \<in> I \<Longrightarrow> m \<noteq> n \<Longrightarrow> file_content fs d' m = file_content fs d m"
    "allocated (inode_bitmap fs) d' = allocated (inode_bitmap fs) d"
    "i_nlink (rinode fs d' n) = i_nlink (rinode fs d n)"
    "indirect_blk_ptr (rinode fs d' n) = indirect_blk_ptr (rinode fs d n)"
    "double_indirect_blk_ptr (rinode fs d' n) = double_indirect_blk_ptr (rinode fs d n)"
  using assms by (auto simp: only_file_def raw_file_type_def)

lemma raw_write_spec:
  assumes F: "files_ok fs d I" and n: "n \<in> I"
    and ty: "raw_file_type (rinode fs d n) \<in> {File, Symlink, Directory}"
    and off: "offset \<le> length (file_content fs d n)" "offset + length src \<le> SMALL_SIZE"
  shows "\<exists>r k d'. raw_write fs (inode_new fs n) offset src d = (r, d') \<and> k \<le> length src \<and>
    (r = Ok (length src) \<and> k = length src \<or>
     r = Err NoSpaceLeft \<and> k < length src \<and> used_blocks fs d' = data_region fs \<and>
       length (file_content fs d n) < offset + length src) \<and>
    file_content fs d' n = patch (file_content fs d n) offset (take k src) \<and> only_file fs I n d d'"
proof -
  note D = files_okD [OF F]
  let ?ri = "rinode fs d n"
  have o: "offset \<le> i_size ?ri" using off(1) by (simp add: file_content_def)
  from write_loop_spec [OF D(1) D(4) [OF n] o off(2), of 0] obtain k r ri' d' where
    w: "raw_inode_write_loop fs offset src 0 (?ri, d) = (r, ri', d')" "k \<le> length src"
      "r = Ok (0 + length src) \<and> k = length src \<or>
       r = Err NoSpaceLeft \<and> k < length src \<and> used_blocks fs d' = data_region fs \<and> i_size ?ri < offset + length src"
      "efs_ok fs d'" "small_ok fs d' ri'" "write_frame fs ?ri d ri' d'"
      "content d' ri' = patch (content d ?ri) offset (take k src)"
    by blast
  have "raw_inode_write fs offset src (?ri, d) = (r, ri', d')"
    using w(1) o ty by (simp add: raw_inode_write_def)
  then have e: "raw_write fs (inode_new fs n) offset src d = (r, put_inode fs n ri' d')"
    unfolding raw_write_def
    by (rule with_raw_inode_eq [OF D(1) D(3) [OF n]]) (rule inode_block_mapped [OF F n w(4)])
  note U = update_file [OF F n write_frame_inode_frame [OF w(6)] w(4,5)]
  have full: "used_blocks fs (put_inode fs n ri' d') = data_region fs" if "used_blocks fs d' = data_region fs"
    using put_inode_ok(2) [OF w(4) D(3) [OF n]] that by simp
  have ib: "allocated (inode_bitmap fs) (put_inode fs n ri' d') = allocated (inode_bitmap fs) d"
  proof -
    have "d' b = d b" if "start_blk_no (inode_bitmap fs) \<le> b" "b < end_blk_no (inode_bitmap fs)" for b
    proof -
      have "b \<notin> bitmap_region fs" "b \<notin> data_region fs"
        using that efs_layout_order [OF D(2)] by (auto simp: bitmap_region_def data_region_def)
      then show ?thesis using w(6) owned_region [OF w(4,5)] unfolding write_frame_def by blast
    qed
    then have "allocated (inode_bitmap fs) d' = allocated (inode_bitmap fs) d"
      using D(1) by (intro bitmap_cong(2)) (auto simp: efs_ok_def)
    then show ?thesis using put_inode_ok(3) [OF w(4) D(3) [OF n]] by simp
  qed
  have "only_file fs I n d (put_inode fs n ri' d')"
    using U(1,4,5) ib w(6) by (auto simp: only_file_def U(3) write_frame_def)
  then show ?thesis
    using w(2,3) full e U(2) w(7)
    by (intro exI [of _ r] exI [of _ k] exI [of _ "put_inode fs n ri' d'"])
      (auto simp: file_content_def [of fs d n])
qed

lemma raw_read_spec:
  assumes F: "files_ok fs d I" and n: "n \<in> I"
    and ty: "raw_file_type (rinode fs d n) \<in> {File, Symlink, Directory}"
  shows "raw_read (inode_new fs n) offset k d =
    (if offset \<le> length (file_content fs d n) then Ok (take k (drop offset (file_content fs d n)))
     else Err InvalidArgument, d)"
proof -
  note D = files_okD [OF F]
  let ?ri = "rinode fs d n"
  have "take (min k (i_size ?ri - offset)) (drop offset (content d ?ri)) = take k (drop offset (content d ?ri))"
    by (simp add: min_def)
  then show ?thesis
    using read_raw_inode_eq [OF D(1) D(3) [OF n]] ty
      read_loop_spec [OF D(1) D(4) [OF n], of offset "i_size ?ri - offset" k]
    by (auto simp: raw_read_def bind_def raw_inode_read_def file_content_def)
qed

section \<open>Truncation\<close>

lemma dealloc_data_block_spec:
  assumes ok: "efs_ok fs d" and b: "b \<in> data_region fs"
  obtains d' where "dealloc_data_block fs b d = (Ok (), d')" "efs_ok fs d'"
    "used_blocks fs d' = used_blocks fs d - {b}" "\<forall>c. c \<notin> bitmap_region fs \<longrightarrow> d' c = d c"
proof -
  note lay = efs_layout_order [OF ok [unfolded efs_ok_def, THEN conjunct1]]
  let ?i = "b - data_start_bno (superblock fs)"
  have i: "?i < bits_len (data_bitmap fs)" and bi: "b = data_start_bno (superblock fs) + ?i"
    using b lay(5) by (auto simp: data_region_def)
  have bm: "bitmap_ok (data_bitmap fs) d" and bn: "bitmap_ok (inode_bitmap fs) d" using ok by (simp_all add: efs_ok_def)
  let ?d = "upd_disk_bit d (start_blk_no (data_bitmap fs)) ?i False"
  have fr: "?d c = d c" if "c \<notin> bitmap_region fs" for c
    using that upd_bitmap_frame [OF bm i] by (auto simp: bitmap_region_def)
  have "dealloc_data_block fs b d = (Ok (), ?d)"
    using bitmap_modify_upd(1) [OF bm i] b by (simp add: dealloc_data_block_def checked_sub_def data_region_def)
  moreover have "efs_ok fs ?d"
  proof -
    have "?d c \<noteq> None" if "d c \<noteq> None" for c using that by (simp add: upd_disk_bit_def)
    moreover have "bitmap_ok (inode_bitmap fs) ?d"
      using fr lay by (intro bitmap_cong(1) [OF bn]) (auto simp: bitmap_region_def)
    ultimately show ?thesis using ok bitmap_ok_upd [OF bm i, of False] unfolding efs_ok_def by blast
  qed
  moreover have "used_blocks fs ?d = used_blocks fs d - {b}"
    unfolding used_blocks_def allocated_upd [OF i] using bi by auto
  ultimately show thesis using that fr by blast
qed

text \<open>Freeing the blocks at the indices \<open>L\<close>.\<close>

definition zero_ptrs :: "nat list \<Rightarrow> raw_inode \<Rightarrow> raw_inode" where
  "zero_ptrs L ri = ri\<lparr>direct_blk_ptrs := fold (\<lambda>k ps. ps[k := INVALID_DATA_BLOCK_NO]) L (direct_blk_ptrs ri)\<rparr>"

lemma fold_zero:
  "length (fold (\<lambda>k ps. ps[k := z]) L ps) = length ps"
  "j < length ps \<Longrightarrow> fold (\<lambda>k ps. ps[k := z]) L ps ! j = (if j \<in> set L then z else ps ! j)"
  by (induction L arbitrary: ps) (auto simp: nth_list_update)

lemma free_direct:
  assumes "k < length (direct_blk_ptrs ri)" "direct_blk_ptrs ri ! k \<noteq> 0"
    and "dealloc_data_block fs (direct_blk_ptrs ri ! k) d = (Ok (), d')"
  shows "bmap_walk_mut fs (k * BLOCK_SIZE) False (free_slot fs) (ri, d) =
    (Ok (), ri\<lparr>direct_blk_ptrs := (direct_blk_ptrs ri)[k := INVALID_DATA_BLOCK_NO]\<rparr>, d')"
  using assms
  by (simp add: bmap_walk_mut_def Let_def bmap0_mut.simps on_slot_def free_slot_def efs_consts)

lemma dealloc_loop_spec:
  assumes "efs_ok fs d" "distinct L"
    "\<And>k. k \<in> set L \<Longrightarrow> k < length (direct_blk_ptrs ri) \<and> direct_blk_ptrs ri ! k \<in> data_region fs"
  shows "\<exists>d'. dealloc_loop fs L (ri, d) = (Ok (), (zero_ptrs L ri)\<lparr>i_size := i_size ri - length L * BLOCK_SIZE\<rparr>, d') \<and>
    efs_ok fs d' \<and> used_blocks fs d' = used_blocks fs d - (\<lambda>k. direct_blk_ptrs ri ! k) ` set L \<and>
    (\<forall>c. c \<notin> bitmap_region fs \<longrightarrow> d' c = d c)"
  using assms
proof (induction L arbitrary: ri d)
  case Nil
  then show ?case by (simp add: zero_ptrs_def)
next
  case (Cons k L)
  let ?p = "direct_blk_ptrs ri ! k"
  let ?ri = "ri\<lparr>direct_blk_ptrs := (direct_blk_ptrs ri)[k := INVALID_DATA_BLOCK_NO], i_size := i_size ri - BLOCK_SIZE\<rparr>"
  have k: "k < length (direct_blk_ptrs ri)" and p: "?p \<in> data_region fs" using Cons.prems(3) by auto
  have lay: "efs_layout fs" using Cons.prems(1) by (simp add: efs_ok_def)
  obtain d1 where a: "dealloc_data_block fs ?p d = (Ok (), d1)" "efs_ok fs d1"
    "used_blocks fs d1 = used_blocks fs d - {?p}" "\<forall>c. c \<notin> bitmap_region fs \<longrightarrow> d1 c = d c"
    by (rule dealloc_data_block_spec [OF Cons.prems(1) p])
  have p0: "?p \<noteq> 0" using region_disjoint [OF lay p] by simp
  have nk: "k \<notin> set L" and dl: "distinct L" using Cons.prems(2) by auto
  have same: "direct_blk_ptrs ?ri ! j = direct_blk_ptrs ri ! j" if "j \<in> set L" for j
  proof -
    have "j \<noteq> k" using that nk by blast
    then show ?thesis by simp
  qed
  have pre: "j < length (direct_blk_ptrs ?ri) \<and> direct_blk_ptrs ?ri ! j \<in> data_region fs" if "j \<in> set L" for j
    using that same [OF that] Cons.prems(3) [of j] by simp
  from Cons.IH [OF a(2) dl pre] obtain d2 where r:
    "dealloc_loop fs L (?ri, d1) = (Ok (), (zero_ptrs L ?ri)\<lparr>i_size := i_size ?ri - length L * BLOCK_SIZE\<rparr>, d2)"
    "efs_ok fs d2" "used_blocks fs d2 = used_blocks fs d1 - (\<lambda>k. direct_blk_ptrs ?ri ! k) ` set L"
    "\<forall>c. c \<notin> bitmap_region fs \<longrightarrow> d2 c = d1 c"
    by blast
  have img: "(\<lambda>k. direct_blk_ptrs ?ri ! k) ` set L = (\<lambda>k. direct_blk_ptrs ri ! k) ` set L"
    using same by (intro image_cong) auto
  have z: "(zero_ptrs L ?ri)\<lparr>i_size := i_size ?ri - length L * BLOCK_SIZE\<rparr> =
      (zero_ptrs (k # L) ri)\<lparr>i_size := i_size ri - length (k # L) * BLOCK_SIZE\<rparr>"
    by (simp add: zero_ptrs_def)
  have "dealloc_loop fs (k # L) (ri, d) = dealloc_loop fs L (?ri, d1)"
    using free_direct [OF k p0 a(1)] by simp
  then have "dealloc_loop fs (k # L) (ri, d) = (Ok (), (zero_ptrs (k # L) ri)\<lparr>i_size := i_size ri - length (k # L) * BLOCK_SIZE\<rparr>, d2)"
    using r(1) z by simp
  moreover have "used_blocks fs d2 = used_blocks fs d - (\<lambda>k. direct_blk_ptrs ri ! k) ` set (k # L)"
    using r(3) a(3) img by auto
  ultimately show ?case using r(2,4) a(4) by auto
qed

lemma div_ceil_mult_less:
  assumes "0 < b"
  shows "k * b < n \<longleftrightarrow> k < div_ceil n b"
proof
  assume "k * b < n"
  then show "k < div_ceil n b" using div_ceil_ge [OF assms, of n] by (metis less_le_trans mult_less_cancel2)
next
  assume k: "k < div_ceil n b"
  show "k * b < n"
  proof (rule ccontr)
    assume "\<not> k * b < n"
    then have "div_ceil n b \<le> k" by (intro div_ceil_le [OF assms]) simp
    with k show False by simp
  qed
qed

lemma truncate_small:
  assumes ok: "efs_ok fs d" and sm: "small_ok fs d ri"
    and tab: "indirect_blk_ptr ri = 0" "double_indirect_blk_ptr ri = 0" and n: "new_size < i_size ri"
  shows "\<exists>ri' d'. raw_inode_truncate fs new_size (ri, d) = (Ok (), ri', d') \<and> efs_ok fs d' \<and> small_ok fs d' ri' \<and>
    inode_frame fs ri d ri' d' \<and> content d' ri' = take new_size (content d ri) \<and>
    i_typ ri' = i_typ ri \<and> i_nlink ri' = i_nlink ri \<and> indirect_blk_ptr ri' = 0 \<and> double_indirect_blk_ptr ri' = 0 \<and>
    (\<forall>c. c \<notin> bitmap_region fs \<longrightarrow> d' c = d c) \<and> owned ri' \<subseteq> owned ri"
proof -
  note D = small_okD [OF sm]
  let ?s = "div_ceil new_size BLOCK_SIZE" and ?e = "Suc ((i_size ri - 1) div BLOCK_SIZE)"
  define L where "L = rev [?s..<?e]"
  have bs: "0 < BLOCK_SIZE" by (simp add: BLOCK_SIZE_def)
  have inL: "k * BLOCK_SIZE < i_size ri" if "k \<in> set L" for k
  proof -
    have "k \<le> (i_size ri - 1) div BLOCK_SIZE" using that by (auto simp: L_def)
    then have "k * BLOCK_SIZE \<le> i_size ri - 1" by (metis div_times_less_eq_dividend le_trans mult_le_mono1)
    then show ?thesis using n by linarith
  qed
  have own: "direct_blk_ptrs ri ! k \<in> owned ri \<and> k < 12" if "k \<in> set L" for k
    using D(5) [OF inL [OF that]] inL [OF that] D(3) by (simp add: BLOCK_SIZE_def)
  have pre: "k < length (direct_blk_ptrs ri) \<and> direct_blk_ptrs ri ! k \<in> data_region fs" if "k \<in> set L" for k
    using own [OF that] D(2) owned_region [OF ok sm] by auto
  have "distinct L" by (simp add: L_def)
  from dealloc_loop_spec [OF ok this pre] obtain d' where l:
    "dealloc_loop fs L (ri, d) = (Ok (), (zero_ptrs L ri)\<lparr>i_size := i_size ri - length L * BLOCK_SIZE\<rparr>, d')"
    "efs_ok fs d'" "used_blocks fs d' = used_blocks fs d - (\<lambda>k. direct_blk_ptrs ri ! k) ` set L"
    "\<forall>c. c \<notin> bitmap_region fs \<longrightarrow> d' c = d c"
    by blast
  let ?ri = "(zero_ptrs L ri)\<lparr>i_size := new_size\<rparr>"
  have r: "raw_inode_truncate fs new_size (ri, d) = (Ok (), ?ri, d')"
    using n l(1) tab
    by (simp add: raw_inode_truncate_def dealloc_data_blks_from_def bind_def dealloc_tables_def zero_ptrs_def
        INVALID_DATA_BLOCK_NO_def Let_def L_def del: upt_Suc)
  have ptr: "direct_blk_ptrs ?ri ! k = (if k \<in> set L then 0 else direct_blk_ptrs ri ! k)" if "k < 12" for k
    using that D(2) by (simp add: zero_ptrs_def fold_zero INVALID_DATA_BLOCK_NO_def)
  have len: "length (direct_blk_ptrs ?ri) = 12" using D(2) by (simp add: zero_ptrs_def fold_zero)
  have keep: "k \<notin> set L" if "k * BLOCK_SIZE < new_size" for k
    using that div_ceil_mult_less [OF bs] by (auto simp: L_def)
  have ownd: "owned ?ri = owned ri - (\<lambda>k. direct_blk_ptrs ri ! k) ` set L"
  proof (intro set_eqI iffI)
    fix b assume "b \<in> owned ?ri"
    then obtain k where k: "k < 12" "direct_blk_ptrs ?ri ! k = b" "b \<noteq> 0"
      using len by (auto simp: owned_def in_set_conv_nth INVALID_DATA_BLOCK_NO_def)
    then have "k \<notin> set L" "direct_blk_ptrs ri ! k = b" using ptr [OF k(1)] by (auto split: if_splits)
    moreover have "b \<notin> (\<lambda>k. direct_blk_ptrs ri ! k) ` set L"
      using calculation own D(6) [OF k(1)] k(3) by auto
    ultimately show "b \<in> owned ri - (\<lambda>k. direct_blk_ptrs ri ! k) ` set L"
      using owned_nth [of k ri] k D(2) by auto
  next
    fix b assume b: "b \<in> owned ri - (\<lambda>k. direct_blk_ptrs ri ! k) ` set L"
    then obtain k where k: "k < 12" "direct_blk_ptrs ri ! k = b" "b \<noteq> 0"
      using D(2) by (auto simp: owned_def in_set_conv_nth INVALID_DATA_BLOCK_NO_def)
    then have "direct_blk_ptrs ?ri ! k = b" using b ptr [OF k(1)] by auto
    then show "b \<in> owned ?ri" using owned_nth [of k ?ri] len k by simp
  qed
  have sm': "small_ok fs d' ?ri"
    unfolding small_ok_def
  proof (intro conjI allI impI)
    have "set (direct_blk_ptrs ?ri) \<subseteq> insert 0 (set (direct_blk_ptrs ri))"
      using ptr len D(2) by (fastforce simp: in_set_conv_nth split: if_splits)
    then show "inode_fits ?ri"
      using D(1,3) n len by (auto simp: inode_fits_def zero_ptrs_def NUM_DIRECT_DATA_BLKS_def)
    show "i_size ?ri \<le> SMALL_SIZE" using n D(3) by (simp add: SMALL_SIZE_def efs_consts)
    show "direct_blk_ptrs ?ri ! k \<noteq> INVALID_DATA_BLOCK_NO" if "k < NUM_DIRECT_DATA_BLKS" "k * BLOCK_SIZE < i_size ?ri" for k
      using that keep [of k] ptr [of k] D(5) [of k] n by (simp add: efs_consts owned_def)
    show "owned ?ri \<subseteq> used_blocks fs d'" using ownd l(3) D(4) by blast
    show "i = j" if "i < NUM_DIRECT_DATA_BLKS" "j < NUM_DIRECT_DATA_BLKS"
      "direct_blk_ptrs ?ri ! i \<noteq> INVALID_DATA_BLOCK_NO" "direct_blk_ptrs ?ri ! i = direct_blk_ptrs ?ri ! j" for i j
      using that ptr [of i] ptr [of j] D(6) [of i j] by (simp add: efs_consts split: if_splits)
  qed
  have fr: "inode_frame fs ri d ?ri d'"
    using l(3,4) ownd D(4) own by (auto simp: inode_frame_def)
  have "content d' ?ri = take new_size (content d ri)"
  proof (rule nth_equalityI)
    fix i assume "i < length (content d' ?ri)"
    then have i: "i < new_size" by simp
    then have ii: "i < i_size ri" using n by simp
    have k: "i div BLOCK_SIZE < 12" using ii D(3) by (intro block_index_lt) (simp add: BLOCK_SIZE_def)
    have "direct_blk_ptrs ?ri ! (i div BLOCK_SIZE) = direct_blk_ptrs ri ! (i div BLOCK_SIZE)"
      using ptr [OF k] keep [OF div_block_less [OF i]] by simp
    moreover have "direct_blk_ptrs ri ! (i div BLOCK_SIZE) \<in> data_region fs"
      using D(5) [OF div_block_less [OF ii]] owned_region [OF ok sm] by blast
    then have "d' (direct_blk_ptrs ri ! (i div BLOCK_SIZE)) = d (direct_blk_ptrs ri ! (i div BLOCK_SIZE))"
      using l(4) region_disjoint ok unfolding efs_ok_def by blast
    ultimately show "content d' ?ri ! i = take new_size (content d ri) ! i"
      using i n by (simp add: content_def file_byte_def)
  qed (use n in simp)
  moreover have "owned ?ri \<subseteq> owned ri" using ownd by blast
  ultimately show ?thesis
    using r l(2,4) sm' fr tab by (intro exI [of _ ?ri] exI [of _ d']) (simp add: zero_ptrs_def)
qed

lemma raw_truncate_spec:
  assumes F: "files_ok fs d I" and n: "n \<in> I"
    and tab: "indirect_blk_ptr (rinode fs d n) = 0" "double_indirect_blk_ptr (rinode fs d n) = 0"
    and sz: "new_size \<le> length (file_content fs d n)"
  shows "\<exists>d'. raw_truncate fs (inode_new fs n) new_size d = (Ok (), d') \<and>
    file_content fs d' n = take new_size (file_content fs d n) \<and>
    used_blocks fs d' = used_blocks fs d - (owned (rinode fs d n) - owned (rinode fs d' n)) \<and> only_file fs I n d d'"
proof -
  note D = files_okD [OF F]
  let ?ri = "rinode fs d n"
  have rd: "read_raw_inode (inode_new fs n) d = (Ok ?ri, d)" by (rule read_raw_inode_eq [OF D(1) D(3) [OF n]])
  show ?thesis
  proof (cases "new_size = i_size ?ri")
    case True
    then have "raw_truncate fs (inode_new fs n) new_size d = (Ok (), d)"
      using rd by (simp add: raw_truncate_def bind_def)
    then show ?thesis using F True by (auto simp: file_content_def only_file_refl)
  next
    case False
    then have lt: "new_size < i_size ?ri" using sz by (simp add: file_content_def)
    from truncate_small [OF D(1) D(4) [OF n] tab lt] obtain ri' d' where
      t: "raw_inode_truncate fs new_size (?ri, d) = (Ok (), ri', d')" "efs_ok fs d'" "small_ok fs d' ri'"
        "inode_frame fs ?ri d ri' d'" "content d' ri' = take new_size (content d ?ri)"
        "i_typ ri' = i_typ ?ri" "i_nlink ri' = i_nlink ?ri" "indirect_blk_ptr ri' = 0" "double_indirect_blk_ptr ri' = 0"
        "\<forall>c. c \<notin> bitmap_region fs \<longrightarrow> d' c = d c" "owned ri' \<subseteq> owned ?ri"
      by blast
    let ?d = "put_inode fs n ri' d'"
    note U = update_file [OF F n t(4,2,3)]
    have "raw_truncate fs (inode_new fs n) new_size d = (Ok (), ?d)"
      using rd lt with_raw_inode_eq [of fs d n "raw_inode_truncate fs new_size", OF D(1) D(3) [OF n] t(1) inode_block_mapped [OF F n t(2)]]
      by (simp add: raw_truncate_def bind_def)
    moreover have "used_blocks fs ?d = used_blocks fs d - (owned ?ri - owned ri')"
      using U(6) t(11) small_okD(4) [OF D(4) [OF n]] by blast
    moreover have "only_file fs I n d ?d"
    proof -
      have "d' b = d b" if "start_blk_no (inode_bitmap fs) \<le> b" "b < end_blk_no (inode_bitmap fs)" for b
        using t(10) that efs_layout_order [OF D(2)] by (auto simp: bitmap_region_def)
      then have "allocated (inode_bitmap fs) d' = allocated (inode_bitmap fs) d"
        using D(1) by (intro bitmap_cong(2)) (auto simp: efs_ok_def)
      then have "allocated (inode_bitmap fs) ?d = allocated (inode_bitmap fs) d"
        using put_inode_ok(3) [OF t(2) D(3) [OF n]] by simp
      then show ?thesis using U(1,4,5) t(6-9) tab by (auto simp: only_file_def U(3))
    qed
    ultimately show ?thesis
      using U(2) t(5) by (auto simp: U(3) file_content_def [of fs d n])
  qed
qed

section \<open>A concrete disk\<close>

text \<open>A file system of 256 blocks with two empty files, inodes 20 and 21.\<close>

definition demo_sb :: superblock where
  "demo_sb = \<lparr>magic = EFS_SB_MAGIC, sb_size = 256 * 4096, inode_bitmap_blocks = 1, inode_blocks = 8,
     data_bitmap_blocks = 1, data_blocks = 244\<rparr>"

definition demo_fs :: efs where
  "demo_fs = efs_of_sb demo_sb"

definition demo_inode :: raw_inode where
  "demo_inode = raw_inode_default\<lparr>i_typ := file_type_code File, i_nlink := 1\<rparr>"

definition demo_disk :: disk where
  "demo_disk = put_inode demo_fs 20 demo_inode (put_inode demo_fs 21 demo_inode (\<lambda>_. Some zero_block))"

lemma fresh_efs_ok: "efs_layout fs \<Longrightarrow> efs_ok fs (\<lambda>_. Some zero_block)"
  by (metis efs_layout_def efs_ok_def efs_of_sb_def efs.select_convs(2,3) fresh_bitmap(1) option.distinct(1))

lemma demo_layout: "efs_layout demo_fs" "superblock demo_fs = demo_sb" "inode_counts demo_sb = 248"
  by (simp_all add: efs_layout_def demo_fs_def efs_of_sb_def demo_sb_def sb_verify_def verify_bitmap_def
      sb_layout_defs efs_consts)

lemma demo_rinode: "n = 20 \<or> n = 21 \<Longrightarrow> rinode demo_fs demo_disk n = demo_inode"
proof -
  have "inode_fits demo_inode"
    by (simp add: demo_inode_def raw_inode_default_def inode_fits_def efs_consts)
  then show "n = 20 \<or> n = 21 \<Longrightarrow> ?thesis" by (auto simp: demo_disk_def rinode_put)
qed

lemma demo_files: "files_ok demo_fs demo_disk {20, 21}"
proof -
  have ok: "efs_ok demo_fs demo_disk"
    unfolding demo_disk_def using demo_layout fresh_efs_ok [of demo_fs] by (simp add: put_inode_ok(1))
  have own: "owned demo_inode = {}" by (auto simp: owned_def demo_inode_def raw_inode_default_def)
  have "inode_fits demo_inode" "i_size demo_inode = 0" "\<forall>k<12. direct_blk_ptrs demo_inode ! k = 0"
    by (simp_all add: demo_inode_def raw_inode_default_def inode_fits_def efs_consts)
  then have "small_ok demo_fs demo_disk demo_inode"
    by (simp add: small_ok_def own efs_consts)
  then show ?thesis using ok demo_layout own by (simp add: files_ok_def demo_rinode)
qed

lemma demo_facts: "n = 20 \<or> n = 21 \<Longrightarrow> raw_file_type (rinode demo_fs demo_disk n) = File"
  "n = 20 \<or> n = 21 \<Longrightarrow> file_content demo_fs demo_disk n = []"
  by (simp_all add: demo_rinode file_content_def content_def demo_inode_def raw_inode_default_def raw_file_type_def
      del: file_type_code.simps)

section \<open>Properties\<close>

lemma inode_file_type_eq:
  "files_ok fs d I \<Longrightarrow> n \<in> I \<Longrightarrow> inode_file_type (inode_new fs n) d = (Ok (raw_file_type (rinode fs d n)), d)"
  using read_raw_inode_eq files_okD(1,3) by (simp add: inode_file_type_def bind_def)

lemma inode_read_eq:
  "files_ok fs d I \<Longrightarrow> n \<in> I \<Longrightarrow> raw_file_type (rinode fs d n) = File \<Longrightarrow> o' \<le> length (file_content fs d n) \<Longrightarrow>
   inode_read (inode_new fs n) o' k d = (Ok (take k (drop o' (file_content fs d n))), d)"
  by (simp add: inode_read_def bind_def inode_file_type_eq raw_read_spec)







end
