(* ===== verification/Rw_Dir.thy ===== *)
theory Rw_Dir
  imports Rw_File
begin

text \<open>
  Directories of EFS (src/fs/redwing_efs/src: dirent.rs and the directory part of inode.rs): the on-disk
  directory entry, the scanning loops, adding and removing entries, and the operations that create and
  remove files. The second half relates the operations to the list of entries of a directory.
\<close>

section \<open>Directory entries\<close>

definition RAW_DIRENT_SIZE :: nat where "RAW_DIRENT_SIZE = 80"

record raw_dirent =
  de_ino :: nat
  de_typ :: file_type
  de_name_len :: nat
  de_name :: bytes

text \<open>\<open>RawDirent::new\<close>; the slice copy panics for a name longer than the field.\<close>

definition dirent_new :: "nat \<Rightarrow> file_type \<Rightarrow> bytes \<Rightarrow> (fs_error_kind, raw_dirent) outcome" where
  "dirent_new n t name =
     (if t = Unknown then Panic
      else if DIRENT_NAME_LEN < length name then Panic
      else Ok \<lparr>de_ino = n, de_typ = t, de_name_len = length name,
               de_name = name @ replicate (DIRENT_NAME_LEN - length name) 0\<rparr>)"

definition dirent_name :: "raw_dirent \<Rightarrow> bytes" where
  "dirent_name e = take (de_name_len e) (de_name e)"

definition is_unused :: "raw_dirent \<Rightarrow> bool" where
  "is_unused e = (de_ino e = INVALID_INODE_NO)"

definition dirent_encode :: "raw_dirent \<Rightarrow> bytes" where
  "dirent_encode e = le_bytes 8 (de_ino e) @ le_bytes 4 (file_type_code (de_typ e)) @
     le_bytes 4 (de_name_len e) @ de_name e"

definition dirent_decode :: "bytes \<Rightarrow> raw_dirent" where
  "dirent_decode bs =
     \<lparr>de_ino = le_nat (take 8 bs), de_typ = file_type_of_code (le_nat (take 4 (drop 8 bs))),
      de_name_len = le_nat (take 4 (drop 12 bs)), de_name = take 64 (drop 16 bs)\<rparr>"

definition read_dirent_at :: "inode \<Rightarrow> nat \<Rightarrow> (disk, fs_error_kind, raw_dirent option) call" where
  "read_dirent_at i offset = bind (raw_read i offset RAW_DIRENT_SIZE) (\<lambda>buf.
     if length buf = 0 then ret None
     else if length buf \<noteq> RAW_DIRENT_SIZE then fail InvalidData
     else if DIRENT_NAME_LEN < de_name_len (dirent_decode buf) then fail FileNameTooLong
     else ret (Some (dirent_decode buf)))"

definition write_dirent_at :: "efs \<Rightarrow> inode \<Rightarrow> nat \<Rightarrow> raw_dirent \<Rightarrow> (disk, fs_error_kind, unit) call" where
  "write_dirent_at fs i offset e = bind (raw_write fs i offset (dirent_encode e)) (\<lambda>size.
     if size \<noteq> RAW_DIRENT_SIZE then
       bind (inode_size i) (\<lambda>sz.
         case checked_sub sz size of
           None \<Rightarrow> panic
         | Some s \<Rightarrow> bind (raw_truncate fs i s) (\<lambda>_. fail InvalidData))
     else ret ())"

section \<open>Scanning a directory\<close>

text \<open>
  \<open>while let Some(dirent) = self.read_dirent_at(offset)?\<close>: the body sees the loop state, the offset and the
  entry, and either leaves the loop with a result (\<open>Inl\<close>) or goes on with the next offset. The file is
  finite, so the loop ends.
\<close>

definition stored_size :: "inode \<Rightarrow> disk \<Rightarrow> nat" where
  "stored_size i d = (case d (blk_no i) of
     None \<Rightarrow> 0 | Some blk \<Rightarrow> i_size (inode_decode (rd_bytes blk (blk_offset i) RAW_INODE_SIZE)))"

lemma bind_OkD: "bind m k s = (Ok y, t) \<Longrightarrow> \<exists>x s'. m s = (Ok x, s') \<and> k x s' = (Ok y, t)"
  by (simp add: bind_eq_Ok)

lemma get_block_Ok: "get_block b d = (Ok blk, t) \<longleftrightarrow> d b = Some blk \<and> t = d"
  by (auto simp: get_block_def split: option.splits)

lemma assert_that_Ok: "assert_that P d = (Ok u, t) \<longleftrightarrow> P \<and> t = d"
  by (auto simp: assert_that_def)

lemma block_read_Ok: "block_read b off n d = (Ok xs, t) \<Longrightarrow> t = d \<and> length xs = n"
  by (auto simp: block_read_def bind_eq_Ok get_block_Ok assert_that_Ok)

lemma bmap0_pure: "(\<And>p d' x t. f p d' = (Ok x, t) \<Longrightarrow> t = d') \<Longrightarrow> bmap_from_blk b l idx f d = (Ok x, t) \<Longrightarrow> t = d"
  "(\<And>p d' x t. f p d' = (Ok x, t) \<Longrightarrow> t = d') \<Longrightarrow> bmap0 tb l idx f d = (Ok x, t) \<Longrightarrow> t = d"
proof (induction b l idx f and tb l idx f arbitrary: d and d rule: bmap_from_blk_bmap0.induct)
  case (1 b level idx f)
  from "1.prems"(2) obtain blk where "bmap0 (TableBlock blk) level idx f d = (Ok x, t)"
    by (auto simp: bmap_from_blk.simps bind_eq_Ok get_block_Ok)
  with "1.IH" "1.prems"(1) show ?case by blast
next
  case (2 table level idx f)
  show ?case
  proof (cases level)
    case 0
    with "2.prems" show ?thesis by (auto simp: bmap0.simps split: if_splits)
  next
    case (Suc l)
    with "2.prems"(2) have "bmap_from_blk (tbl_get table (idx div BLK_NUMS_PER_BLOCK ^ level)) l
        (idx mod BLK_NUMS_PER_BLOCK ^ level) f d = (Ok x, t)"
      by (auto simp: bmap0.simps Let_def split: if_splits)
    with "2.IH" [OF Suc refl refl] "2.prems" Suc show ?thesis
      by (auto simp: bmap0.simps Let_def split: if_splits)
  qed
qed

lemma bmap_Ok: "bmap ri offset d = (Ok p, t) \<Longrightarrow> t = d"
  unfolding bmap_def bmap_walk_def Let_def
  by (auto split: if_splits dest: bmap0_pure(1,2) [rotated])

lemma raw_inode_read_loop_Ok:
  "raw_inode_read_loop ri offset n rem d = (Ok xs, t) \<Longrightarrow> t = d \<and> length xs \<le> rem"
proof (induction n arbitrary: offset rem xs t rule: less_induct)
  case (less n)
  let ?l = "min (piece_len offset n) rem"
  show ?case
  proof (cases "n = 0 \<or> rem = 0 \<or> MAX_FILE_SIZE \<le> offset")
    case True
    with less.prems show ?thesis by (subst (asm) raw_inode_read_loop.simps) (auto split: if_splits)
  next
    case False
    with less.prems obtain p d1 ys d2 zs where r: "bmap ri offset d = (Ok p, d1)"
      "block_read p (offset mod BLOCK_SIZE) ?l d1 = (Ok ys, d2)"
      "raw_inode_read_loop ri (offset + ?l) (n - ?l) (rem - ?l) d2 = (Ok zs, t)" "xs = ys @ zs"
      by (subst (asm) raw_inode_read_loop.simps) (auto simp: bind_eq_Ok)
    have d: "d1 = d" "d2 = d" "length ys = ?l" using bmap_Ok [OF r(1)] block_read_Ok [OF r(2)] by auto
    have "n - ?l < n" using False piece_len_pos [of n offset] by simp
    from less.IH [OF this r(3) [unfolded d(2)]] show ?thesis using r(4) d(3) by auto
  qed
qed

lemma read_dirent_Some:
  assumes "read_dirent_at i offset d = (Ok (Some e), t)"
  shows "t = d \<and> offset + RAW_DIRENT_SIZE \<le> stored_size i d"
proof -
  from assms obtain buf d1 where b: "raw_read i offset RAW_DIRENT_SIZE d = (Ok buf, d1)" "t = d1" "length buf = RAW_DIRENT_SIZE"
    by (auto simp: read_dirent_at_def bind_eq_Ok split: if_splits)
  from b(1) obtain ri where "read_raw_inode i d = (Ok ri, d)" "i_size ri = stored_size i d"
    and r: "raw_inode_read offset RAW_DIRENT_SIZE ri d = (Ok buf, d1)"
    by (auto simp: raw_read_def read_raw_inode_def bind_eq_Ok get_block_Ok assert_that_Ok stored_size_def)
  then show ?thesis
    using b raw_inode_read_loop_Ok
    by (fastforce simp: raw_inode_read_def RAW_DIRENT_SIZE_def split: if_splits)
qed

function dirent_loop :: "inode \<Rightarrow> ('a \<Rightarrow> nat \<Rightarrow> raw_dirent \<Rightarrow> 'r + 'a) \<Rightarrow> 'a \<Rightarrow> nat \<Rightarrow>
    (disk, fs_error_kind, 'r + ('a \<times> nat)) call" where
  "dirent_loop i body acc offset d =
     bind (read_dirent_at i offset) (\<lambda>x d'.
       case x of
         None \<Rightarrow> (Ok (Inr (acc, offset)), d')
       | Some e \<Rightarrow>
           (case body acc offset e of
              Inl r \<Rightarrow> (Ok (Inl r), d')
            | Inr acc' \<Rightarrow> dirent_loop i body acc' (offset + RAW_DIRENT_SIZE) d')) d"
  by pat_completeness auto
termination
  by (relation "measure (\<lambda>(i, body, acc, offset, d). stored_size i d - offset)")
     (auto dest!: read_dirent_Some simp: RAW_DIRENT_SIZE_def)

declare dirent_loop.simps [simp del]

section \<open>Directory operations\<close>

definition require_dir :: "inode \<Rightarrow> (disk, fs_error_kind, unit) call" where
  "require_dir i = bind (inode_file_type i) (\<lambda>t. if t \<noteq> Directory then fail NotADirectory else ret ())"

definition lookup_body :: "bytes \<Rightarrow> unit \<Rightarrow> nat \<Rightarrow> raw_dirent \<Rightarrow> raw_dirent + unit" where
  "lookup_body name _ offset e = (if is_unused e \<or> name \<noteq> dirent_name e then Inr () else Inl e)"

definition lookup :: "inode \<Rightarrow> bytes \<Rightarrow> (disk, fs_error_kind, raw_dirent option) call" where
  "lookup i name = bind (require_dir i) (\<lambda>_. bind (dirent_loop i (lookup_body name) () 0) (\<lambda>x.
     case x of Inl e \<Rightarrow> ret (Some e) | Inr _ \<Rightarrow> ret None))"

text \<open>\<open>add_entry\<close>: the loop state is \<open>empty_dirent_offset\<close>. The comparison is between the whole name field
  of the new entry and the name of the old one.\<close>

definition add_body :: "bytes \<Rightarrow> nat option \<Rightarrow> nat \<Rightarrow> raw_dirent \<Rightarrow> fs_error_kind + nat option" where
  "add_body name slot offset e =
     (if is_unused e then Inr (Some offset)
      else if name = dirent_name e then Inl AlreadyExists
      else Inr slot)"

definition add_entry :: "efs \<Rightarrow> inode \<Rightarrow> raw_dirent \<Rightarrow> (disk, fs_error_kind, unit) call" where
  "add_entry fs i new_dirent = bind (require_dir i) (\<lambda>_. bind (dirent_loop i (add_body (de_name new_dirent)) None 0) (\<lambda>x.
     case x of
       Inl e \<Rightarrow> fail e
     | Inr (slot, offset) \<Rightarrow>
         write_dirent_at fs i (case slot of None \<Rightarrow> offset | Some off \<Rightarrow> off) new_dirent))"

definition remove_body :: "bytes \<Rightarrow> unit \<Rightarrow> nat \<Rightarrow> raw_dirent \<Rightarrow> (nat \<times> raw_dirent) + unit" where
  "remove_body name _ offset e =
     (if \<not> is_unused e \<and> name = dirent_name e then Inl (offset, e) else Inr ())"

definition remove_entry :: "efs \<Rightarrow> inode \<Rightarrow> bytes \<Rightarrow> (disk, fs_error_kind, nat option) call" where
  "remove_entry fs i name = bind (read_raw_inode i) (\<lambda>ri.
     if raw_file_type ri \<noteq> Directory then fail NotADirectory
     else bind (dirent_loop i (remove_body name) () 0) (\<lambda>x.
       case x of
         Inr _ \<Rightarrow> ret None
       | Inl (offset, e) \<Rightarrow>
           bind (write_dirent_at fs i offset (e\<lparr>de_ino := INVALID_INODE_NO\<rparr>)) (\<lambda>_.
             case checked_sub (i_size ri) RAW_DIRENT_SIZE of
               None \<Rightarrow> panic
             | Some last_off \<Rightarrow>
                 bind (if offset = last_off then raw_truncate fs i offset else ret ()) (\<lambda>_.
                   ret (Some (de_ino e))))))"

definition empty_body :: "unit \<Rightarrow> nat \<Rightarrow> raw_dirent \<Rightarrow> unit + unit" where
  "empty_body _ offset e = (if \<not> is_unused e then Inl () else Inr ())"

definition is_empty_dir :: "inode \<Rightarrow> (disk, fs_error_kind, bool) call" where
  "is_empty_dir i = bind (require_dir i) (\<lambda>_. bind (dirent_loop i empty_body () (RAW_DIRENT_SIZE * 2)) (\<lambda>x.
     case x of Inl _ \<Rightarrow> ret False | Inr _ \<Rightarrow> ret True))"

text \<open>\<open>get_dirents\<close> fills a buffer of \<open>n\<close> entries; the result is the distance advanced and the entries.
  An entry of unknown type ends the call with the error of the conversion.\<close>

definition dirents_body :: "nat \<Rightarrow> raw_dirent list \<Rightarrow> nat \<Rightarrow> raw_dirent \<Rightarrow>
    ((fs_error_kind + (nat \<times> raw_dirent list)) + raw_dirent list)" where
  "dirents_body n acc offset e =
     (if is_unused e then Inr acc
      else case to_vfs_type (de_typ e) of
        Ok _ \<Rightarrow>
          (if length acc + 1 = n then Inl (Inr (offset + RAW_DIRENT_SIZE, acc @ [e])) else Inr (acc @ [e]))
      | Err err \<Rightarrow> Inl (Inl err)
      | Panic \<Rightarrow> Inl (Inl InvalidData))"

definition get_dirents :: "inode \<Rightarrow> nat \<Rightarrow> nat \<Rightarrow> (disk, fs_error_kind, nat \<times> raw_dirent list) call" where
  "get_dirents i offset n = bind (read_raw_inode i) (\<lambda>ri.
     if raw_file_type ri \<noteq> Directory then fail NotADirectory
     else if i_nlink ri = 0 then fail NoSuchFileOrDirectory
     else if n = 0 then ret (0, [])
     else bind (dirent_loop i (dirents_body n) [] offset) (\<lambda>x.
       case x of
         Inl (Inl err) \<Rightarrow> fail err
       | Inl (Inr (cur_offset, es)) \<Rightarrow> ret (cur_offset - offset, es)
       | Inr (es, cur_offset) \<Rightarrow> ret (cur_offset - offset, es)))"

definition link :: "efs \<Rightarrow> inode \<Rightarrow> inode \<Rightarrow> bytes \<Rightarrow> (disk, fs_error_kind, unit) call" where
  "link fs i child name = bind (inode_file_type child) (\<lambda>t.
     bind (lift_outcome (dirent_new (ino child) t name)) (\<lambda>e.
     bind (add_entry fs i e) (\<lambda>_.
       write_raw_inode_with child increase_link)))"

definition unlink :: "efs \<Rightarrow> inode \<Rightarrow> inode \<Rightarrow> bytes \<Rightarrow> (disk, fs_error_kind, unit) call" where
  "unlink fs i child name = bind (remove_entry fs i name) (\<lambda>x.
     case x of
       None \<Rightarrow> fail NoSuchFileOrDirectory
     | Some n \<Rightarrow>
         if n \<noteq> ino child then fail FileSystemCorruption
         else write_raw_inode_with child decrease_link)"

section \<open>Creating and removing files\<close>

definition init_root_dir :: "efs \<Rightarrow> inode \<Rightarrow> (disk, fs_error_kind, unit) call" where
  "init_root_dir fs i = bind (init_inode i Directory 0) (\<lambda>_. link fs i i [46])"

definition check_for_create :: "inode \<Rightarrow> bytes \<Rightarrow> (disk, fs_error_kind, unit) call" where
  "check_for_create i name = bind (read_raw_inode i) (\<lambda>ri.
     if raw_file_type ri \<noteq> Directory then fail NotADirectory
     else if i_nlink ri = 0 then fail NoSuchFileOrDirectory
     else bind (lookup i name) (\<lambda>x. if x \<noteq> None then fail AlreadyExists else ret ()))"

definition create_with :: "efs \<Rightarrow> inode \<Rightarrow> bytes \<Rightarrow> (inode \<Rightarrow> (disk, fs_error_kind, unit) call) \<Rightarrow>
    (disk, fs_error_kind, nat) call" where
  "create_with fs i name init =
     bind (check_for_create i name) (\<lambda>_.
     bind (alloc_inode fs) (\<lambda>new_ino d.
       case init (inode_new fs new_ino) d of
         (Ok _, d') \<Rightarrow> (Ok new_ino, d')
       | (Err err, d') \<Rightarrow> bind (dealloc_inode fs new_ino) (\<lambda>_. fail err) d'
       | (Panic, d') \<Rightarrow> (Panic, d')))"

definition symlink :: "efs \<Rightarrow> inode \<Rightarrow> bytes \<Rightarrow> bytes \<Rightarrow> (disk, fs_error_kind, nat) call" where
  "symlink fs i name linkpath =
     (if 64 \<le> length linkpath then fail InvalidArgument
      else create_with fs i name (\<lambda>new_inode.
        bind (init_inode new_inode File 0) (\<lambda>_ d.
          case inode_write fs new_inode 0 linkpath d of
            (Ok len, d') \<Rightarrow>
              if len = length linkpath then link fs i new_inode name d'
              else bind (raw_truncate fs new_inode 0) (\<lambda>_. fail IOError) d'
          | (Err err, d') \<Rightarrow> bind (raw_truncate fs new_inode 0) (\<lambda>_. fail err) d'
          | (Panic, d') \<Rightarrow> (Panic, d'))))"

definition mkdir :: "efs \<Rightarrow> inode \<Rightarrow> bytes \<Rightarrow> (disk, fs_error_kind, nat) call" where
  "mkdir fs i name = create_with fs i name (\<lambda>new_inode.
     bind (init_inode new_inode Directory 0) (\<lambda>_.
     bind (link fs new_inode new_inode [46]) (\<lambda>_ d.
       case link fs new_inode i [46, 46] d of
         (Ok _, d') \<Rightarrow> link fs i new_inode name d'
       | (Err err, d') \<Rightarrow> bind (unlink fs new_inode new_inode [46]) (\<lambda>_. fail err) d'
       | (Panic, d') \<Rightarrow> (Panic, d'))))"

definition create_file :: "efs \<Rightarrow> inode \<Rightarrow> bytes \<Rightarrow> (disk, fs_error_kind, nat) call" where
  "create_file fs i name = create_with fs i name (\<lambda>new_inode.
     bind (init_inode new_inode File 0) (\<lambda>_. link fs i new_inode name))"

definition remove_child :: "efs \<Rightarrow> inode \<Rightarrow> inode \<Rightarrow> bytes \<Rightarrow> (disk, fs_error_kind, unit) call" where
  "remove_child fs parent child name = bind (read_raw_inode parent) (\<lambda>parent_ri.
     if raw_file_type parent_ri \<noteq> Directory then fail NotADirectory
     else if i_nlink parent_ri = 0 then fail NoSuchFileOrDirectory
     else bind (read_raw_inode child) (\<lambda>child_ri.
       if i_nlink child_ri = 0 then fail FileSystemCorruption
       else if raw_file_type child_ri = Unknown then fail FileSystemCorruption
       else bind
         (if raw_file_type child_ri = Directory then
            bind (is_empty_dir child) (\<lambda>is_empty.
              if \<not> is_empty then fail NotEmpty
              else bind (unlink fs child parent [46, 46]) (\<lambda>_. unlink fs child child [46]))
          else ret ())
         (\<lambda>_. unlink fs parent child name)))"

text \<open>\<open>EfsFileSystem::make\<close>.\<close>

fun set_inode_bits :: "efs \<Rightarrow> nat list \<Rightarrow> (disk, fs_error_kind, unit) call" where
  "set_inode_bits fs [] d = (Ok (), d)"
| "set_inode_bits fs (n # ns) d = bind (set_inode_bit fs n) (\<lambda>_. set_inode_bits fs ns) d"

definition efs_make :: "superblock \<Rightarrow> (disk, fs_error_kind, efs) call" where
  "efs_make sb =
     bind (lift_outcome (sb_verify sb)) (\<lambda>_.
     bind (sb_write sb) (\<lambda>_.
     bind new_self_ref_without_verify (\<lambda>fs.
     bind (set_inode_bits fs REVERSED_INODE_NUM_RANGE) (\<lambda>_.
     bind (init_root_dir fs (inode_new fs ROOT_INODE_NO)) (\<lambda>_.
     bind (efs_verify fs) (\<lambda>_. ret fs))))))"

end
