(* ===== verification/Rw_DirSpec.thy ===== *)
theory Rw_DirSpec
  imports Rw_Dir
begin

text \<open>
  What the directory operations of EFS do to the list of entries of a directory: lookup finds the first used
  entry of a name, adding fills the last unused slot or appends, removing marks the entry unused
  or shortens the directory. On top of these, creation of files on a whole disk and the
  defects that the model exposes.
\<close>

section \<open>Encoding of entries\<close>

definition dirent_fits :: "raw_dirent \<Rightarrow> bool" where
  "dirent_fits e \<longleftrightarrow> de_ino e < 2 ^ 64 \<and> de_name_len e \<le> DIRENT_NAME_LEN \<and> length (de_name e) = DIRENT_NAME_LEN"

lemma length_dirent_encode: "dirent_fits e \<Longrightarrow> length (dirent_encode e) = 80"
  by (simp add: dirent_encode_def dirent_fits_def efs_consts)

lemma dirent_decode_encode:
  assumes "dirent_fits e"
  shows "dirent_decode (dirent_encode e) = e"
proof -
  have "file_type_code (de_typ e) < 256 ^ 4" using file_type_code_bound [of "de_typ e"] by simp
  moreover have "de_ino e < 256 ^ 8" "de_name_len e < 256 ^ 4" "length (de_name e) = 64"
    using assms by (simp_all add: dirent_fits_def efs_consts)
  ultimately show ?thesis by (simp add: dirent_decode_def dirent_encode_def)
qed

lemma dirent_fits_decode:
  "length bs = 80 \<Longrightarrow> de_name_len (dirent_decode bs) \<le> 64 \<Longrightarrow> dirent_fits (dirent_decode bs)"
  using le_nat_take_bound [of 8 bs] by (simp add: dirent_fits_def dirent_decode_def efs_consts)

section \<open>The entries of a directory\<close>

definition dents :: "bytes \<Rightarrow> raw_dirent list" where
  "dents c = map (\<lambda>k. dirent_decode (take 80 (drop (80 * k) c))) [0..<length c div 80]"

definition dents_ok :: "bytes \<Rightarrow> bool" where
  "dents_ok c \<longleftrightarrow> length c mod 80 = 0 \<and> (\<forall>e \<in> set (dents c). de_name_len e \<le> 64)"

lemma length_dents: "length (dents c) = length c div 80"
  by (simp add: dents_def)

lemma dents_nth: "k < length c div 80 \<Longrightarrow> dents c ! k = dirent_decode (take 80 (drop (80 * k) c))"
  by (simp add: dents_def)

lemma dents_length: "dents_ok c \<Longrightarrow> length c = 80 * length (dents c)"
  by (auto simp: dents_ok_def length_dents)

lemma chunk_patch_same: "80 * k \<le> length c \<Longrightarrow> length xs = 80 \<Longrightarrow> take 80 (drop (80 * k) (patch c (80 * k) xs)) = xs"
  by (simp add: patch_def)

lemma chunk_patch_other:
  assumes "80 * k \<le> length c" "length xs = 80" "j \<noteq> k" "80 * j + 80 \<le> length c"
  shows "take 80 (drop (80 * j) (patch c (80 * k) xs)) = take 80 (drop (80 * j) c)"
proof (rule nth_equalityI)
  show "length (take 80 (drop (80 * j) (patch c (80 * k) xs))) = length (take 80 (drop (80 * j) c))"
    using assms by (simp add: length_patch)
  fix i assume "i < length (take 80 (drop (80 * j) (patch c (80 * k) xs)))"
  then have i: "i < 80" by simp
  have "\<not> (80 * k \<le> 80 * j + i \<and> 80 * j + i < 80 * k + 80)" using i assms(3) by presburger
  then show "take 80 (drop (80 * j) (patch c (80 * k) xs)) ! i = take 80 (drop (80 * j) c) ! i"
    using i assms nth_patch [of "80 * k" c "80 * j + i" xs] by (auto simp: length_patch)
qed

lemma dents_patch:
  assumes ok: "dents_ok c" and k: "k \<le> length (dents c)" and e: "dirent_fits e"
  shows "dents (patch c (80 * k) (dirent_encode e)) = (if k < length (dents c) then (dents c)[k := e] else dents c @ [e])"
    "dents_ok (patch c (80 * k) (dirent_encode e))"
proof -
  let ?p = "patch c (80 * k) (dirent_encode e)" and ?xs = "if k < length (dents c) then (dents c)[k := e] else dents c @ [e]"
  note len = dents_length [OF ok]
  have le: "length (dirent_encode e) = 80" by (rule length_dirent_encode [OF e])
  have kc: "80 * k \<le> length c" using k len by simp
  have lp: "length ?p = max (length c) (80 * k + 80)" using kc le by (simp add: length_patch)
  have lp': "length ?p = 80 * length ?xs"
  proof (cases "k < length (dents c)")
    case True
    then have "80 * k + 80 \<le> length c" using len by linarith
    then show ?thesis using True lp len by simp
  next
    case False
    then have "80 * k = length c" using k len by simp
    then show ?thesis using False lp len by simp
  qed
  show d: "dents ?p = ?xs"
  proof (rule nth_equalityI)
    show "length (dents ?p) = length ?xs" using lp' by (simp add: length_dents)
    fix j assume "j < length (dents ?p)"
    then have j: "j < length ?xs" using lp' by (simp add: length_dents)
    have dj: "dents ?p ! j = dirent_decode (take 80 (drop (80 * j) ?p))" using j lp' by (intro dents_nth) simp
    show "dents ?p ! j = ?xs ! j"
    proof (cases "j = k")
      case True
      then show ?thesis
        using dj j k chunk_patch_same [OF kc le] by (auto simp: dirent_decode_encode [OF e] nth_append)
    next
      case False
      then have jc: "j < length (dents c)" using j k by (auto split: if_splits)
      then have "80 * j + 80 \<le> length c" using len by linarith
      then have "dents ?p ! j = dents c ! j"
        using dj chunk_patch_other [OF kc le False] jc by (simp add: dents_nth length_dents)
      then show ?thesis using False jc by (simp add: nth_append)
    qed
  qed
  have "de_name_len e \<le> 64" using e by (simp add: dirent_fits_def efs_consts)
  then have "\<forall>x \<in> set ?xs. de_name_len x \<le> 64"
    using ok set_update_subset_insert [of "dents c" k e] by (auto simp: dents_ok_def split: if_splits)
  then show "dents_ok ?p" unfolding dents_ok_def d using lp' by simp
qed

lemma dents_take:
  assumes "dents_ok c" "k \<le> length (dents c)"
  shows "dents (take (80 * k) c) = take k (dents c)" "dents_ok (take (80 * k) c)"
proof -
  note len = dents_length [OF assms(1)]
  have l: "length (take (80 * k) c) = 80 * k" using assms(2) len by simp
  show d: "dents (take (80 * k) c) = take k (dents c)"
  proof (rule nth_equalityI)
    show "length (dents (take (80 * k) c)) = length (take k (dents c))" using l assms(2) by (simp add: length_dents)
    fix j assume "j < length (dents (take (80 * k) c))"
    then have j: "j < k" using l by (simp add: length_dents)
    have "take 80 (drop (80 * j) (take (80 * k) c)) = take 80 (drop (80 * j) c)"
      using j by (simp add: drop_take min_def)
    then show "dents (take (80 * k) c) ! j = take k (dents c) ! j"
      using j l assms(2) by (simp add: dents_nth length_dents)
  qed
  show "dents_ok (take (80 * k) c)"
    unfolding dents_ok_def d using l assms by (auto simp: dents_ok_def dest: in_set_takeD)
qed

section \<open>Scanning\<close>

definition is_dir_at :: "efs \<Rightarrow> disk \<Rightarrow> nat set \<Rightarrow> nat \<Rightarrow> bool" where
  "is_dir_at fs d I n \<longleftrightarrow> files_ok fs d I \<and> n \<in> I \<and> raw_file_type (rinode fs d n) = Directory \<and>
     dents_ok (file_content fs d n)"

definition entries :: "efs \<Rightarrow> disk \<Rightarrow> nat \<Rightarrow> raw_dirent list" where
  "entries fs d n = dents (file_content fs d n)"

lemma is_dirD:
  assumes "is_dir_at fs d I n"
  shows "files_ok fs d I" "n \<in> I" "raw_file_type (rinode fs d n) = Directory" "dents_ok (file_content fs d n)"
    "length (file_content fs d n) = 80 * length (entries fs d n)"
    "\<And>e. e \<in> set (entries fs d n) \<Longrightarrow> dirent_fits e"
proof -
  show D: "files_ok fs d I" "n \<in> I" "raw_file_type (rinode fs d n) = Directory" "dents_ok (file_content fs d n)"
    using assms by (simp_all add: is_dir_at_def)
  show len: "length (file_content fs d n) = 80 * length (entries fs d n)"
    unfolding entries_def by (rule dents_length [OF D(4)])
  show "dirent_fits e" if e: "e \<in> set (entries fs d n)" for e
  proof -
    obtain k where k: "k < length (entries fs d n)" "e = entries fs d n ! k" using e by (auto simp: in_set_conv_nth)
    have "80 * k + 80 \<le> length (file_content fs d n)" using k(1) len by linarith
    moreover have "de_name_len e \<le> 64" using e D(4) by (simp add: dents_ok_def entries_def)
    ultimately show ?thesis using k by (simp add: entries_def dents_nth length_dents dirent_fits_decode)
  qed
qed

lemma read_dirent_at_eq:
  assumes D: "is_dir_at fs d I n" and k: "k \<le> length (entries fs d n)"
  shows "read_dirent_at (inode_new fs n) (80 * k) d =
    (Ok (if k < length (entries fs d n) then Some (entries fs d n ! k) else None), d)"
proof -
  note dir = is_dirD [OF D]
  have "raw_file_type (rinode fs d n) \<in> {File, Symlink, Directory}" using dir(3) by simp
  from raw_read_spec [OF dir(1,2) this] have
    r: "raw_read (inode_new fs n) (80 * k) 80 d = (Ok (take 80 (drop (80 * k) (file_content fs d n))), d)"
    using k dir(5) by simp
  show ?thesis
  proof (cases "k < length (entries fs d n)")
    case True
    then have "80 * k + 80 \<le> length (file_content fs d n)" using dir(5) by linarith
    moreover have "de_name_len (entries fs d n ! k) \<le> 64"
      using dir(6) [OF nth_mem [OF True]] by (simp add: dirent_fits_def efs_consts)
    moreover have "entries fs d n ! k = dirent_decode (take 80 (drop (80 * k) (file_content fs d n)))"
      using True by (simp add: entries_def dents_nth length_dents)
    ultimately show ?thesis
      using True r by (simp add: read_dirent_at_def bind_def RAW_DIRENT_SIZE_def efs_consts)
  next
    case False
    then have "length (file_content fs d n) \<le> 80 * k" using dir(5) by simp
    then show ?thesis using False r by (simp add: read_dirent_at_def bind_def RAW_DIRENT_SIZE_def)
  qed
qed

text \<open>The loop on the list of entries.\<close>

fun scan :: "('a \<Rightarrow> nat \<Rightarrow> raw_dirent \<Rightarrow> 'r + 'a) \<Rightarrow> 'a \<Rightarrow> nat \<Rightarrow> raw_dirent list \<Rightarrow> 'r + ('a \<times> nat)" where
  "scan body acc off [] = Inr (acc, off)"
| "scan body acc off (e # es) =
     (case body acc off e of Inl r \<Rightarrow> Inl r | Inr acc' \<Rightarrow> scan body acc' (off + 80) es)"

lemma dirent_loop_eq:
  assumes D: "is_dir_at fs d I n" and k: "k \<le> length (entries fs d n)"
  shows "dirent_loop (inode_new fs n) body acc (80 * k) d =
    (Ok (scan body acc (80 * k) (drop k (entries fs d n))), d)"
  using k
proof (induction "length (entries fs d n) - k" arbitrary: k acc)
  case 0
  then have "k = length (entries fs d n)" by simp
  then show ?case
    using read_dirent_at_eq [OF D, of k] by (subst dirent_loop.simps) (simp add: bind_def)
next
  case (Suc x)
  then have k: "k < length (entries fs d n)" by simp
  have r: "read_dirent_at (inode_new fs n) (80 * k) d = (Ok (Some (entries fs d n ! k)), d)"
    using read_dirent_at_eq [OF D, of k] k by simp
  have "drop k (entries fs d n) = entries fs d n ! k # drop (Suc k) (entries fs d n)"
    using k by (simp add: Cons_nth_drop_Suc)
  moreover have "dirent_loop (inode_new fs n) body a (80 * k + 80) d =
      (Ok (scan body a (80 * k + 80) (drop (Suc k) (entries fs d n))), d)" for a
    using Suc.hyps(1) [of "Suc k" a] Suc.hyps(2) k by (simp add: add.commute)
  ultimately show ?case
    using r by (subst dirent_loop.simps) (simp add: bind_def RAW_DIRENT_SIZE_def split: sum.split)
qed

section \<open>Lookup\<close>

definition named :: "bytes \<Rightarrow> raw_dirent \<Rightarrow> bool" where
  "named name e \<longleftrightarrow> \<not> is_unused e \<and> dirent_name e = name"

lemma scan_lookup:
  "scan (lookup_body name) () off es =
     (case find (named name) es of Some e \<Rightarrow> Inl e | None \<Rightarrow> Inr ((), off + 80 * length es))"
  by (induction es arbitrary: off) (auto simp: lookup_body_def named_def split: option.split)

lemma require_dir_eq: "is_dir_at fs d I n \<Longrightarrow> require_dir (inode_new fs n) d = (Ok (), d)"
  using is_dirD(1-3) [of fs d I n] inode_file_type_eq by (simp add: require_dir_def bind_def)

lemma lookup_eq:
  assumes "is_dir_at fs d I n"
  shows "lookup (inode_new fs n) name d = (Ok (find (named name) (entries fs d n)), d)"
  using dirent_loop_eq [OF assms, of 0 "lookup_body name"] require_dir_eq [OF assms]
  by (auto simp: lookup_def bind_def scan_lookup split: option.split)

section \<open>Writing one entry\<close>

lemma write_dirent_at_eq:
  assumes D: "is_dir_at fs d I n" and k: "k \<le> length (entries fs d n)" "80 * k + 80 \<le> SMALL_SIZE"
    and e: "dirent_fits e"
  obtains (stored) d' where "write_dirent_at fs (inode_new fs n) (80 * k) e d = (Ok (), d')" "is_dir_at fs d' I n"
      "entries fs d' n = (if k < length (entries fs d n) then (entries fs d n)[k := e] else entries fs d n @ [e])"
      "only_file fs I n d d'"
    | (full) d' where "write_dirent_at fs (inode_new fs n) (80 * k) e d = (Err NoSpaceLeft, d')"
      "k = length (entries fs d n)" "used_blocks fs d' = data_region fs" "only_file fs I n d d'"
      "\<exists>j<80. file_content fs d' n = file_content fs d n @ take j (dirent_encode e)"
proof -
  note dir = is_dirD [OF D]
  have le: "length (dirent_encode e) = 80" by (rule length_dirent_encode [OF e])
  have off: "80 * k \<le> length (file_content fs d n)" "80 * k + length (dirent_encode e) \<le> SMALL_SIZE"
    using k dir(5) le by linarith+
  have "raw_file_type (rinode fs d n) \<in> {File, Symlink, Directory}" using dir(3) by simp
  from raw_write_spec [OF dir(1,2) this off] obtain r j d' where
    w: "raw_write fs (inode_new fs n) (80 * k) (dirent_encode e) d = (r, d')"
      "r = Ok 80 \<and> j = 80 \<or>
       r = Err NoSpaceLeft \<and> j < 80 \<and> used_blocks fs d' = data_region fs \<and>
         length (file_content fs d n) < 80 * k + 80"
      "file_content fs d' n = patch (file_content fs d n) (80 * k) (take j (dirent_encode e))" "only_file fs I n d d'"
    unfolding le by blast
  note o = only_fileD [OF w(4)]
  show thesis
  proof (cases "r = Ok 80")
    case True
    with w(2) have c: "file_content fs d' n = patch (file_content fs d n) (80 * k) (dirent_encode e)"
      using w(3) le by auto
    have kl: "k \<le> length (dents (file_content fs d n))" using k(1) by (simp add: entries_def)
    note p = dents_patch [OF dir(4) kl e]
    have "write_dirent_at fs (inode_new fs n) (80 * k) e d = (Ok (), d')"
      using w(1) True by (simp add: write_dirent_at_def bind_def RAW_DIRENT_SIZE_def)
    moreover have "is_dir_at fs d' I n" using o(1,2) dir(2,3) p(2) c by (simp add: is_dir_at_def)
    ultimately show thesis using stored w(4) p(1) c by (simp add: entries_def)
  next
    case False
    with w(2) have r: "r = Err NoSpaceLeft" "used_blocks fs d' = data_region fs" "j < 80"
      "length (file_content fs d n) < 80 * k + 80" by auto
    then have kl: "k = length (entries fs d n)" using k(1) dir(5) by linarith
    then have "file_content fs d' n = file_content fs d n @ take j (dirent_encode e)"
      using w(3) dir(5) by (simp add: patch_def)
    moreover have "write_dirent_at fs (inode_new fs n) (80 * k) e d = (Err NoSpaceLeft, d')"
      using w(1) r by (simp add: write_dirent_at_def bind_def)
    ultimately show thesis using full kl r w(4) by blast
  qed
qed

section \<open>Adding an entry\<close>

fun last_slot :: "nat option \<Rightarrow> nat \<Rightarrow> raw_dirent list \<Rightarrow> nat option" where
  "last_slot a off [] = a"
| "last_slot a off (e # es) = last_slot (if is_unused e then Some off else a) (off + 80) es"

lemma scan_add:
  assumes "\<forall>e \<in> set es. \<not> is_unused e \<longrightarrow> dirent_name e \<noteq> name"
  shows "scan (add_body name) a off es = Inr (last_slot a off es, off + 80 * length es)"
  using assms by (induction es arbitrary: a off) (auto simp: add_body_def)

lemma last_slot_Some:
  "last_slot a (80 * k) es = Some off \<Longrightarrow> a = Some off \<or> (\<exists>j<length es. off = 80 * (k + j) \<and> is_unused (es ! j))"
proof (induction es arbitrary: a k)
  case (Cons e es)
  have "last_slot (if is_unused e then Some (80 * k) else a) (80 * Suc k) es = Some off"
    using Cons.prems by (simp add: add.commute)
  from Cons.IH [OF this] consider "(if is_unused e then Some (80 * k) else a) = Some off"
    | j where "j < length es" "off = 80 * (Suc k + j)" "is_unused (es ! j)" by blast
  then show ?case
  proof cases
    case 1
    then show ?thesis by (cases "is_unused e") (auto intro: exI [of _ 0])
  next
    case 2
    then show ?thesis by (intro disjI2 exI [of _ "Suc j"]) simp
  qed
qed simp

text \<open>Filling an unused slot, or appending, with an entry of a new name.\<close>

definition put_entry :: "raw_dirent list \<Rightarrow> raw_dirent \<Rightarrow> raw_dirent list \<Rightarrow> bool" where
  "put_entry es e es' \<longleftrightarrow>
     es' = es @ [e] \<or> (\<exists>k<length es. is_unused (es ! k) \<and> es' = es[k := e])"

lemma find_append: "find P (xs @ ys) = (case find P xs of None \<Rightarrow> find P ys | Some x \<Rightarrow> Some x)"
  by (induction xs) auto

lemma find_update_other:
  "\<not> P (es ! k) \<Longrightarrow> \<not> P e \<Longrightarrow> k < length es \<Longrightarrow> find P (es[k := e]) = find P es"
  by (induction es arbitrary: k) (auto split: nat.split simp: nth_Cons')

lemma find_update_hit:
  assumes "find P es = None" "P e" "k < length es"
  shows "find P (es[k := e]) = Some e"
  using assms
proof (induction es arbitrary: k)
  case (Cons x es)
  then show ?case by (cases k) (auto split: if_splits)
qed simp

lemma put_entry_find:
  assumes "put_entry es e es'" "\<not> is_unused e"
  shows "nm \<noteq> dirent_name e \<Longrightarrow> find (named nm) es' = find (named nm) es"
    "find (named (dirent_name e)) es = None \<Longrightarrow> find (named (dirent_name e)) es' = Some e"
proof -
  have e: "named (dirent_name e) e" "nm \<noteq> dirent_name e \<Longrightarrow> \<not> named nm e" using assms(2) by (auto simp: named_def)
  have un: "\<not> named m x" if "is_unused x" for m x using that by (simp add: named_def)
  show "find (named nm) es' = find (named nm) es" if "nm \<noteq> dirent_name e"
    using assms(1) e(2) [OF that] un
    by (auto simp: put_entry_def find_append find_update_other split: option.split)
  show "find (named (dirent_name e)) es' = Some e" if "find (named (dirent_name e)) es = None"
    using assms(1) e(1) that by (auto simp: put_entry_def find_append find_update_hit)
qed

lemma add_entry_eq:
  assumes D: "is_dir_at fs d I n" and room: "80 * length (entries fs d n) + 80 \<le> SMALL_SIZE"
    and e: "dirent_fits e" and new: "\<forall>x \<in> set (entries fs d n). \<not> is_unused x \<longrightarrow> dirent_name x \<noteq> de_name e"
  obtains (stored) d' where "add_entry fs (inode_new fs n) e d = (Ok (), d')" "is_dir_at fs d' I n"
      "put_entry (entries fs d n) e (entries fs d' n)" "only_file fs I n d d'"
    | (full) d' where "add_entry fs (inode_new fs n) e d = (Err NoSpaceLeft, d')"
      "used_blocks fs d' = data_region fs" "only_file fs I n d d'"
proof -
  let ?es = "entries fs d n"
  have l: "dirent_loop (inode_new fs n) (add_body (de_name e)) None 0 d = (Ok (Inr (last_slot None 0 ?es, 80 * length ?es)), d)"
    using dirent_loop_eq [OF D, of 0 "add_body (de_name e)" None] scan_add [OF new, of None 0] by simp
  obtain k where k: "k < length ?es \<and> is_unused (?es ! k) \<or> k = length ?es"
    "(case last_slot None 0 ?es of None \<Rightarrow> 80 * length ?es | Some off \<Rightarrow> off) = 80 * k"
    using last_slot_Some [of None 0 ?es] by (cases "last_slot None 0 ?es") auto
  have a: "add_entry fs (inode_new fs n) e d = write_dirent_at fs (inode_new fs n) (80 * k) e d"
    using require_dir_eq [OF D] l k(2) by (simp add: add_entry_def bind_def)
  have kl: "k \<le> length ?es" "80 * k + 80 \<le> SMALL_SIZE" using k(1) room by auto
  from D kl e show thesis
  proof (cases rule: write_dirent_at_eq)
    case w: (stored d')
    have "put_entry ?es e (entries fs d' n)" using w(3) k(1) by (auto simp: put_entry_def)
    then show thesis using stored a w by simp
  next
    case w: (full d')
    then show thesis using full a by simp
  qed
qed

section \<open>Removing an entry\<close>

fun slot_of :: "bytes \<Rightarrow> raw_dirent list \<Rightarrow> nat option" where
  "slot_of name [] = None"
| "slot_of name (e # es) = (if named name e then Some 0 else map_option Suc (slot_of name es))"

lemma slot_of_Some: "slot_of name es = Some k \<Longrightarrow> k < length es \<and> named name (es ! k)"
  by (induction es arbitrary: k) (auto split: if_splits)

lemma slot_of_find: "find (named name) es = map_option ((!) es) (slot_of name es)"
  by (induction es) (auto simp: option.map_comp o_def)

lemma scan_remove:
  "scan (remove_body name) () off es =
     (case slot_of name es of None \<Rightarrow> Inr ((), off + 80 * length es) | Some k \<Rightarrow> Inl (off + 80 * k, es ! k))"
proof (induction es arbitrary: off)
  case (Cons e es)
  then show ?case by (auto simp: remove_body_def named_def split: option.split)
qed simp

text \<open>The list after the removal of slot \<open>k\<close>.\<close>

definition drop_slot :: "nat \<Rightarrow> raw_dirent list \<Rightarrow> raw_dirent list" where
  "drop_slot k es = (if Suc k = length es then take k es else es[k := (es ! k)\<lparr>de_ino := INVALID_INODE_NO\<rparr>])"

lemma small_dir_room:
  assumes D: "is_dir_at fs d I n" and k: "k < length (entries fs d n)"
  shows "80 * k + 80 \<le> SMALL_SIZE"
proof -
  have "80 * k + 80 \<le> length (file_content fs d n)" using is_dirD(5) [OF D] k by linarith
  moreover have "i_size (rinode fs d n) \<le> SMALL_SIZE"
    using files_okD(4) [OF is_dirD(1,2) [OF D]] by (simp add: small_ok_def)
  ultimately show ?thesis by (simp add: file_content_def)
qed

lemma remove_entry_eq:
  assumes D: "is_dir_at fs d I n" and k: "slot_of name (entries fs d n) = Some k"
    and tab: "indirect_blk_ptr (rinode fs d n) = 0" "double_indirect_blk_ptr (rinode fs d n) = 0"
  obtains d' where "remove_entry fs (inode_new fs n) name d = (Ok (Some (de_ino (entries fs d n ! k))), d')"
    "is_dir_at fs d' I n" "entries fs d' n = drop_slot k (entries fs d n)" "only_file fs I n d d'"
proof -
  let ?es = "entries fs d n" and ?i = "inode_new fs n"
  let ?e = "(?es ! k)\<lparr>de_ino := INVALID_INODE_NO\<rparr>"
  note dir = is_dirD [OF D]
  have kl: "k < length ?es" using slot_of_Some [OF k] by simp
  have fit: "dirent_fits ?e" using dir(6) [OF nth_mem [OF kl]] by (simp add: dirent_fits_def efs_consts)
  have rd: "read_raw_inode ?i d = (Ok (rinode fs d n), d)"
    by (rule read_raw_inode_eq [OF files_okD(1) [OF dir(1)] files_okD(3) [OF dir(1,2)]])
  have loop: "dirent_loop ?i (remove_body name) () 0 d = (Ok (Inl (80 * k, ?es ! k)), d)"
    using dirent_loop_eq [OF D, of 0 "remove_body name"] scan_remove [of name 0 ?es] k by simp
  have sz: "i_size (rinode fs d n) = 80 * length ?es" using dir(5) by (simp add: file_content_def)
  from write_dirent_at_eq [OF D _ small_dir_room [OF D kl] fit] kl obtain d1 where
    w: "write_dirent_at fs ?i (80 * k) ?e d = (Ok (), d1)" "is_dir_at fs d1 I n"
      "entries fs d1 n = ?es[k := ?e]" "only_file fs I n d d1"
    by (metis (no_types, lifting) less_imp_le_nat nat_neq_iff)
  have pre: "remove_entry fs ?i name d =
    bind (if Suc k = length ?es then raw_truncate fs ?i (80 * k) else ret ()) (\<lambda>_. ret (Some (de_ino (?es ! k)))) d1"
  proof -
    have "checked_sub (80 * length ?es) 80 = Some (80 * length ?es - 80)" using kl by (simp add: checked_sub_def)
    moreover have "80 * k = 80 * length ?es - 80 \<longleftrightarrow> Suc k = length ?es" using kl by linarith
    ultimately show ?thesis
      using rd dir(3) loop w(1) sz unfolding remove_entry_def RAW_DIRENT_SIZE_def by (simp add: bind_def)
  qed
  show thesis
  proof (cases "Suc k = length ?es")
    case False
    then show thesis using that [OF _ w(2) _ w(4)] pre w(3) by (simp add: drop_slot_def bind_def)
  next
    case True
    note dir1 = is_dirD [OF w(2)] and o1 = only_fileD [OF w(4)]
    have le: "80 * k \<le> length (file_content fs d1 n)" using dir1(5) w(3) kl by simp
    from raw_truncate_spec [OF dir1(1,2) _ _ le] tab o1(7,8) obtain d2 where
      t: "raw_truncate fs ?i (80 * k) d1 = (Ok (), d2)"
        "file_content fs d2 n = take (80 * k) (file_content fs d1 n)" "only_file fs I n d1 d2" by auto
    have kd: "k \<le> length (dents (file_content fs d1 n))" using w(3) kl by (simp add: entries_def)
    note tk = dents_take [OF dir1(4) kd]
    have "is_dir_at fs d2 I n"
      using only_fileD(1,2) [OF t(3)] dir1(2,3) tk(2) t(2) by (simp add: is_dir_at_def)
    moreover have "entries fs d2 n = drop_slot k ?es"
      using tk(1) t(2) w(3) True by (simp add: entries_def drop_slot_def)
    ultimately show thesis
      using that [OF _ _ _ only_file_trans [OF w(4) t(3)]] pre t(1) True by (simp add: bind_def)
  qed
qed

text \<open>Names of used entries are unique: then a removed name is gone and the others stay.\<close>

definition used_entries :: "raw_dirent list \<Rightarrow> raw_dirent list" where
  "used_entries es = filter (\<lambda>e. \<not> is_unused e) es"

definition names_ok :: "raw_dirent list \<Rightarrow> bool" where
  "names_ok es \<longleftrightarrow> distinct (map dirent_name (used_entries es)) \<and> (\<forall>e \<in> set (used_entries es). 0 \<notin> set (dirent_name e))"

lemma unused_upd [simp]: "is_unused (e\<lparr>de_ino := INVALID_INODE_NO\<rparr>)"
  by (simp add: is_unused_def)

lemma used_entries_append: "used_entries (xs @ ys) = used_entries xs @ used_entries ys"
  by (simp add: used_entries_def)

lemma split_slot: "k < length es \<Longrightarrow> es = take k es @ es ! k # drop (Suc k) es"
  by (simp add: id_take_nth_drop)

lemma used_drop_slot:
  assumes "k < length es"
  shows "used_entries (drop_slot k es) = used_entries (take k es) @ used_entries (drop (Suc k) es)"
proof (cases "Suc k = length es")
  case True
  then show ?thesis by (simp add: drop_slot_def used_entries_def)
next
  case False
  have "es[k := e] = take k es @ e # drop (Suc k) es" for e
    using assms by (rule upd_conv_take_nth_drop)
  then show ?thesis using False by (simp add: drop_slot_def used_entries_def)
qed

lemma find_used: "find (named name) es = find (\<lambda>e. dirent_name e = name) (used_entries es)"
  by (induction es) (auto simp: named_def used_entries_def)

lemma find_name_None: "find (\<lambda>e. dirent_name e = name) es = None \<longleftrightarrow> name \<notin> dirent_name ` set es"
  by (auto simp: find_None_iff)

lemma drop_slot_names:
  assumes ok: "names_ok es" and k: "slot_of name es = Some k"
  shows "names_ok (drop_slot k es)" "find (named name) (drop_slot k es) = None"
    "nm \<noteq> name \<Longrightarrow> find (named nm) (drop_slot k es) = find (named nm) es"
proof -
  let ?a = "used_entries (take k es)" and ?b = "used_entries (drop (Suc k) es)"
  have kl: "k < length es" "named name (es ! k)" using slot_of_Some [OF k] by auto
  have u: "used_entries es = ?a @ es ! k # ?b"
  proof -
    have "used_entries es = used_entries (take k es @ es ! k # drop (Suc k) es)" using split_slot [OF kl(1)] by simp
    also have "\<dots> = ?a @ es ! k # ?b" using kl(2) by (simp add: used_entries_def named_def)
    finally show ?thesis .
  qed
  note d = used_drop_slot [OF kl(1)]
  have n: "dirent_name (es ! k) = name" using kl(2) by (simp add: named_def)
  have "distinct (map dirent_name (?a @ es ! k # ?b))" using ok unfolding names_ok_def u by blast
  then have dis: "distinct (map dirent_name (?a @ ?b))" "name \<notin> dirent_name ` set (?a @ ?b)" using n by auto
  show "names_ok (drop_slot k es)" using ok dis(1) unfolding names_ok_def d u by auto
  show "find (named name) (drop_slot k es) = None" unfolding find_used d find_name_None by (rule dis(2))
  show "find (named nm) (drop_slot k es) = find (named nm) es" if "nm \<noteq> name"
    unfolding find_used d u find_append using that n by (simp split: option.split)
qed

lemma put_entry_names:
  assumes ok: "names_ok es" and e: "\<not> is_unused e" "0 \<notin> set (dirent_name e)"
    and new: "find (named (dirent_name e)) es = None" and put: "put_entry es e es'"
  shows "names_ok es'"
proof -
  have fresh: "dirent_name e \<notin> dirent_name ` set (used_entries es)"
    using new unfolding find_used find_name_None .
  obtain a b where ab: "used_entries es' = a @ e # b" "used_entries es = a @ b"
  proof -
    from put consider "es' = es @ [e]" | k where "k < length es" "is_unused (es ! k)" "es' = es[k := e]"
      by (auto simp: put_entry_def)
    then show thesis
    proof cases
      case 1
      then show thesis using e that [of "used_entries es" "[]"] by (simp add: used_entries_def)
    next
      case 2
      have "used_entries es = used_entries (take k es) @ used_entries (drop (Suc k) es)"
        using 2(2) by (subst split_slot [OF 2(1)]) (simp add: used_entries_def)
      moreover have "es' = take k es @ e # drop (Suc k) es"
        unfolding 2(3) by (rule upd_conv_take_nth_drop [OF 2(1)])
      ultimately show thesis
        using e that [of "used_entries (take k es)" "used_entries (drop (Suc k) es)"] by (simp add: used_entries_def)
    qed
  qed
  show ?thesis using ok fresh e(2) unfolding names_ok_def ab by auto
qed

end
