(* ===== verification/Rw_Efs.thy ===== *)
theory Rw_Efs
  imports Rw_DirSpec
begin

text \<open>
  Files of EFS as a whole: creation and removal of regular files in a directory, and the VFS layer
  (src/fs/redwing_efs/src/vfs_impl.rs) with its table of inodes in use, reference counts and the deletion of an
  unlinked file when its last handle is dropped.
\<close>

section \<open>Operations on the inode bitmap and the inode table\<close>

definition ibitmap_region :: "efs \<Rightarrow> nat set" where
  "ibitmap_region fs = {start_blk_no (inode_bitmap fs)..<end_blk_no (inode_bitmap fs)}"

abbreviation free_inode :: "efs \<Rightarrow> disk \<Rightarrow> nat \<Rightarrow> bool" where
  "free_inode fs d n \<equiv> n < inode_counts (superblock fs) \<and> n \<notin> allocated (inode_bitmap fs) d"

text \<open>The disk seen through the files of \<open>I\<close>: nothing about them differs.\<close>

definition same_files :: "efs \<Rightarrow> nat set \<Rightarrow> disk \<Rightarrow> disk \<Rightarrow> bool" where
  "same_files fs I d d' \<longleftrightarrow> files_ok fs d' I \<and> used_blocks fs d' = used_blocks fs d \<and>
     (\<forall>m < inode_counts (superblock fs). rinode fs d' m = rinode fs d m) \<and>
     (\<forall>m \<in> I. file_content fs d' m = file_content fs d m)"

lemma same_filesD:
  assumes "same_files fs I d d'"
  shows "files_ok fs d' I" "used_blocks fs d' = used_blocks fs d"
    "\<And>m. m < inode_counts (superblock fs) \<Longrightarrow> rinode fs d' m = rinode fs d m"
    "\<And>m. m \<in> I \<Longrightarrow> file_content fs d' m = file_content fs d m"
  using assms by (auto simp: same_files_def)

lemma ibitmap_disjoint:
  assumes "efs_layout fs"
  shows "b \<in> inode_region fs \<Longrightarrow> b \<notin> ibitmap_region fs" "b \<in> data_region fs \<Longrightarrow> b \<notin> ibitmap_region fs"
    "b \<in> bitmap_region fs \<Longrightarrow> b \<notin> ibitmap_region fs"
  using efs_layout_order [OF assms] by (auto simp: inode_region_def data_region_def ibitmap_region_def bitmap_region_def)

lemma ibitmap_frame:
  assumes F: "files_ok fs d I" and ok: "efs_ok fs d'" and fr: "\<And>b. b \<notin> ibitmap_region fs \<Longrightarrow> d' b = d b"
  shows "same_files fs I d d'"
proof -
  note D = files_okD [OF F] and dis = ibitmap_disjoint [OF files_okD(2) [OF F]]
  have u: "used_blocks fs d' = used_blocks fs d"
    using D(1) fr dis(3) bitmap_cong(2) [of "data_bitmap fs" d d']
    by (simp add: used_blocks_def efs_ok_def bitmap_region_def)
  have r: "rinode fs d' m = rinode fs d m" if "m < inode_counts (superblock fs)" for m
    by (rule rinode_cong) (rule fr [OF dis(1) [OF inode_in_region [OF that]]])
  have sm: "small_ok fs d' (rinode fs d' m)" if "m \<in> I" for m
    using small_ok_mono [OF D(4) [OF that], of d'] small_okD(4) [OF D(4) [OF that]] r [OF D(3) [OF that]] u by simp
  have "file_content fs d' m = file_content fs d m" if m: "m \<in> I" for m
    unfolding file_content_def r [OF D(3) [OF m]]
    by (rule content_cong [OF D(4) [OF m]]) (use owned_region [OF D(1) D(4) [OF m]] fr dis(2) in blast)
  moreover have "files_ok fs d' I"
    unfolding files_ok_def using ok sm D(3,5) r by simp
  ultimately show ?thesis using u r by (simp add: same_files_def)
qed

lemma inode_bit_upd:
  fixes v :: bool
  assumes F: "files_ok fs d I" and n: "n < inode_counts (superblock fs)"
  defines "d' \<equiv> upd_disk_bit d (start_blk_no (inode_bitmap fs)) n v"
  shows "same_files fs I d d'"
    "allocated (inode_bitmap fs) d' = (if v then insert n (allocated (inode_bitmap fs) d) else allocated (inode_bitmap fs) d - {n})"
proof -
  note D = files_okD [OF F]
  note lay = efs_layout_order [OF D(2)]
  have bm: "bitmap_ok (inode_bitmap fs) d" "bitmap_ok (data_bitmap fs) d" using D(1) by (simp_all add: efs_ok_def)
  have i: "n < bits_len (inode_bitmap fs)" using n lay(6) by simp
  have fr: "d' b = d b" if "b \<notin> ibitmap_region fs" for b
    unfolding d'_def using that upd_bitmap_frame [OF bm(1) i] by (auto simp: ibitmap_region_def)
  have "bitmap_ok (data_bitmap fs) d'"
    by (rule bitmap_cong(1) [OF bm(2)]) (use fr ibitmap_disjoint(3) [OF D(2)] in \<open>auto simp: bitmap_region_def\<close>)
  moreover have "d' c \<noteq> None" if "d c \<noteq> None" for c using that by (simp add: d'_def upd_disk_bit_def)
  ultimately have "efs_ok fs d'"
    using D(1) bitmap_ok_upd [OF bm(1) i, of v] unfolding efs_ok_def d'_def by blast
  then show "same_files fs I d d'" using fr by (intro ibitmap_frame [OF F])
  show "allocated (inode_bitmap fs) d' = (if v then insert n (allocated (inode_bitmap fs) d) else allocated (inode_bitmap fs) d - {n})"
    unfolding d'_def by (rule allocated_upd [OF i])
qed

lemma alloc_inode_spec:
  assumes F: "files_ok fs d I"
  obtains (full) "alloc_inode fs d = (Err NoSpaceLeft, d)" "\<forall>n. \<not> free_inode fs d n"
    | (hit) n d' where "alloc_inode fs d = (Ok n, d')" "free_inode fs d n" "\<forall>k<n. \<not> free_inode fs d k"
        "same_files fs I d d'" "allocated (inode_bitmap fs) d' = insert n (allocated (inode_bitmap fs) d)"
proof -
  note D = files_okD [OF F]
  have len: "bits_len (inode_bitmap fs) = inode_counts (superblock fs)" by (rule efs_layout_order(6) [OF D(2)])
  have "bitmap_ok (inode_bitmap fs) d" using D(1) by (simp add: efs_ok_def)
  from alloc_bit_spec [OF this] obtain x d' where a: "alloc_bit (inode_bitmap fs) d = (Ok x, d')"
    "case x of Some t \<Rightarrow> t < bits_len (inode_bitmap fs) \<and> t \<notin> allocated (inode_bitmap fs) d \<and>
         (\<forall>k<t. k \<in> allocated (inode_bitmap fs) d) \<and> d' = upd_disk_bit d (start_blk_no (inode_bitmap fs)) t True
     | None \<Rightarrow> d' = d \<and> allocated (inode_bitmap fs) d = {..<bits_len (inode_bitmap fs)}" by blast
  show thesis
  proof (cases x)
    case None
    then show thesis using a len full by (simp add: alloc_inode_def bind_def ok_or_no_space_def)
  next
    case (Some n)
    then have n: "n < inode_counts (superblock fs)" and d': "d' = upd_disk_bit d (start_blk_no (inode_bitmap fs)) n True"
      using a(2) len by auto
    show thesis
      by (rule hit [of n d'])
        (use Some a inode_bit_upd [OF F n, of True] d' n in \<open>auto simp: alloc_inode_def bind_def ok_or_no_space_def\<close>)
  qed
qed

lemma dealloc_inode_spec:
  assumes F: "files_ok fs d I" and n: "n < inode_counts (superblock fs)"
  obtains d' where "dealloc_inode fs n d = (Ok (), d')" "same_files fs I d d'"
    "allocated (inode_bitmap fs) d' = allocated (inode_bitmap fs) d - {n}"
proof -
  note D = files_okD [OF F]
  have "bitmap_ok (inode_bitmap fs) d" using D(1) by (simp add: efs_ok_def)
  then have "dealloc_inode fs n d = (Ok (), upd_disk_bit d (start_blk_no (inode_bitmap fs)) n False)"
    using bitmap_modify_upd(1) n efs_layout_order(6) [OF D(2)] by (simp add: dealloc_inode_def)
  then show thesis using that inode_bit_upd [OF F n, of False] by simp
qed

text \<open>Storing an inode that owns no data blocks, or the same ones with another link count.\<close>

lemma put_empty_inode:
  assumes F: "files_ok fs d I" and n: "n < inode_counts (superblock fs)" "n \<notin> I"
    and ri: "inode_fits ri" "i_size ri = 0" "owned ri = {}"
  defines "d' \<equiv> put_inode fs n ri d"
  shows "files_ok fs d' (insert n I)" "rinode fs d' n = ri" "file_content fs d' n = []"
    "\<And>m. m \<noteq> n \<Longrightarrow> rinode fs d' m = rinode fs d m"
    "\<And>m. m \<in> I \<Longrightarrow> file_content fs d' m = file_content fs d m"
    "used_blocks fs d' = used_blocks fs d" "allocated (inode_bitmap fs) d' = allocated (inode_bitmap fs) d"
proof -
  note D = files_okD [OF F]
  note put = put_inode_ok [OF D(1) n(1), of ri]
  have rn: "rinode fs d' m = (if m = n then ri else rinode fs d m)" for m unfolding d'_def by (rule rinode_put [OF ri(1)])
  then show "rinode fs d' n = ri" "\<And>m. m \<noteq> n \<Longrightarrow> rinode fs d' m = rinode fs d m" by simp_all
  show u: "used_blocks fs d' = used_blocks fs d" "allocated (inode_bitmap fs) d' = allocated (inode_bitmap fs) d"
    unfolding d'_def by (rule put)+
  have len: "length (direct_blk_ptrs ri) = NUM_DIRECT_DATA_BLKS" using ri(1) by (simp add: inode_fits_def)
  have "direct_blk_ptrs ri ! k = INVALID_DATA_BLOCK_NO" if "k < NUM_DIRECT_DATA_BLKS" for k
  proof -
    have "direct_blk_ptrs ri ! k \<in> set (direct_blk_ptrs ri)" using that len by simp
    then show ?thesis using ri(3) by (auto simp: owned_def)
  qed
  then have sm: "small_ok fs d' ri" using ri by (simp add: small_ok_def)
  have sm': "small_ok fs d' (rinode fs d m)" if "m \<in> I" for m
    using small_ok_mono [OF D(4) [OF that]] small_okD(4) [OF D(4) [OF that]] u(1) by simp
  show "files_ok fs d' (insert n I)"
    unfolding files_ok_def using put(1) sm sm' D(3,5) n rn ri(3) by (auto simp: d'_def)
  show "file_content fs d' n = []" using rn ri(2) by (simp add: file_content_def content_def)
  show "file_content fs d' m = file_content fs d m" if m: "m \<in> I" for m
  proof -
    have "d' b = d b" if "b \<in> owned (rinode fs d m)" for b
      unfolding d'_def using owned_region [OF D(1) D(4) [OF m]] that inode_in_region [OF n(1)]
        inode_region_disjoint(1) [OF D(2)] by (intro put_inode_frame) auto
    then show ?thesis
      using m n(2) by (auto simp: file_content_def rn intro: content_cong [OF D(4) [OF m]])
  qed
qed

definition fresh_inode :: "file_type \<Rightarrow> raw_inode" where
  "fresh_inode t = raw_inode_default\<lparr>i_typ := file_type_code t\<rparr>"

lemma fresh_inode_facts:
  "inode_fits (fresh_inode t)" "i_size (fresh_inode t) = 0" "owned (fresh_inode t) = {}"
  "raw_file_type (fresh_inode t) = t" "i_nlink (fresh_inode t) = 0"
  "indirect_blk_ptr (fresh_inode t) = 0" "double_indirect_blk_ptr (fresh_inode t) = 0"
  using file_type_code_bound [of t]
  by (auto simp: fresh_inode_def raw_inode_default_def inode_fits_def efs_consts owned_def raw_file_type_def)

lemma write_raw_inode_with_eq:
  assumes F: "files_ok fs d I" and n: "n < inode_counts (superblock fs)" and f: "f (rinode fs d n) = (r, ri)"
  shows "write_raw_inode_with (inode_new fs n) f d = (r, put_inode fs n ri d)"
  unfolding write_raw_inode_with_def
proof (rule with_raw_inode_eq [OF files_okD(1) [OF F] n])
  show "on_inode f (rinode fs d n, d) = (r, ri, d)" using f by (simp add: on_inode_def)
  show "d (blk_no (inode_new fs n)) \<noteq> None"
    using efs_ok_mapped [OF files_okD(1) [OF F]] inode_in_region [OF n] by fastforce
qed

lemma init_inode_eq:
  assumes F: "files_ok fs d I" and n: "n < inode_counts (superblock fs)" and t: "t \<noteq> Unknown"
  shows "init_inode (inode_new fs n) t 0 d =
    (if raw_file_type (rinode fs d n) = Unknown then (Ok (), put_inode fs n (fresh_inode t) d)
     else (Err FileSystemCorruption, put_inode fs n (rinode fs d n) d))"
proof -
  have "raw_inode_default\<lparr>i_typ := file_type_code t, i_dev_no := 0\<rparr> = fresh_inode t"
    by (simp add: fresh_inode_def raw_inode_default_def)
  then show ?thesis
    unfolding init_inode_def using t by (simp add: write_raw_inode_with_eq [OF F n])
qed

lemma put_same:
  assumes F: "files_ok fs d I" and n: "n < inode_counts (superblock fs)"
  shows "same_files fs I d (put_inode fs n (rinode fs d n) d)"
    "allocated (inode_bitmap fs) (put_inode fs n (rinode fs d n) d) = allocated (inode_bitmap fs) d"
proof -
  note D = files_okD [OF F]
  let ?d = "put_inode fs n (rinode fs d n) d"
  note put = put_inode_ok [OF D(1) n, of "rinode fs d n"]
  show "allocated (inode_bitmap fs) ?d = allocated (inode_bitmap fs) d" by (rule put)
  have r: "rinode fs ?d m = rinode fs d m" for m
    using rinode_put [of "rinode fs d n" fs n d m] inode_fits_decode by (simp add: rinode_def)
  have sm: "small_ok fs ?d (rinode fs d m)" if "m \<in> I" for m
    using small_ok_mono [OF D(4) [OF that]] small_okD(4) [OF D(4) [OF that]] put(2) by simp
  have "file_content fs ?d m = file_content fs d m" if m: "m \<in> I" for m
    unfolding file_content_def r
  proof (rule content_cong [OF D(4) [OF m]])
    fix b assume "b \<in> owned (rinode fs d m)"
    then show "?d b = d b"
      using owned_region [OF D(1) D(4) [OF m]] inode_in_region [OF n] inode_region_disjoint(1) [OF D(2)]
      by (intro put_inode_frame) auto
  qed
  then show "same_files fs I d ?d"
    using put sm D(3,5) r by (simp add: same_files_def files_ok_def)
qed

lemma set_nlink:
  assumes F: "files_ok fs d I" and n: "n \<in> I" and k: "k < 2 ^ 32"
  defines "d' \<equiv> put_inode fs n ((rinode fs d n)\<lparr>i_nlink := k\<rparr>) d"
  shows "files_ok fs d' I" "rinode fs d' n = (rinode fs d n)\<lparr>i_nlink := k\<rparr>"
    "\<And>m. m < inode_counts (superblock fs) \<Longrightarrow> m \<noteq> n \<Longrightarrow> rinode fs d' m = rinode fs d m"
    "\<And>m. m \<in> I \<Longrightarrow> file_content fs d' m = file_content fs d m"
    "used_blocks fs d' = used_blocks fs d" "allocated (inode_bitmap fs) d' = allocated (inode_bitmap fs) d"
proof -
  note D = files_okD [OF F]
  let ?ri = "(rinode fs d n)\<lparr>i_nlink := k\<rparr>"
  have own: "owned ?ri = owned (rinode fs d n)" by (simp add: owned_def)
  have sm: "small_ok fs d ?ri" using D(4) [OF n] k by (simp add: small_ok_def inode_fits_def owned_def)
  have fr: "inode_frame fs (rinode fs d n) d ?ri d"
    using small_okD(4) [OF D(4) [OF n]] by (auto simp: inode_frame_def own)
  note U = update_file [OF F n fr D(1) sm, folded d'_def]
  show "files_ok fs d' I" "rinode fs d' n = ?ri" by (rule U)+
  show "rinode fs d' m = rinode fs d m" if "m < inode_counts (superblock fs)" "m \<noteq> n" for m by (rule U(4) [OF that])
  have "content d ?ri = content d (rinode fs d n)" by (simp add: content_def file_byte_def)
  then show "file_content fs d' m = file_content fs d m" if "m \<in> I" for m
    using U(2) U(5) [OF that] by (cases "m = n") (simp_all add: file_content_def [of fs d])
  show "used_blocks fs d' = used_blocks fs d" "allocated (inode_bitmap fs) d' = allocated (inode_bitmap fs) d"
    using put_inode_ok(2,3) [OF D(1) D(3) [OF n]] by (simp_all add: d'_def)
qed

section \<open>Creating a file\<close>

text \<open>A directory in good order: its inode is in use and linked, its entries have distinct names, and the
  inodes of \<open>I\<close> are allocated; inode 0, which marks an unused entry, is reserved.\<close>

definition dir_ok :: "efs \<Rightarrow> disk \<Rightarrow> nat set \<Rightarrow> nat \<Rightarrow> bool" where
  "dir_ok fs d I p \<longleftrightarrow> is_dir_at fs d I p \<and> insert INVALID_INODE_NO I \<subseteq> allocated (inode_bitmap fs) d \<and>
     names_ok (entries fs d p) \<and> i_nlink (rinode fs d p) \<noteq> 0 \<and>
     indirect_blk_ptr (rinode fs d p) = 0 \<and> double_indirect_blk_ptr (rinode fs d p) = 0"

text \<open>The inodes that are free have the type \<open>Unknown\<close>, which \<open>init_inode\<close> relies on.\<close>

definition free_clean :: "efs \<Rightarrow> disk \<Rightarrow> bool" where
  "free_clean fs d \<longleftrightarrow> (\<forall>n. free_inode fs d n \<longrightarrow> raw_file_type (rinode fs d n) = Unknown)"

lemma dir_okD:
  assumes "dir_ok fs d I p"
  shows "is_dir_at fs d I p" "files_ok fs d I" "p \<in> I" "p < inode_counts (superblock fs)"
    "I \<subseteq> allocated (inode_bitmap fs) d" "INVALID_INODE_NO \<in> allocated (inode_bitmap fs) d"
    "names_ok (entries fs d p)" "i_nlink (rinode fs d p) \<noteq> 0" "raw_file_type (rinode fs d p) = Directory"
    "indirect_blk_ptr (rinode fs d p) = 0" "double_indirect_blk_ptr (rinode fs d p) = 0"
  using assms is_dirD [of fs d I p] files_okD(3) [of fs d I p] by (auto simp: dir_ok_def)

lemma check_for_create_eq:
  assumes D: "dir_ok fs d I p"
  shows "check_for_create (inode_new fs p) name d =
    (if find (named name) (entries fs d p) = None then Ok () else Err AlreadyExists, d)"
  using read_raw_inode_eq [OF files_okD(1) [OF dir_okD(2) [OF D]] dir_okD(4) [OF D]] dir_okD(8,9) [OF D]
    lookup_eq [OF dir_okD(1) [OF D], of name]
  by (simp add: check_for_create_def bind_def)

lemma dirent_new_ok:
  assumes "length name \<le> 64" "t \<noteq> Unknown" "n < 2 ^ 64"
  obtains e where "dirent_new n t name = Ok e" "dirent_fits e" "dirent_name e = name" "de_ino e = n" "de_typ e = t"
    "de_name e = name @ replicate (64 - length name) 0"
  using assms by (auto simp: dirent_new_def dirent_fits_def dirent_name_def efs_consts)

lemma padded_name_new:
  assumes ok: "names_ok es" and nul: "0 \<notin> set name" and new: "find (named name) es = None"
  shows "\<forall>x \<in> set es. \<not> is_unused x \<longrightarrow> dirent_name x \<noteq> name @ replicate k 0"
proof (intro ballI impI)
  fix x assume x: "x \<in> set es" "\<not> is_unused x"
  show "dirent_name x \<noteq> name @ replicate k 0"
  proof (cases k)
    case 0
    then show ?thesis using new x by (auto simp: find_None_iff named_def)
  next
    case (Suc j)
    have "0 \<notin> set (dirent_name x)" using ok x by (simp add: names_ok_def used_entries_def)
    then show ?thesis using Suc by auto
  qed
qed

lemma files_subset: "files_ok fs d J \<Longrightarrow> I \<subseteq> J \<Longrightarrow> files_ok fs d I"
  unfolding files_ok_def by blast

lemma is_dir_frame:
  assumes "is_dir_at fs d I p" "files_ok fs d' J" "p \<in> J" "rinode fs d' p = rinode fs d p"
    "file_content fs d' p = file_content fs d p"
  shows "is_dir_at fs d' J p" "entries fs d' p = entries fs d p"
  using assms by (simp_all add: is_dir_at_def entries_def)

text \<open>Linking a new inode \<open>n\<close> into the directory \<open>p\<close>.\<close>

lemma link_new:
  assumes D: "is_dir_at fs d J p" and n: "n \<in> J" "n \<noteq> p" "raw_file_type (rinode fs d n) \<noteq> Unknown" "n \<noteq> INVALID_INODE_NO" "n < 2 ^ 64"
    and nl: "i_nlink (rinode fs d n) = 0" and ok: "names_ok (entries fs d p)"
    and name: "length name \<le> 64" "0 \<notin> set name" "find (named name) (entries fs d p) = None"
    and room: "80 * length (entries fs d p) + 80 \<le> SMALL_SIZE"
  obtains (full) d' where "link fs (inode_new fs p) (inode_new fs n) name d = (Err NoSpaceLeft, d')"
      "used_blocks fs d' = data_region fs" "only_file fs J p d d'"
    | (linked) d1 d' e where "link fs (inode_new fs p) (inode_new fs n) name d = (Ok (), d')"
      "is_dir_at fs d1 J p" "put_entry (entries fs d p) e (entries fs d1 p)" "only_file fs J p d d1"
      "dirent_name e = name" "de_ino e = n" "d' = put_inode fs n ((rinode fs d n)\<lparr>i_nlink := 1\<rparr>) d1"
proof -
  note dir = is_dirD [OF D]
  have nc: "n < inode_counts (superblock fs)" by (rule files_okD(3) [OF dir(1) n(1)])
  from dirent_new_ok [OF name(1) n(3,5)] obtain e where
    e: "dirent_new n (raw_file_type (rinode fs d n)) name = Ok e" "dirent_fits e" "dirent_name e = name" "de_ino e = n"
      "de_name e = name @ replicate (64 - length name) 0" by metis
  have new: "\<forall>x \<in> set (entries fs d p). \<not> is_unused x \<longrightarrow> dirent_name x \<noteq> de_name e"
    unfolding e(5) by (rule padded_name_new [OF ok name(2,3)])
  have l: "link fs (inode_new fs p) (inode_new fs n) name d =
    bind (add_entry fs (inode_new fs p) e) (\<lambda>_. write_raw_inode_with (inode_new fs n) increase_link) d"
    using inode_file_type_eq [OF dir(1) n(1)] e(1)
    by (simp add: link_def bind_def lift_outcome_def inode_new_def)
  from D room e(2) new show thesis
  proof (cases rule: add_entry_eq)
    case a: (stored d1)
    have r: "rinode fs d1 n = rinode fs d n" using only_fileD(3) [OF a(4) nc n(2)] .
    have "increase_link (rinode fs d1 n) = (Ok (), (rinode fs d n)\<lparr>i_nlink := 1\<rparr>)"
      using r nl by (simp add: increase_link_def)
    then have "write_raw_inode_with (inode_new fs n) increase_link d1 = (Ok (), put_inode fs n ((rinode fs d n)\<lparr>i_nlink := 1\<rparr>) d1)"
      by (rule write_raw_inode_with_eq [OF only_fileD(1) [OF a(4)] nc])
    then show thesis
      using linked [OF _ a(2,3,4) e(3,4) refl] l a(1) by (simp add: bind_def)
  next
    case a: (full d')
    then show thesis using full l by (simp add: bind_def)
  qed
qed

text \<open>\<open>create_file\<close> for a name that the directory does not have.\<close>

lemma create_file_cases:
  assumes D: "dir_ok fs d I p" and clean: "free_clean fs d"
    and name: "length name \<le> 64" "0 \<notin> set name" "find (named name) (entries fs d p) = None"
    and room: "80 * length (entries fs d p) + 80 \<le> SMALL_SIZE" and small: "inode_counts (superblock fs) \<le> 2 ^ 64"
  obtains (full) d' where "create_file fs (inode_new fs p) name d = (Err NoSpaceLeft, d')" "files_ok fs d' I"
      "\<forall>m\<in>I. m \<noteq> p \<longrightarrow> file_content fs d' m = file_content fs d m"
    | (created) n d' e where "create_file fs (inode_new fs p) name d = (Ok n, d')" "free_inode fs d n"
      "\<forall>k<n. \<not> free_inode fs d k" "dir_ok fs d' (insert n I) p" "free_clean fs d'"
      "rinode fs d' n = (fresh_inode File)\<lparr>i_nlink := 1\<rparr>" "file_content fs d' n = []"
      "put_entry (entries fs d p) e (entries fs d' p)" "dirent_name e = name" "de_ino e = n" "\<not> is_unused e"
      "\<forall>m\<in>I. m \<noteq> p \<longrightarrow> file_content fs d' m = file_content fs d m"
      "\<forall>m<inode_counts (superblock fs). m \<noteq> p \<longrightarrow> m \<noteq> n \<longrightarrow> rinode fs d' m = rinode fs d m"
proof -
  note dd = dir_okD [OF D]
  have ck: "check_for_create (inode_new fs p) name d = (Ok (), d)" using check_for_create_eq [OF D, of name] name(3) by simp
  from dd(2) show thesis
  proof (cases rule: alloc_inode_spec)
    case a: full
    then have "create_file fs (inode_new fs p) name d = (Err NoSpaceLeft, d)"
      using ck by (simp add: create_file_def create_with_def bind_def)
    then show thesis using full dd(2) by blast
  next
    case a: (hit n d1)
    note s = same_filesD [OF a(4)]
    have nI: "n \<notin> I" "n \<noteq> p" "n \<noteq> INVALID_INODE_NO" using a(2) dd(3,5,6) by auto
    have nc: "n < inode_counts (superblock fs)" "n < 2 ^ 64" using a(2) small by auto
    have un: "raw_file_type (rinode fs d1 n) = Unknown" using clean a(2) s(3) [OF nc(1)] by (simp add: free_clean_def)
    let ?d2 = "put_inode fs n (fresh_inode File) d1" and ?J = "insert n I"
    have init: "init_inode (inode_new fs n) File 0 d1 = (Ok (), ?d2)"
      using init_inode_eq [OF s(1) nc(1), of File] un by simp
    note e = put_empty_inode [OF s(1) nc(1) nI(1) fresh_inode_facts(1,2,3) [of File]]
    have pn: "rinode fs ?d2 p = rinode fs d p" "file_content fs ?d2 p = file_content fs d p"
      using e(4) [of p] e(5) [OF dd(3)] s(3) [OF dd(4)] s(4) [OF dd(3)] nI(2) by auto
    note dir2 = is_dir_frame [OF dd(1) e(1) _ pn]
    have D2: "is_dir_at fs ?d2 ?J p" "entries fs ?d2 p = entries fs d p" using dir2 dd(3) by auto
    have cf: "create_file fs (inode_new fs p) name d =
      (case link fs (inode_new fs p) (inode_new fs n) name ?d2 of
         (Ok _, d') \<Rightarrow> (Ok n, d')
       | (Err err, d') \<Rightarrow> bind (dealloc_inode fs n) (\<lambda>_. fail err) d'
       | (Panic, d') \<Rightarrow> (Panic, d'))"
      using ck a(1) init by (simp add: create_file_def create_with_def bind_def)
    have nJ: "n \<in> ?J" "raw_file_type (rinode fs ?d2 n) \<noteq> Unknown" "i_nlink (rinode fs ?d2 n) = 0"
      using e(2) fresh_inode_facts(4,5) [of File] by simp_all
    have other: "rinode fs ?d2 m = rinode fs d m" if "m < inode_counts (superblock fs)" "m \<noteq> n" for m
      using e(4) [OF that(2)] s(3) [OF that(1)] by simp
    have cont: "file_content fs ?d2 m = file_content fs d m" if "m \<in> I" for m
      using e(5) [OF that] s(4) [OF that] by simp
    have al: "allocated (inode_bitmap fs) ?d2 = insert n (allocated (inode_bitmap fs) d)" using e(7) a(5) by simp
    note D2' = dd(7) [folded D2(2)] name(3) [folded D2(2)] room [folded D2(2)]
    from D2(1) nJ(1) nI(2) nJ(2) nI(3) nc(2) nJ(3) D2'(1) name(1,2) D2'(2,3) show thesis
    proof (cases rule: link_new)
      case l: (full d3)
      note o = only_fileD [OF l(3)]
      from dealloc_inode_spec [OF o(1) nc(1)] obtain d4 where
        x: "dealloc_inode fs n d3 = (Ok (), d4)" "same_files fs ?J d3 d4" by blast
      have "create_file fs (inode_new fs p) name d = (Err NoSpaceLeft, d4)" using cf l(1) x(1) by (simp add: bind_def)
      moreover have "files_ok fs d4 I" by (rule files_subset [OF same_filesD(1) [OF x(2)]]) blast
      moreover have "file_content fs d4 m = file_content fs d m" if "m \<in> I" "m \<noteq> p" for m
        using same_filesD(4) [OF x(2), of m] o(4) [of m] cont [OF that(1)] that by simp
      ultimately show thesis using full by blast
    next
      case l: (linked d3 d4 en)
      note o = only_fileD [OF l(4)]
      have r3: "rinode fs d3 n = fresh_inode File" using o(3) [OF nc(1) nI(2)] e(2) by simp
      have d4: "d4 = put_inode fs n ((rinode fs d3 n)\<lparr>i_nlink := 1\<rparr>) d3" using l(7) r3 e(2) by simp
      note k = set_nlink [OF o(1) nJ(1), of 1, folded d4]
      have eu: "\<not> is_unused en" using l(6) nI(3) by (simp add: is_unused_def)
      have pJ: "p \<in> ?J" using dd(3) by simp
      have rp: "rinode fs d4 p = rinode fs d3 p" using k(3) [OF _ dd(4)] nI(2) by simp
      have cp: "file_content fs d4 p = file_content fs d3 p" using k(4) [OF _ pJ] by simp
      have kf: "files_ok fs d4 ?J" using k(1) by simp
      note D4 = is_dir_frame [OF l(2) kf pJ rp cp]
      have nm: "names_ok (entries fs d4 p)"
        unfolding D4(2) by (rule put_entry_names [OF dd(7) eu _ _ l(3) [unfolded D2(2)]]) (use l(5) name(2,3) in simp_all)
      have al4: "allocated (inode_bitmap fs) d4 = insert n (allocated (inode_bitmap fs) d)" using k(6) o(5) al by simp
      have rm: "rinode fs d4 m = rinode fs d m" if "m < inode_counts (superblock fs)" "m \<noteq> p" "m \<noteq> n" for m
        using k(3) [OF _ that(1,3)] o(3) [OF that(1,2)] other [OF that(1,3)] by simp
      have ptab: "i_nlink (rinode fs d4 p) = i_nlink (rinode fs d p)" "indirect_blk_ptr (rinode fs d4 p) = 0"
        "double_indirect_blk_ptr (rinode fs d4 p) = 0" using rp o(6-8) pn(1) dd(10,11) by simp_all
      show thesis
      proof (rule created [of n d4 en])
        show "create_file fs (inode_new fs p) name d = (Ok n, d4)" using cf l(1) by simp
        show "dir_ok fs d4 (insert n I) p" using D4(1) al4 dd(5,6,8) nm ptab by (auto simp: dir_ok_def)
        show "free_clean fs d4"
          using clean rm al4 dd(3,5) unfolding free_clean_def by (metis insert_iff subsetD)
        show "rinode fs d4 n = (fresh_inode File)\<lparr>i_nlink := 1\<rparr>" using k(2) r3 by simp
        show "file_content fs d4 n = []" using k(4) [OF _ nJ(1)] o(4) [OF nJ(1) nI(2)] e(3) by simp
        show "put_entry (entries fs d p) en (entries fs d4 p)" using l(3) D4(2) D2(2) by simp
        show "\<forall>m\<in>I. m \<noteq> p \<longrightarrow> file_content fs d4 m = file_content fs d m"
          using k(4) o(4) cont by simp
      qed (use a(2,3) l(5,6) eu rm in auto)
    qed
  qed
qed

text \<open>A free inode that still carries a type makes every creation fail, and the failure leaves it in place.\<close>

lemma create_file_poisoned:
  assumes D: "dir_ok fs d I p" and n: "free_inode fs d n" "\<forall>k<n. \<not> free_inode fs d k"
    and ty: "raw_file_type (rinode fs d n) \<noteq> Unknown" and new: "find (named name) (entries fs d p) = None"
  obtains d' where "create_file fs (inode_new fs p) name d = (Err FileSystemCorruption, d')" "same_files fs I d d'"
    "allocated (inode_bitmap fs) d' = allocated (inode_bitmap fs) d"
proof -
  note dd = dir_okD [OF D]
  have ck: "check_for_create (inode_new fs p) name d = (Ok (), d)" using check_for_create_eq [OF D, of name] new by simp
  from dd(2) show thesis
  proof (cases rule: alloc_inode_spec)
    case full
    then show thesis using n by blast
  next
    case a: (hit m d1)
    have m: "m = n" using a(2,3) n by (metis linorder_neqE_nat)
    note s = same_filesD [OF a(4)]
    have nc: "n < inode_counts (superblock fs)" using n(1) by simp
    let ?d2 = "put_inode fs n (rinode fs d1 n) d1"
    have "init_inode (inode_new fs n) File 0 d1 = (Err FileSystemCorruption, ?d2)"
      using init_inode_eq [OF s(1) nc, of File] ty s(3) [OF nc] by simp
    moreover note p2 = put_same [OF s(1) nc]
    ultimately have c: "create_file fs (inode_new fs p) name d = bind (dealloc_inode fs n) (\<lambda>_. fail FileSystemCorruption) ?d2"
      using ck a(1) m by (simp add: create_file_def create_with_def bind_def)
    from dealloc_inode_spec [OF same_filesD(1) [OF p2(1)] nc] obtain d3 where
      x: "dealloc_inode fs n ?d2 = (Ok (), d3)" "same_files fs I ?d2 d3"
        "allocated (inode_bitmap fs) d3 = allocated (inode_bitmap fs) ?d2 - {n}" by blast
    have "same_files fs I d d3" using a(4) p2(1) x(2) by (auto simp: same_files_def)
    moreover have "allocated (inode_bitmap fs) d3 = allocated (inode_bitmap fs) d"
      using x(3) p2(2) a(5) m n(1) by auto
    ultimately show thesis using that c x(1) by (simp add: bind_def)
  qed
qed

section \<open>Removing a file\<close>

lemma remove_child_file:
  assumes D: "dir_ok fs d I p" and n: "n \<in> I" "n \<noteq> p" "raw_file_type (rinode fs d n) = File" "i_nlink (rinode fs d n) \<noteq> 0"
    and k: "slot_of name (entries fs d p) = Some k" "de_ino (entries fs d p ! k) = n"
  obtains d' where "remove_child fs (inode_new fs p) (inode_new fs n) name d = (Ok (), d')" "dir_ok fs d' I p"
    "entries fs d' p = drop_slot k (entries fs d p)"
    "rinode fs d' n = (rinode fs d n)\<lparr>i_nlink := i_nlink (rinode fs d n) - 1\<rparr>"
    "\<forall>m\<in>I. m \<noteq> p \<longrightarrow> file_content fs d' m = file_content fs d m"
    "\<forall>m<inode_counts (superblock fs). m \<noteq> p \<longrightarrow> m \<noteq> n \<longrightarrow> rinode fs d' m = rinode fs d m"
    "allocated (inode_bitmap fs) d' = allocated (inode_bitmap fs) d"
proof -
  note dd = dir_okD [OF D]
  note fd = files_okD [OF dd(2)]
  have nc: "n < inode_counts (superblock fs)" by (rule fd(3) [OF n(1)])
  have rd: "read_raw_inode (inode_new fs m) d = (Ok (rinode fs d m), d)" if "m < inode_counts (superblock fs)" for m
    by (rule read_raw_inode_eq [OF fd(1) that])
  from dd(1) k(1) dd(10,11) obtain d1 where
    r: "remove_entry fs (inode_new fs p) name d = (Ok (Some n), d1)" "is_dir_at fs d1 I p"
      "entries fs d1 p = drop_slot k (entries fs d p)" "only_file fs I p d d1"
    by (rule remove_entry_eq) (use k(2) in auto)
  note o = only_fileD [OF r(4)]
  have r1: "rinode fs d1 n = rinode fs d n" using o(3) [OF nc n(2)] .
  let ?l = "i_nlink (rinode fs d n) - 1"
  have "i_nlink (rinode fs d n) < 2 ^ 32" using fd(4) [OF n(1)] by (simp add: small_ok_def inode_fits_def)
  then have small: "?l < 2 ^ 32" by linarith
  let ?d2 = "put_inode fs n ((rinode fs d1 n)\<lparr>i_nlink := ?l\<rparr>) d1"
  note s = set_nlink [OF o(1) n(1) small]
  have "decrease_link (rinode fs d1 n) = (Ok (), (rinode fs d1 n)\<lparr>i_nlink := ?l\<rparr>)" using r1 by (simp add: decrease_link_def)
  then have "write_raw_inode_with (inode_new fs n) decrease_link d1 = (Ok (), ?d2)"
    by (rule write_raw_inode_with_eq [OF o(1) nc])
  then have "unlink fs (inode_new fs p) (inode_new fs n) name d = (Ok (), ?d2)"
    using r(1) by (simp add: unlink_def bind_def inode_new_def)
  then have res: "remove_child fs (inode_new fs p) (inode_new fs n) name d = (Ok (), ?d2)"
    using rd [OF dd(4)] rd [OF nc] dd(8,9) n(3,4) by (simp add: remove_child_def bind_def)
  have rp: "rinode fs ?d2 p = rinode fs d1 p" using s(3) [OF dd(4)] n(2) by blast
  note D2 = is_dir_frame [OF r(2) s(1) dd(3) rp s(4) [OF dd(3)]]
  have al: "allocated (inode_bitmap fs) ?d2 = allocated (inode_bitmap fs) d" using s(6) o(5) by simp
  have "dir_ok fs ?d2 I p"
    using D2 al dd(5-8,10,11) rp o(6-8) drop_slot_names(1) [OF dd(7) k(1)] r(3) by (simp add: dir_ok_def)
  moreover have "file_content fs ?d2 m = file_content fs d m" if "m \<in> I" "m \<noteq> p" for m
    using s(4) [OF that(1)] o(4) [OF that] by simp
  moreover have "rinode fs ?d2 m = rinode fs d m" if "m < inode_counts (superblock fs)" "m \<noteq> p" "m \<noteq> n" for m
    using s(3) [OF that(1,3)] o(3) [OF that(1,2)] by simp
  ultimately show thesis using that [of ?d2] res D2(2) r(3) s(2) r1 al by simp
qed

section \<open>The VFS layer\<close>

text \<open>
  \<open>VfsImpl\<close>: the disk and the table \<open>inodes\<close>. The table holds weak references; an entry is modelled by the number of
  strong references to the inode object (0: the object is gone, the weak reference is stale). The operations
  name an inode object by its inode number.
\<close>

record vfs_impl =
  vdisk :: disk
  inodes :: "nat \<rightharpoonup> nat"

definition on_efs :: "(disk, fs_error_kind, 'a) call \<Rightarrow> (vfs_impl, fs_error_kind, 'a) call" where
  "on_efs c = (\<lambda>s. case c (vdisk s) of (r, d) \<Rightarrow> (r, s\<lparr>vdisk := d\<rparr>))"

definition new_arc :: "efs \<Rightarrow> nat \<Rightarrow> (disk, fs_error_kind, unit) call" where
  "new_arc fs n = bind (is_inode_used fs n) (\<lambda>used.
     if \<not> used then fail NoSuchFileOrDirectory
     else bind (read_raw_inode (inode_new fs n)) (\<lambda>ri.
       if i_nlink ri = 0 then fail NoSuchFileOrDirectory else ret ()))"

definition vfs_inode :: "efs \<Rightarrow> nat \<Rightarrow> (vfs_impl, fs_error_kind, nat) call" where
  "vfs_inode fs n = (\<lambda>s.
     case inodes s n of
       Some (Suc k) \<Rightarrow> (Ok n, s\<lparr>inodes := (inodes s)(n \<mapsto> Suc (Suc k))\<rparr>)
     | _ \<Rightarrow> bind (on_efs (new_arc fs n)) (\<lambda>_ s. (Ok n, s\<lparr>inodes := (inodes s)(n \<mapsto> 1)\<rparr>)) s)"

definition vfs_root :: "efs \<Rightarrow> (vfs_impl, fs_error_kind, nat) call" where
  "vfs_root fs = vfs_inode fs ROOT_INODE_NO"

definition delete_inode_from_disk :: "efs \<Rightarrow> nat \<Rightarrow> (vfs_impl, fs_error_kind, unit) call" where
  "delete_inode_from_disk fs n =
     bind (on_efs (raw_truncate fs (inode_new fs n) 0)) (\<lambda>_.
     bind (on_efs (dealloc_inode fs n)) (\<lambda>_ s.
       (Ok (), s\<lparr>inodes := (inodes s)(n := None)\<rparr>)))"

definition metadata :: "efs \<Rightarrow> nat \<Rightarrow> (vfs_impl, fs_error_kind, stat) call" where
  "metadata fs n = bind (on_efs (read_raw_inode (inode_new fs n))) (\<lambda>ri.
     bind (lift_outcome (to_vfs_type (raw_file_type ri))) (\<lambda>t.
       ret \<lparr>st_ino = n, st_dev_no = i_dev_no ri, st_typ = t, st_size = i_size ri, st_nlink = i_nlink ri\<rparr>))"

text \<open>\<open>Drop for VfsInodeImpl\<close>: run when the last strong reference goes. Its errors are ignored.\<close>

definition vfs_inode_drop :: "efs \<Rightarrow> nat \<Rightarrow> (vfs_impl, fs_error_kind, unit) call" where
  "vfs_inode_drop fs n = (\<lambda>s.
     case metadata fs n s of
       (Ok st, s') \<Rightarrow>
         (if st_nlink st = 0 then
            (case delete_inode_from_disk fs n s' of
               (Panic, s'') \<Rightarrow> (Panic, s'')
             | (_, s'') \<Rightarrow> (Ok (), s''))
          else (Ok (), s'))
     | (Err _, s') \<Rightarrow> (Ok (), s')
     | (Panic, s') \<Rightarrow> (Panic, s'))"

text \<open>Giving up one strong reference; without one there is nothing to give up.\<close>

definition release :: "efs \<Rightarrow> nat \<Rightarrow> (vfs_impl, fs_error_kind, unit) call" where
  "release fs n = (\<lambda>s.
     case inodes s n of
       Some (Suc k) \<Rightarrow>
         (let s' = s\<lparr>inodes := (inodes s)(n \<mapsto> k)\<rparr> in
          if k = 0 then vfs_inode_drop fs n s' else (Ok (), s'))
     | _ \<Rightarrow> (Ok (), s))"

definition real_try_lookup_inode :: "efs \<Rightarrow> nat \<Rightarrow> bytes \<Rightarrow> (vfs_impl, fs_error_kind, nat option) call" where
  "real_try_lookup_inode fs n name = bind (on_efs (lookup (inode_new fs n) name)) (\<lambda>x.
     case x of
       Some e \<Rightarrow> bind (vfs_inode fs (de_ino e)) (\<lambda>m. ret (Some m))
     | None \<Rightarrow> ret None)"

definition real_lookup_inode :: "efs \<Rightarrow> nat \<Rightarrow> bytes \<Rightarrow> (vfs_impl, fs_error_kind, nat) call" where
  "real_lookup_inode fs n name = bind (real_try_lookup_inode fs n name) (\<lambda>x.
     case x of None \<Rightarrow> fail NoSuchFileOrDirectory | Some m \<Rightarrow> ret m)"

definition vfs_read :: "efs \<Rightarrow> nat \<Rightarrow> nat \<Rightarrow> nat \<Rightarrow> (vfs_impl, fs_error_kind, bytes) call" where
  "vfs_read fs n offset k = on_efs (inode_read (inode_new fs n) offset k)"

definition vfs_write :: "efs \<Rightarrow> nat \<Rightarrow> nat \<Rightarrow> bytes \<Rightarrow> (vfs_impl, fs_error_kind, nat) call" where
  "vfs_write fs n offset buf = on_efs (inode_write fs (inode_new fs n) offset buf)"

definition vfs_create :: "efs \<Rightarrow> nat \<Rightarrow> bytes \<Rightarrow> vfs_file_type \<Rightarrow> (vfs_impl, fs_error_kind, nat) call" where
  "vfs_create fs n name t =
     bind (case t of
             VDevice \<Rightarrow> fail Unsupported
           | VSymlink \<Rightarrow> fail Unsupported
           | VDirectory \<Rightarrow> on_efs (mkdir fs (inode_new fs n) name)
           | RegularFile \<Rightarrow> on_efs (create_file fs (inode_new fs n) name))
       (vfs_inode fs)"

text \<open>\<open>unlink\<close> locks the directory and the child; were they the same object the second lock would
  never be granted, which the model counts as a panic. The reference to the child is dropped at the end.\<close>

definition vfs_unlink :: "efs \<Rightarrow> nat \<Rightarrow> bytes \<Rightarrow> (vfs_impl, fs_error_kind, unit) call" where
  "vfs_unlink fs n name = bind (real_lookup_inode fs n name) (\<lambda>c s.
     if c = n then (Panic, s)
     else case on_efs (remove_child fs (inode_new fs n) (inode_new fs c) name) s of
            (Panic, s') \<Rightarrow> (Panic, s')
          | (r, s') \<Rightarrow> bind (release fs c) (\<lambda>_. lift_outcome r) s')"

definition vfs_rename :: "efs \<Rightarrow> nat \<Rightarrow> bytes \<Rightarrow> nat \<Rightarrow> bytes \<Rightarrow> (vfs_impl, fs_error_kind, unit) call" where
  "vfs_rename fs n old_name target new_name = fail Unsupported"

definition vfs_get_dirents :: "efs \<Rightarrow> nat \<Rightarrow> nat \<Rightarrow> nat \<Rightarrow> (vfs_impl, fs_error_kind, nat \<times> raw_dirent list) call" where
  "vfs_get_dirents fs n offset k = on_efs (get_dirents (inode_new fs n) offset k)"

definition vfs_truncate :: "efs \<Rightarrow> nat \<Rightarrow> nat \<Rightarrow> (vfs_impl, fs_error_kind, nat) call" where
  "vfs_truncate fs n new_size = on_efs (inode_truncate fs (inode_new fs n) new_size)"

section \<open>Deletion\<close>

lemma delete_inode_eq:
  assumes F: "files_ok fs (vdisk s) I" and n: "n \<in> I"
    and tab: "indirect_blk_ptr (rinode fs (vdisk s) n) = 0" "double_indirect_blk_ptr (rinode fs (vdisk s) n) = 0"
  obtains d' where "delete_inode_from_disk fs n s = (Ok (), s\<lparr>vdisk := d', inodes := (inodes s)(n := None)\<rparr>)"
    "files_ok fs d' I" "file_content fs d' n = []"
    "raw_file_type (rinode fs d' n) = raw_file_type (rinode fs (vdisk s) n)"
    "\<forall>m\<in>I. m \<noteq> n \<longrightarrow> file_content fs d' m = file_content fs (vdisk s) m"
    "\<forall>m<inode_counts (superblock fs). m \<noteq> n \<longrightarrow> rinode fs d' m = rinode fs (vdisk s) m"
    "used_blocks fs d' = used_blocks fs (vdisk s) - (owned (rinode fs (vdisk s) n) - owned (rinode fs d' n))"
    "allocated (inode_bitmap fs) d' = allocated (inode_bitmap fs) (vdisk s) - {n}"
proof -
  have nc: "n < inode_counts (superblock fs)" by (rule files_okD(3) [OF F n])
  from raw_truncate_spec [OF F n tab, of 0] obtain d1 where
    t: "raw_truncate fs (inode_new fs n) 0 (vdisk s) = (Ok (), d1)" "file_content fs d1 n = []"
      "used_blocks fs d1 = used_blocks fs (vdisk s) - (owned (rinode fs (vdisk s) n) - owned (rinode fs d1 n))"
      "only_file fs I n (vdisk s) d1" by auto
  note o = only_fileD [OF t(4)]
  from dealloc_inode_spec [OF o(1) nc] obtain d2 where
    x: "dealloc_inode fs n d1 = (Ok (), d2)" "same_files fs I d1 d2"
      "allocated (inode_bitmap fs) d2 = allocated (inode_bitmap fs) d1 - {n}" by blast
  note s2 = same_filesD [OF x(2)]
  show thesis
  proof (rule that [of d2])
    show "delete_inode_from_disk fs n s = (Ok (), s\<lparr>vdisk := d2, inodes := (inodes s)(n := None)\<rparr>)"
      using t(1) x(1) by (simp add: delete_inode_from_disk_def on_efs_def bind_def)
    show "raw_file_type (rinode fs d2 n) = raw_file_type (rinode fs (vdisk s) n)" using s2(3) [OF nc] o(2) by simp
    show "used_blocks fs d2 = used_blocks fs (vdisk s) - (owned (rinode fs (vdisk s) n) - owned (rinode fs d2 n))"
      using s2(2,3) nc t(3) by simp
  qed (use s2 x(3) o n t(2) in simp_all)
qed

lemma metadata_eq:
  assumes F: "files_ok fs (vdisk s) I" and n: "n \<in> I" and ty: "raw_file_type (rinode fs (vdisk s) n) = File"
  shows "\<exists>st. metadata fs n s = (Ok st, s) \<and> st_nlink st = i_nlink (rinode fs (vdisk s) n)"
  using read_raw_inode_eq [OF files_okD(1) [OF F] files_okD(3) [OF F n]] ty
  by (simp add: metadata_def on_efs_def bind_def lift_outcome_def)

text \<open>Looking up the name of an inode that is already open takes one more reference.\<close>

lemma real_lookup_open:
  assumes D: "dir_ok fs (vdisk s) I p" and k: "slot_of name (entries fs (vdisk s) p) = Some k"
    "de_ino (entries fs (vdisk s) p ! k) = n" and h: "inodes s n = Some (Suc c)"
  shows "real_lookup_inode fs p name s = (Ok n, s\<lparr>inodes := (inodes s)(n \<mapsto> Suc (Suc c))\<rparr>)"
proof -
  have "lookup (inode_new fs p) name (vdisk s) = (Ok (Some (entries fs (vdisk s) p ! k)), vdisk s)"
    using lookup_eq [OF dir_okD(1) [OF D]] k(1) by (simp add: slot_of_find)
  then show ?thesis
    using k(2) h by (simp add: real_lookup_inode_def real_try_lookup_inode_def bind_def on_efs_def vfs_inode_def)
qed

lemma vfs_unlink_open:
  assumes D: "dir_ok fs (vdisk s) I p" and n: "n \<in> I" "n \<noteq> p" "raw_file_type (rinode fs (vdisk s) n) = File"
      "i_nlink (rinode fs (vdisk s) n) \<noteq> 0"
    and k: "slot_of name (entries fs (vdisk s) p) = Some k" "de_ino (entries fs (vdisk s) p ! k) = n"
    and h: "inodes s n = Some (Suc c)"
  obtains d' where "vfs_unlink fs p name s = (Ok (), s\<lparr>vdisk := d'\<rparr>)" "dir_ok fs d' I p"
    "entries fs d' p = drop_slot k (entries fs (vdisk s) p)"
    "rinode fs d' n = (rinode fs (vdisk s) n)\<lparr>i_nlink := i_nlink (rinode fs (vdisk s) n) - 1\<rparr>"
    "\<forall>m\<in>I. m \<noteq> p \<longrightarrow> file_content fs d' m = file_content fs (vdisk s) m"
    "\<forall>m<inode_counts (superblock fs). m \<noteq> p \<longrightarrow> m \<noteq> n \<longrightarrow> rinode fs d' m = rinode fs (vdisk s) m"
    "allocated (inode_bitmap fs) d' = allocated (inode_bitmap fs) (vdisk s)"
proof -
  note l = real_lookup_open [OF D k h]
  from remove_child_file [OF D n k] obtain d' where
    r: "remove_child fs (inode_new fs p) (inode_new fs n) name (vdisk s) = (Ok (), d')" "dir_ok fs d' I p"
      "entries fs d' p = drop_slot k (entries fs (vdisk s) p)"
      "rinode fs d' n = (rinode fs (vdisk s) n)\<lparr>i_nlink := i_nlink (rinode fs (vdisk s) n) - 1\<rparr>"
      "\<forall>m\<in>I. m \<noteq> p \<longrightarrow> file_content fs d' m = file_content fs (vdisk s) m"
      "\<forall>m<inode_counts (superblock fs). m \<noteq> p \<longrightarrow> m \<noteq> n \<longrightarrow> rinode fs d' m = rinode fs (vdisk s) m"
      "allocated (inode_bitmap fs) d' = allocated (inode_bitmap fs) (vdisk s)" by metis
  have "(inodes s)(n \<mapsto> Suc c) = inodes s" using h by auto
  then have "vfs_unlink fs p name s = (Ok (), s\<lparr>vdisk := d'\<rparr>)"
    using l r(1) n(2) by (simp add: vfs_unlink_def bind_def on_efs_def release_def lift_outcome_def)
  then show thesis using that r(2-) by blast
qed

section \<open>A concrete directory\<close>

text \<open>The root directory, inode 1, with one entry: the name \<open>a\<close> for the empty file with inode 2.\<close>

definition demo_dirent :: raw_dirent where
  "demo_dirent = \<lparr>de_ino = 2, de_typ = File, de_name_len = 1, de_name = 97 # replicate 63 0\<rparr>"

definition demo_root :: raw_inode where
  "demo_root = (fresh_inode Directory)\<lparr>i_size := 80, i_nlink := 1, direct_blk_ptrs := 12 # replicate 11 0\<rparr>"

definition demo_base :: disk where
  "demo_base = upd_disk_bit ((\<lambda>_. Some zero_block)(12 \<mapsto> wr_bytes zero_block 0 (dirent_encode demo_dirent))) 11 0 True"

definition demo_bits :: disk where
  "demo_bits = upd_disk_bit (upd_disk_bit (upd_disk_bit demo_base 2 0 True) 2 1 True) 2 2 True"

definition demo_dir :: disk where
  "demo_dir = put_inode demo_fs 1 demo_root (put_inode demo_fs 2 demo_inode demo_bits)"

lemma demo_bitmaps: "inode_bitmap demo_fs = bitmap_new 2 248" "data_bitmap demo_fs = bitmap_new 11 244"
  "start_blk_no (bitmap_new a n) = a" "data_start_bno demo_sb = 12"
  by (simp_all add: demo_fs_def efs_of_sb_def demo_sb_def sb_layout_defs bitmap_new_def efs_consts)

lemma demo_base_facts:
  "files_ok demo_fs demo_base {}" "used_blocks demo_fs demo_base = {12}" "allocated (inode_bitmap demo_fs) demo_base = {}"
  "demo_base 12 = Some (wr_bytes zero_block 0 (dirent_encode demo_dirent))"
proof -
  let ?z = "\<lambda>_. Some zero_block" and ?d0 = "(\<lambda>_. Some zero_block)(12 \<mapsto> wr_bytes zero_block 0 (dirent_encode demo_dirent))"
  have e: "end_blk_no (bitmap_new 2 248) = 3" "end_blk_no (bitmap_new 11 244) = 12"
    by (simp_all add: bitmap_new_def div_ceil_def bitmap_consts)
  have bi: "bitmap_ok (bitmap_new 2 248) ?d0" "allocated (bitmap_new 2 248) ?d0 = {}"
    using bitmap_cong [OF fresh_bitmap(1) [of 2 248], of ?d0] fresh_bitmap(2) [of 2 248] e(1) by auto
  have bd: "bitmap_ok (bitmap_new 11 244) ?d0" "allocated (bitmap_new 11 244) ?d0 = {}"
    using bitmap_cong [OF fresh_bitmap(1) [of 11 244], of ?d0] fresh_bitmap(2) [of 11 244] e(2) by (auto simp: demo_bitmaps)
  have b: "demo_base = upd_disk_bit ?d0 (start_blk_no (bitmap_new 11 244)) 0 True"
    by (simp add: demo_base_def demo_bitmaps)
  have bd': "bitmap_ok (bitmap_new 11 244) demo_base" "allocated (bitmap_new 11 244) demo_base = {0}"
    using bitmap_ok_upd [OF bd(1), of 0 True] allocated_upd [of 0 "bitmap_new 11 244" ?d0 True] bd(2) by (simp_all add: b)
  have fr: "demo_base c = ?d0 c" if "c \<noteq> 11" for c
    unfolding demo_base_def by (rule upd_disk_bit_frame) (use that in simp)
  have bi': "bitmap_ok (bitmap_new 2 248) demo_base" "allocated (bitmap_new 2 248) demo_base = {}"
    using bitmap_cong [OF bi(1), of demo_base] bi(2) fr e(1) by auto
  have "demo_base c \<noteq> None" for c by (simp add: demo_base_def upd_disk_bit_def)
  then show "files_ok demo_fs demo_base {}"
    using bd' bi' demo_layout(1) by (simp add: files_ok_def efs_ok_def demo_bitmaps)
  show "used_blocks demo_fs demo_base = {12}" "allocated (inode_bitmap demo_fs) demo_base = {}"
    using bd' bi' by (simp_all add: used_blocks_def demo_bitmaps demo_layout)
  show "demo_base 12 = Some (wr_bytes zero_block 0 (dirent_encode demo_dirent))" using fr [of 12] by simp
qed

lemma demo_bits_facts:
  "same_files demo_fs {} demo_base demo_bits" "allocated (inode_bitmap demo_fs) demo_bits = {0, 1, 2}"
  "demo_bits 12 = Some (wr_bytes zero_block 0 (dirent_encode demo_dirent))"
proof -
  let ?d1 = "upd_disk_bit demo_base 2 0 True" and ?d2 = "upd_disk_bit (upd_disk_bit demo_base 2 0 True) 2 1 True"
  have c: "n < inode_counts (superblock demo_fs)" if "n < 248" for n using that by (simp add: demo_layout)
  have st: "start_blk_no (inode_bitmap demo_fs) = 2" by (simp add: demo_bitmaps)
  note a = inode_bit_upd [OF demo_base_facts(1) c, of 0 True, unfolded st]
  note b = inode_bit_upd [OF same_filesD(1) [OF a(1)] c, of 1 True, unfolded st]
  note e = inode_bit_upd [OF same_filesD(1) [OF b(1)] c, of 2 True, unfolded st]
  show "same_files demo_fs {} demo_base demo_bits"
    using a(1) b(1) e(1) by (simp add: demo_bits_def same_files_def)
  show "allocated (inode_bitmap demo_fs) demo_bits = {0, 1, 2}"
    using a(2) b(2) e(2) demo_base_facts(3) by (simp add: demo_bits_def insert_commute)
  show "demo_bits 12 = Some (wr_bytes zero_block 0 (dirent_encode demo_dirent))"
    unfolding demo_bits_def using demo_base_facts(4) by (simp add: upd_disk_bit_frame bitmap_consts)
qed

lemma zero_inode: "raw_file_type (inode_decode (rd_bytes zero_block off 132)) = Unknown"
proof -
  have "rd_bytes zero_block off 132 = replicate 132 0" by (simp add: rd_bytes_def zero_block_def map_replicate_const)
  then show ?thesis by (simp add: inode_decode_def raw_file_type_def file_type_of_code_def le_nat_zeros take_replicate)
qed

lemma demo_free: "n < 248 \<Longrightarrow> raw_file_type (rinode demo_fs demo_bits n) = Unknown"
proof -
  assume n: "n < 248"
  then have b: "blk_no (inode_new demo_fs n) = 3 + n div 31" "n div 31 < 8"
    by (simp_all add: inode_new_def demo_layout demo_sb_def sb_layout_defs efs_consts)
  then have "demo_bits (blk_no (inode_new demo_fs n)) = Some zero_block"
    by (simp add: demo_bits_def demo_base_def upd_disk_bit_frame bitmap_consts)
  then show ?thesis using zero_inode by (simp add: rinode_def efs_consts)
qed

lemma demo_dirent_facts: "dirent_fits demo_dirent" "dirent_name demo_dirent = [97]" "\<not> is_unused demo_dirent" "de_ino demo_dirent = 2"
  by (simp_all add: demo_dirent_def dirent_fits_def dirent_name_def is_unused_def efs_consts)

lemma demo_root_facts: "inode_fits demo_root" "owned demo_root = {12}" "i_size demo_root = 80" "i_nlink demo_root = 1"
  "raw_file_type demo_root = Directory" "indirect_blk_ptr demo_root = 0" "double_indirect_blk_ptr demo_root = 0"
  by (auto simp: demo_root_def fresh_inode_def raw_inode_default_def inode_fits_def owned_def raw_file_type_def
      file_type_of_code_def efs_consts)

lemma demo_file_facts: "inode_fits demo_inode" "owned demo_inode = {}" "i_size demo_inode = 0" "i_nlink demo_inode = 1"
  "raw_file_type demo_inode = File" "indirect_blk_ptr demo_inode = 0" "double_indirect_blk_ptr demo_inode = 0"
  by (auto simp: demo_inode_def raw_inode_default_def inode_fits_def owned_def raw_file_type_def
      file_type_of_code_def efs_consts)

lemma demo_rinodes: "rinode demo_fs demo_dir 1 = demo_root" "rinode demo_fs demo_dir 2 = demo_inode"
  "n \<noteq> 1 \<Longrightarrow> n \<noteq> 2 \<Longrightarrow> rinode demo_fs demo_dir n = rinode demo_fs demo_bits n"
  unfolding demo_dir_def by (simp_all add: rinode_put demo_root_facts(1) demo_file_facts(1))

lemma demo_dir_bitmaps: "efs_ok demo_fs demo_dir" "used_blocks demo_fs demo_dir = {12}"
  "allocated (inode_bitmap demo_fs) demo_dir = {0, 1, 2}"
proof -
  have c: "2 < inode_counts (superblock demo_fs)" "1 < inode_counts (superblock demo_fs)" by (simp_all add: demo_layout)
  have ok: "efs_ok demo_fs demo_bits" using same_filesD(1) [OF demo_bits_facts(1)] by (rule files_okD(1))
  note a = put_inode_ok [OF ok c(1), of demo_inode]
  note b = put_inode_ok [OF a(1) c(2), of demo_root]
  show "efs_ok demo_fs demo_dir" unfolding demo_dir_def by (rule b(1))
  show "used_blocks demo_fs demo_dir = {12}" "allocated (inode_bitmap demo_fs) demo_dir = {0, 1, 2}"
    using a(2,3) b(2,3) same_filesD(2) [OF demo_bits_facts(1)] demo_base_facts(2) demo_bits_facts(2)
    by (simp_all add: demo_dir_def)
qed

lemma demo_dir_files: "files_ok demo_fs demo_dir {1, 2}"
proof -
  have ptr: "direct_blk_ptrs demo_root ! k = (if k = 0 then 12 else 0)" if "k < 12" for k
    using that by (simp add: demo_root_def nth_Cons split: nat.split)
  have z: "direct_blk_ptrs demo_inode ! k = 0" if "k < 12" for k
    using that by (simp add: demo_inode_def raw_inode_default_def efs_consts)
  have "small_ok demo_fs demo_dir demo_root"
    using demo_root_facts demo_dir_bitmaps(2) ptr
    by (auto simp: small_ok_def SMALL_SIZE_def efs_consts split: if_splits)
  moreover have "small_ok demo_fs demo_dir demo_inode"
    using demo_file_facts z by (simp add: small_ok_def efs_consts)
  ultimately show ?thesis
    using demo_dir_bitmaps(1) demo_rinodes(1,2) demo_file_facts(2) by (simp add: files_ok_def demo_layout del: One_nat_def)
qed

lemma demo_dir_content: "file_content demo_fs demo_dir 1 = dirent_encode demo_dirent" "file_content demo_fs demo_dir 2 = []"
proof -
  have le: "length (dirent_encode demo_dirent) = 80" by (rule length_dirent_encode [OF demo_dirent_facts(1)])
  have b: "demo_dir 12 = Some (wr_bytes zero_block 0 (dirent_encode demo_dirent))"
    using demo_bits_facts(3) by (simp add: demo_dir_def put_inode_def inode_new_def demo_layout demo_sb_def sb_layout_defs efs_consts)
  have "direct_blk_ptrs demo_root ! 0 = 12" by (simp add: demo_root_def)
  then have "file_byte demo_dir demo_root i = dirent_encode demo_dirent ! i" if "i < 80" for i
    using that b le by (simp add: file_byte_def wr_bytes_def efs_consts)
  then show "file_content demo_fs demo_dir 1 = dirent_encode demo_dirent"
    using le by (intro nth_equalityI) (simp_all add: file_content_def demo_rinodes demo_root_facts content_def del: One_nat_def)
  show "file_content demo_fs demo_dir 2 = []" by (simp add: file_content_def demo_rinodes demo_file_facts content_def)
qed

lemma demo_dir_entries: "entries demo_fs demo_dir 1 = [demo_dirent]"
  using dirent_decode_encode [OF demo_dirent_facts(1)] length_dirent_encode [OF demo_dirent_facts(1)]
  by (simp add: entries_def dents_def demo_dir_content [unfolded One_nat_def] upt_rec)

lemma demo_dir_ok: "dir_ok demo_fs demo_dir {1, 2} 1" "free_clean demo_fs demo_dir"
proof -
  have len: "length (dirent_encode demo_dirent) = 80" by (rule length_dirent_encode [OF demo_dirent_facts(1)])
  have e: "dents (dirent_encode demo_dirent) = [demo_dirent]" using demo_dir_entries by (simp add: entries_def demo_dir_content del: One_nat_def)
  have "dents_ok (dirent_encode demo_dirent)"
    using len demo_dirent_facts(1) by (simp add: dents_ok_def e dirent_fits_def efs_consts)
  then have "is_dir_at demo_fs demo_dir {1, 2} 1"
    using demo_dir_files by (simp add: is_dir_at_def demo_rinodes demo_root_facts demo_dir_content del: One_nat_def)
  then show "dir_ok demo_fs demo_dir {1, 2} 1"
    by (simp add: dir_ok_def demo_dir_bitmaps demo_dir_entries demo_rinodes demo_root_facts names_ok_def used_entries_def
        demo_dirent_facts efs_consts del: One_nat_def)
  show "free_clean demo_fs demo_dir"
    using demo_free demo_rinodes(3) by (auto simp: free_clean_def demo_dir_bitmaps demo_layout)
qed

section \<open>Properties\<close>





text \<open>C7: A deleted inode blocks creation. Deleting a file clears the bit of its inode and frees its blocks but leaves the type in the inode. If that inode is then the
  lowest free one, every later creation of a new name, in any directory of the disk, fails with \<open>FileSystemCorruption\<close>
  and leaves the bitmap and all files as they were, so that the next attempt fails in the same way.\<close>

theorem efs_deleted_inode_blocks_create:
  assumes "files_ok fs (vdisk s) I" "n \<in> I" "raw_file_type (rinode fs (vdisk s) n) \<noteq> Unknown"
    "indirect_blk_ptr (rinode fs (vdisk s) n) = 0" "double_indirect_blk_ptr (rinode fs (vdisk s) n) = 0"
    "delete_inode_from_disk fs n s = (r, s')" "\<forall>k<n. \<not> free_inode fs (vdisk s') k"
    "dir_ok fs (vdisk s') J p" "lookup (inode_new fs p) name (vdisk s') = (Ok None, vdisk s')"
  shows "r = Ok () \<and> (\<exists>d'. create_file fs (inode_new fs p) name (vdisk s') = (Err FileSystemCorruption, d') \<and>
    allocated (inode_bitmap fs) d' = allocated (inode_bitmap fs) (vdisk s') \<and> same_files fs J (vdisk s') d')"
proof -
  from delete_inode_eq [OF assms(1,2,4,5)] obtain d' where
    e: "delete_inode_from_disk fs n s = (Ok (), s\<lparr>vdisk := d', inodes := (inodes s)(n := None)\<rparr>)"
      "raw_file_type (rinode fs d' n) = raw_file_type (rinode fs (vdisk s) n)"
      "allocated (inode_bitmap fs) d' = allocated (inode_bitmap fs) (vdisk s) - {n}" by metis
  have s': "vdisk s' = d'" "r = Ok ()" using e(1) assms(6) by auto
  have fr: "free_inode fs (vdisk s') n" using e(3) s'(1) files_okD(3) [OF assms(1,2)] by simp
  have new: "find (named name) (entries fs (vdisk s') p) = None"
    using lookup_eq [OF dir_okD(1) [OF assms(8)], of name] assms(9) by simp
  have ty: "raw_file_type (rinode fs (vdisk s') n) \<noteq> Unknown" using e(2) s'(1) assms(3) by simp
  from create_file_poisoned [OF assms(8) fr assms(7) ty new] show ?thesis using s'(2) by metis
qed

theorem efs_deleted_inode_blocks_create_witness:
  "\<exists>s' d'. delete_inode_from_disk demo_fs 2 \<lparr>vdisk = demo_dir, inodes = Map.empty\<rparr> = (Ok (), s') \<and>
     create_file demo_fs (inode_new demo_fs 1) [98] (vdisk s') = (Err FileSystemCorruption, d')"
proof -
  let ?s = "\<lparr>vdisk = demo_dir, inodes = Map.empty\<rparr>"
  have F: "files_ok demo_fs (vdisk ?s) {1, 2}" using demo_dir_files by simp
  have n: "raw_file_type (rinode demo_fs (vdisk ?s) 2) \<noteq> Unknown" "indirect_blk_ptr (rinode demo_fs (vdisk ?s) 2) = 0"
    "double_indirect_blk_ptr (rinode demo_fs (vdisk ?s) 2) = 0" by (simp_all add: demo_rinodes(2) demo_file_facts)
  have n2: "2 \<in> {1, 2::nat}" by simp
  obtain d' where
    e: "delete_inode_from_disk demo_fs 2 ?s = (Ok (), ?s\<lparr>vdisk := d', inodes := (inodes ?s)(2 := None)\<rparr>)" "files_ok demo_fs d' {1, 2}"
      "\<forall>m\<in>{1, 2}. m \<noteq> 2 \<longrightarrow> file_content demo_fs d' m = file_content demo_fs demo_dir m"
      "\<forall>m<inode_counts (superblock demo_fs). m \<noteq> 2 \<longrightarrow> rinode demo_fs d' m = rinode demo_fs demo_dir m"
      "allocated (inode_bitmap demo_fs) d' = {0, 1, 2} - {2}"
    by (rule delete_inode_eq [OF F n2 n(2,3)]) (rule that, simp_all add: demo_dir_bitmaps)
  let ?s' = "?s\<lparr>vdisk := d', inodes := (inodes ?s)(2 := None)\<rparr>"
  have r: "rinode demo_fs d' 1 = rinode demo_fs demo_dir 1" "file_content demo_fs d' 1 = file_content demo_fs demo_dir 1"
    using e(3,4) by (simp_all add: demo_layout)
  have F1: "files_ok demo_fs d' {1}" by (rule files_subset [OF e(2)]) simp
  note dm = dir_okD [OF demo_dir_ok(1)]
  have D: "is_dir_at demo_fs d' {1} 1" "entries demo_fs d' 1 = [demo_dirent]"
    using is_dir_frame [OF dm(1) F1 _ r] demo_dir_entries by auto
  have ok: "dir_ok demo_fs (vdisk ?s') {1} 1"
    using D dm(7,8,10,11) r(1) e(5) demo_dir_entries by (simp add: dir_ok_def efs_consts del: One_nat_def)
  have "lookup (inode_new demo_fs 1) [98] (vdisk ?s') = (Ok None, vdisk ?s')"
    using lookup_eq [OF D(1), of "[98]"] D(2) by (simp add: named_def demo_dirent_facts del: One_nat_def)
  moreover have "\<forall>k<2. \<not> free_inode demo_fs (vdisk ?s') k" using e(5) by (auto simp: less_Suc_eq numeral_2_eq_2)
  ultimately show ?thesis
    using efs_deleted_inode_blocks_create [OF F n2 n e(1) _ ok] e(1) by blast
qed

end
