(* ===== verification/Rw_Linked.thy ===== *)
theory Rw_Linked
  imports Rw_Prelude
begin

text \<open>
  The interface of the linked lists that the kernel takes from the crate \<open>intrusive_collections\<close>. The crate is not part of
  the repository, so the operations are a parameter of the components that use them (a record of functions on an
  unspecified type of lists), and the locale states their documented behaviour by the sequence of elements.
\<close>

record ('l, 'a) linked_list =
  ll_new :: 'l
  ll_push_front :: "'a \<Rightarrow> 'l \<Rightarrow> 'l"
  ll_push_back :: "'a \<Rightarrow> 'l \<Rightarrow> 'l"
  ll_front :: "'l \<Rightarrow> 'a option"
  ll_pop_front :: "'l \<Rightarrow> ('a \<times> 'l) option"
  ll_pop_back :: "'l \<Rightarrow> ('a \<times> 'l) option"
  ll_remove :: "'a \<Rightarrow> 'l \<Rightarrow> 'l"

locale linked_list_laws =
  fixes L :: "('l, 'a) linked_list"
    and items :: "'l \<Rightarrow> 'a list"
  assumes items_new [simp]: "items (ll_new L) = []"
    and items_push_front [simp]: "items (ll_push_front L a l) = a # items l"
    and items_push_back [simp]: "items (ll_push_back L a l) = items l @ [a]"
    and front_items: "ll_front L l = (case items l of [] \<Rightarrow> None | a # as \<Rightarrow> Some a)"
    and pop_front_None: "ll_pop_front L l = None \<longleftrightarrow> items l = []"
    and pop_front_Some: "ll_pop_front L l = Some (a, l') \<Longrightarrow> items l = a # items l'"
    and pop_back_None: "ll_pop_back L l = None \<longleftrightarrow> items l = []"
    and pop_back_Some: "ll_pop_back L l = Some (a, l') \<Longrightarrow> items l = items l' @ [a]"
    and items_remove: "a \<in> set (items l) \<Longrightarrow> items (ll_remove L a l) = remove1 a (items l)"
begin

lemma pop_front_Cons:
  assumes "items l = a # as"
  obtains l' where "ll_pop_front L l = Some (a, l')" "items l' = as"
proof -
  have "ll_pop_front L l \<noteq> None" using assms pop_front_None by simp
  then obtain b l' where p: "ll_pop_front L l = Some (b, l')" by fastforce
  then show thesis using that pop_front_Some [OF p] assms by simp
qed

lemma pop_back_snoc:
  assumes "items l = as @ [a]"
  obtains l' where "ll_pop_back L l = Some (a, l')" "items l' = as"
proof -
  have "ll_pop_back L l \<noteq> None" using assms pop_back_None by simp
  then obtain b l' where p: "ll_pop_back L l = Some (b, l')" by fastforce
  then show thesis using that pop_back_Some [OF p] assms by simp
qed

end

text \<open>The laws can be met: lists of HOL themselves.\<close>

definition hol_list :: "('a list, 'a) linked_list" where
  "hol_list =
     \<lparr>ll_new = [], ll_push_front = (#), ll_push_back = (\<lambda>a l. l @ [a]),
      ll_front = (\<lambda>l. case l of [] \<Rightarrow> None | a # as \<Rightarrow> Some a),
      ll_pop_front = (\<lambda>l. case l of [] \<Rightarrow> None | a # as \<Rightarrow> Some (a, as)),
      ll_pop_back = (\<lambda>l. if l = [] then None else Some (last l, butlast l)),
      ll_remove = remove1\<rparr>"

interpretation hl: linked_list_laws hol_list "\<lambda>l. l"
  by unfold_locales (auto simp: hol_list_def split: list.splits if_splits)

end
