(* ===== verification/Rw_Buddy.thy ===== *)
theory Rw_Buddy
  imports Rw_Linked
begin

unbundle bit_operations_syntax

text \<open>
  The buddy allocator of physical page frames (src/kernel/src/mmu/buddy.rs, with the page descriptors of
  mmu/types.rs): free lists per order, splitting, merging, and the per-CPU cache of single pages. The
  invariant says that the free blocks are aligned and disjoint, that the descriptor flags agree with the lists,
  and that no two free buddies are left unmerged.
\<close>

section \<open>Page descriptors\<close>

definition PGSIZE :: nat where "PGSIZE = 4096"
definition DIRECT_MAPPING_BASE_VADDR :: nat where "DIRECT_MAPPING_BASE_VADDR = 0xD0000000"
definition DIRECT_MAPPING_SIZE :: nat where "DIRECT_MAPPING_SIZE = 128 * 1024 * 1024"
definition DIRECT_MAPPING_END_VADDR :: nat where "DIRECT_MAPPING_END_VADDR = DIRECT_MAPPING_BASE_VADDR + DIRECT_MAPPING_SIZE"

text \<open>The part of \<open>Page\<close> that the allocator uses: the flag byte (bit 7: free, bits 0 to 6: order) and
  whether the list link is in some list.\<close>

record page =
  buddy_flags :: u8
  linked :: bool

definition page_new :: page where
  "page_new = \<lparr>buddy_flags = 0, linked = False\<rparr>"

definition is_free :: "page \<Rightarrow> bool" where
  "is_free p = (buddy_flags p AND push_bit 7 1 \<noteq> 0)"

definition set_free :: "page \<Rightarrow> page" where
  "set_free p = p\<lparr>buddy_flags := buddy_flags p OR push_bit 7 1\<rparr>"

definition clear_free :: "page \<Rightarrow> page" where
  "clear_free p = p\<lparr>buddy_flags := buddy_flags p AND NOT (push_bit 7 1)\<rparr>"

definition pgf_order :: "page \<Rightarrow> u8" where
  "pgf_order p = buddy_flags p AND NOT (push_bit 7 1)"

definition set_pgf_order :: "u8 \<Rightarrow> page \<Rightarrow> page" where
  "set_pgf_order k p = p\<lparr>buddy_flags := (buddy_flags p AND push_bit 7 1) OR k\<rparr>"

section \<open>The allocator\<close>

definition MAX_ORDER :: nat where "MAX_ORDER = 9"
definition PAGE_CACHE_LIST_LIMIT :: nat where "PAGE_CACHE_LIST_LIMIT = 64"
definition PAGE_CACHE_LIST_BATCHCOUNT :: nat where "PAGE_CACHE_LIST_BATCHCOUNT = 16"

record 'l free_area =
  fa_list :: 'l
  nr_free :: nat

text \<open>\<open>BuddyAllocatorImpl\<close> together with the page descriptors, by physical address of the page.\<close>

record 'l buddy =
  pages :: "nat \<Rightarrow> page"
  free_areas :: "'l free_area list"
  free_size :: nat
  start_address :: nat

text \<open>Calls into the allocator never return an error; \<open>OutOfFuel\<close> marks a recursion that was cut off.\<close>

datatype out_of_fuel = OutOfFuel

type_synonym ('l, 'a) buddy_call = "('l buddy, out_of_fuel, 'a) call"

definition block_size :: "nat \<Rightarrow> nat" where
  "block_size order = PGSIZE * 2 ^ order"

text \<open>\<open>size.div_ceil(PGSIZE).next_power_of_two().trailing_zeros()\<close>: the exponent of the power of two.\<close>

fun log2_ceil :: "nat \<Rightarrow> nat" where
  "log2_ceil n = (if n \<le> 1 then 0 else Suc (log2_ceil ((n + 1) div 2)))"

declare log2_ceil.simps [simp del]

definition find_order :: "nat \<Rightarrow> nat" where
  "find_order sz = log2_ceil (div_ceil sz PGSIZE)"

text \<open>\<open>paddr_to_page\<close>: the index into \<open>PAGES\<close> is checked, the address must be page aligned.\<close>

definition paddr_to_page :: "nat \<Rightarrow> ('s, out_of_fuel, nat) call" where
  "paddr_to_page a =
     (if a mod PGSIZE = 0 \<and> DIRECT_MAPPING_BASE_VADDR \<le> a \<and> a < DIRECT_MAPPING_END_VADDR then ret a else panic)"

definition upd_page :: "nat \<Rightarrow> (page \<Rightarrow> page) \<Rightarrow> ('l, unit) buddy_call" where
  "upd_page a f = (\<lambda>s. (Ok (), s\<lparr>pages := (pages s)(a := f (pages s a))\<rparr>))"

definition set_area :: "nat \<Rightarrow> 'l free_area \<Rightarrow> 'l buddy \<Rightarrow> 'l buddy" where
  "set_area order fa s = s\<lparr>free_areas := (free_areas s)[order := fa]\<rparr>"

subsection \<open>Free areas\<close>

definition fa_push_front :: "('l, nat) linked_list \<Rightarrow> nat \<Rightarrow> nat \<Rightarrow> ('l, unit) buddy_call" where
  "fa_push_front L order a = (\<lambda>s.
     let p = pages s a; fa = free_areas s ! order in
     if is_free p \<or> linked p then (Panic, s)
     else (Ok (), set_area order (fa\<lparr>fa_list := ll_push_front L a (fa_list fa), nr_free := nr_free fa + 1\<rparr>)
            (s\<lparr>pages := (pages s)(a := (set_free p)\<lparr>linked := True\<rparr>)\<rparr>)))"

definition fa_pop_front :: "('l, nat) linked_list \<Rightarrow> nat \<Rightarrow> ('l, nat option) buddy_call" where
  "fa_pop_front L order = (\<lambda>s.
     let fa = free_areas s ! order in
     case ll_pop_front L (fa_list fa) of
       None \<Rightarrow> (Ok None, s)
     | Some (a, l) \<Rightarrow>
         if \<not> is_free (pages s a) \<or> nr_free fa = 0 then (Panic, s)
         else (Ok (Some a), set_area order (fa\<lparr>fa_list := l, nr_free := nr_free fa - 1\<rparr>)
                (s\<lparr>pages := (pages s)(a := (clear_free (pages s a))\<lparr>linked := False\<rparr>)\<rparr>)))"

definition fa_expand :: "('l, nat) linked_list \<Rightarrow> nat \<Rightarrow> ('l, (nat \<times> nat) option) buddy_call" where
  "fa_expand L order = bind (assert_that (order \<noteq> 0)) (\<lambda>_. bind (fa_pop_front L order) (\<lambda>x.
     case x of
       None \<Rightarrow> ret None
     | Some pgf \<Rightarrow>
         bind (paddr_to_page (pgf + 2 ^ (order + 12) div 2)) (\<lambda>pgf2.
         bind (upd_page pgf clear_free) (\<lambda>_.
         bind (upd_page pgf2 clear_free) (\<lambda>_.
           ret (Some (pgf, pgf2)))))))"

definition get_buddy_addr :: "nat \<Rightarrow> nat \<Rightarrow> nat \<Rightarrow> nat" where
  "get_buddy_addr start addr order = ((addr - start) XOR 2 ^ (order + 12)) + start"

definition unlink_page :: "('l, nat) linked_list \<Rightarrow> nat \<Rightarrow> nat \<Rightarrow> ('l, unit) buddy_call" where
  "unlink_page L order a = (\<lambda>s.
     let fa = free_areas s ! order in
     (Ok (), set_area order (fa\<lparr>fa_list := ll_remove L a (fa_list fa)\<rparr>)
        (s\<lparr>pages := (pages s)(a := (pages s a)\<lparr>linked := False\<rparr>)\<rparr>)))"

definition fa_sub_nr_free :: "nat \<Rightarrow> nat \<Rightarrow> ('l, unit) buddy_call" where
  "fa_sub_nr_free order k = (\<lambda>s.
     let fa = free_areas s ! order in
     if nr_free fa < k then (Panic, s) else (Ok (), set_area order (fa\<lparr>nr_free := nr_free fa - k\<rparr>) s))"

definition fa_merge :: "('l, nat) linked_list \<Rightarrow> nat \<Rightarrow> nat \<Rightarrow> ('l, nat option) buddy_call" where
  "fa_merge L start order = (\<lambda>s.
     case ll_front L (fa_list (free_areas s ! order)) of
       None \<Rightarrow> (Ok None, s)
     | Some head_addr \<Rightarrow>
         bind (paddr_to_page (get_buddy_addr start head_addr order)) (\<lambda>buddy_pgf s.
           if pgf_order (pages s buddy_pgf) \<noteq> of_nat order \<or> \<not> is_free (pages s buddy_pgf) then (Ok None, s)
           else
             bind (paddr_to_page head_addr) (\<lambda>pgf1.
             bind (unlink_page L order pgf1) (\<lambda>_.
             bind (unlink_page L order buddy_pgf) (\<lambda>_.
             bind (fa_sub_nr_free order 2) (\<lambda>_.
             bind (upd_page pgf1 clear_free) (\<lambda>_.
             bind (upd_page buddy_pgf clear_free) (\<lambda>_.
               ret (Some (if pgf1 < buddy_pgf then pgf1 else buddy_pgf)))))))) s) s)"

definition fa_is_empty :: "('l, nat) linked_list \<Rightarrow> nat \<Rightarrow> 'l buddy \<Rightarrow> bool" where
  "fa_is_empty L order s = (ll_front L (fa_list (free_areas s ! order)) = None)"

subsection \<open>Splitting, merging, allocating and freeing\<close>

text \<open>\<open>expand\<close>: the loop and the recursion both take a unit of fuel.\<close>

fun expand :: "('l, nat) linked_list \<Rightarrow> nat \<Rightarrow> nat \<Rightarrow> ('l, bool) buddy_call" where
  "expand L 0 order s = (Err OutOfFuel, s)"
| "expand L (Suc fuel) order s =
     (if order = 0 then (Panic, s)
      else if length (free_areas s) \<le> order then (Ok False, s)
      else bind (fa_expand L order) (\<lambda>x s.
        case x of
          Some (block1, block2) \<Rightarrow>
            bind (upd_page block1 (set_pgf_order (of_nat order - 1))) (\<lambda>_.
            bind (upd_page block2 (set_pgf_order (of_nat order - 1))) (\<lambda>_.
            bind (fa_push_front L (order - 1) block2) (\<lambda>_.
            bind (fa_push_front L (order - 1) block1) (\<lambda>_.
              ret True)))) s
        | None \<Rightarrow>
            bind (expand L fuel (order + 1)) (\<lambda>ok s.
              if ok then expand L fuel order s else (Ok False, s)) s) s)"

text \<open>The fuel that the recursion over the orders needs at most.\<close>

abbreviation expand_fuel :: nat where
  "expand_fuel \<equiv> 10"

definition sub_free_size :: "nat \<Rightarrow> ('l, unit) buddy_call" where
  "sub_free_size k = (\<lambda>s. if free_size s < k then (Panic, s) else (Ok (), s\<lparr>free_size := free_size s - k\<rparr>))"

definition alloc_by_order :: "('l, nat) linked_list \<Rightarrow> nat \<Rightarrow> ('l, nat option) buddy_call" where
  "alloc_by_order L order = (\<lambda>s.
     if length (free_areas s) \<le> order then (Ok None, s)
     else
       bind (if fa_is_empty L order s then expand L expand_fuel (order + 1) else ret True) (\<lambda>ok.
         if \<not> ok then ret None
         else bind (fa_pop_front L order) (\<lambda>x.
           case x of
             None \<Rightarrow> panic
           | Some pgf \<Rightarrow>
               bind (sub_free_size (block_size order)) (\<lambda>_ s.
               bind (assert_that (\<not> is_free (pages s pgf) \<and> \<not> linked (pages s pgf))) (\<lambda>_.
                 ret (Some pgf)) s))) s)"

fun merge_loop :: "('l, nat) linked_list \<Rightarrow> nat list \<Rightarrow> ('l, unit) buddy_call" where
  "merge_loop L [] s = (Ok (), s)"
| "merge_loop L (order # orders) s =
     bind (fa_merge L (start_address s) order) (\<lambda>x s.
       case x of
         None \<Rightarrow> (Ok (), s)
       | Some pgf \<Rightarrow>
           bind (upd_page pgf (set_pgf_order (of_nat order + 1))) (\<lambda>_.
           bind (fa_push_front L (order + 1) pgf) (\<lambda>_. merge_loop L orders)) s) s"

definition merge :: "('l, nat) linked_list \<Rightarrow> nat \<Rightarrow> ('l, unit) buddy_call" where
  "merge L order = (\<lambda>s. merge_loop L [order..<length (free_areas s) - 1] s)"

definition free_by_order :: "('l, nat) linked_list \<Rightarrow> nat \<Rightarrow> nat \<Rightarrow> ('l, unit) buddy_call" where
  "free_by_order L a order = (\<lambda>s.
     if length (free_areas s) \<le> order then (Panic, s)
     else
       bind (paddr_to_page a) (\<lambda>pgf s.
       bind (assert_that (\<not> is_free (pages s pgf) \<and> \<not> linked (pages s pgf))) (\<lambda>_.
       bind (upd_page pgf (set_pgf_order (of_nat order))) (\<lambda>_.
       bind (fa_push_front L order pgf) (\<lambda>_ s.
         merge L order (s\<lparr>free_size := free_size s + block_size order\<rparr>)))) s) s)"

subsection \<open>Initialisation\<close>

definition buddy_default :: "('l, nat) linked_list \<Rightarrow> (nat \<Rightarrow> page) \<Rightarrow> 'l buddy" where
  "buddy_default L ps =
     \<lparr>pages = ps, free_areas = replicate MAX_ORDER \<lparr>fa_list = ll_new L, nr_free = 0\<rparr>, free_size = 0, start_address = 0\<rparr>"

lemma block_size_pos [simp]: "0 < block_size order"
  by (simp add: block_size_def PGSIZE_def)

lemma block_step: "addr + block_size order \<le> e \<Longrightarrow> e - (addr + block_size order) < e - addr"
  using block_size_pos [of order] by linarith

function init_order :: "('l, nat) linked_list \<Rightarrow> nat \<Rightarrow> nat \<Rightarrow> nat \<Rightarrow> ('l, nat) buddy_call" where
  "init_order L order addr end_addr s =
     (if addr + block_size order \<le> end_addr then
        bind (paddr_to_page addr) (\<lambda>pg.
        bind (upd_page pg (set_pgf_order (of_nat order))) (\<lambda>_.
        bind (fa_push_front L order pg) (\<lambda>_ s.
          init_order L order (addr + block_size order) end_addr s))) s
      else (Ok addr, s))"
  by pat_completeness auto
termination
  by (relation "measure (\<lambda>(L, order, addr, end_addr, s). end_addr - addr)") (auto simp: block_step)

declare init_order.simps [simp del]

fun init_orders :: "('l, nat) linked_list \<Rightarrow> nat list \<Rightarrow> nat \<Rightarrow> nat \<Rightarrow> ('l, unit) buddy_call" where
  "init_orders L [] addr end_addr s = (Ok (), s)"
| "init_orders L (order # orders) addr end_addr s =
     bind (init_order L order addr end_addr) (\<lambda>addr' s.
       init_orders L orders addr' end_addr (s\<lparr>free_size := free_size s + (addr' - addr)\<rparr>)) s"

definition buddy_init :: "('l, nat) linked_list \<Rightarrow> nat \<Rightarrow> nat \<Rightarrow> ('l, unit) buddy_call" where
  "buddy_init L base_addr end_addr = (\<lambda>s.
     init_orders L (rev [0..<MAX_ORDER]) base_addr end_addr (s\<lparr>start_address := base_addr\<rparr>))"

subsection \<open>The per-CPU cache of pages\<close>

record 'l page_cache =
  cache_list :: 'l
  cache_list_len :: nat

record 'l mm =
  allocator :: "'l buddy"
  caches :: "nat \<Rightarrow> 'l page_cache"

type_synonym ('l, 'a) mm_call = "('l mm, out_of_fuel, 'a) call"

definition on_buddy :: "('l, 'a) buddy_call \<Rightarrow> ('l, 'a) mm_call" where
  "on_buddy c = (\<lambda>s. case c (allocator s) of (r, b) \<Rightarrow> (r, s\<lparr>allocator := b\<rparr>))"

text \<open>Linking a page into the cache of a CPU; the list refuses a page that is linked already.\<close>

definition cache_push_front :: "('l, nat) linked_list \<Rightarrow> nat \<Rightarrow> nat \<Rightarrow> ('l, unit) mm_call" where
  "cache_push_front L cpu a = (\<lambda>s.
     let c = caches s cpu; p = pages (allocator s) a in
     if linked p then (Panic, s)
     else (Ok (), s\<lparr>allocator := (allocator s)\<lparr>pages := (pages (allocator s))(a := p\<lparr>linked := True\<rparr>)\<rparr>,
                    caches := (caches s)(cpu := c\<lparr>cache_list := ll_push_front L a (cache_list c),
                                                  cache_list_len := cache_list_len c + 1\<rparr>)\<rparr>))"

definition cache_take :: "nat \<Rightarrow> nat \<Rightarrow> 'l \<Rightarrow> ('l, unit) mm_call" where
  "cache_take cpu a l = (\<lambda>s.
     let c = caches s cpu; p = pages (allocator s) a in
     if cache_list_len c = 0 then (Panic, s)
     else (Ok (), s\<lparr>allocator := (allocator s)\<lparr>pages := (pages (allocator s))(a := p\<lparr>linked := False\<rparr>)\<rparr>,
                    caches := (caches s)(cpu := c\<lparr>cache_list := l, cache_list_len := cache_list_len c - 1\<rparr>)\<rparr>))"

fun refill :: "('l, nat) linked_list \<Rightarrow> nat \<Rightarrow> nat \<Rightarrow> ('l, unit) mm_call" where
  "refill L cpu 0 s = (Ok (), s)"
| "refill L cpu (Suc k) s =
     bind (on_buddy (alloc_by_order L 0)) (\<lambda>x s.
       case x of
         None \<Rightarrow> (Ok (), s)
       | Some pg_ptr \<Rightarrow>
           bind (paddr_to_page pg_ptr) (\<lambda>pg.
           bind (cache_push_front L cpu pg) (\<lambda>_. refill L cpu k)) s) s"

text \<open>\<open>PageCacheList::alloc_page\<close> calls itself after a refill that brought pages.\<close>

fun cache_alloc_page :: "('l, nat) linked_list \<Rightarrow> nat \<Rightarrow> nat \<Rightarrow> ('l, nat option) mm_call" where
  "cache_alloc_page L cpu 0 s = (Err OutOfFuel, s)"
| "cache_alloc_page L cpu (Suc fuel) s =
     (case ll_pop_front L (cache_list (caches s cpu)) of
        Some (page, l) \<Rightarrow> bind (cache_take cpu page l) (\<lambda>_. ret (Some page)) s
      | None \<Rightarrow>
          (let old_len = cache_list_len (caches s cpu) in
           bind (refill L cpu PAGE_CACHE_LIST_BATCHCOUNT) (\<lambda>_ s.
             if old_len \<noteq> cache_list_len (caches s cpu) then cache_alloc_page L cpu fuel s
             else (Ok None, s)) s))"

fun drain :: "('l, nat) linked_list \<Rightarrow> nat \<Rightarrow> nat \<Rightarrow> ('l, unit) mm_call" where
  "drain L cpu 0 s = (Ok (), s)"
| "drain L cpu (Suc k) s =
     (case ll_pop_back L (cache_list (caches s cpu)) of
        None \<Rightarrow> (Panic, s)
      | Some (pg, l) \<Rightarrow>
          bind (cache_take cpu pg l) (\<lambda>_.
          bind (on_buddy (free_by_order L pg 0)) (\<lambda>_. drain L cpu k)) s)"

definition cache_dealloc_page :: "('l, nat) linked_list \<Rightarrow> nat \<Rightarrow> nat \<Rightarrow> ('l, unit) mm_call" where
  "cache_dealloc_page L cpu a =
     bind (paddr_to_page a) (\<lambda>pg.
     bind (cache_push_front L cpu pg) (\<lambda>_ s.
       if cache_list_len (caches s cpu) < PAGE_CACHE_LIST_LIMIT then (Ok (), s)
       else drain L cpu PAGE_CACHE_LIST_BATCHCOUNT s))"

definition mm_alloc_by_order :: "('l, nat) linked_list \<Rightarrow> nat \<Rightarrow> nat \<Rightarrow> ('l, nat option) mm_call" where
  "mm_alloc_by_order L cpu order =
     bind (assert_that (order < MAX_ORDER)) (\<lambda>_.
       if order = 0 then cache_alloc_page L cpu 2 else on_buddy (alloc_by_order L order))"

definition mm_free_by_order :: "('l, nat) linked_list \<Rightarrow> nat \<Rightarrow> nat \<Rightarrow> nat \<Rightarrow> ('l, unit) mm_call" where
  "mm_free_by_order L cpu a order =
     bind (assert_that (order < MAX_ORDER)) (\<lambda>_.
       if order = 0 then cache_dealloc_page L cpu a else on_buddy (free_by_order L a order))"

definition alloc_page :: "('l, nat) linked_list \<Rightarrow> nat \<Rightarrow> ('l, nat option) mm_call" where
  "alloc_page L cpu = mm_alloc_by_order L cpu 0"

definition free_page :: "('l, nat) linked_list \<Rightarrow> nat \<Rightarrow> nat \<Rightarrow> ('l, unit) mm_call" where
  "free_page L cpu a = mm_free_by_order L cpu a 0"

text \<open>\<open>BuddyAlloc\<close> as an \<open>Allocator\<close>: the order is computed from the layout's size.\<close>

definition buddy_allocate :: "('l, nat) linked_list \<Rightarrow> nat \<Rightarrow> nat \<Rightarrow> ('l, nat option) mm_call" where
  "buddy_allocate L cpu sz = mm_alloc_by_order L cpu (find_order sz)"

definition buddy_deallocate :: "('l, nat) linked_list \<Rightarrow> nat \<Rightarrow> nat \<Rightarrow> nat \<Rightarrow> ('l, unit) mm_call" where
  "buddy_deallocate L cpu a sz = mm_free_by_order L cpu a (find_order sz)"

end
