(* ===== verification/Rw_Kernel.thy ===== *)
theory Rw_Kernel
  imports Rw_Vfs Rw_Buddy
begin

text \<open>
  What every part of the kernel shares: the kinds of system error (src/common/syserr), the constants of the
  memory layout (src/kernel/src/arch/riscv64/memlayout.rs), page alignment (src/kernel/src/mmu/mod.rs and types.rs), and the
  error type of kernel calls.
\<close>

unbundle bit_operations_syntax

section \<open>System errors\<close>

text \<open>The discriminants of the \<open>repr(u32)\<close> enum: the first variant is 1, the others count up.\<close>

definition all_error_kinds :: "sys_error_kind list" where
  "all_error_kinds =
     [SysNotPermitted, SysOutOfMemory, SysNoSys, SysNoSuchProcess, SysInterrupted, SysIOError, SysAlreadyExists, SysBadFileDescriptor, SysFileTooLarge,
      SysFileNameTooLong, SysNoSuchFileOrDirectory, SysIsADirectory, SysNotADirectory, SysNotEmpty, SysPermissionDenied, SysTooManyOpenFiles,
      SysNoSpaceLeft, SysNoSuchDev, SysNoExec, SysPipe, SysExDev, SysBadFs, SysNoTty, SysInvalidArgument, SysUnsupported, SysInvalidData, SysExecFormat, SysFault,
      SysInvalidUt8Str, SysTooManyTasks]"

fun position_of :: "'a \<Rightarrow> 'a list \<Rightarrow> nat" where
  "position_of x [] = 0"
| "position_of x (y # ys) = (if x = y then 0 else Suc (position_of x ys))"

definition errno :: "sys_error_kind \<Rightarrow> nat" where
  "errno k = Suc (position_of k all_error_kinds)"

text \<open>\<open>TryFromPrimitive\<close>, as user space reads an error number back.\<close>

definition error_kind_of_nat :: "nat \<Rightarrow> sys_error_kind option" where
  "error_kind_of_nat n = (if 1 \<le> n \<and> n \<le> length all_error_kinds then Some (all_error_kinds ! (n - 1)) else None)"

lemma all_error_kinds_complete: "k \<in> set all_error_kinds"
  by (cases k) (simp_all add: all_error_kinds_def)

lemma position_of_nth: "x \<in> set xs \<Longrightarrow> position_of x xs < length xs \<and> xs ! position_of x xs = x"
  by (induction xs) auto

lemma errno_roundtrip: "error_kind_of_nat (errno k) = Some k"
  using position_of_nth [OF all_error_kinds_complete [of k]] by (simp add: error_kind_of_nat_def errno_def)

text \<open>\<open>Display\<close> of an error kind.\<close>

fun sys_error_message :: "sys_error_kind \<Rightarrow> string" where
  "sys_error_message SysNotPermitted = ''operation not permitted''"
| "sys_error_message SysOutOfMemory = ''out of memory''"
| "sys_error_message SysNoSys = ''unknown system call number''"
| "sys_error_message SysNoSuchProcess = ''no such process''"
| "sys_error_message SysInterrupted = ''interrupted system call''"
| "sys_error_message SysIOError = ''io error''"
| "sys_error_message SysAlreadyExists = ''already exists''"
| "sys_error_message SysBadFileDescriptor = ''bad file descriptor''"
| "sys_error_message SysFileTooLarge = ''file too large''"
| "sys_error_message SysFileNameTooLong = ''file name too long''"
| "sys_error_message SysNoSuchFileOrDirectory = ''no such file or directory''"
| "sys_error_message SysIsADirectory = ''is a directory''"
| "sys_error_message SysNotADirectory = ''not a directory''"
| "sys_error_message SysNotEmpty = ''not empty''"
| "sys_error_message SysPermissionDenied = ''Permission denied''"
| "sys_error_message SysTooManyOpenFiles = ''too many open files''"
| "sys_error_message SysNoSpaceLeft = ''no space left on device''"
| "sys_error_message SysNoSuchDev = ''no such device''"
| "sys_error_message SysNoExec = ''not an executable file''"
| "sys_error_message SysPipe = ''pipe error''"
| "sys_error_message SysExDev = ''invalid cross-device link''"
| "sys_error_message SysBadFs = ''bad file system''"
| "sys_error_message SysInvalidArgument = ''invalid argument''"
| "sys_error_message SysUnsupported = ''Unsupported''"
| "sys_error_message SysInvalidData = ''invalid data''"
| "sys_error_message SysExecFormat = ''executable format error''"
| "sys_error_message SysNoTty = ''inappropriate ioctl for device''"
| "sys_error_message SysFault = ''address fault''"
| "sys_error_message SysInvalidUt8Str = ''invalid ut8 string''"
| "sys_error_message SysTooManyTasks = ''too many tasks''"

text \<open>An error of a kernel call; \<open>NoFuel\<close> marks a run of the model that its fuel did not cover.\<close>

datatype kerror = SysErr sys_error_kind | NoFuel

definition attempt :: "('s, kerror, 'a) call \<Rightarrow> ('s, kerror, sys_error_kind + 'a) call" where
  "attempt m = (\<lambda>s. case m s of
      (Ok x, s') \<Rightarrow> (Ok (Inr x), s')
    | (Err (SysErr e), s') \<Rightarrow> (Ok (Inl e), s')
    | (Err NoFuel, s') \<Rightarrow> (Err NoFuel, s')
    | (Panic, s') \<Rightarrow> (Panic, s'))"

definition map_err :: "('e \<Rightarrow> 'f) \<Rightarrow> ('s, 'e, 'a) call \<Rightarrow> ('s, 'f, 'a) call" where
  "map_err g m = (\<lambda>s. case m s of
      (Ok x, s') \<Rightarrow> (Ok x, s')
    | (Err e, s') \<Rightarrow> (Err (g e), s')
    | (Panic, s') \<Rightarrow> (Panic, s'))"

primrec for_each :: "'i list \<Rightarrow> ('i \<Rightarrow> ('s, 'e, unit) call) \<Rightarrow> ('s, 'e, unit) call" where
  "for_each [] f = ret ()"
| "for_each (i # is) f = bind (f i) (\<lambda>_. for_each is f)"

section \<open>Pages\<close>

text \<open>\<open>x & !m\<close> on \<open>usize\<close>.\<close>

definition mask_out :: "nat \<Rightarrow> nat \<Rightarrow> nat" where
  "mask_out x m = unat ((word_of_nat x :: u64) AND NOT (word_of_nat m))"

definition is_power_of_two :: "nat \<Rightarrow> bool" where
  "is_power_of_two n \<longleftrightarrow> n \<noteq> 0 \<and> n AND (n - 1) = 0"

definition align_up :: "nat \<Rightarrow> nat \<Rightarrow> ('s, 'e, nat) call" where
  "align_up val align =
     bind (assert_that (is_power_of_two align \<and> val + (align - 1) < usize_limit)) (\<lambda>_. ret (mask_out (val + (align - 1)) (align - 1)))"

definition align_to_word :: "nat \<Rightarrow> ('s, 'e, nat) call" where
  "align_to_word val = align_up val 8"

definition page_aligned_new :: "nat \<Rightarrow> nat option" where
  "page_aligned_new val = (if val mod PGSIZE = 0 then Some val else None)"

definition page_aligned_new_const :: "nat \<Rightarrow> ('s, 'e, nat) call" where
  "page_aligned_new_const val = bind (assert_that (val mod PGSIZE = 0)) (\<lambda>_. ret val)"

definition pg_round_up :: "nat \<Rightarrow> ('s, 'e, nat) call" where
  "pg_round_up addr =
     bind (assert_that (addr + PGSIZE - 1 < usize_limit)) (\<lambda>_.
       page_aligned_new_const (mask_out (addr + PGSIZE - 1) (PGSIZE - 1)))"

definition pg_round_down :: "nat \<Rightarrow> ('s, 'e, nat) call" where
  "pg_round_down addr = page_aligned_new_const (mask_out addr (PGSIZE - 1))"

section \<open>The memory layout\<close>

definition KERNEL_START_VADDR :: nat where "KERNEL_START_VADDR = 0"
definition KERNEL_END_VADDR :: nat where "KERNEL_END_VADDR = 0x140000000"
definition UART_BASE_VADDR :: nat where "UART_BASE_VADDR = 0x10000000"
definition UART_BASE_PADDR :: nat where "UART_BASE_PADDR = 0x10000000"
definition UART_END_VADDR :: nat where "UART_END_VADDR = UART_BASE_VADDR + PGSIZE"
definition VIRTIO_BASE_VADDR :: nat where "VIRTIO_BASE_VADDR = 0x10001000"
definition VIRTIO_BASE_PADDR :: nat where "VIRTIO_BASE_PADDR = 0x10001000"
definition VIRTIO_END_VADDR :: nat where "VIRTIO_END_VADDR = VIRTIO_BASE_VADDR + PGSIZE"
definition KERNEL_ELF_BASE_VADDR :: nat where "KERNEL_ELF_BASE_VADDR = 0x80000000"
definition PLIC_BASE_VADDR :: nat where "PLIC_BASE_VADDR = 0xC0000000"
definition PLIC_END_VADDR :: nat where "PLIC_END_VADDR = PLIC_BASE_VADDR + 0x10000000"
definition PLIC_BASE_PADDR :: nat where "PLIC_BASE_PADDR = 0xC000000"
definition TASK_TRAPFRAME_BASE :: nat where "TASK_TRAPFRAME_BASE = 0x200009000"
definition USER_ELF_BASE_VADDR :: nat where "USER_ELF_BASE_VADDR = 0x200080000"
definition USER_ELF_SIZE :: nat where "USER_ELF_SIZE = 512 * 1024 * 1024"
definition USER_ELF_END_VADDR :: nat where "USER_ELF_END_VADDR = USER_ELF_BASE_VADDR + USER_ELF_SIZE"
definition USER_BASE_VADDR :: nat where "USER_BASE_VADDR = 0x300000000"
definition USER_AREA_SIZE :: nat where "USER_AREA_SIZE = 1024 * 1024 * 1024"
definition USER_END_VADDR :: nat where "USER_END_VADDR = USER_BASE_VADDR + USER_AREA_SIZE"

definition is_vmap_area :: "nat \<Rightarrow> bool" where
  "is_vmap_area vaddr \<longleftrightarrow> vaddr \<ge> 0x200000000"

definition is_from_user_elf :: "nat \<Rightarrow> bool" where
  "is_from_user_elf addr \<longleftrightarrow> addr \<ge> USER_ELF_BASE_VADDR \<and> addr < USER_ELF_END_VADDR"

text \<open>\<open>checked_add\<close> on \<open>usize\<close>.\<close>

definition checked_add :: "nat \<Rightarrow> nat \<Rightarrow> nat option" where
  "checked_add a b = (if a + b < usize_limit then Some (a + b) else None)"

definition is_from_user :: "nat \<Rightarrow> nat \<Rightarrow> bool" where
  "is_from_user addr sz \<longleftrightarrow> addr \<ge> USER_ELF_BASE_VADDR \<and>
     (case checked_add addr sz of Some end_addr \<Rightarrow> end_addr \<le> USER_END_VADDR | None \<Rightarrow> False)"

definition is_valid_phy_addr :: "nat \<Rightarrow> bool" where
  "is_valid_phy_addr addr \<longleftrightarrow> addr \<ge> DIRECT_MAPPING_BASE_VADDR \<and> addr < DIRECT_MAPPING_END_VADDR"

definition is_valid_phy_page_addr :: "nat \<Rightarrow> bool" where
  "is_valid_phy_page_addr addr \<longleftrightarrow> addr mod PGSIZE = 0 \<and> is_valid_phy_addr addr"

definition physical_ptr_new :: "nat \<Rightarrow> nat option" where
  "physical_ptr_new p = (if \<not> is_valid_phy_addr p then None else Some p)"

section \<open>Rounding\<close>

lemma mask_out_power:
  assumes "x < 2 ^ 64" "k \<le> 64"
  shows "mask_out x (2 ^ k - 1) = x div 2 ^ k * 2 ^ k"
proof -
  have "(word_of_nat x :: u64) AND NOT (mask k) = push_bit k (drop_bit k (word_of_nat x))"
    by (rule bit_word_eqI) (auto simp: bit_simps)
  moreover have "(word_of_nat (2 ^ k - 1) :: u64) = mask k"
    by (simp add: mask_eq_exp_minus_1 of_nat_diff)
  moreover have "unat (push_bit k (drop_bit k (word_of_nat x :: u64))) = x div 2 ^ k * 2 ^ k"
  proof -
    have "unat (word_of_nat x :: u64) = x" using assms(1) by (simp add: unat_of_nat)
    moreover have "x div 2 ^ k * 2 ^ k < 2 ^ 64" using assms(1) by (rule le_less_trans [rotated]) simp
    ultimately show ?thesis
      using assms(1) unfolding unsigned_push_bit_eq unsigned_drop_bit_eq
      by (simp add: push_bit_eq_mult [where 'a = nat] drop_bit_eq_div [where 'a = nat] take_bit_eq_mod [where 'a = nat])
  qed
  ultimately show ?thesis by (simp add: mask_out_def)
qed

lemma page_mask: "x < 2 ^ 64 \<Longrightarrow> mask_out x (PGSIZE - 1) = x div PGSIZE * PGSIZE"
  using mask_out_power [of x 12] by (simp add: PGSIZE_def)

lemma pg_round_down_ok [simp]:
  "x < 2 ^ 64 \<Longrightarrow> pg_round_down x s = (Ok (x div PGSIZE * PGSIZE), s)"
  unfolding pg_round_down_def page_mask by (simp add: page_aligned_new_const_def)

lemma pg_round_up_ok:
  "x + PGSIZE \<le> 2 ^ 64 \<Longrightarrow> pg_round_up x s = (Ok ((x + PGSIZE - 1) div PGSIZE * PGSIZE), s)"
proof -
  assume a: "x + PGSIZE \<le> 2 ^ 64"
  have "0 < PGSIZE" by (simp add: PGSIZE_def)
  then have "x + PGSIZE - 1 < 2 ^ 64" using a by linarith
  then show ?thesis
    unfolding pg_round_up_def usize_limit_def page_mask [OF \<open>x + PGSIZE - 1 < 2 ^ 64\<close>] by (simp add: page_aligned_new_const_def)
qed

end
