(* ===== verification/Rw_PageTable.thy ===== *)
theory Rw_PageTable
  imports Rw_Kernel
begin

text \<open>
  The Sv39 page table (src/kernel/src/arch/riscv64/pgtable.rs and the trait of src/kernel/src/mmu/pgtable.rs): entries as
  64-bit words, tables as pages of 512 entries in the physical memory, the walk that creates intermediate tables, mapping and
  unmapping, the recursive walk over a range, and the iterator over the valid entries of a range. The pages come
  from a page allocator; the interface the tables use of it is a record of two operations, and the buddy allocator provides it.
\<close>

section \<open>Permissions and entries\<close>

text \<open>\<open>EntryPerm\<close>, a \<open>bitflags\<close> set over \<open>u32\<close>.\<close>

type_synonym entry_perm = u32

definition EP_VALID :: entry_perm where "EP_VALID = 1"
definition EP_WRITABLE :: entry_perm where "EP_WRITABLE = 2"
definition EP_READABLE :: entry_perm where "EP_READABLE = 4"
definition EP_USER :: entry_perm where "EP_USER = 8"
definition EP_EXECUTABLE :: entry_perm where "EP_EXECUTABLE = 16"

definition ep_contains :: "entry_perm \<Rightarrow> entry_perm \<Rightarrow> bool" where
  "ep_contains p f \<longleftrightarrow> p AND f = f"

definition with_rw :: entry_perm where "with_rw = EP_READABLE OR EP_WRITABLE"
definition with_text :: entry_perm where "with_text = EP_READABLE OR EP_EXECUTABLE"

definition write_flag :: "bool \<Rightarrow> string \<Rightarrow> string" where
  "write_flag flag s = (if flag then s else ''-'')"

definition entry_perm_fmt :: "entry_perm \<Rightarrow> string" where
  "entry_perm_fmt p =
     write_flag (ep_contains p EP_USER) ''U'' @ write_flag (ep_contains p EP_EXECUTABLE) ''X'' @
     write_flag (ep_contains p EP_READABLE) ''R'' @ write_flag (ep_contains p EP_WRITABLE) ''W'' @
     write_flag (ep_contains p EP_VALID) ''V''"

type_synonym pte = u64

definition PTE_VALID :: u64 where "PTE_VALID = 1"
definition PTE_READ :: u64 where "PTE_READ = 2"
definition PTE_WRITE :: u64 where "PTE_WRITE = 4"
definition PTE_EXEC :: u64 where "PTE_EXEC = 8"
definition PTE_USER :: u64 where "PTE_USER = 16"
definition FLAGS_MASK :: u64 where "FLAGS_MASK = 2 ^ 10 - 1"
definition RISCV_VA_MASK :: nat where "RISCV_VA_MASK = 2 ^ (12 + 9 + 9 + 9) - 1"

definition arch_entry_perm :: "entry_perm \<Rightarrow> u64" where
  "arch_entry_perm p =
     ((((0 OR (if ep_contains p EP_USER then PTE_USER else 0))
           OR (if ep_contains p EP_VALID then PTE_VALID else 0))
           OR (if ep_contains p EP_WRITABLE then PTE_WRITE else 0))
           OR (if ep_contains p EP_READABLE then PTE_READ else 0))
           OR (if ep_contains p EP_EXECUTABLE then PTE_EXEC else 0)"

definition physical_page_num :: "pte \<Rightarrow> u64" where
  "physical_page_num e = drop_bit 10 e"

definition physical_addr :: "pte \<Rightarrow> nat" where
  "physical_addr e = unat (physical_page_num e * 4096)"

text \<open>\<open>set_physical_addr\<close> asserts that the address is page aligned and not null.\<close>

definition set_physical_addr :: "nat \<Rightarrow> pte \<Rightarrow> ('s, 'e, pte) call" where
  "set_physical_addr addr e =
     bind (assert_that (addr mod 4096 = 0 \<and> addr \<noteq> 0)) (\<lambda>_.
       ret ((e AND FLAGS_MASK) OR push_bit 10 (word_of_nat (addr div 4096))))"

definition is_page_table :: "pte \<Rightarrow> bool" where
  "is_page_table e \<longleftrightarrow> e AND (((PTE_READ OR PTE_WRITE) OR PTE_EXEC) OR PTE_VALID) = PTE_VALID"

definition as_table :: "pte \<Rightarrow> ('s, 'e, nat) call" where
  "as_table e = bind (assert_that (is_page_table e)) (\<lambda>_. ret (physical_addr e))"

definition make_pde :: "nat \<Rightarrow> pte" where
  "make_pde table_addr = push_bit 10 (word_of_nat (table_addr div 4096)) OR PTE_VALID"

definition set_perm :: "u64 \<Rightarrow> pte \<Rightarrow> pte" where
  "set_perm perm e = (e AND NOT FLAGS_MASK) OR perm"

definition pte_is_valid :: "pte \<Rightarrow> bool" where "pte_is_valid e \<longleftrightarrow> e AND PTE_VALID \<noteq> 0"
definition pte_is_writable :: "pte \<Rightarrow> bool" where "pte_is_writable e \<longleftrightarrow> e AND PTE_WRITE \<noteq> 0"
definition pte_is_readable :: "pte \<Rightarrow> bool" where "pte_is_readable e \<longleftrightarrow> e AND PTE_READ \<noteq> 0"
definition pte_is_user :: "pte \<Rightarrow> bool" where "pte_is_user e \<longleftrightarrow> e AND PTE_USER \<noteq> 0"
definition pte_is_executable :: "pte \<Rightarrow> bool" where "pte_is_executable e \<longleftrightarrow> e AND PTE_EXEC \<noteq> 0"

definition set_valid :: "bool \<Rightarrow> pte \<Rightarrow> pte" where
  "set_valid b e = (if b then e OR PTE_VALID else e AND NOT PTE_VALID)"
definition set_writable :: "bool \<Rightarrow> pte \<Rightarrow> pte" where
  "set_writable b e = (if b then e OR PTE_WRITE else e AND NOT PTE_WRITE)"
definition set_readable :: "bool \<Rightarrow> pte \<Rightarrow> pte" where
  "set_readable b e = (if b then e OR PTE_READ else e AND NOT PTE_READ)"
definition set_user :: "bool \<Rightarrow> pte \<Rightarrow> pte" where
  "set_user b e = (if b then e OR PTE_USER else e AND NOT PTE_USER)"
definition set_executable :: "bool \<Rightarrow> pte \<Rightarrow> pte" where
  "set_executable b e = (if b then e OR PTE_EXEC else e AND NOT PTE_EXEC)"

definition apply_perm :: "entry_perm \<Rightarrow> pte \<Rightarrow> pte" where
  "apply_perm p e =
     set_executable (ep_contains p EP_EXECUTABLE)
      (set_user (ep_contains p EP_USER)
        (set_readable (ep_contains p EP_READABLE)
          (set_writable (ep_contains p EP_WRITABLE)
            (set_valid (ep_contains p EP_VALID) e))))"

definition pte_perm :: "pte \<Rightarrow> entry_perm" where
  "pte_perm e =
     ((((0 OR (if pte_is_valid e then EP_VALID else 0))
           OR (if pte_is_writable e then EP_WRITABLE else 0))
           OR (if pte_is_readable e then EP_READABLE else 0))
           OR (if pte_is_user e then EP_USER else 0))
           OR (if pte_is_executable e then EP_EXECUTABLE else 0)"

section \<open>Indices\<close>

definition index_for_va :: "nat \<Rightarrow> nat \<Rightarrow> nat" where
  "index_for_va level va = drop_bit (level * 9 + 12) va AND (2 ^ 9 - 1)"

definition upper_bound_index_for_va :: "nat \<Rightarrow> nat \<Rightarrow> nat" where
  "upper_bound_index_for_va level va =
     (let shift = level * 9 + 12; index = drop_bit shift va AND (2 ^ 9 - 1); m = 2 ^ shift - 1 in
      if va AND m \<noteq> 0 then index + 1 else index)"

definition va_for_index :: "nat \<Rightarrow> nat \<Rightarrow> nat" where
  "va_for_index level idx = push_bit (level * 9 + 12) idx"

definition KERNEL_VM_V2_INDEX_RANGE :: "nat \<times> nat" where
  "KERNEL_VM_V2_INDEX_RANGE = (index_for_va 2 KERNEL_START_VADDR, index_for_va 2 KERNEL_END_VADDR)"

definition TABLE_LEN :: nat where "TABLE_LEN = PGSIZE div 8"

section \<open>Physical memory and the page allocator\<close>

text \<open>The physical memory is read by pages of 64-bit words: \<open>frames m a i\<close> is word \<open>i\<close> of the page at address \<open>a\<close>.
  An entry of a table is named by the address of the table and the index.\<close>

record 'p page_source =
  ps_alloc :: "('p, kerror, nat option) call"
  ps_free :: "nat \<Rightarrow> ('p, kerror, unit) call"

record 'p machine =
  frames :: "nat \<Rightarrow> nat \<Rightarrow> u64"
  pool :: 'p

type_synonym ('p, 'a) pt_call = "('p machine, kerror, 'a) call"
type_synonym slot = "nat \<times> nat"

definition on_pool :: "('p, kerror, 'a) call \<Rightarrow> ('p, 'a) pt_call" where
  "on_pool c = (\<lambda>s. case c (pool s) of (r, p) \<Rightarrow> (r, s\<lparr>pool := p\<rparr>))"

text \<open>The buddy allocator as the source of pages of one CPU; its error can only be the fuel of the model.\<close>

definition lift_mm :: "('l, 'a) mm_call \<Rightarrow> ('l mm, kerror, 'a) call" where
  "lift_mm c = map_err (\<lambda>_. NoFuel) c"

definition buddy_pages :: "('l, nat) linked_list \<Rightarrow> nat \<Rightarrow> 'l mm page_source" where
  "buddy_pages L cpu = \<lparr>ps_alloc = lift_mm (alloc_page L cpu), ps_free = (\<lambda>a. lift_mm (free_page L cpu a))\<rparr>"

definition alloc_zeroed_page :: "'p page_source \<Rightarrow> ('p, nat option) pt_call" where
  "alloc_zeroed_page P =
     bind (on_pool (ps_alloc P)) (\<lambda>r s.
       case r of
         Some a \<Rightarrow> (Ok (Some a), s\<lparr>frames := (frames s)(a := (\<lambda>_. 0))\<rparr>)
       | None \<Rightarrow> (Ok None, s))"

definition try_alloc :: "'p page_source \<Rightarrow> ('p, nat) pt_call" where
  "try_alloc P = bind (alloc_zeroed_page P) (\<lambda>r.
     case r of Some a \<Rightarrow> ret a | None \<Rightarrow> fail (SysErr SysOutOfMemory))"

definition read_slot :: "slot \<Rightarrow> 'p machine \<Rightarrow> pte" where
  "read_slot sl s = frames s (fst sl) (snd sl)"

definition write_slot :: "slot \<Rightarrow> pte \<Rightarrow> 'p machine \<Rightarrow> 'p machine" where
  "write_slot sl e s = s\<lparr>frames := (frames s)(fst sl := (frames s (fst sl))(snd sl := e))\<rparr>"

definition put_slot :: "slot \<Rightarrow> pte \<Rightarrow> ('p machine, 'e, unit) call" where
  "put_slot sl e = (\<lambda>s. (Ok (), write_slot sl e s))"

section \<open>Walking\<close>

text \<open>One level of the walk: the table the directory entry points to, made if there is none yet.\<close>

definition next_table :: "'p page_source \<Rightarrow> slot \<Rightarrow> ('p, nat option) pt_call" where
  "next_table P sl = (\<lambda>s.
     let pde = read_slot sl s in
     if pte_is_valid pde then bind (as_table pde) (\<lambda>t. ret (Some t)) s
     else bind (attempt (try_alloc P)) (\<lambda>r.
            case r of
              Inr raw \<Rightarrow> bind (put_slot sl (make_pde raw)) (\<lambda>_. ret (Some raw))
            | Inl _ \<Rightarrow> ret None) s)"

fun walk_levels :: "'p page_source \<Rightarrow> nat list \<Rightarrow> nat \<Rightarrow> nat \<Rightarrow> ('p, slot option) pt_call" where
  "walk_levels P [] va table = ret (Some (table, index_for_va 0 va))"
| "walk_levels P (level # ls) va table =
     bind (next_table P (table, index_for_va level va)) (\<lambda>r.
       case r of Some t \<Rightarrow> walk_levels P ls va t | None \<Rightarrow> ret None)"

definition walk :: "'p page_source \<Rightarrow> nat \<Rightarrow> nat \<Rightarrow> ('p, slot option) pt_call" where
  "walk P root va = walk_levels P [2, 1] va root"

definition check_va :: "nat \<Rightarrow> ('s, 'e, unit) call" where
  "check_va va = assert_that (mask_out va RISCV_VA_MASK = 0)"

definition fill_slot :: "slot \<Rightarrow> nat \<Rightarrow> entry_perm \<Rightarrow> ('p, unit) pt_call" where
  "fill_slot sl pa perm = (\<lambda>s.
     bind (set_physical_addr pa (read_slot sl s)) (\<lambda>e. put_slot sl (apply_perm (perm OR EP_VALID) e)) s)"

definition pt_map :: "'p page_source \<Rightarrow> nat \<Rightarrow> nat \<Rightarrow> nat \<Rightarrow> entry_perm \<Rightarrow> ('p, slot) pt_call" where
  "pt_map P root va pa perm =
     bind (check_va va) (\<lambda>_.
     bind (walk P root va) (\<lambda>r.
       case r of
         Some sl \<Rightarrow> bind (fill_slot sl pa perm) (\<lambda>_. ret sl)
       | None \<Rightarrow> fail (SysErr SysOutOfMemory)))"

definition try_map :: "'p page_source \<Rightarrow> nat \<Rightarrow> nat \<Rightarrow> nat \<Rightarrow> entry_perm \<Rightarrow> ('p, slot option) pt_call" where
  "try_map P root va pa perm =
     bind (check_va va) (\<lambda>_.
     bind (walk P root va) (\<lambda>r s.
       case r of
         Some sl \<Rightarrow>
           if pte_is_valid (read_slot sl s) then (Ok None, s)
           else bind (fill_slot sl pa perm) (\<lambda>_. ret (Some sl)) s
       | None \<Rightarrow> fail (SysErr SysOutOfMemory) s))"

fun entry_levels :: "nat list \<Rightarrow> nat \<Rightarrow> slot \<Rightarrow> ('p machine, 'e, slot option) call" where
  "entry_levels [] va sl s = (Ok (if pte_is_valid (read_slot sl s) then Some sl else None), s)"
| "entry_levels (level # ls) va sl s =
     (if \<not> pte_is_valid (read_slot sl s) then (Ok None, s)
      else bind (as_table (read_slot sl s)) (\<lambda>table. entry_levels ls va (table, index_for_va level va)) s)"

text \<open>\<open>get_entry\<close> checks by \<open>assert!\<close>, and \<open>as_table\<close> by \<open>debug_assert!\<close>, that a directory entry is one.\<close>

definition get_entry :: "nat \<Rightarrow> nat \<Rightarrow> ('p machine, 'e, slot option) call" where
  "get_entry root va = bind (check_va va) (\<lambda>_. entry_levels [1, 0] va (root, index_for_va 2 va))"

definition get_entry_mut :: "nat \<Rightarrow> nat \<Rightarrow> ('p machine, 'e, slot option) call" where
  "get_entry_mut root va = bind (check_va va) (\<lambda>_. entry_levels [1, 0] va (root, index_for_va 2 va))"

definition unmap :: "nat \<Rightarrow> nat \<Rightarrow> ('p machine, 'e, nat option) call" where
  "unmap root va =
     bind (check_va va) (\<lambda>_.
     bind (get_entry_mut root va) (\<lambda>r s.
       case r of
         Some sl \<Rightarrow> (Ok (Some (physical_addr (read_slot sl s))), write_slot sl 0 s)
       | None \<Rightarrow> (Ok None, s)))"

section \<open>The iterator over the valid entries of a range\<close>

record table_iter =
  it_table :: nat
  it_level :: nat
  it_base_va :: nat
  it_cur_idx :: nat
  it_start_idx :: nat
  it_end_idx :: nat
  it_is_first :: bool
  it_is_last :: bool

definition start_index :: "nat \<Rightarrow> nat \<Rightarrow> bool \<Rightarrow> nat" where
  "start_index level start_va is_first = (if is_first then index_for_va level start_va else 0)"

definition end_index :: "nat \<Rightarrow> nat \<Rightarrow> bool \<Rightarrow> nat" where
  "end_index level end_va is_last = (if is_last then upper_bound_index_for_va level end_va else TABLE_LEN)"

definition table_iter_new :: "nat \<Rightarrow> nat \<Rightarrow> nat \<Rightarrow> nat \<Rightarrow> nat \<Rightarrow> bool \<Rightarrow> bool \<Rightarrow> table_iter" where
  "table_iter_new table level base_va start_va end_va is_first is_last =
     \<lparr>it_table = table, it_level = level, it_base_va = base_va,
      it_cur_idx = start_index level start_va is_first,
      it_start_idx = start_index level start_va is_first,
      it_end_idx = end_index level end_va is_last,
      it_is_first = is_first, it_is_last = is_last\<rparr>"

type_synonym item = "nat \<times> nat \<times> slot"

function table_iter_next :: "(nat \<Rightarrow> nat \<Rightarrow> u64) \<Rightarrow> table_iter \<Rightarrow> item option \<times> table_iter" where
  "table_iter_next m it =
     (if it_cur_idx it < it_end_idx it then
        (if pte_is_valid (m (it_table it) (it_cur_idx it)) then
           (Some (it_cur_idx it, it_base_va it OR va_for_index (it_level it) (it_cur_idx it), (it_table it, it_cur_idx it)),
            it\<lparr>it_cur_idx := it_cur_idx it + 1\<rparr>)
         else table_iter_next m (it\<lparr>it_cur_idx := it_cur_idx it + 1\<rparr>))
      else (None, it))"
  by pat_completeness auto
termination
  by (relation "measure (\<lambda>(m, it). it_end_idx it - it_cur_idx it)") auto

declare table_iter_next.simps [simp del]

record range_iter =
  table_iters :: "nat \<Rightarrow> table_iter"
  ri_start_va :: nat
  ri_end_va :: nat

definition range_iter_new :: "nat \<Rightarrow> nat \<Rightarrow> nat \<Rightarrow> range_iter" where
  "range_iter_new pgtable start_va end_va =
     \<lparr>table_iters = (\<lambda>level.
        if level = 2 then table_iter_new pgtable 2 0 start_va end_va True True
        else table_iter_new pgtable 2 0 0 0 True True),
      ri_start_va = start_va, ri_end_va = end_va\<rparr>"

text \<open>What is left of the tables of the levels above decreases with every item, so the recursion ends.\<close>

definition left_in :: "nat \<Rightarrow> range_iter \<Rightarrow> nat" where
  "left_in level it = it_end_idx (table_iters it level) - it_cur_idx (table_iters it level)"

definition step_iter :: "(nat \<Rightarrow> nat \<Rightarrow> u64) \<Rightarrow> nat \<Rightarrow> range_iter \<Rightarrow> item option \<times> range_iter" where
  "step_iter m level it =
     (case table_iter_next m (table_iters it level) of
        (r, ti) \<Rightarrow> (r, it\<lparr>table_iters := (table_iters it)(level := ti)\<rparr>))"

text \<open>The iterator of one table below the entry that the iterator of the level above has just given.\<close>

definition descend :: "nat \<Rightarrow> nat \<Rightarrow> nat \<Rightarrow> nat \<Rightarrow> range_iter \<Rightarrow> range_iter" where
  "descend level idx base_va pgtable it =
     (let up_iter = table_iters it (level + 1);
          is_first = it_is_first up_iter \<and> it_start_idx up_iter = idx;
          is_last = it_is_last up_iter \<and> it_end_idx up_iter - 1 = idx in
      it\<lparr>table_iters := (table_iters it)(level :=
           table_iter_new pgtable level base_va (ri_start_va it) (ri_end_va it) is_first is_last)\<rparr>)"

function (domintros) next_recursive :: "(nat \<Rightarrow> nat \<Rightarrow> u64) \<Rightarrow> nat \<Rightarrow> range_iter \<Rightarrow> (kerror, item option) outcome \<times> range_iter" where
  "next_recursive m level it =
     (case step_iter m level it of
        (Some entry, it) \<Rightarrow> (Ok (Some entry), it)
      | (None, it) \<Rightarrow>
          if 2 \<le> level then (Ok None, it)
          else (case next_recursive m (level + 1) it of
                  (Ok (Some (idx, base_va, sl)), it) \<Rightarrow>
                    (case as_table (m (fst sl) (snd sl)) it of
                       (Ok pgtable, it) \<Rightarrow> next_recursive m level (descend level idx base_va pgtable it)
                     | (Err e, it) \<Rightarrow> (Err e, it)
                     | (Panic, it) \<Rightarrow> (Panic, it))
                | r \<Rightarrow> r))"
  by pat_completeness auto

lemma table_iter_next_left:
  "table_iter_next m it = (r, it') \<Longrightarrow>
     it_end_idx it' = it_end_idx it \<and> it_start_idx it' = it_start_idx it \<and> it_is_first it' = it_is_first it \<and>
     it_is_last it' = it_is_last it \<and> it_table it' = it_table it \<and> it_level it' = it_level it \<and> it_base_va it' = it_base_va it \<and>
     it_cur_idx it \<le> it_cur_idx it' \<and> (r \<noteq> None \<longrightarrow> it_cur_idx it < it_cur_idx it' \<and> it_cur_idx it < it_end_idx it)"
proof (induction m it arbitrary: r it' rule: table_iter_next.induct)
  case (1 m it)
  show ?case
  proof (cases "it_cur_idx it < it_end_idx it \<and> \<not> pte_is_valid (m (it_table it) (it_cur_idx it))")
    case True
    then have "table_iter_next m (it\<lparr>it_cur_idx := it_cur_idx it + 1\<rparr>) = (r, it')"
      using "1.prems" by (simp add: table_iter_next.simps [of m it])
    from "1.IH" [OF _ _ this] True show ?thesis by auto
  next
    case False
    then show ?thesis using "1.prems" by (auto simp: table_iter_next.simps [of m it] split: if_splits)
  qed
qed

lemma step_iter_left:
  assumes "step_iter m level it = (r, it')"
  shows "left_in level it' \<le> left_in level it" "r \<noteq> None \<Longrightarrow> left_in level it' < left_in level it"
    "\<And>l. l \<noteq> level \<Longrightarrow> table_iters it' l = table_iters it l"
    "ri_start_va it' = ri_start_va it" "ri_end_va it' = ri_end_va it"
  using assms table_iter_next_left [of m "table_iters it level"]
  by (fastforce simp: step_iter_def left_in_def split: prod.splits)+

lemma descend_left [simp]:
  "l \<noteq> level \<Longrightarrow> left_in l (descend level idx base t it) = left_in l it"
  by (simp add: descend_def left_in_def Let_def)

lemma as_table_same: "as_table e it = (r, it') \<Longrightarrow> it' = it"
  by (auto simp: as_table_def assert_that_def bind_def split: if_splits)

text \<open>Progress at a level: something was taken from the iterator of that level or of one above it.\<close>

definition progress :: "nat \<Rightarrow> range_iter \<Rightarrow> range_iter \<Rightarrow> bool" where
  "progress level it' it \<longleftrightarrow>
     (\<exists>k\<ge>level. k \<le> max level 2 \<and> left_in k it' < left_in k it \<and> (\<forall>j>k. table_iters it' j = table_iters it j))"

lemma progress_trans:
  assumes "progress (Suc level) b a" "level < 2" "progress level c b" shows "progress level c a"
proof -
  from assms(1,2) obtain k where k: "Suc level \<le> k" "k \<le> 2" "left_in k b < left_in k a" "\<forall>j>k. table_iters b j = table_iters a j"
    unfolding progress_def by (auto simp: max_def)
  from assms(2,3) obtain l where l: "level \<le> l" "l \<le> 2" "left_in l c < left_in l b" "\<forall>j>l. table_iters c j = table_iters b j"
    unfolding progress_def by (auto simp: max_def)
  let ?n = "max k l"
  have "left_in ?n c < left_in ?n a"
  proof (cases k l rule: linorder_cases)
    case less
    then show ?thesis using k(4) l(3) by (simp add: left_in_def)
  next
    case greater
    then show ?thesis using k(3) l(4) by (simp add: left_in_def)
  qed (use k(3) l(3) in simp)
  then show ?thesis unfolding progress_def using k l by (intro exI [of _ ?n]) auto
qed

lemma progress_step:
  assumes "step_iter m level it = (None, it')" "progress (Suc level) b it'" "level < 2"
  shows "progress (Suc level) b it"
proof -
  from assms(2,3) obtain k where k: "Suc level \<le> k" "k \<le> 2" "left_in k b < left_in k it'" "\<forall>j>k. table_iters b j = table_iters it' j"
    unfolding progress_def by (auto simp: max_def)
  then show ?thesis
    unfolding progress_def using step_iter_left(3) [OF assms(1)] by (intro exI [of _ k]) (auto simp: left_in_def)
qed

lemma progress_descend:
  assumes "progress (Suc level) b a" "level < 2" shows "progress (Suc level) (descend level idx base t b) a"
  using assms unfolding progress_def by (fastforce simp: descend_def Let_def left_in_def)

lemma next_recursive_progress:
  assumes "next_recursive_dom (m, level, it)" "next_recursive m level it = (Ok (Some e), it')"
  shows "progress level it' it"
  using assms
proof (induction m level it arbitrary: e it' rule: next_recursive.pinduct)
  case (1 m level it)
  obtain r it1 where st: "step_iter m level it = (r, it1)" by fastforce
  show ?case
  proof (cases r)
    case (Some x)
    then have "it' = it1" using "1.prems" "1.hyps" st by (simp add: next_recursive.psimps)
    then show ?thesis
      using step_iter_left(2,3) [OF st] Some unfolding progress_def by (intro exI [of _ level]) auto
  next
    case None
    have lv: "level < 2" using "1.prems" "1.hyps" st None by (auto simp: next_recursive.psimps split: if_splits)
    obtain o1 it2 where up: "next_recursive m (level + 1) it1 = (o1, it2)" by fastforce
    from "1.prems" "1.hyps" st None lv up obtain idx base sl where o1: "o1 = Ok (Some (idx, base, sl))"
      by (auto simp: next_recursive.psimps split: outcome.splits option.splits)
    obtain o2 it3 where at: "as_table (m (fst sl) (snd sl)) it2 = (o2 :: (kerror, nat) outcome, it3)" by fastforce
    from "1.prems" "1.hyps" st None lv up o1 at obtain t where o2: "o2 = Ok t"
      by (auto simp: next_recursive.psimps split: outcome.splits)
    have same: "it3 = it2" using as_table_same [OF at] .
    have rec: "next_recursive m level (descend level idx base t it2) = (Ok (Some e), it')"
      using "1.prems" "1.hyps" st None lv up o1 at o2 same by (simp add: next_recursive.psimps)
    have nl: "\<not> 2 \<le> level" using lv by simp
    have p1: "progress (level + 1) it2 it1"
      using "1.IH"(1) [OF st [symmetric] None nl] up o1 by blast
    have p2: "progress level it' (descend level idx base t it2)"
      using "1.IH"(2) [OF st [symmetric] None nl up [symmetric] o1 refl refl refl at [symmetric] o2] rec same by simp
    have "progress (Suc level) (descend level idx base t it2) it"
      using progress_descend [OF progress_step [OF _ _ lv]] st None p1 lv by simp
    then show ?thesis using progress_trans [OF _ lv p2] by simp
  qed
qed

termination next_recursive
proof (relation "measures [\<lambda>(m, level, it). left_in 2 it, \<lambda>(m, level, it). left_in 1 it, \<lambda>(m, level, it). 2 - level]",
    goal_cases)
  case 1
  show ?case by simp
next
  case (2 m level it r it1)
  then have st: "step_iter m level it = (None, it1)" by simp
  have "left_in 2 it1 = left_in 2 it" using step_iter_left(3) [OF st, of 2] 2 by (simp add: left_in_def)
  moreover have "left_in 1 it1 \<le> left_in 1 it"
    using step_iter_left(1,3) [OF st] by (cases "level = 1") (auto simp: left_in_def)
  ultimately show ?case using 2 by auto
next
  case (3 m level it r it1 o1 it2 oi x idx y base sl o2 it3 t)
  then have st: "step_iter m level it = (None, it1)" and up: "next_recursive m (level + 1) it1 = (Ok (Some (idx, base, sl)), it2)"
    and lv: "level < 2" and d: "next_recursive_dom (m, level + 1, it1)" and same: "it3 = it2"
    by (auto dest: as_table_same [OF sym])
  have "progress (Suc level) (descend level idx base t it3) it"
    using progress_descend [OF progress_step [OF st _ lv] lv] next_recursive_progress [OF d up] same by simp
  then obtain k where k: "Suc level \<le> k" "k \<le> 2" "left_in k (descend level idx base t it3) < left_in k it"
    "\<forall>j>k. table_iters (descend level idx base t it3) j = table_iters it j"
    unfolding progress_def using lv by (auto simp: max_def)
  then have "k = 2 \<or> k = 1 \<and> left_in 2 (descend level idx base t it3) = left_in 2 it" by (auto simp: left_in_def)
  then show ?case using k(3) by auto
qed

declare next_recursive.simps [simp del]

lemma next_recursive_total: "next_recursive_dom (m, level, it)"
proof (induction m level it rule: next_recursive.induct)
  case (1 m level it)
  show ?case by (rule next_recursive.domintros) (use "1.IH" in fastforce)+
qed

text \<open>\<open>Range\<close> and \<open>RangeMut\<close>: the items are the virtual address and the entry.\<close>

definition range_next :: "(nat \<Rightarrow> nat \<Rightarrow> u64) \<Rightarrow> range_iter \<Rightarrow> (kerror, (nat \<times> slot) option) outcome \<times> range_iter" where
  "range_next m it =
     (case next_recursive m 0 it of
        (Ok (Some (_, va, entry)), it) \<Rightarrow> (Ok (Some (va, entry)), it)
      | (Ok None, it) \<Rightarrow> (Ok None, it)
      | (Err e, it) \<Rightarrow> (Err e, it)
      | (Panic, it) \<Rightarrow> (Panic, it))"

text \<open>\<open>for (va, pte) in iterator { body }\<close>: the iterator reads the memory as the body has left it.\<close>

function for_entries :: "range_iter \<Rightarrow> (nat \<Rightarrow> slot \<Rightarrow> ('p, unit) pt_call) \<Rightarrow> ('p, unit) pt_call" where
  "for_entries it body s =
     (case range_next (frames s) it of
        (Ok None, _) \<Rightarrow> (Ok (), s)
      | (Ok (Some (va, entry)), it') \<Rightarrow> bind (body va entry) (\<lambda>_. for_entries it' body) s
      | (Err e, _) \<Rightarrow> (Err e, s)
      | (Panic, _) \<Rightarrow> (Panic, s))"
  by pat_completeness auto
termination
proof (relation "measures [\<lambda>(it, body, s). left_in 2 it, \<lambda>(it, body, s). left_in 1 it, \<lambda>(it, body, s). left_in 0 it]", goal_cases)
  case 1
  show ?case by simp
next
  case (2 it body s r it' r' x va entry u t)
  then obtain i where "next_recursive (frames s) 0 it = (Ok (Some i), it')"
    by (auto simp: range_next_def split: prod.splits outcome.splits option.splits)
  from next_recursive_progress [OF next_recursive_total this]
  have "progress 0 it' it" .
  then obtain k where k: "k \<le> 2" "left_in k it' < left_in k it" "\<forall>j>k. table_iters it' j = table_iters it j"
    unfolding progress_def by auto
  then have "k = 2 \<or> k = 1 \<and> left_in 2 it' = left_in 2 it \<or> k = 0 \<and> left_in 2 it' = left_in 2 it \<and> left_in 1 it' = left_in 1 it"
    by (auto simp: left_in_def)
  then show ?case using k(2) by auto
qed

declare for_entries.simps [simp del]

section \<open>Ranges\<close>

definition range_of_entries :: "nat \<Rightarrow> nat \<Rightarrow> nat \<Rightarrow> ('s, 'e, range_iter) call" where
  "range_of_entries root start_va end_va =
     bind (assert_that (end_va \<ge> start_va)) (\<lambda>_. ret (range_iter_new root start_va end_va))"

definition range_of_entries_mut :: "nat \<Rightarrow> nat \<Rightarrow> nat \<Rightarrow> ('s, 'e, range_iter) call" where
  "range_of_entries_mut root start_va end_va =
     bind (assert_that (end_va \<ge> start_va)) (\<lambda>_. ret (range_iter_new root start_va end_va))"

definition checked :: "nat \<Rightarrow> ('s, 'e, nat) call" where
  "checked n = bind (assert_that (n < usize_limit)) (\<lambda>_. ret n)"

definition unmap_range :: "nat \<Rightarrow> nat \<Rightarrow> nat \<Rightarrow> ('p, unit) pt_call" where
  "unmap_range root va sz =
     bind (checked (va + sz)) (\<lambda>e.
     bind (range_of_entries_mut root va e) (\<lambda>it.
       for_entries it (\<lambda>_ pte. put_slot pte 0)))"

fun map_pages :: "'p page_source \<Rightarrow> nat \<Rightarrow> nat \<Rightarrow> nat list \<Rightarrow> nat \<Rightarrow> nat \<Rightarrow> entry_perm \<Rightarrow> ('p, unit) pt_call" where
  "map_pages P root start_va [] va pa perm = ret ()"
| "map_pages P root start_va (i # is) va pa perm =
     bind (attempt (pt_map P root va pa perm)) (\<lambda>r.
       case r of
         Inl e \<Rightarrow> bind (unmap_range root start_va (PGSIZE * i)) (\<lambda>_. fail (SysErr e))
       | Inr _ \<Rightarrow> map_pages P root start_va is (va + PGSIZE) (pa + PGSIZE) perm)"

definition map_range :: "'p page_source \<Rightarrow> nat \<Rightarrow> nat \<Rightarrow> nat \<Rightarrow> nat \<Rightarrow> entry_perm \<Rightarrow> ('p, unit) pt_call" where
  "map_range P root va pa sz perm = map_pages P root va [0..<sz div PGSIZE] va pa perm"

definition free_frame :: "'p page_source \<Rightarrow> nat \<Rightarrow> ('p, unit) pt_call" where
  "free_frame P a = on_pool (ps_free P a)"

definition vunmap :: "'p page_source \<Rightarrow> nat \<Rightarrow> nat \<Rightarrow> nat \<Rightarrow> ('p, unit) pt_call" where
  "vunmap P root va sz =
     bind (checked (va + sz)) (\<lambda>e.
     bind (range_of_entries_mut root va e) (\<lambda>it.
       for_entries it (\<lambda>_ pte s.
         let paddr = physical_addr (read_slot pte s) in
         bind (put_slot pte 0) (\<lambda>_. free_frame P paddr) s)))"

definition vmap_page :: "'p page_source \<Rightarrow> nat \<Rightarrow> nat \<Rightarrow> entry_perm \<Rightarrow> ('p, nat) pt_call" where
  "vmap_page P root va perm =
     bind (assert_that (is_vmap_area va)) (\<lambda>_.
     bind (alloc_zeroed_page P) (\<lambda>r.
       case r of
         Some pa \<Rightarrow>
           bind (attempt (try_map P root va pa perm)) (\<lambda>pte.
             case pte of
               Inr (Some _) \<Rightarrow> ret pa
             | Inr None \<Rightarrow> bind (free_frame P pa) (\<lambda>_. fail (SysErr SysInvalidArgument))
             | Inl e \<Rightarrow> bind (free_frame P pa) (\<lambda>_. fail (SysErr e)))
       | None \<Rightarrow> fail (SysErr SysOutOfMemory)))"

text \<open>An error of the walk over a range comes with the address at which the walk broke off.\<close>

type_synonym ('p, 'a) walk_call = "('p machine, nat \<times> kerror, 'a) call"

definition ensure_table :: "'p page_source \<Rightarrow> nat \<Rightarrow> slot \<Rightarrow> ('p, nat) walk_call" where
  "ensure_table P brk_addr sl = (\<lambda>s.
     bind (if pte_is_valid (read_slot sl s) then ret ()
           else bind (map_err (Pair brk_addr) (attempt (try_alloc P))) (\<lambda>r.
             case r of
               Inr raw \<Rightarrow> put_slot sl (make_pde raw)
             | Inl _ \<Rightarrow> fail (brk_addr, SysErr SysOutOfMemory)))
       (\<lambda>_ s. as_table (read_slot sl s) s) s)"

primrec walk_range_mut_recursive ::
    "'p page_source \<Rightarrow> (nat \<Rightarrow> slot \<Rightarrow> ('p, unit) pt_call) \<Rightarrow> nat \<Rightarrow> nat \<Rightarrow> nat \<Rightarrow> nat \<Rightarrow> bool \<Rightarrow> bool \<Rightarrow> nat \<Rightarrow> ('p, unit) walk_call" where
  "walk_range_mut_recursive P f 0 base_va start_va end_va is_first is_last table =
     (let start_idx = start_index 0 start_va is_first; end_idx = end_index 0 end_va is_last in
      bind (assert_that (start_idx \<le> end_idx \<and> end_idx \<le> TABLE_LEN)) (\<lambda>_.
        for_each [start_idx..<end_idx] (\<lambda>idx.
          let cur_va = base_va OR va_for_index 0 idx in
          map_err (Pair cur_va) (f cur_va (table, idx)))))"
| "walk_range_mut_recursive P f (Suc level) base_va start_va end_va is_first is_last table =
     (let start_idx = start_index (Suc level) start_va is_first; end_idx = end_index (Suc level) end_va is_last in
      bind (assert_that (start_idx \<le> end_idx \<and> end_idx \<le> TABLE_LEN)) (\<lambda>_.
        for_each [start_idx..<end_idx] (\<lambda>idx.
          let base_va = base_va OR va_for_index (Suc level) idx in
          bind (ensure_table P (if is_first then start_va else base_va) (table, idx)) (\<lambda>t.
            walk_range_mut_recursive P f level base_va start_va end_va
              (is_first \<and> idx = start_idx) (is_last \<and> idx = end_idx - 1) t))))"

definition vmap_entry :: "'p page_source \<Rightarrow> u64 \<Rightarrow> nat \<Rightarrow> slot \<Rightarrow> ('p, unit) pt_call" where
  "vmap_entry P perm cur_va entry = (\<lambda>s.
     if pte_is_valid (read_slot entry s) then fail (SysErr SysInvalidArgument) s
     else bind (alloc_zeroed_page P) (\<lambda>r.
            case r of
              Some pa \<Rightarrow> (\<lambda>s. bind (set_physical_addr pa (read_slot entry s)) (\<lambda>e. put_slot entry (set_perm perm e)) s)
            | None \<Rightarrow> fail (SysErr SysOutOfMemory)) s)"

definition vmap :: "'p page_source \<Rightarrow> nat \<Rightarrow> nat \<Rightarrow> nat \<Rightarrow> entry_perm \<Rightarrow> ('p, unit) pt_call" where
  "vmap P root start_va sz perm = (\<lambda>s.
     let perm = arch_entry_perm (perm OR EP_VALID) in
     if usize_limit \<le> start_va + sz then (Panic, s)
     else case walk_range_mut_recursive P (vmap_entry P perm) 2 0 start_va (start_va + sz) True True root s of
       (Ok _, s) \<Rightarrow> (Ok (), s)
     | (Err (brk_addr, err), s) \<Rightarrow>
         bind (assert_that (page_aligned_new brk_addr \<noteq> None \<and> start_va \<le> brk_addr)) (\<lambda>_.
         bind (vunmap P root start_va (brk_addr - start_va)) (\<lambda>_. fail err)) s
     | (Panic, s) \<Rightarrow> (Panic, s))"

section \<open>Releasing the tables\<close>

fun clear_recursive :: "'p page_source \<Rightarrow> nat \<Rightarrow> nat \<Rightarrow> ('p, unit) pt_call"
  and clear_table :: "'p page_source \<Rightarrow> nat \<Rightarrow> nat \<Rightarrow> nat list \<Rightarrow> ('p, unit) pt_call" where
  "clear_recursive P 0 table s = (Ok (), s)"
| "clear_recursive P (Suc level) table s =
     (if Suc level = 2 then
        bind (clear_table P level table [0..<fst KERNEL_VM_V2_INDEX_RANGE])
          (\<lambda>_. clear_table P level table [snd KERNEL_VM_V2_INDEX_RANGE + 1..<TABLE_LEN]) s
      else clear_table P level table [0..<TABLE_LEN] s)"
| "clear_table P level table [] s = (Ok (), s)"
| "clear_table P level table (i # is) s =
     (if \<not> pte_is_valid (frames s table i) then clear_table P level table is s
      else (let paddr = physical_addr (frames s table i) in
            bind (clear_recursive P level paddr) (\<lambda>_.
            bind (put_slot (table, i) 0) (\<lambda>_.
            bind (free_frame P paddr) (\<lambda>_. clear_table P level table is))) s))"

definition pt_clear :: "'p page_source \<Rightarrow> nat \<Rightarrow> ('p, unit) pt_call" where
  "pt_clear P root = clear_recursive P 2 root"

definition copy_from_kernel :: "nat \<Rightarrow> nat \<Rightarrow> ('p, unit) pt_call" where
  "copy_from_kernel root kroot = (\<lambda>s.
     (Ok (), s\<lparr>frames := (frames s)(root := (\<lambda>i.
        if fst KERNEL_VM_V2_INDEX_RANGE \<le> i \<and> i \<le> snd KERNEL_VM_V2_INDEX_RANGE then frames s kroot i else frames s root i))\<rparr>))"

end
