(* ===== verification/Rw_BuddySpec.thy ===== *)
theory Rw_BuddySpec
  imports Rw_Buddy
begin

unbundle bit_operations_syntax

text \<open>
  Correctness of the buddy allocator: the invariant of the free lists, what splitting, merging, allocation
  and freeing do to the set of free bytes, and the uniqueness of the fully merged decomposition.
\<close>

section \<open>Descriptor flags\<close>

lemma free_mask: "push_bit 7 1 = (2 ^ 7 :: 8 word)"
  by (simp add: push_bit_eq_mult)

lemma is_free_bit: "is_free p \<longleftrightarrow> bit (buddy_flags p) 7"
  unfolding is_free_def free_mask and_exp_eq_0_iff_not_bit by simp

lemma bit_free_mask: "bit (2 ^ 7 :: 8 word) n \<longleftrightarrow> n = 7"
  unfolding bit_exp_iff by (auto simp: possible_bit_def)

lemma flag_bits:
  "bit (w OR 2 ^ 7 :: 8 word) n \<longleftrightarrow> bit w n \<or> n = 7"
  "bit (w AND 2 ^ 7 :: 8 word) n \<longleftrightarrow> bit w n \<and> n = 7"
  "bit (w AND NOT (2 ^ 7) :: 8 word) n \<longleftrightarrow> bit w n \<and> n \<noteq> 7"
  by (simp_all only: bit_or_iff bit_and_iff bit_not_iff bit_free_mask) (auto simp: possible_bit_def dest: bit_imp_le_length)

lemma buddy_flags_ops:
  "buddy_flags (set_free p) = buddy_flags p OR 2 ^ 7" "buddy_flags (clear_free p) = buddy_flags p AND NOT (2 ^ 7)"
  "buddy_flags (set_pgf_order k p) = (buddy_flags p AND 2 ^ 7) OR k" "buddy_flags (p\<lparr>linked := b\<rparr>) = buddy_flags p"
  by (simp_all add: set_free_def clear_free_def set_pgf_order_def)

lemma is_free_ops [simp]:
  "is_free (set_free p)" "\<not> is_free (clear_free p)" "is_free (p\<lparr>linked := b\<rparr>) = is_free p"
  "\<not> bit k 7 \<Longrightarrow> is_free (set_pgf_order k p) = is_free p"
  by (simp_all only: is_free_bit buddy_flags_ops flag_bits bit_or_iff) auto

lemma pgf_order_bits: "bit (pgf_order p) n \<longleftrightarrow> bit (buddy_flags p) n \<and> n \<noteq> 7"
  by (simp only: pgf_order_def free_mask flag_bits)

lemma pgf_order_ops [simp]:
  "pgf_order (set_free p) = pgf_order p" "pgf_order (clear_free p) = pgf_order p"
  by (rule bit_eqI, simp only: pgf_order_bits buddy_flags_ops flag_bits, blast)+

lemma pgf_order_link [simp]: "pgf_order (p\<lparr>linked := b\<rparr>) = pgf_order p"
  by (simp only: pgf_order_def buddy_flags_ops)

lemma pgf_order_set [simp]: "\<not> bit k 7 \<Longrightarrow> pgf_order (set_pgf_order k p) = k"
  by (rule bit_eqI) (auto simp only: pgf_order_bits buddy_flags_ops flag_bits bit_or_iff)

lemma linked_ops [simp]:
  "linked (set_free p) = linked p" "linked (clear_free p) = linked p" "linked (set_pgf_order k p) = linked p"
  by (simp_all add: set_free_def clear_free_def set_pgf_order_def)

lemma order_bit: "k < 128 \<Longrightarrow> \<not> bit (of_nat k :: 8 word) 7"
  unfolding bit_of_nat_iff by (simp add: bit_iff_odd)

lemma order_eq: "j < 256 \<Longrightarrow> k < 256 \<Longrightarrow> (of_nat j :: 8 word) = of_nat k \<longleftrightarrow> j = k"
  by (simp add: word_of_nat_eq_iff take_bit_eq_mod)

section \<open>Blocks\<close>

lemma block_size_nz [simp]: "block_size k \<noteq> 0"
  using block_size_pos [of k] by simp

lemma block_size_Suc: "block_size (Suc k) = block_size k + block_size k"
  by (simp add: block_size_def)

definition covers :: "nat \<Rightarrow> nat \<Rightarrow> nat \<Rightarrow> bool" where
  "covers k a x \<longleftrightarrow> a \<le> x \<and> x < a + block_size k"

text \<open>The memory managed by the allocator: a whole number of blocks of the largest order.\<close>

definition region_ok :: "nat \<Rightarrow> nat \<Rightarrow> bool" where
  "region_ok st e \<longleftrightarrow> st mod PGSIZE = 0 \<and> DIRECT_MAPPING_BASE_VADDR \<le> st \<and> e \<le> DIRECT_MAPPING_END_VADDR \<and>
     (\<exists>m. e = st + m * block_size 8)"

text \<open>An aligned block of order \<open>k\<close> inside the region.\<close>

definition aligned :: "nat \<Rightarrow> nat \<Rightarrow> nat \<Rightarrow> nat \<Rightarrow> bool" where
  "aligned st e k a \<longleftrightarrow> (\<exists>q. a = st + q * block_size k) \<and> a + block_size k \<le> e"

lemma covers_self [simp]: "covers k a a"
  by (simp add: covers_def)

lemma covers_split: "covers (Suc k) a x \<longleftrightarrow> covers k a x \<or> covers k (a + block_size k) x"
  by (auto simp: covers_def block_size_Suc)

lemma covers_split_disj: "\<not> (covers k a x \<and> covers k (a + block_size k) x)"
  by (auto simp: covers_def)

lemma block_size_8: "k \<le> 8 \<Longrightarrow> block_size 8 = 2 ^ (8 - k) * block_size k"
  unfolding block_size_def by (simp add: mult.left_commute flip: power_add)

lemma aligned_halves:
  assumes "aligned st e (Suc k) a"
  shows "aligned st e k a" "aligned st e k (a + block_size k)"
proof -
  from assms obtain q where q: "a = st + q * block_size (Suc k)" "a + block_size (Suc k) \<le> e" by (auto simp: aligned_def)
  have "a = st + (2 * q) * block_size k" "a + block_size k = st + (2 * q + 1) * block_size k"
    using q(1) by (simp_all add: block_size_Suc algebra_simps)
  then show "aligned st e k a" "aligned st e k (a + block_size k)"
    using q(2) unfolding aligned_def block_size_Suc by (auto intro: exI [of _ "2 * q"] exI [of _ "2 * q + 1"])
qed

lemma xor_one_nat: "(q XOR 1 :: nat) = (if even q then q + 1 else q - 1)"
  unfolding xor_one_eq by simp

lemma get_buddy_addr_eq:
  "get_buddy_addr st (st + q * block_size k) k = st + (if even q then q + 1 else q - 1) * block_size k"
proof -
  have b: "block_size k = 2 ^ (k + 12)" by (simp add: block_size_def PGSIZE_def power_add)
  have "q * 2 ^ (k + 12) XOR 2 ^ (k + 12) = push_bit (k + 12) q XOR push_bit (k + 12) 1" by (simp add: push_bit_eq_mult)
  also have "\<dots> = push_bit (k + 12) (q XOR 1)" by (rule push_bit_xor [symmetric])
  finally show ?thesis unfolding get_buddy_addr_def b xor_one_nat by (simp add: push_bit_eq_mult)
qed

lemma buddy_cases:
  assumes R: "region_ok st e" and a: "aligned st e k a" and k: "k < 8"
  obtains (even) "get_buddy_addr st a k = a + block_size k" "aligned st e (Suc k) a"
    | (odd) b where "a = b + block_size k" "get_buddy_addr st a k = b" "aligned st e (Suc k) b"
proof -
  from a obtain q where q: "a = st + q * block_size k" "a + block_size k \<le> e" by (auto simp: aligned_def)
  from R obtain m where m: "e = st + m * block_size 8" by (auto simp: region_ok_def)
  have bs8: "block_size 8 = 2 ^ (7 - k) * block_size (Suc k)" using block_size_8 [of "Suc k"] k by simp
  have "Suc q * block_size k \<le> m * block_size 8" using q m by simp
  show thesis
  proof (cases "Parity.even q")
    case True
    then obtain r where r: "q = 2 * r" by blast
    have ar: "a = st + r * block_size (Suc k)" using q(1) r by (simp add: block_size_Suc)
    have "r * block_size (Suc k) < (m * 2 ^ (7 - k)) * block_size (Suc k)"
    proof -
      have "r * block_size (Suc k) + block_size k \<le> (m * 2 ^ (7 - k)) * block_size (Suc k)"
        using q(2) m ar bs8 by (simp add: mult.assoc)
      then show ?thesis using block_size_pos [of k] by linarith
    qed
    then have "Suc r \<le> m * 2 ^ (7 - k)" by simp
    then have "Suc r * block_size (Suc k) \<le> m * 2 ^ (7 - k) * block_size (Suc k)" by (rule mult_le_mono1)
    then have "aligned st e (Suc k) a" using ar m bs8 unfolding aligned_def by (auto simp: mult.assoc)
    moreover have "get_buddy_addr st a k = a + block_size k"
      unfolding q(1) get_buddy_addr_eq using True by simp
    ultimately show thesis using even by blast
  next
    case False
    then obtain r where r: "q = 2 * r + 1" by (auto elim: oddE)
    let ?b = "st + r * block_size (Suc k)"
    have "a = ?b + block_size k" using q(1) r by (simp add: block_size_Suc)
    moreover have "get_buddy_addr st a k = ?b"
      unfolding q(1) get_buddy_addr_eq using False r by (simp add: block_size_Suc)
    moreover have "aligned st e (Suc k) ?b"
      using q(2) calculation(1) by (auto simp: aligned_def block_size_Suc)
    ultimately show thesis using odd by blast
  qed
qed

lemma aligned_page:
  assumes "region_ok st e" "aligned st e k a"
  shows "a mod PGSIZE = 0" "DIRECT_MAPPING_BASE_VADDR \<le> a" "a < DIRECT_MAPPING_END_VADDR" "st \<le> a" "a < e"
proof -
  from assms(2) obtain q where q: "a = st + q * block_size k" "a + block_size k \<le> e" by (auto simp: aligned_def)
  show "st \<le> a" using q by simp
  show "a < e" using q block_size_pos [of k] by linarith
  then show "DIRECT_MAPPING_BASE_VADDR \<le> a" "a < DIRECT_MAPPING_END_VADDR" using assms(1) q by (auto simp: region_ok_def)
  have "st mod PGSIZE = 0" using assms(1) by (simp add: region_ok_def)
  moreover have "a = st + PGSIZE * (q * 2 ^ k)" using q(1) by (simp add: block_size_def)
  ultimately show "a mod PGSIZE = 0" by (metis mod_mult_self2)
qed

text \<open>Two aligned blocks are nested or disjoint.\<close>

lemma aligned_nested:
  assumes "aligned st e j a" "aligned st e k b" "j \<le> k" "covers j a x" "covers k b x"
  shows "covers j a y \<Longrightarrow> covers k b y" "j = k \<Longrightarrow> a = b"
proof -
  from assms(1) obtain p where p: "a = st + p * block_size j" by (auto simp: aligned_def)
  from assms(2) obtain q where q: "b = st + q * block_size k" by (auto simp: aligned_def)
  define c where "c = 2 ^ (k - j) * q"
  have bs: "block_size k = 2 ^ (k - j) * block_size j"
    using assms(3) unfolding block_size_def by (simp add: mult.left_commute flip: power_add)
  have b: "b = st + c * block_size j" unfolding q bs c_def by (simp add: mult.commute mult.left_commute)
  have bk: "b + block_size k = st + (c + 2 ^ (k - j)) * block_size j" unfolding b bs by (simp add: algebra_simps)
  have "c * block_size j \<le> x - st" "x - st < Suc p * block_size j" "p * block_size j \<le> x - st"
    "x - st < (c + 2 ^ (k - j)) * block_size j"
    using assms(4,5) bk unfolding covers_def p b by auto
  then have c: "c * block_size j < Suc p * block_size j" "p * block_size j < (c + 2 ^ (k - j)) * block_size j" by linarith+
  then have le: "c \<le> p" "p < c + 2 ^ (k - j)" by (simp_all only: mult_less_cancel2 less_Suc_eq_le)
  have up: "Suc p * block_size j \<le> (c + 2 ^ (k - j)) * block_size j" using le(2) by (intro mult_le_mono1) simp
  have lo: "c * block_size j \<le> p * block_size j" using le(1) by (rule mult_le_mono1)
  show "covers k b y" if "covers j a y"
  proof -
    have "st + p * block_size j \<le> y" "y < st + Suc p * block_size j" using that p by (simp_all add: covers_def)
    then have "b \<le> y" "y < b + block_size k" using up lo b bk by linarith+
    then show ?thesis by (simp add: covers_def)
  qed
  show "a = b" if "j = k" using le that unfolding p b by simp
qed

lemma buddy_ne: "aligned st e k a \<Longrightarrow> get_buddy_addr st a k \<noteq> a"
  by (auto simp: aligned_def get_buddy_addr_eq elim!: oddE split: if_splits)

lemma buddy_buddy: "aligned st e k a \<Longrightarrow> get_buddy_addr st (get_buddy_addr st a k) k = a"
  by (auto simp: aligned_def get_buddy_addr_eq elim!: oddE split: if_splits)

section \<open>Free lists\<close>

text \<open>The number of free blocks that contain the byte at \<open>x\<close>, for free lists \<open>A\<close> by order.\<close>

definition cnt :: "(nat \<Rightarrow> nat list) \<Rightarrow> nat \<Rightarrow> nat" where
  "cnt A x = (\<Sum>k<MAX_ORDER. length (filter (\<lambda>a. covers k a x) (A k)))"

lemma cnt_upd:
  assumes "k < MAX_ORDER"
  shows "cnt (A(k := as)) x + length (filter (\<lambda>a. covers k a x) (A k)) =
    cnt A x + length (filter (\<lambda>a. covers k a x) as)"
proof -
  have s: "cnt B x = length (filter (\<lambda>a. covers k a x) (B k)) + (\<Sum>j\<in>{..<MAX_ORDER} - {k}. length (filter (\<lambda>a. covers j a x) (B j)))" for B
    unfolding cnt_def using assms by (intro sum.remove) auto
  have "(\<Sum>j\<in>{..<MAX_ORDER} - {k}. length (filter (\<lambda>a. covers j a x) ((A(k := as)) j))) =
    (\<Sum>j\<in>{..<MAX_ORDER} - {k}. length (filter (\<lambda>a. covers j a x) (A j)))" by (rule sum.cong) auto
  then show ?thesis using s [of A] s [of "A(k := as)"] by simp
qed

lemma cnt_push: "k < MAX_ORDER \<Longrightarrow> cnt (A(k := a # A k)) x = cnt A x + of_bool (covers k a x)"
  using cnt_upd [of k A "a # A k" x] by (simp split: if_splits)

lemma cnt_pop: "k < MAX_ORDER \<Longrightarrow> a \<in> set (A k) \<Longrightarrow> cnt A x = cnt (A(k := remove1 a (A k))) x + of_bool (covers k a x)"
proof -
  assume k: "k < MAX_ORDER" and a: "a \<in> set (A k)"
  have "length (filter P as) = length (filter P (remove1 a as)) + of_bool (P a)" if "a \<in> set as" for P and as :: "nat list"
    using that by (induction as) auto
  from this [OF a, of "\<lambda>a. covers k a x"] show ?thesis using cnt_upd [OF k, of A "remove1 a (A k)" x] by simp
qed

lemma cnt_ge: "k < MAX_ORDER \<Longrightarrow> a \<in> set (A k) \<Longrightarrow> covers k a x \<Longrightarrow> 0 < cnt A x"
  using cnt_pop by fastforce

lemma cnt_pos: "0 < cnt A x \<longleftrightarrow> (\<exists>k<MAX_ORDER. \<exists>a\<in>set (A k). covers k a x)"
proof
  assume "0 < cnt A x"
  then have "\<not> (\<forall>k\<in>{..<MAX_ORDER}. length (filter (\<lambda>a. covers k a x) (A k)) = 0)"
    unfolding cnt_def by (metis (no_types, lifting) less_numeral_extra(3) sum.neutral)
  then obtain k where "k < MAX_ORDER" "filter (\<lambda>a. covers k a x) (A k) \<noteq> []" by auto
  then show "\<exists>k<MAX_ORDER. \<exists>a\<in>set (A k). covers k a x" by (auto simp: filter_empty_conv)
qed (use cnt_ge in blast)

text \<open>The invariant of the free lists \<open>A\<close> and the page descriptors \<open>P\<close>.\<close>

definition lists_inv :: "nat \<Rightarrow> nat \<Rightarrow> (nat \<Rightarrow> nat list) \<Rightarrow> (nat \<Rightarrow> page) \<Rightarrow> bool" where
  "lists_inv st e A P \<longleftrightarrow> region_ok st e \<and>
     (\<forall>k<MAX_ORDER. \<forall>a\<in>set (A k). aligned st e k a \<and> pgf_order (P a) = of_nat k \<and> is_free (P a) \<and> linked (P a)) \<and>
     (\<forall>a. st \<le> a \<and> a < e \<and> is_free (P a) \<longrightarrow> (\<exists>k<MAX_ORDER. a \<in> set (A k))) \<and>
     (\<forall>a. linked (P a) \<and> 0 < cnt A a \<longrightarrow> (\<exists>k<MAX_ORDER. a \<in> set (A k))) \<and>
     (\<forall>x. cnt A x \<le> 1)"

lemma lists_invD:
  assumes "lists_inv st e A P"
  shows "region_ok st e" "\<And>x. cnt A x \<le> 1"
    "\<And>k a. k < MAX_ORDER \<Longrightarrow> a \<in> set (A k) \<Longrightarrow> aligned st e k a"
    "\<And>k a. k < MAX_ORDER \<Longrightarrow> a \<in> set (A k) \<Longrightarrow> pgf_order (P a) = of_nat k"
    "\<And>k a. k < MAX_ORDER \<Longrightarrow> a \<in> set (A k) \<Longrightarrow> is_free (P a)"
    "\<And>k a. k < MAX_ORDER \<Longrightarrow> a \<in> set (A k) \<Longrightarrow> linked (P a)"
    "\<And>a. st \<le> a \<Longrightarrow> a < e \<Longrightarrow> is_free (P a) \<Longrightarrow> \<exists>k<MAX_ORDER. a \<in> set (A k)"
    "\<And>a. linked (P a) \<Longrightarrow> 0 < cnt A a \<Longrightarrow> \<exists>k<MAX_ORDER. a \<in> set (A k)"
  using assms unfolding lists_inv_def by blast+

lemma lists_unique:
  assumes I: "\<And>x. cnt A x \<le> 1" and j: "j < MAX_ORDER" "a \<in> set (A j)" and k: "k < MAX_ORDER" "b \<in> set (A k)"
    and x: "covers j a x" "covers k b x"
  shows "j = k \<and> a = b"
proof (rule ccontr)
  assume ne: "\<not> (j = k \<and> a = b)"
  let ?A = "A(j := remove1 a (A j))"
  have "b \<in> set (?A k)" using ne k(2) by auto
  then have "0 < cnt ?A x" by (rule cnt_ge [OF k(1) _ x(2)])
  then have "1 < cnt A x" using cnt_pop [where A = A and x = x, OF j] x(1) by simp
  then show False using I [of x] by simp
qed

lemma lists_removed: "\<forall>x. cnt A x \<le> 1 \<Longrightarrow> k < MAX_ORDER \<Longrightarrow> a \<in> set (A k) \<Longrightarrow> a \<notin> set (remove1 a (A k))"
proof
  assume I: "\<forall>x. cnt A x \<le> 1" and k: "k < MAX_ORDER" "a \<in> set (A k)" and a: "a \<in> set (remove1 a (A k))"
  let ?A = "A(k := remove1 a (A k))"
  have "0 < cnt ?A a" by (rule cnt_ge [OF k(1)]) (use a in auto)
  then have "1 < cnt A a" using cnt_pop [where A = A and x = a, OF k] by simp
  then show False using I by (simp add: leD)
qed

lemma lists_push:
  assumes I: "lists_inv st e A P" and k: "k < MAX_ORDER" and a: "aligned st e k a" and new: "\<And>x. covers k a x \<Longrightarrow> cnt A x = 0"
    and lnk: "\<And>x. covers k a x \<Longrightarrow> x \<noteq> a \<Longrightarrow> \<not> linked (P x)"
    and p: "pgf_order p = of_nat k" "is_free p" "linked p"
  shows "lists_inv st e (A(k := a # A k)) (P(a := p))"
proof -
  note D = lists_invD [OF I]
  have ne: "b \<noteq> a" if "j < MAX_ORDER" "b \<in> set (A j)" for j b
    using cnt_ge [where A = A, OF that covers_self] new [of a] by auto
  have "cnt (A(k := a # A k)) x \<le> 1" for x
    using cnt_push [OF k, of A a x] D(2) [of x] new [of x] by (cases "covers k a x") auto
  moreover have "\<exists>j<MAX_ORDER. b \<in> set ((A(k := a # A k)) j)" if b: "st \<le> b" "b < e" "is_free ((P(a := p)) b)" for b
  proof (cases "b = a")
    case False
    with b D(7) [of b] obtain j where "j < MAX_ORDER" "b \<in> set (A j)" by auto
    then show ?thesis by (intro exI [of _ j]) auto
  qed (use k in auto)
  moreover have "\<exists>j<MAX_ORDER. b \<in> set ((A(k := a # A k)) j)"
    if b: "linked ((P(a := p)) b)" "0 < cnt (A(k := a # A k)) b" for b
  proof (cases "b = a")
    case False
    then have "\<not> covers k a b" using lnk [of b] b(1) by auto
    then have "0 < cnt A b" using b(2) cnt_push [OF k, of A a b] by simp
    with False b(1) D(8) [of b] obtain j where "j < MAX_ORDER" "b \<in> set (A j)" by auto
    then show ?thesis by (intro exI [of _ j]) auto
  qed (use k in auto)
  moreover have "aligned st e j b \<and> pgf_order ((P(a := p)) b) = of_nat j \<and> is_free ((P(a := p)) b) \<and> linked ((P(a := p)) b)"
    if "j < MAX_ORDER" "b \<in> set ((A(k := a # A k)) j)" for j b
    using that D(3-6) [of j b] ne [of j b] a p by (auto split: if_splits)
  ultimately show ?thesis using D(1) unfolding lists_inv_def by blast
qed

lemma lists_pop:
  assumes I: "lists_inv st e A P" and k: "k < MAX_ORDER" "a \<in> set (A k)" and p: "\<not> is_free p"
  shows "lists_inv st e (A(k := remove1 a (A k))) (P(a := p))"
proof -
  note D = lists_invD [OF I]
  let ?A = "A(k := remove1 a (A k))"
  have sub: "b \<in> set (A j)" if "b \<in> set (?A j)" for j b using that set_remove1_subset [of a "A k"] by (auto split: if_splits)
  have ne: "b \<noteq> a" if "j < MAX_ORDER" "b \<in> set (?A j)" for j b
  proof
    assume "b = a"
    then have "j = k" using lists_unique [OF D(2) that(1) sub [OF that(2)] k, of a] by simp
    then show False using lists_removed [of A k a] k D(2) that(2) \<open>b = a\<close> by auto
  qed
  have "cnt ?A x \<le> 1" for x using cnt_pop [where A = A and x = x, OF k] D(2) [of x] by simp
  moreover have "\<exists>j<MAX_ORDER. b \<in> set (?A j)" if b: "st \<le> b" "b < e" "is_free ((P(a := p)) b)" for b
  proof -
    have ba: "b \<noteq> a" using b(3) p by auto
    with b D(7) [of b] obtain j where "j < MAX_ORDER" "b \<in> set (A j)" by auto
    then show ?thesis using ba by (intro exI [of _ j]) auto
  qed
  moreover have "\<exists>j<MAX_ORDER. b \<in> set (?A j)" if b: "linked ((P(a := p)) b)" "0 < cnt ?A b" for b
  proof -
    have c: "cnt A b = cnt ?A b + of_bool (covers k a b)" using cnt_pop [where A = A and x = b, OF k] .
    have ba: "b \<noteq> a" using c D(2) [of b] b(2) by auto
    with b c D(8) [of b] obtain j where "j < MAX_ORDER" "b \<in> set (A j)" by auto
    then show ?thesis using ba by (intro exI [of _ j]) auto
  qed
  moreover have "aligned st e j b \<and> pgf_order ((P(a := p)) b) = of_nat j \<and> is_free ((P(a := p)) b) \<and> linked ((P(a := p)) b)"
    if "j < MAX_ORDER" "b \<in> set (?A j)" for j b
    using D(3-6) [OF that(1) sub [OF that(2)]] ne [OF that] by simp
  ultimately show ?thesis using D(1) unfolding lists_inv_def by blast
qed

lemma lists_page:
  assumes I: "lists_inv st e A P" and a: "\<not> is_free (P a)" "\<not> is_free p" "linked p \<Longrightarrow> linked (P a)"
  shows "lists_inv st e A (P(a := p))"
proof -
  note D = lists_invD [OF I]
  have "b \<noteq> a" if "k < MAX_ORDER" "b \<in> set (A k)" for k b using D(5) [OF that] a(1) by auto
  then show ?thesis
    unfolding lists_inv_def using D a(2,3) by auto
qed

text \<open>No two free buddies of the orders other than \<open>j\<close>.\<close>

definition merged_but :: "nat \<Rightarrow> nat \<Rightarrow> (nat \<Rightarrow> nat list) \<Rightarrow> bool" where
  "merged_but st j A \<longleftrightarrow> (\<forall>k<8. k \<noteq> j \<longrightarrow> (\<forall>a\<in>set (A k). get_buddy_addr st a k \<notin> set (A k)))"

abbreviation merged :: "nat \<Rightarrow> (nat \<Rightarrow> nat list) \<Rightarrow> bool" where
  "merged st A \<equiv> merged_but st 8 A"

lemma merged_mono:
  assumes "merged_but st j A" "\<And>k. k < 8 \<Longrightarrow> k \<noteq> i \<Longrightarrow> k \<noteq> j \<and> set (B k) \<subseteq> set (A k)"
  shows "merged_but st i B"
  using assms unfolding merged_but_def by (meson subsetD)

section \<open>States\<close>

definition area :: "('l \<Rightarrow> nat list) \<Rightarrow> 'l buddy \<Rightarrow> nat \<Rightarrow> nat list" where
  "area items s k = (if k < length (free_areas s) then items (fa_list (free_areas s ! k)) else [])"

definition state_inv :: "('l \<Rightarrow> nat list) \<Rightarrow> nat \<Rightarrow> 'l buddy \<Rightarrow> bool" where
  "state_inv items e s \<longleftrightarrow> length (free_areas s) = MAX_ORDER \<and>
     (\<forall>k<MAX_ORDER. nr_free (free_areas s ! k) = length (area items s k)) \<and>
     lists_inv (start_address s) e (area items s) (pages s)"

definition same_region :: "'l buddy \<Rightarrow> 'l buddy \<Rightarrow> bool" where
  "same_region s s' \<longleftrightarrow> start_address s' = start_address s \<and> free_size s' = free_size s"

lemma same_region_refl [simp]: "same_region s s"
  by (simp add: same_region_def)

lemma same_region_trans: "same_region s t \<Longrightarrow> same_region t u \<Longrightarrow> same_region s u"
  by (simp add: same_region_def)

lemma area_set_area:
  "k < length (free_areas s) \<Longrightarrow> area items (set_area k fa s) = (area items s)(k := items (fa_list fa))"
  by (auto simp: area_def set_area_def)

lemma area_pages [simp]: "area items (s\<lparr>pages := P\<rparr>) = area items s" "area items (s\<lparr>free_size := n\<rparr>) = area items s"
  by (auto simp: area_def)

lemma set_area_simps [simp]: "pages (set_area k fa s) = pages s" "start_address (set_area k fa s) = start_address s"
  "free_size (set_area k fa s) = free_size s" "length (free_areas (set_area k fa s)) = length (free_areas s)"
  "k < length (free_areas s) \<Longrightarrow> free_areas (set_area k fa s) ! j = (if j = k then fa else free_areas s ! j)"
  by (auto simp: set_area_def)

lemma state_invD:
  assumes "state_inv items e s"
  shows "length (free_areas s) = MAX_ORDER" "\<And>k. k < MAX_ORDER \<Longrightarrow> nr_free (free_areas s ! k) = length (area items s k)"
    "lists_inv (start_address s) e (area items s) (pages s)"
    "\<And>k. k < MAX_ORDER \<Longrightarrow> items (fa_list (free_areas s ! k)) = area items s k"
  using assms by (auto simp: state_inv_def area_def)

lemma state_invI:
  assumes "state_inv items e s" "k < MAX_ORDER" "nr_free fa = length (items (fa_list fa))"
    "lists_inv (start_address s) e ((area items s)(k := items (fa_list fa))) P"
  shows "state_inv items e (set_area k fa (s\<lparr>pages := P\<rparr>))"
  using assms state_invD(1,2) [OF assms(1)] by (auto simp: state_inv_def area_set_area)

locale page_lists = linked_list_laws L items for L :: "('l, nat) linked_list" and items
begin

lemma push_state:
  assumes S: "state_inv items e s" and k: "k < MAX_ORDER" and a: "aligned (start_address s) e k a"
    and new: "\<And>x. covers k a x \<Longrightarrow> cnt (area items s) x = 0"
    and lnk: "\<And>x. covers k a x \<Longrightarrow> \<not> linked (pages s x)"
    and p: "pgf_order (pages s a) = of_nat k" "\<not> is_free (pages s a)"
  obtains s' where "fa_push_front L k a s = (Ok (), s')" "state_inv items e s'"
    "area items s' = (area items s)(k := a # area items s k)" "same_region s s'"
    "pages s' = (pages s)(a := (set_free (pages s a))\<lparr>linked := True\<rparr>)"
proof -
  note D = state_invD [OF S]
  let ?fa = "free_areas s ! k"
  let ?fa' = "?fa\<lparr>fa_list := ll_push_front L a (fa_list ?fa), nr_free := nr_free ?fa + 1\<rparr>"
  let ?P = "(pages s)(a := (set_free (pages s a))\<lparr>linked := True\<rparr>)"
  let ?s = "set_area k ?fa' (s\<lparr>pages := ?P\<rparr>)"
  have fa: "items (fa_list ?fa') = a # area items s k" using D(4) [OF k] by simp
  have "lists_inv (start_address s) e ((area items s)(k := a # area items s k)) ?P"
    by (rule lists_push [OF D(3) k a new]) (use lnk p in auto)
  then have "state_inv items e ?s" by (intro state_invI [OF S k]) (use fa D(2) [OF k] in simp_all)
  moreover have "fa_push_front L k a s = (Ok (), ?s)"
    using p(2) lnk [of a] by (simp add: fa_push_front_def Let_def)
  moreover have "area items ?s = (area items s)(k := a # area items s k)"
    using fa k D(1) by (simp add: area_set_area)
  ultimately show thesis using that by (simp add: same_region_def)
qed

lemma pop_state:
  assumes S: "state_inv items e s" and k: "k < MAX_ORDER" and a: "area items s k = a # as"
  obtains s' where "fa_pop_front L k s = (Ok (Some a), s')" "state_inv items e s'"
    "area items s' = (area items s)(k := as)" "same_region s s'"
    "pages s' = (pages s)(a := (clear_free (pages s a))\<lparr>linked := False\<rparr>)"
proof -
  note D = state_invD [OF S]
  let ?fa = "free_areas s ! k"
  have "items (fa_list ?fa) = a # as" using D(4) [OF k] a by simp
  then obtain l where l: "ll_pop_front L (fa_list ?fa) = Some (a, l)" "items l = as" by (rule pop_front_Cons)
  let ?fa' = "?fa\<lparr>fa_list := l, nr_free := nr_free ?fa - 1\<rparr>"
  let ?P = "(pages s)(a := (clear_free (pages s a))\<lparr>linked := False\<rparr>)"
  let ?s = "set_area k ?fa' (s\<lparr>pages := ?P\<rparr>)"
  have "lists_inv (start_address s) e ((area items s)(k := remove1 a (area items s k))) ?P"
    by (rule lists_pop [OF D(3) k]) (use a in simp_all)
  then have "state_inv items e ?s" by (intro state_invI [OF S k]) (use l a D(2) [OF k] in simp_all)
  moreover have "fa_pop_front L k s = (Ok (Some a), ?s)"
    using l(1) lists_invD(5) [OF D(3) k, of a] D(2) [OF k] a by (simp add: fa_pop_front_def Let_def)
  moreover have "area items ?s = (area items s)(k := as)" using l(2) k D(1) by (simp add: area_set_area)
  ultimately show thesis using that by (simp add: same_region_def)
qed

lemma pop_empty: "state_inv items e s \<Longrightarrow> k < MAX_ORDER \<Longrightarrow> area items s k = [] \<Longrightarrow> fa_pop_front L k s = (Ok None, s)"
  using state_invD(4) [of items e s k] pop_front_None [of "fa_list (free_areas s ! k)"]
  by (simp add: fa_pop_front_def Let_def)

lemma fa_is_empty_iff: "state_inv items e s \<Longrightarrow> k < MAX_ORDER \<Longrightarrow> fa_is_empty L k s \<longleftrightarrow> area items s k = []"
  using state_invD(4) [of items e s k] by (auto simp: fa_is_empty_def front_items split: list.splits)

lemma upd_page_state:
  assumes S: "state_inv items e s" and a: "\<not> is_free (pages s a)" "\<not> is_free (f (pages s a))"
    and l: "linked (f (pages s a)) = linked (pages s a)"
  shows "state_inv items e (s\<lparr>pages := (pages s)(a := f (pages s a))\<rparr>)"
proof -
  note D = state_invD [OF S]
  have "lists_inv (start_address s) e (area items s) ((pages s)(a := f (pages s a)))"
    by (rule lists_page [OF D(3) a]) (use l in simp)
  then show ?thesis using D(1,2) by (simp add: state_inv_def)
qed

text \<open>Inside a free block only the head has flags and a link.\<close>

lemma inside_block:
  assumes S: "state_inv items e s" and k: "k < MAX_ORDER" "a \<in> set (area items s k)" and x: "covers k a x" "x \<noteq> a"
  shows "\<not> is_free (pages s x)" "\<not> linked (pages s x)"
proof -
  note D = lists_invD [OF state_invD(3) [OF S]]
  have no: False if "j < MAX_ORDER" "x \<in> set (area items s j)" for j
    using lists_unique [OF D(2) that k, of x] x by simp
  have "start_address s \<le> a" "a + block_size k \<le> e" using D(3) [OF k] by (auto simp: aligned_def)
  then have "start_address s \<le> x" "x < e" using x(1) by (auto simp: covers_def)
  then show "\<not> is_free (pages s x)" using D(7) no by blast
  have "0 < cnt (area items s) x" by (rule cnt_ge [OF k(1) _ x(1)]) (rule k(2))
  then show "\<not> linked (pages s x)" using D(8) no by blast
qed

lemma upd_page_app: "upd_page a f s = (Ok (), s\<lparr>pages := (pages s)(a := f (pages s a))\<rparr>)"
  by (simp add: upd_page_def)

lemma paddr_ok: "region_ok st e \<Longrightarrow> aligned st e k a \<Longrightarrow> paddr_to_page a s = (Ok a, s)"
  using aligned_page [of st e k a] by (simp add: paddr_to_page_def)

text \<open>Two unlinked neighbours become two free blocks.\<close>

lemma push_halves:
  assumes S: "state_inv items e s" and k: "Suc j < MAX_ORDER" and a: "aligned (start_address s) e (Suc j) a"
    and new: "\<And>x. covers (Suc j) a x \<Longrightarrow> cnt (area items s) x = 0 \<and> \<not> linked (pages s x)"
    and p: "\<not> is_free (pages s a)" "pgf_order (pages s a) = of_nat j"
      "\<not> is_free (pages s (a + block_size j))" "pgf_order (pages s (a + block_size j)) = of_nat j"
  obtains s' where "bind (fa_push_front L j (a + block_size j)) (\<lambda>_. bind (fa_push_front L j a) (\<lambda>_. ret True)) s = (Ok True, s')"
    "state_inv items e s'" "area items s' = (area items s)(j := a # (a + block_size j) # area items s j)" "same_region s s'"
    "\<And>x. \<not> covers (Suc j) a x \<Longrightarrow> pages s' x = pages s x"
proof -
  let ?b = "a + block_size j"
  have j: "j < MAX_ORDER" using k by simp
  have ne: "a \<noteq> ?b" using block_size_pos [of j] by linarith
  note al = aligned_halves [OF a]
  have cv: "covers (Suc j) a x" if "covers j a x \<or> covers j ?b x" for x using that covers_split by blast
  obtain s1 where s1: "fa_push_front L j ?b s = (Ok (), s1)" "state_inv items e s1"
    "area items s1 = (area items s)(j := ?b # area items s j)" "same_region s s1"
    "pages s1 = (pages s)(?b := (set_free (pages s ?b))\<lparr>linked := True\<rparr>)"
    by (rule push_state [OF S j al(2)]) (use new cv p in auto)
  have st: "start_address s1 = start_address s" using s1(4) by (simp add: same_region_def)
  have c1: "cnt (area items s1) x = cnt (area items s) x + of_bool (covers j ?b x)" for x
    unfolding s1(3) by (rule cnt_push [OF j])
  have z: "cnt (area items s1) x = 0" if "covers j a x" for x
    using c1 [of x] new [OF cv] that covers_split_disj [of j a x] by simp
  have lnk: "\<not> linked (pages s1 x)" if "covers j a x" for x
  proof -
    have "x \<noteq> ?b" using that by (auto simp: covers_def)
    then show ?thesis using new [OF cv] that s1(5) by simp
  qed
  obtain s2 where s2: "fa_push_front L j a s1 = (Ok (), s2)" "state_inv items e s2"
    "area items s2 = (area items s1)(j := a # area items s1 j)" "same_region s1 s2"
    "pages s2 = (pages s1)(a := (set_free (pages s1 a))\<lparr>linked := True\<rparr>)"
    by (rule push_state [OF s1(2) j _ z lnk]) (use al(1) st p s1(5) ne in auto)
  show thesis
    by (rule that [of s2]) (use s1 s2 same_region_trans [OF s1(4) s2(4)] cv [of a] cv [of ?b] in \<open>auto simp: bind_def\<close>)
qed

lemma expand_hit:
  assumes S: "state_inv items e s" and k: "Suc j < MAX_ORDER" and a: "area items s (Suc j) = a # as"
  obtains s' where "expand L (Suc f) (Suc j) s = (Ok True, s')" "state_inv items e s'" "same_region s s'"
    "area items s' = (area items s)(Suc j := as, j := a # (a + block_size j) # area items s j)"
    "\<And>x. cnt (area items s') x = cnt (area items s) x"
    "\<And>x. cnt (area items s) x = 0 \<Longrightarrow> pages s' x = pages s x"
proof -
  let ?b = "a + block_size j"
  note D = state_invD [OF S]
  note LD = lists_invD [OF D(3)]
  have ain: "a \<in> set (area items s (Suc j))" using a by simp
  note al = LD(3) [OF k ain]
  have ne: "a \<noteq> ?b" using block_size_pos [of j] by linarith
  have inb: "covers (Suc j) a ?b" using block_size_pos [of j] by (simp add: covers_def block_size_Suc)
  obtain s1 where s1: "fa_pop_front L (Suc j) s = (Ok (Some a), s1)" "state_inv items e s1"
    "area items s1 = (area items s)(Suc j := as)" "same_region s s1"
    "pages s1 = (pages s)(a := (clear_free (pages s a))\<lparr>linked := False\<rparr>)"
    by (rule pop_state [OF S k a])
  have st: "start_address s1 = start_address s" using s1(4) by (simp add: same_region_def)
  have c1: "cnt (area items s) x = cnt (area items s1) x + of_bool (covers (Suc j) a x)" for x
    using cnt_pop [where A = "area items s" and x = x, OF k ain] a unfolding s1(3) by simp
  have z: "cnt (area items s1) x = 0" if "covers (Suc j) a x" for x using c1 [of x] LD(2) [of x] that by simp
  have bf: "\<not> is_free (pages s1 ?b)" using inside_block(1) [OF S k ain inb] ne s1(5) by simp
  have lnk: "\<not> linked (pages s1 x)" if "covers (Suc j) a x" for x
    using inside_block(2) [OF S k ain that] s1(5) by simp
  define g where "g = (\<lambda>p. set_pgf_order (of_nat j) (clear_free p))"
  have ob: "\<not> bit (of_nat j :: 8 word) 7" using k by (intro order_bit) (simp add: MAX_ORDER_def)
  let ?s2 = "s1\<lparr>pages := (pages s1)(a := g (pages s1 a), ?b := g (pages s1 ?b))\<rparr>"
  have S2': "state_inv items e (s1\<lparr>pages := (pages s1)(a := g (pages s1 a))\<rparr>)"
    by (rule upd_page_state [OF s1(2)]) (use ob s1(5) in \<open>auto simp: g_def\<close>)
  have S2: "state_inv items e ?s2"
    using upd_page_state [OF S2', of ?b g] bf ne ob by (simp add: g_def)
  have al2: "aligned (start_address ?s2) e (Suc j) a" using al st by simp
  obtain s3 where s3: "bind (fa_push_front L j ?b) (\<lambda>_. bind (fa_push_front L j a) (\<lambda>_. ret True)) ?s2 = (Ok True, s3)"
    "state_inv items e s3" "area items s3 = (area items ?s2)(j := a # ?b # area items ?s2 j)" "same_region ?s2 s3"
    "\<And>x. \<not> covers (Suc j) a x \<Longrightarrow> pages s3 x = pages ?s2 x"
    by (rule push_halves [OF S2 k al2]) (use z lnk ob ne in \<open>auto simp: g_def\<close>)
  have ar3: "area items s3 = (area items s)(Suc j := as, j := a # ?b # area items s j)"
    using s3(3) s1(3) by auto
  have pd: "paddr_to_page ?b t = (Ok ?b, t)" for t :: "'l buddy" by (rule paddr_ok [OF LD(1) aligned_halves(2) [OF al]])
  have "a + 2 ^ (Suc j + 12) div 2 = ?b" by (simp add: block_size_def PGSIZE_def power_add)
  then have fe: "fa_expand L (Suc j) s = (Ok (Some (a, ?b)), s1\<lparr>pages := (pages s1)(a := clear_free (pages s1 a), ?b := clear_free (pages s1 ?b))\<rparr>)"
    using s1(1) pd ne by (simp add: fa_expand_def bind_def upd_page_app)
  have "expand L (Suc f) (Suc j) s = (Ok True, s3)"
    using fe s3(1) D(1) k ne
    by (simp add: bind_def [of "fa_expand L (Suc j)"] bind_def [of "upd_page _ _"] upd_page_app g_def fun_upd_twist)
  moreover have "same_region s s3" using s1(4) s3(4) by (simp add: same_region_def)
  moreover have "cnt (area items s3) x = cnt (area items s) x" for x
  proof -
    let ?A = "area items s1"
    have j: "j < MAX_ORDER" using k by simp
    have "area items s3 = (?A(j := ?b # ?A j))(j := a # (?A(j := ?b # ?A j)) j)" using s3(3) by simp
    then have "cnt (area items s3) x = cnt ?A x + of_bool (covers j ?b x) + of_bool (covers j a x)"
      using cnt_push [OF j, of "?A(j := ?b # ?A j)" a x] cnt_push [OF j, of ?A ?b x] by simp
    then show ?thesis using c1 [of x] covers_split [of j a x] covers_split_disj [of j a x] by auto
  qed
  moreover have "pages s3 x = pages s x" if "cnt (area items s) x = 0" for x
  proof -
    have "\<not> covers (Suc j) a x" using c1 [of x] that by simp
    then show ?thesis using s3(5) [of x] inb by (auto simp: s1(5))
  qed
  ultimately show thesis using that [of s3] s3(2) ar3 by blast
qed

lemma expand_spec:
  assumes "state_inv items e s" "j < MAX_ORDER" "MAX_ORDER - j \<le> f" "area items s j = []" "merged (start_address s) (area items s)"
  shows "\<exists>b s'. expand L f (Suc j) s = (Ok b, s') \<and> state_inv items e s' \<and> same_region s s' \<and>
    (\<forall>x. cnt (area items s') x = cnt (area items s) x) \<and> (\<forall>k<j. area items s' k = area items s k) \<and>
    (\<forall>x. cnt (area items s) x = 0 \<longrightarrow> pages s' x = pages s x) \<and>
    (if b then \<exists>a. area items s' j = [a, a + block_size j] \<and> merged_but (start_address s) j (area items s')
     else s' = s \<and> (\<forall>k>j. area items s k = []))"
  using assms
proof (induction f arbitrary: j s)
  case 0
  then show ?case by simp
next
  case (Suc f)
  note S = Suc.prems(1) and M = Suc.prems(5)
  note D = state_invD [OF S]
  consider "Suc j = MAX_ORDER" | a as where "Suc j < MAX_ORDER" "area items s (Suc j) = a # as"
    | "Suc j < MAX_ORDER" "area items s (Suc j) = []"
    using Suc.prems(2) by (cases "Suc j = MAX_ORDER"; cases "area items s (Suc j)") auto
  then show ?case
  proof cases
    case 1
    then have "expand L (Suc f) (Suc j) s = (Ok False, s)" using D(1) by simp
    then show ?thesis using S 1 D(1) by (auto simp: area_def)
  next
    case (2 a as)
    obtain s' where h: "expand L (Suc f) (Suc j) s = (Ok True, s')" "state_inv items e s'" "same_region s s'"
      "area items s' = (area items s)(Suc j := as, j := a # (a + block_size j) # area items s j)"
      "\<And>x. cnt (area items s') x = cnt (area items s) x"
      "\<And>x. cnt (area items s) x = 0 \<Longrightarrow> pages s' x = pages s x" by (rule expand_hit [OF S 2]) (rule that)
    have "merged_but (start_address s) j (area items s')"
      by (rule merged_mono [OF M]) (use 2(2) in \<open>auto simp: h(4)\<close>)
    then show ?thesis using h Suc.prems(4) by auto
  next
    case 3
    have fe: "fa_expand L (Suc j) s = (Ok None, s)"
      using pop_empty [OF S 3] by (simp add: fa_expand_def bind_def)
    have "MAX_ORDER - Suc j \<le> f" using Suc.prems(3) by simp
    from Suc.IH [OF S 3(1) this 3(2) M] obtain b s1 where
      i: "expand L f (Suc (Suc j)) s = (Ok b, s1)" "state_inv items e s1" "same_region s s1"
        "\<forall>x. cnt (area items s1) x = cnt (area items s) x" "\<forall>k<Suc j. area items s1 k = area items s k"
        "\<forall>x. cnt (area items s) x = 0 \<longrightarrow> pages s1 x = pages s x"
        "if b then \<exists>a. area items s1 (Suc j) = [a, a + block_size (Suc j)] \<and> merged_but (start_address s) (Suc j) (area items s1)
         else s1 = s \<and> (\<forall>k>Suc j. area items s k = [])" by blast
    have ex: "expand L (Suc f) (Suc j) s = (if b then expand L f (Suc j) s1 else (Ok False, s1))"
      using fe i(1) D(1) 3(1) by (simp add: bind_def)
    show ?thesis
    proof (cases b)
      case False
      have "area items s k = []" if "j < k" for k using that i(7) False 3(2) by (cases "k = Suc j") auto
      then show ?thesis using ex i False S by auto
    next
      case True
      with i(7) obtain a where a: "area items s1 (Suc j) = [a, a + block_size (Suc j)]"
        "merged_but (start_address s) (Suc j) (area items s1)" by auto
      obtain g where g: "f = Suc g" using Suc.prems(3) 3(1) by (cases f) auto
      obtain s2 where h: "expand L (Suc g) (Suc j) s1 = (Ok True, s2)" "state_inv items e s2" "same_region s1 s2"
        "area items s2 = (area items s1)(Suc j := [a + block_size (Suc j)], j := a # (a + block_size j) # area items s1 j)"
        "\<And>x. cnt (area items s2) x = cnt (area items s1) x"
        "\<And>x. cnt (area items s1) x = 0 \<Longrightarrow> pages s2 x = pages s1 x" by (rule expand_hit [OF i(2) 3(1) a(1)]) (rule that)
      have j0: "area items s1 j = []" using i(5) Suc.prems(4) by simp
      have "aligned (start_address s1) e (Suc j) (a + block_size (Suc j))"
        using lists_invD(3) [OF state_invD(3) [OF i(2)] 3(1)] a(1) by simp
      then have "get_buddy_addr (start_address s) (a + block_size (Suc j)) (Suc j) \<noteq> a + block_size (Suc j)"
        using buddy_ne i(3) by (metis same_region_def)
      then have "merged_but (start_address s) j (area items s2)"
        using a(2) by (auto simp: merged_but_def h(4))
      then show ?thesis
        using ex True g h i(3,4,5,6) j0 same_region_trans [OF i(3) h(3)] by auto
    qed
  qed
qed

end

section \<open>Allocation\<close>

definition buddy_inv :: "('l \<Rightarrow> nat list) \<Rightarrow> nat \<Rightarrow> 'l buddy \<Rightarrow> bool" where
  "buddy_inv items e s \<longleftrightarrow> state_inv items e s \<and> merged (start_address s) (area items s) \<and>
     free_size s = (\<Sum>x<e. cnt (area items s) x)"

lemma sum_covers:
  assumes "a + block_size k \<le> e"
  shows "(\<Sum>x<e. of_bool (covers k a x)) = block_size k"
proof -
  have "{x \<in> {..<e}. covers k a x} = {a..<a + block_size k}" using assms by (auto simp: covers_def)
  then have "card {x \<in> {..<e}. covers k a x} = block_size k" by simp
  moreover have "(\<Sum>x<e. of_bool (covers k a x)) = card {x \<in> {..<e}. covers k a x}"
    by (simp add: sum.If_cases of_bool_def Collect_conj_eq Int_commute lessThan_def)
  ultimately show ?thesis by simp
qed

lemma sum_cnt:
  assumes "\<And>x. cnt A x = cnt B x + of_bool (covers k a x)" "a + block_size k \<le> e"
  shows "(\<Sum>x<e. cnt A x) = (\<Sum>x<e. cnt B x) + block_size k"
  using sum_covers [OF assms(2)] by (simp add: assms(1) sum.distrib)

context page_lists
begin

lemma pop_alloc:
  assumes S: "state_inv items e s" and k: "k < MAX_ORDER" and a: "area items s k = a # as"
    and M: "merged (start_address s) ((area items s)(k := as))" and fs: "free_size s = (\<Sum>x<e. cnt (area items s) x)"
  obtains s' where "bind (fa_pop_front L k) (\<lambda>x. case x of None \<Rightarrow> panic | Some pgf \<Rightarrow>
      bind (sub_free_size (block_size k)) (\<lambda>_ s.
        bind (assert_that (\<not> is_free (pages s pgf) \<and> \<not> linked (pages s pgf))) (\<lambda>_. ret (Some pgf)) s)) s = (Ok (Some a), s')"
    "buddy_inv items e s'" "aligned (start_address s) e k a" "start_address s' = start_address s"
    "\<And>x. cnt (area items s) x = cnt (area items s') x + of_bool (covers k a x)"
    "\<And>x. covers k a x \<Longrightarrow> \<not> is_free (pages s' x) \<and> \<not> linked (pages s' x)"
    "\<And>x. \<not> covers k a x \<Longrightarrow> pages s' x = pages s x"
proof -
  note LD = lists_invD [OF state_invD(3) [OF S]]
  have ain: "a \<in> set (area items s k)" using a by simp
  note al = LD(3) [OF k ain]
  obtain s1 where s1: "fa_pop_front L k s = (Ok (Some a), s1)" "state_inv items e s1"
    "area items s1 = (area items s)(k := as)" "same_region s s1"
    "pages s1 = (pages s)(a := (clear_free (pages s a))\<lparr>linked := False\<rparr>)"
    by (rule pop_state [OF S k a])
  have c1: "cnt (area items s) x = cnt (area items s1) x + of_bool (covers k a x)" for x
    using cnt_pop [where A = "area items s" and x = x, OF k ain] a unfolding s1(3) by simp
  have sm: "free_size s = (\<Sum>x<e. cnt (area items s1) x) + block_size k"
    unfolding fs by (rule sum_cnt [OF c1]) (use al in \<open>simp add: aligned_def\<close>)
  have nl: "\<not> is_free (pages s1 x) \<and> \<not> linked (pages s1 x)" if "covers k a x" for x
    using inside_block [OF S k ain that] s1(5) by (cases "x = a") auto
  let ?s = "s1\<lparr>free_size := free_size s1 - block_size k\<rparr>"
  have eq: "start_address s1 = start_address s" "free_size s1 = free_size s" using s1(4) by (simp_all add: same_region_def)
  have "buddy_inv items e ?s"
    using s1(2,3) M sm eq by (simp add: buddy_inv_def state_inv_def)
  moreover have "pages ?s x = pages s x" if "\<not> covers k a x" for x using that by (auto simp: s1(5))
  ultimately show thesis
    using that [of ?s] s1(1) nl [of a] al eq sm c1 nl by (simp add: bind_def sub_free_size_def)
qed

lemma alloc_state:
  assumes B: "buddy_inv items e s" and k: "k < MAX_ORDER"
  obtains (none) "alloc_by_order L k s = (Ok None, s)" "\<forall>j\<ge>k. area items s j = []"
    | (some) a s' where "alloc_by_order L k s = (Ok (Some a), s')" "buddy_inv items e s'" "aligned (start_address s) e k a"
      "start_address s' = start_address s"
      "\<forall>x. cnt (area items s) x = cnt (area items s') x + of_bool (covers k a x)"
      "\<forall>x. covers k a x \<longrightarrow> \<not> is_free (pages s' x) \<and> \<not> linked (pages s' x)"
      "\<forall>x. cnt (area items s) x = 0 \<longrightarrow> pages s' x = pages s x"
proof -
  have S: "state_inv items e s" and M: "merged (start_address s) (area items s)" and fs: "free_size s = (\<Sum>x<e. cnt (area items s) x)"
    using B by (simp_all add: buddy_inv_def)
  note D = state_invD [OF S]
  show thesis
  proof (cases "area items s k")
    case (Cons a as)
    have "merged (start_address s) ((area items s)(k := as))" by (rule merged_mono [OF M]) (use Cons in auto)
    from pop_alloc [OF S k Cons this fs] obtain s' where
      r: "alloc_by_order L k s = (Ok (Some a), s')" "buddy_inv items e s'" "aligned (start_address s) e k a"
      "start_address s' = start_address s"
      "\<forall>x. cnt (area items s) x = cnt (area items s') x + of_bool (covers k a x)"
      "\<forall>x. covers k a x \<longrightarrow> \<not> is_free (pages s' x) \<and> \<not> linked (pages s' x)"
      "\<forall>x. \<not> covers k a x \<longrightarrow> pages s' x = pages s x"
      using D(1) k fa_is_empty_iff [OF S k] Cons by (auto simp: alloc_by_order_def)
    have "\<not> covers k a x" if "cnt (area items s) x = 0" for x using that r(5) by auto
    then show thesis using some [OF r(1-6)] r(7) by blast
  next
    case Nil
    have "MAX_ORDER - k \<le> expand_fuel" by (simp add: MAX_ORDER_def)
    from expand_spec [OF S k this Nil M] obtain b s1 where
      i: "expand L expand_fuel (Suc k) s = (Ok b, s1)" "state_inv items e s1" "same_region s s1"
        "\<forall>x. cnt (area items s1) x = cnt (area items s) x" "\<forall>x. cnt (area items s) x = 0 \<longrightarrow> pages s1 x = pages s x"
        "if b then \<exists>a. area items s1 k = [a, a + block_size k] \<and> merged_but (start_address s) k (area items s1)
         else s1 = s \<and> (\<forall>j>k. area items s j = [])" by blast
    have pre: "alloc_by_order L k s = (if b then bind (fa_pop_front L k) (\<lambda>x. case x of None \<Rightarrow> panic | Some pgf \<Rightarrow>
      bind (sub_free_size (block_size k)) (\<lambda>_ s.
        bind (assert_that (\<not> is_free (pages s pgf) \<and> \<not> linked (pages s pgf))) (\<lambda>_. ret (Some pgf)) s)) s1 else (Ok None, s1))"
      using D(1) k fa_is_empty_iff [OF S k] Nil i(1) by (simp add: alloc_by_order_def bind_def [of "expand _ _ _"])
    show thesis
    proof (cases b)
      case False
      then have "\<forall>j\<ge>k. area items s j = []" using i(6) Nil by (auto simp: le_less)
      then show thesis using none pre False i(6) by simp
    next
      case True
      with i(6) obtain a where a: "area items s1 k = [a, a + block_size k]" "merged_but (start_address s) k (area items s1)" by auto
      have st: "start_address s1 = start_address s" "free_size s1 = free_size s" using i(3) by (simp_all add: same_region_def)
      have "aligned (start_address s1) e k (a + block_size k)"
        using lists_invD(3) [OF state_invD(3) [OF i(2)] k] a(1) by simp
      then have "get_buddy_addr (start_address s1) (a + block_size k) k \<noteq> a + block_size k" by (rule buddy_ne)
      then have M1: "merged (start_address s1) ((area items s1)(k := [a + block_size k]))"
        using a(2) st(1) by (auto simp: merged_but_def)
      have fs1: "free_size s1 = (\<Sum>x<e. cnt (area items s1) x)" using fs st i(4) by simp
      from pop_alloc [OF i(2) k a(1) M1 fs1] obtain s' where
        r: "alloc_by_order L k s = (Ok (Some a), s')" "buddy_inv items e s'" "aligned (start_address s1) e k a"
        "start_address s' = start_address s1"
        "\<forall>x. cnt (area items s1) x = cnt (area items s') x + of_bool (covers k a x)"
        "\<forall>x. covers k a x \<longrightarrow> \<not> is_free (pages s' x) \<and> \<not> linked (pages s' x)"
        "\<forall>x. \<not> covers k a x \<longrightarrow> pages s' x = pages s1 x"
        using pre True by (metis (no_types, lifting))
      have "\<not> covers k a x" if "cnt (area items s) x = 0" for x using that r(5) i(4) by (metis add_is_0 of_bool_eq(2) one_neq_zero)
      then show thesis using some [OF r(1,2)] r(3-7) st(1) i(4,5) by simp
    qed
  qed
qed

end

section \<open>Freeing\<close>

context page_lists
begin

lemma fa_merge_none:
  assumes S: "state_inv items e s" and k: "k < 8" and a: "area items s k = a # as"
    and no: "get_buddy_addr (start_address s) a k \<notin> set (area items s k)"
  shows "fa_merge L (start_address s) k s = (Ok None, s)"
proof -
  note D = state_invD [OF S]
  note LD = lists_invD [OF D(3)]
  let ?b = "get_buddy_addr (start_address s) a k"
  have k9: "k < MAX_ORDER" using k by (simp add: MAX_ORDER_def)
  have al: "aligned (start_address s) e k a" using LD(3) [OF k9] a by simp
  have bal: "aligned (start_address s) e k ?b"
    by (rule buddy_cases [OF LD(1) al k]) (use aligned_halves in \<open>auto simp del: aligned_def\<close>)
  have "\<not> (pgf_order (pages s ?b) = of_nat k \<and> is_free (pages s ?b))"
  proof
    assume f: "pgf_order (pages s ?b) = of_nat k \<and> is_free (pages s ?b)"
    then obtain j where j: "j < MAX_ORDER" "?b \<in> set (area items s j)"
      using LD(7) aligned_page(4,5) [OF LD(1) bal] by blast
    then have "(of_nat j :: 8 word) = of_nat k" using LD(4) [OF j] f by simp
    then have "j = k" using j(1) k by (subst (asm) order_eq) (simp_all add: MAX_ORDER_def)
    then show False using j(2) no by simp
  qed
  moreover have "ll_front L (fa_list (free_areas s ! k)) = Some a" using D(4) [OF k9] a by (simp add: front_items)
  moreover have "paddr_to_page ?b t = (Ok ?b, t)" for t :: "'l buddy" by (rule paddr_ok [OF LD(1) bal])
  ultimately show ?thesis by (auto simp: fa_merge_def bind_def)
qed

lemma fa_merge_some:
  assumes S: "state_inv items e s" and k: "k < 8" and a: "area items s k = a # as"
    and b: "get_buddy_addr (start_address s) a k \<in> set as"
  obtains m s' where "merge_loop L (k # ks) s = merge_loop L ks s'"
    "state_inv items e s'" "same_region s s'"
    "area items s' = (area items s)(k := remove1 (get_buddy_addr (start_address s) a k) as, Suc k := m # area items s (Suc k))"
    "\<And>x. cnt (area items s') x = cnt (area items s) x"
    "\<And>x. cnt (area items s) x = 0 \<Longrightarrow> pages s' x = pages s x"
proof -
  note D = state_invD [OF S]
  note LD = lists_invD [OF D(3)]
  let ?b = "get_buddy_addr (start_address s) a k" and ?fa = "free_areas s ! k"
  have k9: "k < MAX_ORDER" "Suc k < MAX_ORDER" using k by (simp_all add: MAX_ORDER_def)
  have ain: "a \<in> set (area items s k)" and bin: "?b \<in> set (area items s k)" using a b by simp_all
  note al = LD(3) [OF k9(1) ain] and bl = LD(3) [OF k9(1) bin]
  have ne: "?b \<noteq> a" by (rule buddy_ne [OF al])
  define m where "m = (if a < ?b then a else ?b)"
  have m: "aligned (start_address s) e (Suc k) m" "\<And>x. covers (Suc k) m x \<longleftrightarrow> covers k a x \<or> covers k ?b x" "m = a \<or> m = ?b"
  proof -
    show "m = a \<or> m = ?b" by (simp add: m_def)
    show "aligned (start_address s) e (Suc k) m"
      by (rule buddy_cases [OF LD(1) al k]) (simp_all add: m_def)
    show "covers (Suc k) m x \<longleftrightarrow> covers k a x \<or> covers k ?b x" for x
      by (rule buddy_cases [OF LD(1) al k]) (auto simp: m_def covers_split)
  qed
  have disj: "\<not> (covers k a x \<and> covers k ?b x)" for x
    using lists_unique [OF LD(2) k9(1) ain k9(1) bin, of x] ne by auto
  let ?c = "\<lambda>p. clear_free (p\<lparr>linked := False\<rparr>)"
  let ?P = "(pages s)(a := ?c (pages s a), ?b := ?c (pages s ?b))"
  let ?fa' = "?fa\<lparr>fa_list := ll_remove L ?b (ll_remove L a (fa_list ?fa)), nr_free := nr_free ?fa - 2\<rparr>"
  define s1 where "s1 = set_area k ?fa' (s\<lparr>pages := ?P\<rparr>)"
  have pg: "pages s1 = ?P" "start_address s1 = start_address s" "free_size s1 = free_size s" by (simp_all add: s1_def)
  have it: "items (fa_list ?fa) = a # as" using D(4) [OF k9(1)] a by simp
  have it1: "items (ll_remove L a (fa_list ?fa)) = as" using items_remove [of a "fa_list ?fa"] it by simp
  have it2: "items (fa_list ?fa') = remove1 ?b as" using items_remove [of ?b "ll_remove L a (fa_list ?fa)"] it1 b by simp
  have nr: "nr_free ?fa = Suc (length as)" "length as \<noteq> 0" using D(2) [OF k9(1)] a b by auto
  let ?A1 = "(area items s)(k := as)"
  have "lists_inv (start_address s) e ((area items s)(k := remove1 a (area items s k))) ((pages s)(a := ?c (pages s a)))"
    by (rule lists_pop [OF D(3) k9(1) ain]) simp
  then have i1: "lists_inv (start_address s) e ?A1 ((pages s)(a := ?c (pages s a)))" using a by simp
  have i2: "lists_inv (start_address s) e ((area items s)(k := remove1 ?b as)) ?P"
    using lists_pop [where A = ?A1 and k = k and a = ?b and p = "?c (pages s ?b)", OF i1 k9(1)] b by simp
  have S1: "state_inv items e s1"
    unfolding s1_def by (rule state_invI [OF S k9(1)]) (use it2 i2 nr b in \<open>simp_all add: length_remove1\<close>)
  have A1: "area items s1 = (area items s)(k := remove1 ?b as)" using it2 k9(1) D(1) by (simp add: s1_def area_set_area)
  have c0: "cnt (area items s) x = cnt (area items s1) x + of_bool (covers k ?b x) + of_bool (covers k a x)" for x
  proof -
    have "cnt (area items s) x = cnt ?A1 x + of_bool (covers k a x)"
      using cnt_pop [where A = "area items s" and x = x, OF k9(1) ain] a by simp
    moreover have "cnt ?A1 x = cnt (area items s1) x + of_bool (covers k ?b x)"
      using cnt_pop [where A = "?A1" and x = x and a = ?b, OF k9(1)] b unfolding A1 by simp
    ultimately show ?thesis by simp
  qed
  have z: "cnt (area items s1) x = 0" if "covers (Suc k) m x" for x
    using c0 [of x] LD(2) [of x] that m(2) by auto
  have lk: "\<not> linked (pages s1 x)" if "covers (Suc k) m x" for x
    using that m(2) [of x] inside_block(2) [OF S k9(1) ain, of x] inside_block(2) [OF S k9(1) bin, of x] by (auto simp: pg)
  have ob: "\<not> bit (of_nat (Suc k) :: 8 word) 7" using k by (intro order_bit) simp
  let ?s2 = "s1\<lparr>pages := (pages s1)(m := set_pgf_order (of_nat (Suc k)) (pages s1 m))\<rparr>"
  have nf: "\<not> is_free (pages s1 m)" using m(3) ne by (auto simp: pg)
  have S2: "state_inv items e ?s2" by (rule upd_page_state [OF S1 nf]) (use nf ob in simp_all)
  have al2: "aligned (start_address ?s2) e (Suc k) m" using m(1) pg(2) by simp
  obtain s3 where s3: "fa_push_front L (Suc k) m ?s2 = (Ok (), s3)" "state_inv items e s3"
    "area items s3 = (area items ?s2)(Suc k := m # area items ?s2 (Suc k))" "same_region ?s2 s3"
    "pages s3 = (pages ?s2)(m := (set_free (pages ?s2 m))\<lparr>linked := True\<rparr>)"
    by (rule push_state [OF S2 k9(2) al2]) (use z lk nf ob in auto)
  have fr: "ll_front L (fa_list ?fa) = Some a" using it by (simp add: front_items)
  have pd: "paddr_to_page ?b t = (Ok ?b, t)" "paddr_to_page a t = (Ok a, t)" for t :: "'l buddy"
    by (rule paddr_ok [OF LD(1) bl], rule paddr_ok [OF LD(1) al])
  have bf: "pgf_order (pages s ?b) = of_nat k" "is_free (pages s ?b)" using LD(4,5) [OF k9(1) bin] by simp_all
  have mg: "fa_merge L (start_address s) k s = (Ok (Some m), s1)"
    using fr pd bf nr ne k9(1) D(1)
    by (simp add: fa_merge_def bind_def unlink_page_def fa_sub_nr_free_def upd_page_def set_area_def m_def Let_def s1_def)
  show thesis
  proof (rule that [of s3 m])
    show "merge_loop L (k # ks) s = merge_loop L ks s3"
      using mg s3(1) by (simp add: bind_def upd_page_app add.commute)
    show "same_region s s3" using s3(4) pg by (simp add: same_region_def)
    show "area items s3 = (area items s)(k := remove1 ?b as, Suc k := m # area items s (Suc k))" using s3(3) A1 by auto
    show "cnt (area items s3) x = cnt (area items s) x" for x
    proof -
      have "cnt (area items s3) x = cnt (area items s1) x + of_bool (covers (Suc k) m x)"
        unfolding s3(3) using cnt_push [OF k9(2), of "area items ?s2" m x] by simp
      then show ?thesis using c0 [of x] m(2) [of x] disj [of x] by auto
    qed
    show "pages s3 x = pages s x" if "cnt (area items s) x = 0" for x
    proof -
      have "x \<noteq> a" "x \<noteq> ?b" using that cnt_ge [of k a "area items s" a] cnt_ge [of k ?b "area items s" ?b] k9(1) ain bin by auto
      then show ?thesis using m(3) by (auto simp: s3(5) pg)
    qed
  qed (rule s3(2))
qed

lemma merge_loop_spec:
  assumes "state_inv items e s" "k \<le> 8" "area items s k = a # as" "merged_but (start_address s) k (area items s)"
    "\<forall>x\<in>set as. get_buddy_addr (start_address s) x k \<notin> set as"
  shows "\<exists>s'. merge_loop L [k..<8] s = (Ok (), s') \<and> state_inv items e s' \<and> same_region s s' \<and>
    (\<forall>x. cnt (area items s') x = cnt (area items s) x) \<and> (\<forall>x. cnt (area items s) x = 0 \<longrightarrow> pages s' x = pages s x) \<and>
    merged (start_address s) (area items s')"
  using assms
proof (induction "8 - k" arbitrary: k s a as)
  case 0
  then have "k = 8" by simp
  then show ?case using "0.prems" by auto
next
  case (Suc n)
  then have k: "k < 8" by simp
  note S = Suc.prems(1) and A = Suc.prems(3) and M = Suc.prems(4) and T = Suc.prems(5)
  let ?b = "get_buddy_addr (start_address s) a k"
  have k9: "k < MAX_ORDER" using k by (simp add: MAX_ORDER_def)
  have al: "aligned (start_address s) e k x" if "x \<in> set (area items s k)" for x
    using lists_invD(3) [OF state_invD(3) [OF S] k9 that] .
  have upt: "[k..<8] = k # [Suc k..<8]" using k by (rule upt_conv_Cons)
  show ?case
  proof (cases "?b \<in> set as")
    case False
    then have no: "?b \<notin> set (area items s k)" using A buddy_ne [OF al, of a] by simp
    have "get_buddy_addr (start_address s) x k \<notin> set (area items s k)" if x: "x \<in> set (area items s k)" for x
    proof (cases "x = a")
      case False
      then have "x \<in> set as" using x A by simp
      moreover have "get_buddy_addr (start_address s) x k \<noteq> a" using buddy_buddy [OF al [OF x]] no x by auto
      ultimately show ?thesis using T A by auto
    qed (use no in simp)
    then have "merged (start_address s) (area items s)"
      using M unfolding merged_but_def by (metis less_irrefl)
    then show ?thesis using fa_merge_none [OF S k A no] S upt by (simp add: bind_def)
  next
    case True
    obtain s' m where
      r: "merge_loop L [k..<8] s = merge_loop L [Suc k..<8] s'" "state_inv items e s'" "same_region s s'"
      "area items s' = (area items s)(k := remove1 ?b as, Suc k := m # area items s (Suc k))"
      "\<And>x. cnt (area items s') x = cnt (area items s) x" "\<And>x. cnt (area items s) x = 0 \<Longrightarrow> pages s' x = pages s x"
      by (rule fa_merge_some [OF S k A True, of "[Suc k..<8]", folded upt]) (rule that)
    have st: "start_address s' = start_address s" using r(3) by (simp add: same_region_def)
    have M': "merged_but (start_address s') (Suc k) (area items s')"
      unfolding merged_but_def
    proof (intro allI impI ballI)
      fix j x assume j: "j < 8" "j \<noteq> Suc k" and x: "x \<in> set (area items s' j)"
      show "get_buddy_addr (start_address s') x j \<notin> set (area items s' j)"
      proof (cases "j = k")
        case True
        then show ?thesis using x T set_remove1_subset [of ?b as] by (auto simp: r(4) st)
      next
        case False
        then show ?thesis using x j M by (auto simp: r(4) st merged_but_def)
      qed
    qed
    have T': "\<forall>x\<in>set (area items s (Suc k)). get_buddy_addr (start_address s') x (Suc k) \<notin> set (area items s (Suc k))"
      if "Suc k < 8" using M that by (simp add: merged_but_def st)
    show ?thesis
    proof (cases "Suc k < 8")
      case True
      have n: "n = 8 - Suc k" "Suc k \<le> 8" using Suc.hyps(2) True by simp_all
      have "area items s' (Suc k) = m # area items s (Suc k)" using r(4) by simp
      from Suc.hyps(1) [OF n(1) r(2) n(2) this M' T' [OF True]] obtain s'' where
        "merge_loop L [Suc k..<8] s' = (Ok (), s'')" "state_inv items e s''" "same_region s' s''"
        "\<forall>x. cnt (area items s'') x = cnt (area items s') x" "\<forall>x. cnt (area items s') x = 0 \<longrightarrow> pages s'' x = pages s' x"
        "merged (start_address s') (area items s'')" by blast
      then show ?thesis using r(1,5,6) st same_region_trans [OF r(3)] by (intro exI [of _ s'']) simp
    next
      case False
      then have e8: "Suc k = 8" using k by simp
      have "merged (start_address s) (area items s')" using M' st e8 by simp
      then show ?thesis using r e8 by auto
    qed
  qed
qed

lemma free_state:
  assumes B: "buddy_inv items e s" and k: "k < MAX_ORDER" and a: "aligned (start_address s) e k a"
    and new: "\<And>x. covers k a x \<Longrightarrow> cnt (area items s) x = 0 \<and> \<not> linked (pages s x)"
  obtains s' where "free_by_order L a k s = (Ok (), s')" "buddy_inv items e s'" "start_address s' = start_address s"
    "\<forall>x. cnt (area items s') x = cnt (area items s) x + of_bool (covers k a x)"
    "\<forall>x. cnt (area items s') x = 0 \<longrightarrow> pages s' x = pages s x"
proof -
  have S: "state_inv items e s" and M: "merged (start_address s) (area items s)" and fs: "free_size s = (\<Sum>x<e. cnt (area items s) x)"
    using B by (simp_all add: buddy_inv_def)
  note D = state_invD [OF S]
  note LD = lists_invD [OF D(3)]
  have pd: "paddr_to_page a t = (Ok a, t)" for t :: "'l buddy" by (rule paddr_ok [OF LD(1) a])
  have nf: "\<not> is_free (pages s a)"
    using LD(7) [OF aligned_page(4,5) [OF LD(1) a]] new [of a] cnt_ge [of _ a "area items s" a] by fastforce
  have ob: "\<not> bit (of_nat k :: 8 word) 7" using k by (intro order_bit) (simp add: MAX_ORDER_def)
  let ?s1 = "s\<lparr>pages := (pages s)(a := set_pgf_order (of_nat k) (pages s a))\<rparr>"
  have S1: "state_inv items e ?s1" by (rule upd_page_state [OF S nf]) (use nf ob in simp_all)
  have a1: "aligned (start_address ?s1) e k a" using a by simp
  obtain s2 where s2: "fa_push_front L k a ?s1 = (Ok (), s2)" "state_inv items e s2"
    "area items s2 = (area items ?s1)(k := a # area items ?s1 k)" "same_region ?s1 s2"
    "pages s2 = (pages ?s1)(a := (set_free (pages ?s1 a))\<lparr>linked := True\<rparr>)"
    by (rule push_state [OF S1 k a1]) (use new nf ob in auto)
  have eq: "start_address s2 = start_address s" "free_size s2 = free_size s" using s2(4) by (simp_all add: same_region_def)
  let ?s3 = "s2\<lparr>free_size := free_size s2 + block_size k\<rparr>"
  have S3: "state_inv items e ?s3" using s2(2) by (simp add: state_inv_def)
  have A3: "area items ?s3 = (area items s)(k := a # area items s k)" using s2(3) by simp
  have c3: "cnt (area items ?s3) x = cnt (area items s) x + of_bool (covers k a x)" for x
    unfolding A3 by (rule cnt_push [OF k])
  have M3: "merged_but (start_address ?s3) k (area items ?s3)"
    unfolding A3 using M eq(1) by (auto simp: merged_but_def)
  have k8: "k \<le> 8" using k by (simp add: MAX_ORDER_def)
  obtain s4 where s4: "merge_loop L [k..<8] ?s3 = (Ok (), s4)" "state_inv items e s4" "same_region ?s3 s4"
    "\<forall>x. cnt (area items s4) x = cnt (area items ?s3) x" "merged (start_address ?s3) (area items s4)"
    "\<forall>x. cnt (area items ?s3) x = 0 \<longrightarrow> pages s4 x = pages ?s3 x"
  proof (cases "k < 8")
    case True
    have "\<forall>x\<in>set (area items s k). get_buddy_addr (start_address ?s3) x k \<notin> set (area items s k)"
      using M True eq(1) by (simp add: merged_but_def)
    then show thesis using merge_loop_spec [OF S3 k8 _ M3, of a "area items s k"] A3 that by auto
  next
    case False
    then have "k = 8" using k8 by simp
    then show thesis using that [of ?s3] S3 M3 by simp
  qed
  have e4: "start_address s4 = start_address s" "free_size s4 = free_size s + block_size k"
    using s4(3) eq by (simp_all add: same_region_def)
  have c4: "cnt (area items s4) x = cnt (area items s) x + of_bool (covers k a x)" for x using s4(4) c3 by simp
  have "free_size s4 = (\<Sum>x<e. cnt (area items s4) x)"
    using sum_cnt [OF c4] a fs e4(2) by (simp add: aligned_def)
  then have "buddy_inv items e s4" using s4(2,5) e4(1) eq(1) by (simp add: buddy_inv_def)
  moreover have "free_by_order L a k s = (Ok (), s4)"
    using D(1) k pd nf new [of a] s2(1) s4(1) state_invD(1) [OF S3]
    by (simp add: free_by_order_def bind_def upd_page_app merge_def MAX_ORDER_def)
  moreover have "pages s4 x = pages s x" if "cnt (area items s4) x = 0" for x
  proof -
    have "cnt (area items ?s3) x = 0" "x \<noteq> a" using that s4(4) c4 [of x] by auto
    then show ?thesis using s4(6) s2(5) by simp
  qed
  ultimately show thesis using that e4(1) c4 by blast
qed

end

section \<open>The decomposition into merged blocks is unique\<close>

lemma buddy_low: "aligned st e (Suc k) a \<Longrightarrow> get_buddy_addr st a k = a + block_size k"
proof -
  assume "aligned st e (Suc k) a"
  then obtain q where "a = st + q * block_size (Suc k)" by (auto simp: aligned_def)
  then have "a = st + (2 * q) * block_size k" by (simp add: block_size_Suc)
  then show ?thesis using get_buddy_addr_eq [of st "2 * q" k] by simp
qed

lemma free_block_in_list:
  assumes I: "lists_inv st e A P" and M: "merged st A" and k: "k < MAX_ORDER" and a: "aligned st e k a"
    and fr: "\<And>x. covers k a x \<Longrightarrow> 0 < cnt A x"
  shows "\<exists>j b. k \<le> j \<and> j < MAX_ORDER \<and> b \<in> set (A j) \<and> (\<forall>x. covers k a x \<longrightarrow> covers j b x)"
  using k a fr
proof (induction k arbitrary: a)
  case 0
  have "0 < cnt A a" using 0(3) by simp
  then obtain j b where b: "j < MAX_ORDER" "b \<in> set (A j)" "covers j b a" unfolding cnt_pos by blast
  then show ?case using aligned_nested(1) [OF 0(2) lists_invD(3) [OF I b(1,2)] _ covers_self b(3)] by auto
next
  case (Suc k)
  let ?c = "a + block_size k"
  note h = aligned_halves [OF Suc.prems(2)]
  have k: "k < MAX_ORDER" using Suc.prems(1) by simp
  have half: "covers (Suc k) a x" if "covers k a x \<or> covers k ?c x" for x using that covers_split by blast
  obtain j1 b1 where b1: "k \<le> j1" "j1 < MAX_ORDER" "b1 \<in> set (A j1)" "\<forall>x. covers k a x \<longrightarrow> covers j1 b1 x"
    using Suc.IH [OF k h(1)] Suc.prems(3) half by blast
  obtain j2 b2 where b2: "k \<le> j2" "j2 < MAX_ORDER" "b2 \<in> set (A j2)" "\<forall>x. covers k ?c x \<longrightarrow> covers j2 b2 x"
    using Suc.IH [OF k h(2)] Suc.prems(3) half by blast
  have up: ?case if "Suc k \<le> j" "j < MAX_ORDER" "b \<in> set (A j)" "covers j b x" "covers (Suc k) a x" for j b x
    using aligned_nested(1) [OF Suc.prems(2) lists_invD(3) [OF I that(2,3)] that(1,5,4)] that by blast
  show ?case
  proof (cases "j1 = k \<and> j2 = k")
    case False
    then consider "Suc k \<le> j1" | "Suc k \<le> j2" using b1(1) b2(1) by linarith
    then show ?thesis
    proof cases
      case 1
      show ?thesis by (rule up [OF 1 b1(2,3), of a]) (use b1(4) in auto)
    next
      case 2
      show ?thesis by (rule up [OF 2 b2(2,3), of ?c]) (use b2(4) half in auto)
    qed
  next
    case True
    then have j: "j1 = k" "j2 = k" by simp_all
    note B1 = b1 [unfolded j(1)] and B2 = b2 [unfolded j(2)]
    have "a = b1" "?c = b2"
      by (rule aligned_nested(2) [OF h(1) lists_invD(3) [OF I B1(2,3)] B1(1) covers_self B1(4) [rule_format, OF covers_self] refl],
          rule aligned_nested(2) [OF h(2) lists_invD(3) [OF I B2(2,3)] B2(1) covers_self B2(4) [rule_format, OF covers_self] refl])
    then have ac: "a \<in> set (A k)" "?c \<in> set (A k)" using B1(3) B2(3) by simp_all
    have "k < 8" using Suc.prems(1) by (simp add: MAX_ORDER_def)
    then have "get_buddy_addr st a k \<notin> set (A k)" using M ac(1) unfolding merged_but_def by simp
    then show ?thesis using buddy_low [OF Suc.prems(2)] ac(2) by simp
  qed
qed

lemma merged_unique:
  assumes A: "lists_inv st e A P" "merged st A" and B: "lists_inv st e B Q" "merged st B"
    and same: "\<And>x. 0 < cnt A x \<longleftrightarrow> 0 < cnt B x" and k: "k < MAX_ORDER"
  shows "set (A k) \<subseteq> set (B k)"
proof
  fix a assume a: "a \<in> set (A k)"
  note al = lists_invD(3) [OF A(1) k a]
  have "0 < cnt B x" if "covers k a x" for x using cnt_ge [of k a A x] k a that same by blast
  from free_block_in_list [OF B k al this] obtain j b where
    b: "k \<le> j" "j < MAX_ORDER" "b \<in> set (B j)" "\<forall>x. covers k a x \<longrightarrow> covers j b x" by blast
  note bl = lists_invD(3) [OF B(1) b(2,3)]
  have "0 < cnt A x" if "covers j b x" for x using cnt_ge [of j b B x] b that same by blast
  from free_block_in_list [OF A b(2) bl this] obtain i c where
    c: "j \<le> i" "i < MAX_ORDER" "c \<in> set (A i)" "\<forall>x. covers j b x \<longrightarrow> covers i c x" by blast
  have "covers i c a" using b(4) c(4) by simp
  then have "k = i" using lists_unique [OF lists_invD(2) [OF A(1)] k a c(2,3), of a] by simp
  then have j: "k = j" using b(1) c(1) by simp
  have "a = b" by (rule aligned_nested(2) [OF al bl b(1) covers_self b(4) [rule_format, OF covers_self] j])
  then show "a \<in> set (B k)" using b(3) j by simp
qed

section \<open>Initialisation\<close>

context page_lists
begin

lemma init_order_spec:
  assumes "state_inv items e s" "addr + m * block_size 8 = e" "aligned (start_address s) e 8 addr \<or> m = 0"
    "\<forall>x. cnt (area items s) x = of_bool (start_address s \<le> x \<and> x < addr)" "start_address s \<le> addr"
    "\<forall>x\<ge>addr. \<not> is_free (pages s x) \<and> \<not> linked (pages s x)" "\<forall>j<8. area items s j = []"
  shows "\<exists>s'. init_order L 8 addr e s = (Ok e, s') \<and> state_inv items e s' \<and> same_region s s' \<and>
    (\<forall>x. cnt (area items s') x = of_bool (start_address s \<le> x \<and> x < e)) \<and> (\<forall>j<8. area items s' j = [])"
  using assms
proof (induction m arbitrary: addr s)
  case 0
  then show ?case by (subst init_order.simps) auto
next
  case (Suc m)
  note S = Suc.prems(1)
  note D = state_invD [OF S]
  note LD = lists_invD [OF D(3)]
  have k: "8 < MAX_ORDER" by (simp add: MAX_ORDER_def)
  have al: "aligned (start_address s) e 8 addr" using Suc.prems(3) by simp
  have pd: "paddr_to_page addr t = (Ok addr, t)" for t :: "'l buddy" by (rule paddr_ok [OF LD(1) al])
  have ob: "\<not> bit (of_nat 8 :: 8 word) 7" by (rule order_bit) simp
  let ?s1 = "s\<lparr>pages := (pages s)(addr := set_pgf_order (of_nat 8) (pages s addr))\<rparr>"
  have nf: "\<not> is_free (pages s x)" "\<not> linked (pages s x)" if "addr \<le> x" for x using Suc.prems(6) that by auto
  have S1: "state_inv items e ?s1" by (rule upd_page_state [OF S nf(1)]) (use nf ob in simp_all)
  have z: "cnt (area items ?s1) x = 0" if "covers 8 addr x" for x using Suc.prems(4) that by (simp add: covers_def)
  have al1: "aligned (start_address ?s1) e 8 addr" using al by simp
  obtain s2 where s2: "fa_push_front L 8 addr ?s1 = (Ok (), s2)" "state_inv items e s2"
    "area items s2 = (area items ?s1)(8 := addr # area items ?s1 8)" "same_region ?s1 s2"
    "pages s2 = (pages ?s1)(addr := (set_free (pages ?s1 addr))\<lparr>linked := True\<rparr>)"
    by (rule push_state [OF S1 k al1 z]) (use nf ob in \<open>auto simp: covers_def\<close>)
  have st: "start_address s2 = start_address s" using s2(4) by (simp add: same_region_def)
  let ?a = "addr + block_size 8"
  have c: "cnt (area items s2) x = of_bool (start_address s2 \<le> x \<and> x < ?a)" for x
  proof -
    have "cnt (area items s2) x = cnt (area items s) x + of_bool (covers 8 addr x)"
      unfolding s2(3) using cnt_push [OF k, of "area items s" addr x] by simp
    then show ?thesis using Suc.prems(4,5) st by (auto simp: covers_def)
  qed
  have al2: "aligned (start_address s2) e 8 ?a \<or> m = 0"
  proof (cases "m = 0")
    case False
    from al obtain q where "addr = start_address s + q * block_size 8" by (auto simp: aligned_def)
    then have "?a = start_address s2 + Suc q * block_size 8" using st by simp
    moreover have "?a + block_size 8 \<le> e" using Suc.prems(2) False by (cases m) auto
    ultimately show ?thesis unfolding aligned_def by blast
  qed simp
  have io: "init_order L 8 addr e s = init_order L 8 ?a e s2"
    using Suc.prems(2) pd s2(1) by (subst init_order.simps) (simp add: bind_def upd_page_app)
  have p: "\<forall>x\<ge>?a. \<not> is_free (pages s2 x) \<and> \<not> linked (pages s2 x)"
    using nf block_size_pos [of 8] by (auto simp: s2(5))
  have "?a + m * block_size 8 = e" "start_address s2 \<le> ?a" "\<forall>j<8. area items s2 j = []"
    using Suc.prems(2,5,7) st by (simp_all add: s2(3))
  from Suc.IH [OF s2(2) this(1) al2 _ this(2) p this(3)] c obtain s' where
    "init_order L 8 ?a e s2 = (Ok e, s')" "state_inv items e s'" "same_region s2 s'"
    "\<forall>x. cnt (area items s') x = of_bool (start_address s2 \<le> x \<and> x < e)" "\<forall>j<8. area items s' j = []" by blast
  then show ?case using io st s2(4) by (intro exI [of _ s']) (auto simp: same_region_def)
qed

lemma init_orders_done: "init_orders L ks e e s = (Ok (), s)"
proof (induction ks)
  case (Cons k ks)
  have "init_order L k e e s = (Ok e, s)" using block_size_pos [of k] by (subst init_order.simps) simp
  moreover have "s\<lparr>free_size := free_size s\<rparr> = s" by simp
  ultimately show ?case using Cons.IH by (simp add: bind_def)
qed simp

lemma buddy_init_spec:
  assumes R: "region_ok st e" "st < e" and P: "\<forall>x. \<not> is_free (P x) \<and> \<not> linked (P x)"
  obtains s' where "buddy_init L st e (buddy_default L P) = (Ok (), s')" "buddy_inv items e s'" "start_address s' = st"
    "\<forall>x. cnt (area items s') x = of_bool (st \<le> x \<and> x < e)"
proof -
  let ?s = "(buddy_default L P)\<lparr>start_address := st\<rparr>"
  from R obtain m where m: "e = st + m * block_size 8" by (auto simp: region_ok_def)
  have ar: "area items ?s k = []" for k by (auto simp: area_def buddy_default_def)
  have c: "cnt (area items ?s) x = 0" for x by (simp add: cnt_def ar)
  have "lists_inv st e (area items ?s) P" using R(1) P c by (simp add: lists_inv_def ar)
  then have S: "state_inv items e ?s" by (auto simp: state_inv_def ar) (auto simp: buddy_default_def)
  have "aligned st e 8 st \<or> m = 0" using m by (cases m) (auto simp: aligned_def intro: exI [of _ 0])
  moreover have "pages ?s = P" "start_address ?s = st" by (simp_all add: buddy_default_def)
  ultimately obtain s1 where i: "init_order L 8 st e ?s = (Ok e, s1)" "state_inv items e s1" "same_region ?s s1"
    "\<forall>x. cnt (area items s1) x = of_bool (st \<le> x \<and> x < e)" "\<forall>j<8. area items s1 j = []"
    using init_order_spec [OF S, of st m] m P c ar by auto
  let ?s1 = "s1\<lparr>free_size := free_size s1 + (e - st)\<rparr>"
  have e1: "start_address s1 = st" "free_size s1 = 0" using i(3) by (simp_all add: same_region_def buddy_default_def)
  have m9: "MAX_ORDER = Suc 8" by (simp add: MAX_ORDER_def)
  have "rev [0..<MAX_ORDER] = 8 # rev [0..<8]" unfolding m9 upt_Suc by simp
  then have r: "buddy_init L st e (buddy_default L P) = (Ok (), ?s1)"
    using i(1) init_orders_done by (simp add: buddy_init_def bind_def)
  have "(\<Sum>x<e. cnt (area items s1) x) = card {st..<e}"
  proof -
    have "{..<e} \<inter> Collect ((\<le>) st) = {st..<e}" by auto
    then show ?thesis using i(4) by (simp add: of_bool_def sum.If_cases)
  qed
  then have "buddy_inv items e ?s1"
    using i(2,5) e1 by (simp add: buddy_inv_def state_inv_def merged_but_def)
  then show thesis using that r e1(1) i(4) by simp
qed

end

section \<open>A client of the allocator\<close>

definition free_byte :: "('l \<Rightarrow> nat list) \<Rightarrow> 'l buddy \<Rightarrow> nat \<Rightarrow> bool" where
  "free_byte items s x \<longleftrightarrow> 0 < cnt (area items s) x"

text \<open>The states of the allocator and the blocks its clients hold: they allocate blocks of any order and give back
  blocks they hold with the order they asked for.\<close>

inductive buddy_run :: "('l, nat) linked_list \<Rightarrow> 'l buddy \<Rightarrow> 'l buddy \<Rightarrow> (nat \<times> nat) set \<Rightarrow> bool"
  for L s0 where
  run_start: "buddy_run L s0 s0 {}"
| run_alloc: "buddy_run L s0 s H \<Longrightarrow> alloc_by_order L k s = (Ok (Some a), s') \<Longrightarrow> k < MAX_ORDER \<Longrightarrow>
    buddy_run L s0 s' (insert (k, a) H)"
| run_alloc_none: "buddy_run L s0 s H \<Longrightarrow> alloc_by_order L k s = (Ok None, s') \<Longrightarrow> k < MAX_ORDER \<Longrightarrow> buddy_run L s0 s' H"
| run_free: "buddy_run L s0 s H \<Longrightarrow> (k, a) \<in> H \<Longrightarrow> free_by_order L a k s = (Ok (), s') \<Longrightarrow> buddy_run L s0 s' (H - {(k, a)})"

text \<open>Held blocks are aligned, disjoint from each other and from the free blocks.\<close>

definition held_ok :: "('l \<Rightarrow> nat list) \<Rightarrow> nat \<Rightarrow> 'l buddy \<Rightarrow> (nat \<times> nat) set \<Rightarrow> bool" where
  "held_ok items e s H \<longleftrightarrow> buddy_inv items e s \<and>
     (\<forall>(k, a) \<in> H. k < MAX_ORDER \<and> aligned (start_address s) e k a \<and>
        (\<forall>x. covers k a x \<longrightarrow> \<not> free_byte items s x \<and> \<not> linked (pages s x))) \<and>
     (\<forall>(k, a) \<in> H. \<forall>(j, b) \<in> H. \<forall>x. covers k a x \<longrightarrow> covers j b x \<longrightarrow> (k, a) = (j, b))"

lemma held_okD:
  assumes "held_ok items e s H"
  shows "buddy_inv items e s" "\<And>k a. (k, a) \<in> H \<Longrightarrow> k < MAX_ORDER \<and> aligned (start_address s) e k a"
    "\<And>k a x. (k, a) \<in> H \<Longrightarrow> covers k a x \<Longrightarrow> cnt (area items s) x = 0 \<and> \<not> linked (pages s x)"
    "\<And>k a j b x. (k, a) \<in> H \<Longrightarrow> (j, b) \<in> H \<Longrightarrow> covers k a x \<Longrightarrow> covers j b x \<Longrightarrow> k = j \<and> a = b"
  using assms by (fastforce simp: held_ok_def free_byte_def)+

lemma held_okI:
  assumes "buddy_inv items e s" "\<And>k a. (k, a) \<in> H \<Longrightarrow> k < MAX_ORDER \<and> aligned (start_address s) e k a"
    "\<And>k a x. (k, a) \<in> H \<Longrightarrow> covers k a x \<Longrightarrow> cnt (area items s) x = 0 \<and> \<not> linked (pages s x)"
    "\<And>k a j b x. (k, a) \<in> H \<Longrightarrow> (j, b) \<in> H \<Longrightarrow> covers k a x \<Longrightarrow> covers j b x \<Longrightarrow> k = j \<and> a = b"
  shows "held_ok items e s H"
  using assms unfolding held_ok_def free_byte_def by auto

context page_lists
begin

lemma held_alloc:
  assumes H: "held_ok items e s H" and k: "k < MAX_ORDER" and a: "alloc_by_order L k s = (Ok (Some a), s')"
  shows "held_ok items e s' (insert (k, a) H) \<and> start_address s' = start_address s"
proof -
  note D = held_okD [OF H]
  from D(1) k show ?thesis
  proof (cases rule: alloc_state)
    case none
    then show ?thesis using a by simp
  next
    case r: (some a' s2)
    have e: "a' = a" "s2 = s'" using r(1) a by simp_all
    note r' = r [unfolded e]
    have new: "cnt (area items s) x = 1 \<and> cnt (area items s') x = 0" if "covers k a x" for x
    proof -
      have "cnt (area items s) x \<le> 1" using D(1) by (auto simp: buddy_inv_def state_inv_def lists_inv_def)
      moreover have "cnt (area items s) x = cnt (area items s') x + 1" using r'(5) that by simp
      ultimately show ?thesis by linarith
    qed
    have old: "cnt (area items s') x = 0 \<and> pages s' x = pages s x" if "(j, b) \<in> H" "covers j b x" for j b x
    proof -
      have "cnt (area items s) x = 0" using D(3) [OF that] by simp
      moreover have "cnt (area items s) x = cnt (area items s') x + of_bool (covers k a x)" using r'(5) by blast
      ultimately show ?thesis using r'(7) by simp
    qed
    have dis: "\<not> (covers j b x \<and> covers k a x)" if "(j, b) \<in> H" for j b x
      using D(3) [OF that, of x] new [of x] by auto
    have "held_ok items e s' (insert (k, a) H)"
    proof (rule held_okI [OF r'(2)])
      show "j < MAX_ORDER \<and> aligned (start_address s') e j b" if "(j, b) \<in> insert (k, a) H" for j b
        using that D(2) [of j b] k r'(3,4) by auto
      show "cnt (area items s') x = 0 \<and> \<not> linked (pages s' x)" if "(j, b) \<in> insert (k, a) H" "covers j b x" for j b x
      proof (cases "(j, b) = (k, a)")
        case True
        then show ?thesis using that(2) new [of x] r'(6) by simp
      next
        case False
        then have "(j, b) \<in> H" using that(1) by blast
        then show ?thesis using old [OF _ that(2)] D(3) [OF _ that(2)] by simp
      qed
      show "j = i \<and> b = c" if "(j, b) \<in> insert (k, a) H" "(i, c) \<in> insert (k, a) H" "covers j b x" "covers i c x" for j b i c x
        using that D(4) [of j b i c x] dis [of j b x] dis [of i c x] by blast
    qed
    then show ?thesis using r'(4) by simp
  qed
qed

lemma held_free:
  assumes H: "held_ok items e s H" and ka: "(k, a) \<in> H"
  shows "\<exists>s'. free_by_order L a k s = (Ok (), s') \<and> held_ok items e s' (H - {(k, a)}) \<and> start_address s' = start_address s \<and>
    (\<forall>x. free_byte items s' x \<longleftrightarrow> free_byte items s x \<or> covers k a x)"
proof -
  note D = held_okD [OF H]
  have k: "k < MAX_ORDER" "aligned (start_address s) e k a" using D(2) [OF ka] by auto
  obtain s' where r: "free_by_order L a k s = (Ok (), s')" "buddy_inv items e s'" "start_address s' = start_address s"
    "\<forall>x. cnt (area items s') x = cnt (area items s) x + of_bool (covers k a x)"
    "\<forall>x. cnt (area items s') x = 0 \<longrightarrow> pages s' x = pages s x"
    by (rule free_state [OF D(1) k]) (use D(3) [OF ka] that in auto)
  have old: "cnt (area items s') x = 0 \<and> pages s' x = pages s x" if "(j, b) \<in> H" "(j, b) \<noteq> (k, a)" "covers j b x" for j b x
  proof -
    have "\<not> covers k a x" using D(4) [OF that(1) ka that(3)] that(2) by auto
    then have "cnt (area items s') x = 0" using r(4) D(3) [OF that(1,3)] by simp
    then show ?thesis using r(5) by simp
  qed
  have "held_ok items e s' (H - {(k, a)})"
  proof (rule held_okI [OF r(2)])
    show "j < MAX_ORDER \<and> aligned (start_address s') e j b" if "(j, b) \<in> H - {(k, a)}" for j b
      using that D(2) [of j b] r(3) by simp
    show "cnt (area items s') x = 0 \<and> \<not> linked (pages s' x)" if "(j, b) \<in> H - {(k, a)}" "covers j b x" for j b x
      using that old [of j b x] D(3) [of j b x] by auto
    show "j = i \<and> b = c" if "(j, b) \<in> H - {(k, a)}" "(i, c) \<in> H - {(k, a)}" "covers j b x" "covers i c x" for j b i c x
      using that D(4) by blast
  qed
  then show ?thesis using r by (auto simp: free_byte_def)
qed

lemma run_held:
  assumes "buddy_run L s0 s H" "buddy_inv items e s0"
  shows "held_ok items e s H \<and> start_address s = start_address s0"
  using assms(1)
proof induction
  case run_start
  then show ?case using assms(2) by (simp add: held_ok_def)
next
  case (run_alloc s H k a s')
  then show ?case using held_alloc [of e s H k a s'] by simp
next
  case (run_alloc_none s H k s')
  then have "buddy_inv items e s" by (simp add: held_ok_def)
  then have "s' = s" by (rule alloc_state) (use run_alloc_none in auto)
  then show ?case using run_alloc_none by simp
next
  case (run_free s H k a s')
  from held_free [of e s H k a] run_free show ?case by auto
qed

end

section \<open>Properties\<close>

text \<open>The region of the kernel and its allocator right after start.\<close>

lemma kernel_region: "region_ok DIRECT_MAPPING_BASE_VADDR DIRECT_MAPPING_END_VADDR" "DIRECT_MAPPING_BASE_VADDR < DIRECT_MAPPING_END_VADDR"
proof -
  have "DIRECT_MAPPING_END_VADDR = DIRECT_MAPPING_BASE_VADDR + 128 * block_size 8"
    by (simp add: DIRECT_MAPPING_END_VADDR_def DIRECT_MAPPING_SIZE_def block_size_def PGSIZE_def)
  then show "region_ok DIRECT_MAPPING_BASE_VADDR DIRECT_MAPPING_END_VADDR"
    unfolding region_ok_def by (auto simp: DIRECT_MAPPING_BASE_VADDR_def PGSIZE_def)
  show "DIRECT_MAPPING_BASE_VADDR < DIRECT_MAPPING_END_VADDR"
    by (simp add: DIRECT_MAPPING_END_VADDR_def DIRECT_MAPPING_SIZE_def)
qed

lemma page_new_blank: "\<not> is_free page_new \<and> \<not> linked page_new"
  by (simp add: page_new_def is_free_def)

interpretation hpl: page_lists hol_list "\<lambda>l. l"
  by (intro page_lists.intro hl.linked_list_laws_axioms)

definition kernel_start :: "nat list buddy" where
  "kernel_start = snd (buddy_init hol_list DIRECT_MAPPING_BASE_VADDR DIRECT_MAPPING_END_VADDR (buddy_default hol_list (\<lambda>_. page_new)))"

lemma kernel_start_inv: "buddy_inv (\<lambda>l. l) DIRECT_MAPPING_END_VADDR kernel_start"
  "start_address kernel_start = DIRECT_MAPPING_BASE_VADDR"
  "cnt (area (\<lambda>l. l) kernel_start) x = of_bool (DIRECT_MAPPING_BASE_VADDR \<le> x \<and> x < DIRECT_MAPPING_END_VADDR)"
proof -
  obtain s where s: "buddy_init hol_list DIRECT_MAPPING_BASE_VADDR DIRECT_MAPPING_END_VADDR (buddy_default hol_list (\<lambda>_. page_new)) = (Ok (), s)"
    "buddy_inv (\<lambda>l. l) DIRECT_MAPPING_END_VADDR s" "start_address s = DIRECT_MAPPING_BASE_VADDR"
    "\<forall>x. cnt (area (\<lambda>l. l) s) x = of_bool (DIRECT_MAPPING_BASE_VADDR \<le> x \<and> x < DIRECT_MAPPING_END_VADDR)"
    by (rule hpl.buddy_init_spec [OF kernel_region, of "\<lambda>_. page_new"]) (use page_new_blank that in auto)
  then have "kernel_start = s" by (simp add: kernel_start_def)
  then show "buddy_inv (\<lambda>l. l) DIRECT_MAPPING_END_VADDR kernel_start" "start_address kernel_start = DIRECT_MAPPING_BASE_VADDR"
    "cnt (area (\<lambda>l. l) kernel_start) x = of_bool (DIRECT_MAPPING_BASE_VADDR \<le> x \<and> x < DIRECT_MAPPING_END_VADDR)"
    using s(2-4) by simp_all
qed

lemma kernel_start_alloc:
  assumes k: "k < MAX_ORDER"
  obtains a s' where "alloc_by_order hol_list k kernel_start = (Ok (Some a), s')"
  using kernel_start_inv(1) k
proof (cases rule: hpl.alloc_state)
  case none
  let ?st = DIRECT_MAPPING_BASE_VADDR and ?e = DIRECT_MAPPING_END_VADDR and ?A = "area (\<lambda>l. l) kernel_start"
  have bs: "?st + block_size 8 \<le> ?e"
    by (simp add: block_size_def PGSIZE_def DIRECT_MAPPING_END_VADDR_def DIRECT_MAPPING_SIZE_def)
  then have al: "aligned ?st ?e 8 ?st" by (auto simp: aligned_def intro: exI [of _ 0])
  have fr: "0 < cnt ?A x" if "covers 8 ?st x" for x using that bs by (simp add: kernel_start_inv(3) covers_def)
  have I: "lists_inv ?st ?e ?A (pages kernel_start)" "merged ?st ?A"
    using kernel_start_inv(1,2) by (simp_all add: buddy_inv_def state_inv_def)
  have "8 < MAX_ORDER" by (simp add: MAX_ORDER_def)
  from free_block_in_list [OF I this al fr] obtain j b where "8 \<le> j" "b \<in> set (?A j)" by blast
  moreover have "k \<le> j" using k calculation(1) by (simp add: MAX_ORDER_def)
  ultimately show thesis using none(2) by simp
next
  case (some a s')
  then show thesis using that by blast
qed

text \<open>C40: Initialisation. For a page-aligned region inside the direct mapping that is a whole number of blocks of the largest order, with blank
  descriptors, \<open>init\<close> succeeds, establishes the invariant, and makes free exactly the bytes of the region.\<close>

theorem buddy_init_correct:
  assumes "linked_list_laws L items" "region_ok st e" "st < e" "\<forall>x. \<not> is_free (P x) \<and> \<not> linked (P x)"
  shows "\<exists>s. buddy_init L st e (buddy_default L P) = (Ok (), s) \<and> buddy_inv items e s \<and> start_address s = st \<and>
    free_size s = e - st \<and> (\<forall>x. free_byte items s x \<longleftrightarrow> st \<le> x \<and> x < e)"
proof -
  have "page_lists L items" using assms(1) by (rule page_lists.intro)
  from page_lists.buddy_init_spec [OF this assms(2,3,4)] obtain s where
    s: "buddy_init L st e (buddy_default L P) = (Ok (), s)" "buddy_inv items e s" "start_address s = st"
      "\<forall>x. cnt (area items s) x = of_bool (st \<le> x \<and> x < e)" by blast
  have "{..<e} \<inter> {x. st \<le> x \<and> x < e} = {st..<e}" "Collect ((\<le>) st) \<inter> {..<e} = {st..<e}" by auto
  then have "(\<Sum>x<e. cnt (area items s) x) = e - st" using s(4) by (simp add: of_bool_def sum.If_cases Int_commute)
  then show ?thesis using s by (auto simp: buddy_inv_def free_byte_def)
qed

theorem buddy_init_correct_witness:
  "\<exists>s. buddy_init hol_list DIRECT_MAPPING_BASE_VADDR DIRECT_MAPPING_END_VADDR (buddy_default hol_list (\<lambda>_. page_new)) = (Ok (), s) \<and>
     free_size s = 128 * 1024 * 1024"
  using buddy_init_correct [OF hl.linked_list_laws_axioms kernel_region, of "\<lambda>_. page_new"] page_new_blank
  by (auto simp: DIRECT_MAPPING_END_VADDR_def DIRECT_MAPPING_SIZE_def)

text \<open>C8: Allocation. On a state that satisfies the invariant, \<open>alloc_by_order\<close> never panics and never runs out of the fuel of the model. It returns \<open>None\<close>,
  changing nothing, exactly when no aligned block of the requested order is wholly free; otherwise it returns an aligned block of that
  order that was free, and afterwards the free bytes are the old ones without the block, the counter of
  free bytes has gone down by its size, and the invariant holds.\<close>

theorem buddy_alloc_correct:
  assumes "linked_list_laws L items" "buddy_inv items e s" "k < MAX_ORDER"
  shows "\<exists>r s'. alloc_by_order L k s = (Ok r, s') \<and> buddy_inv items e s' \<and>
    (case r of
       None \<Rightarrow> s' = s \<and> \<not> (\<exists>a. aligned (start_address s) e k a \<and> (\<forall>x. covers k a x \<longrightarrow> free_byte items s x))
     | Some a \<Rightarrow> aligned (start_address s) e k a \<and> (\<forall>x. covers k a x \<longrightarrow> free_byte items s x) \<and>
         (\<forall>x. free_byte items s' x \<longleftrightarrow> free_byte items s x \<and> \<not> covers k a x) \<and>
         free_size s = free_size s' + block_size k)"
proof -
  have pl: "page_lists L items" using assms(1) by (rule page_lists.intro)
  have I: "lists_inv (start_address s) e (area items s) (pages s)" "merged (start_address s) (area items s)"
    using assms(2) by (auto simp: buddy_inv_def state_inv_def)
  show ?thesis
  proof (rule page_lists.alloc_state [OF pl assms(2,3)], goal_cases none some)
    case none
    have "\<not> (\<exists>a. aligned (start_address s) e k a \<and> (\<forall>x. covers k a x \<longrightarrow> free_byte items s x))"
      using free_block_in_list [OF I assms(3)] none(2) by (fastforce simp: free_byte_def)
    then show ?thesis using none(1) assms(2) by auto
  next
    case r: (some a s')
    have le: "cnt (area items s) x \<le> 1" for x by (rule lists_invD(2) [OF I(1)])
    have c: "cnt (area items s) x = cnt (area items s') x + of_bool (covers k a x)" for x using r(5) by blast
    have f: "free_byte items s' x \<longleftrightarrow> free_byte items s x \<and> \<not> covers k a x" "covers k a x \<longrightarrow> free_byte items s x" for x
      using c [of x] le [of x] by (auto simp: free_byte_def)
    have "free_size s = free_size s' + block_size k"
      using sum_cnt [OF c] r(2,3) assms(2) by (simp add: buddy_inv_def aligned_def)
    then show ?thesis using r(1-3) f by auto
  qed
qed

theorem buddy_alloc_correct_witness:
  "\<exists>a s'. alloc_by_order hol_list 0 kernel_start = (Ok (Some a), s') \<and> \<not> free_byte (\<lambda>l. l) s' a"
proof -
  obtain a s' where a: "alloc_by_order hol_list 0 kernel_start = (Ok (Some a), s')"
    by (rule kernel_start_alloc [of 0]) (auto simp: MAX_ORDER_def)
  show ?thesis
    using buddy_alloc_correct [OF hl.linked_list_laws_axioms kernel_start_inv(1), of 0] a by (auto simp: MAX_ORDER_def)
qed

text \<open>C9: No double allocation. However clients allocate blocks of any order and give back blocks they hold, starting from a state that satisfies the
  invariant, the blocks held at any time are aligned, disjoint from each other and from the free
  memory; giving back any of them succeeds, and makes exactly its bytes free again.\<close>

theorem buddy_no_double_allocation:
  assumes "linked_list_laws L items" "buddy_inv items e s0" "buddy_run L s0 s H" "(k, a) \<in> H"
  shows "(\<forall>x. covers k a x \<longrightarrow> \<not> free_byte items s x) \<and> aligned (start_address s0) e k a \<and>
    (\<forall>j b x. (j, b) \<in> H \<longrightarrow> covers k a x \<longrightarrow> covers j b x \<longrightarrow> j = k \<and> b = a) \<and>
    (\<exists>s'. free_by_order L a k s = (Ok (), s') \<and> buddy_inv items e s' \<and>
       (\<forall>x. free_byte items s' x \<longleftrightarrow> free_byte items s x \<or> covers k a x))"
proof -
  have pl: "page_lists L items" using assms(1) by (rule page_lists.intro)
  have H: "held_ok items e s H" "start_address s = start_address s0"
    using page_lists.run_held [OF pl assms(3,2)] by auto
  note D = held_okD [OF H(1)]
  obtain s' where s': "free_by_order L a k s = (Ok (), s')" "held_ok items e s' (H - {(k, a)})"
    "\<forall>x. free_byte items s' x \<longleftrightarrow> free_byte items s x \<or> covers k a x"
    using page_lists.held_free [OF pl H(1) assms(4)] by blast
  have "\<forall>j b x. (j, b) \<in> H \<longrightarrow> covers k a x \<longrightarrow> covers j b x \<longrightarrow> j = k \<and> b = a" using D(4) [OF assms(4)] by blast
  then show ?thesis
    using s'(1,3) D(2,3) [OF assms(4)] held_okD(1) [OF s'(2)] H(2) by (auto simp: free_byte_def)
qed

theorem buddy_no_double_allocation_witness:
  "\<exists>a s'. alloc_by_order hol_list 3 kernel_start = (Ok (Some a), s') \<and> aligned DIRECT_MAPPING_BASE_VADDR DIRECT_MAPPING_END_VADDR 3 a \<and>
     (\<exists>s''. free_by_order hol_list a 3 s' = (Ok (), s''))"
proof -
  obtain a s' where a: "alloc_by_order hol_list 3 kernel_start = (Ok (Some a), s')"
    by (rule kernel_start_alloc [of 3]) (auto simp: MAX_ORDER_def)
  have run: "buddy_run hol_list kernel_start s' {(3, a)}"
    using run_alloc [OF run_start a] by (simp add: MAX_ORDER_def)
  show ?thesis
    using buddy_no_double_allocation [OF hl.linked_list_laws_axioms kernel_start_inv(1) run, of 3 a] a kernel_start_inv(2) by auto
qed

text \<open>C10: Freeing undoes an allocation. Allocating a block and giving it back restores, for every order, the set of free blocks and the counter
  of free bytes: all splits made for the allocation are merged again.\<close>

theorem buddy_alloc_free_roundtrip:
  assumes "linked_list_laws L items" "buddy_inv items e s" "k < MAX_ORDER" "alloc_by_order L k s = (Ok (Some a), s1)"
  shows "\<exists>s2. free_by_order L a k s1 = (Ok (), s2) \<and> free_size s2 = free_size s \<and>
    (\<forall>j<MAX_ORDER. set (area items s2 j) = set (area items s j))"
proof -
  have pl: "page_lists L items" using assms(1) by (rule page_lists.intro)
  have "buddy_run L s s1 {(k, a)}" using run_alloc [OF run_start assms(4,3)] .
  then have H: "held_ok items e s1 {(k, a)}" "start_address s1 = start_address s"
    using page_lists.run_held [OF pl _ assms(2)] by auto
  from page_lists.held_free [OF pl H(1), of k a] obtain s2 where
    f: "free_by_order L a k s1 = (Ok (), s2)" "held_ok items e s2 {}" "start_address s2 = start_address s1"
      "\<forall>x. free_byte items s2 x \<longleftrightarrow> free_byte items s1 x \<or> covers k a x" by auto
  have B2: "buddy_inv items e s2" by (rule held_okD(1) [OF f(2)])
  have same: "0 < cnt (area items s2) x \<longleftrightarrow> 0 < cnt (area items s) x" for x
  proof -
    have "\<exists>c. \<forall>x. cnt (area items s) x = cnt (area items s1) x + of_bool (covers k a x)"
      using assms(2,3) by (cases rule: page_lists.alloc_state [OF pl]) (use assms(4) in auto)
    then show ?thesis using f(4) by (simp add: free_byte_def)
  qed
  have I: "lists_inv (start_address s) e (area items s) (pages s)" "merged (start_address s) (area items s)"
    "lists_inv (start_address s) e (area items s2) (pages s2)" "merged (start_address s) (area items s2)"
    using assms(2) B2 H(2) f(3) by (auto simp: buddy_inv_def state_inv_def)
  have "set (area items s2 j) = set (area items s j)" if "j < MAX_ORDER" for j
    using merged_unique [OF I(3,4) I(1,2) same that] merged_unique [OF I(1,2) I(3,4) same [symmetric] that] by blast
  moreover have "cnt (area items s2) x = cnt (area items s) x" for x
    using same [of x] lists_invD(2) [OF I(1), of x] lists_invD(2) [OF I(3), of x] by linarith
  then have "free_size s2 = free_size s" using assms(2) B2 by (simp add: buddy_inv_def)
  ultimately show ?thesis using f(1) by blast
qed

theorem buddy_alloc_free_roundtrip_witness:
  "\<exists>a s1 s2. alloc_by_order hol_list 2 kernel_start = (Ok (Some a), s1) \<and> free_by_order hol_list a 2 s1 = (Ok (), s2) \<and>
     free_size s2 = free_size kernel_start"
proof -
  obtain a s1 where a: "alloc_by_order hol_list 2 kernel_start = (Ok (Some a), s1)"
    by (rule kernel_start_alloc [of 2]) (auto simp: MAX_ORDER_def)
  then show ?thesis
    using buddy_alloc_free_roundtrip [OF hl.linked_list_laws_axioms kernel_start_inv(1) _ a] by (auto simp: MAX_ORDER_def)
qed

end
