(* ===== verification/Rw_PageCache.thy ===== *)
theory Rw_PageCache
  imports Rw_BuddySpec
begin

text \<open>
  The per-CPU cache of single pages in front of the buddy allocator (\<open>PageCacheList\<close> in
  src/kernel/src/mmu/buddy.rs): refilling and draining keep the set of available pages, and no page is handed
  out twice, whichever CPU asks.
\<close>

section \<open>The invariant\<close>

definition cached :: "('l \<Rightarrow> nat list) \<Rightarrow> 'l mm \<Rightarrow> nat \<Rightarrow> nat list" where
  "cached items m c = items (cache_list (caches m c))"

abbreviation acnt :: "('l \<Rightarrow> nat list) \<Rightarrow> 'l mm \<Rightarrow> nat \<Rightarrow> nat" where
  "acnt items m \<equiv> cnt (area items (allocator m))"

definition cache_ok :: "('l \<Rightarrow> nat list) \<Rightarrow> nat \<Rightarrow> 'l mm \<Rightarrow> bool" where
  "cache_ok items e m \<longleftrightarrow>
     (\<forall>c. cache_list_len (caches m c) = length (cached items m c) \<and> distinct (cached items m c)) \<and>
     (\<forall>c d. c \<noteq> d \<longrightarrow> set (cached items m c) \<inter> set (cached items m d) = {}) \<and>
     (\<forall>c. \<forall>a\<in>set (cached items m c). aligned (start_address (allocator m)) e 0 a \<and> linked (pages (allocator m) a) \<and>
        (\<forall>x. covers 0 a x \<longrightarrow> acnt items m x = 0 \<and> (x \<noteq> a \<longrightarrow> \<not> linked (pages (allocator m) x))))"

definition mm_inv :: "('l \<Rightarrow> nat list) \<Rightarrow> nat \<Rightarrow> 'l mm \<Rightarrow> bool" where
  "mm_inv items e m \<longleftrightarrow> buddy_inv items e (allocator m) \<and> cache_ok items e m"

text \<open>Bytes that can still be allocated: free in the buddy allocator or in a cached page.\<close>

definition avail :: "('l \<Rightarrow> nat list) \<Rightarrow> 'l mm \<Rightarrow> nat \<Rightarrow> bool" where
  "avail items m x \<longleftrightarrow> free_byte items (allocator m) x \<or> (\<exists>c. \<exists>a\<in>set (cached items m c). covers 0 a x)"

text \<open>A page that nobody has: aligned, not available, not in a list.\<close>

definition in_use :: "('l \<Rightarrow> nat list) \<Rightarrow> nat \<Rightarrow> 'l mm \<Rightarrow> nat \<Rightarrow> bool" where
  "in_use items e m a \<longleftrightarrow> aligned (start_address (allocator m)) e 0 a \<and>
     (\<forall>x. covers 0 a x \<longrightarrow> acnt items m x = 0 \<and> \<not> linked (pages (allocator m) x))"

lemma cache_okD:
  assumes "cache_ok items e m"
  shows "\<And>c. cache_list_len (caches m c) = length (cached items m c)" "\<And>c. distinct (cached items m c)"
    "\<And>c d. c \<noteq> d \<Longrightarrow> set (cached items m c) \<inter> set (cached items m d) = {}"
    "\<And>c a. a \<in> set (cached items m c) \<Longrightarrow> aligned (start_address (allocator m)) e 0 a"
    "\<And>c a. a \<in> set (cached items m c) \<Longrightarrow> linked (pages (allocator m) a)"
    "\<And>c a x. a \<in> set (cached items m c) \<Longrightarrow> covers 0 a x \<Longrightarrow> acnt items m x = 0"
    "\<And>c a x. a \<in> set (cached items m c) \<Longrightarrow> covers 0 a x \<Longrightarrow> x \<noteq> a \<Longrightarrow> \<not> linked (pages (allocator m) x)"
  using assms unfolding cache_ok_def by blast+

lemma page_same:
  assumes "aligned st e 0 a" "aligned st e 0 b" "covers 0 a x" "covers 0 b x"
  shows "a = b"
  by (rule aligned_nested(2) [OF assms(1,2) order_refl assms(3,4) refl])

text \<open>Links of pages outside the free memory can change without harm to the allocator.\<close>

lemma buddy_inv_link:
  assumes "buddy_inv items e b" "cnt (area items b) a = 0"
  shows "buddy_inv items e (b\<lparr>pages := (pages b)(a := (pages b a)\<lparr>linked := v\<rparr>)\<rparr>)"
proof -
  let ?P = "(pages b)(a := (pages b a)\<lparr>linked := v\<rparr>)"
  have I: "lists_inv (start_address b) e (area items b) (pages b)" using assms(1) by (simp add: buddy_inv_def state_inv_def)
  note D = lists_invD [OF I]
  have ne: "x \<noteq> a" if "k < MAX_ORDER" "x \<in> set (area items b k)" for k x
    using cnt_ge [of k x "area items b" x] that assms(2) by auto
  have f: "is_free (?P x) = is_free (pages b x)" for x by simp
  have l: "linked (?P x) \<Longrightarrow> 0 < cnt (area items b) x \<Longrightarrow> \<exists>k<MAX_ORDER. x \<in> set (area items b k)" for x
    using D(8) [of x] assms(2) by (cases "x = a") auto
  have "lists_inv (start_address b) e (area items b) ?P"
    unfolding lists_inv_def using D(1-7) ne l f by auto
  then show ?thesis using assms(1) by (simp add: buddy_inv_def state_inv_def)
qed

lemma cache_okI:
  assumes "\<And>c. cache_list_len (caches m c) = length (cached items m c)" "\<And>c. distinct (cached items m c)"
    "\<And>c d. c \<noteq> d \<Longrightarrow> set (cached items m c) \<inter> set (cached items m d) = {}"
    "\<And>c a. a \<in> set (cached items m c) \<Longrightarrow> aligned (start_address (allocator m)) e 0 a"
    "\<And>c a. a \<in> set (cached items m c) \<Longrightarrow> linked (pages (allocator m) a)"
    "\<And>c a x. a \<in> set (cached items m c) \<Longrightarrow> covers 0 a x \<Longrightarrow> acnt items m x = 0"
    "\<And>c a x. a \<in> set (cached items m c) \<Longrightarrow> covers 0 a x \<Longrightarrow> x \<noteq> a \<Longrightarrow> \<not> linked (pages (allocator m) x)"
  shows "cache_ok items e m"
  unfolding cache_ok_def using assms by blast

section \<open>Operations\<close>

context page_lists
begin

lemma cache_push_state:
  assumes I: "mm_inv items e m" and a: "in_use items e m a"
  obtains m' where "cache_push_front L cpu a m = (Ok (), m')" "mm_inv items e m'"
    "cached items m' = (cached items m)(cpu := a # cached items m cpu)"
    "start_address (allocator m') = start_address (allocator m)" "\<forall>x. acnt items m' x = acnt items m x"
    "\<forall>x. x \<noteq> a \<longrightarrow> pages (allocator m') x = pages (allocator m) x"
proof -
  let ?b = "allocator m" and ?c = "caches m cpu"
  let ?b' = "?b\<lparr>pages := (pages ?b)(a := (pages ?b a)\<lparr>linked := True\<rparr>)\<rparr>"
  define n where "n = m\<lparr>allocator := ?b', caches := (caches m)(cpu := ?c\<lparr>cache_list := ll_push_front L a (cache_list ?c),
    cache_list_len := cache_list_len ?c + 1\<rparr>)\<rparr>"
  have B: "buddy_inv items e ?b" and C: "cache_ok items e m" using I by (simp_all add: mm_inv_def)
  note D = cache_okD [OF C]
  have al: "aligned (start_address ?b) e 0 a" and z: "\<And>x. covers 0 a x \<Longrightarrow> acnt items m x = 0 \<and> \<not> linked (pages ?b x)"
    using a by (simp_all add: in_use_def)
  have new: "a \<notin> set (cached items m c)" for c using D(5) [of a c] z [of a] by auto
  have cs: "cached items n = (cached items m)(cpu := a # cached items m cpu)" by (auto simp: cached_def n_def)
  have al': "allocator n = ?b'" and ln: "cache_list_len (caches n c) = (if c = cpu then 1 else 0) + cache_list_len (caches m c)" for c
    by (simp_all add: n_def)
  have B': "buddy_inv items e (allocator n)" using buddy_inv_link [OF B, of a True] z [of a] by (simp add: al')
  have C': "cache_ok items e n"
  proof (rule cache_okI)
    fix c show "cache_list_len (caches n c) = length (cached items n c)" using D(1) [of c] by (simp add: cs ln)
    show "distinct (cached items n c)" using D(2) [of c] new [of c] by (auto simp: cs)
    show "set (cached items n c) \<inter> set (cached items n d) = {}" if "c \<noteq> d" for d
      using D(3) [OF that] new that by (auto simp: cs)
    fix p assume p: "p \<in> set (cached items n c)"
    show "aligned (start_address (allocator n)) e 0 p" using p D(4) [of p c] al by (auto simp: cs al' split: if_splits)
    show "linked (pages (allocator n) p)" using p D(5) [of p c] by (auto simp: cs al' split: if_splits)
    fix x assume x: "covers 0 p x"
    show "acnt items n x = 0" using p D(6) [of p c x] x z [of x] by (auto simp: cs al' split: if_splits)
    show "\<not> linked (pages (allocator n) x)" if "x \<noteq> p"
    proof (cases "p = a")
      case True
      then show ?thesis using x z [of x] that by (simp add: al')
    next
      case False
      then have pc: "p \<in> set (cached items m c)" using p by (auto simp: cs split: if_splits)
      have "x \<noteq> a" using page_same [OF al D(4) [OF pc] covers_self] x False by auto
      then show ?thesis using D(7) [OF pc x that] by (simp add: al')
    qed
  qed
  have "cache_push_front L cpu a m = (Ok (), n)" using z [of a] by (simp add: cache_push_front_def Let_def n_def)
  then show thesis using that [of n] B' C' cs by (simp add: mm_inv_def al')
qed

lemma cache_take_state:
  assumes I: "mm_inv items e m" and a: "a \<in> set (cached items m cpu)" and l: "items l = remove1 a (cached items m cpu)"
  obtains m' where "cache_take cpu a l m = (Ok (), m')" "mm_inv items e m'" "in_use items e m' a"
    "cached items m' = (cached items m)(cpu := remove1 a (cached items m cpu))"
    "start_address (allocator m') = start_address (allocator m)" "\<forall>x. acnt items m' x = acnt items m x"
    "\<forall>x. x \<noteq> a \<longrightarrow> pages (allocator m') x = pages (allocator m) x"
proof -
  let ?b = "allocator m" and ?c = "caches m cpu"
  let ?b' = "?b\<lparr>pages := (pages ?b)(a := (pages ?b a)\<lparr>linked := False\<rparr>)\<rparr>"
  define n where "n = m\<lparr>allocator := ?b', caches := (caches m)(cpu := ?c\<lparr>cache_list := l, cache_list_len := cache_list_len ?c - 1\<rparr>)\<rparr>"
  have B: "buddy_inv items e ?b" and C: "cache_ok items e m" using I by (simp_all add: mm_inv_def)
  note D = cache_okD [OF C]
  have cs: "cached items n = (cached items m)(cpu := remove1 a (cached items m cpu))" using l by (auto simp: cached_def n_def)
  have al': "allocator n = ?b'" and ln: "cache_list_len (caches n c) = cache_list_len (caches m c) - (if c = cpu then 1 else 0)" for c
    by (simp_all add: n_def)
  have len: "cache_list_len ?c \<noteq> 0" using D(1) [of cpu] a by auto
  have sub: "p \<in> set (cached items m c) \<and> p \<noteq> a" if "p \<in> set (cached items n c)" for p c
  proof (cases "c = cpu")
    case True
    then show ?thesis using that D(2) [of cpu] by (simp add: cs)
  next
    case False
    then show ?thesis using that D(3) [OF False] a by (auto simp: cs)
  qed
  have B': "buddy_inv items e (allocator n)" using buddy_inv_link [OF B, of a False] D(6) [OF a covers_self] by (simp add: al')
  have C': "cache_ok items e n"
  proof (rule cache_okI)
    fix c show "cache_list_len (caches n c) = length (cached items n c)" using D(1) a by (simp add: cs ln length_remove1)
    show "distinct (cached items n c)" using D(2) [of c] by (auto simp: cs)
    show "set (cached items n c) \<inter> set (cached items n d) = {}" if "c \<noteq> d" for d
      using D(3) [OF that] sub [of _ c] sub [of _ d] by blast
    fix p assume p: "p \<in> set (cached items n c)"
    note p' = sub [OF p]
    show "aligned (start_address (allocator n)) e 0 p" using D(4) [of p c] p' by (simp add: al')
    show "linked (pages (allocator n) p)" using D(5) [of p c] p' by (simp add: al')
    fix x assume x: "covers 0 p x"
    show "acnt items n x = 0" using D(6) [of p c x] x p' by (simp add: al')
    show "\<not> linked (pages (allocator n) x)" if "x \<noteq> p" using D(7) [of p c x] x p' that by (simp add: al')
  qed
  have "in_use items e n a" using D(4) [OF a] D(6,7) [OF a] by (auto simp: in_use_def al')
  moreover have "cache_take cpu a l m = (Ok (), n)" using len by (simp add: cache_take_def Let_def n_def)
  ultimately show thesis using that [of n] B' C' cs by (simp add: mm_inv_def al')
qed

text \<open>Moving a page between the allocator and the hands of the caller.\<close>

lemma buddy_alloc_page:
  assumes I: "mm_inv items e m"
  obtains (none) "on_buddy (alloc_by_order L 0) m = (Ok None, m)" "\<forall>x. \<not> free_byte items (allocator m) x"
    | (some) a m' where "on_buddy (alloc_by_order L 0) m = (Ok (Some a), m')" "mm_inv items e m'" "in_use items e m' a"
      "cached items m' = cached items m" "start_address (allocator m') = start_address (allocator m)"
      "\<forall>x. acnt items m x = acnt items m' x + of_bool (covers 0 a x)"
      "\<forall>x. acnt items m x = 0 \<longrightarrow> pages (allocator m') x = pages (allocator m) x"
proof -
  have B: "buddy_inv items e (allocator m)" and C: "cache_ok items e m" using I by (simp_all add: mm_inv_def)
  note D = cache_okD [OF C]
  have k: "0 < MAX_ORDER" by (simp add: MAX_ORDER_def)
  from B k show thesis
  proof (cases rule: alloc_state)
    case r: none
    have "m\<lparr>allocator := allocator m\<rparr> = m" by simp
    then show thesis using none r by (simp add: on_buddy_def free_byte_def cnt_def)
  next
    case r: (some a b)
    let ?m = "m\<lparr>allocator := b\<rparr>"
    have cs: "cached items ?m = cached items m" by (auto simp: cached_def)
    have old: "acnt items ?m x = 0 \<and> pages b x = pages (allocator m) x" if "p \<in> set (cached items m c)" "covers 0 p x" for p c x
    proof -
      have z: "acnt items m x = 0" using D(6) [OF that] .
      moreover have "acnt items m x = acnt items ?m x + of_bool (covers 0 a x)" using r(5) by simp
      ultimately show ?thesis using r(7) by simp
    qed
    have le: "acnt items m x \<le> 1" for x using B by (auto simp: buddy_inv_def state_inv_def lists_inv_def)
    have z: "acnt items ?m x = 0" if "covers 0 a x" for x
    proof -
      have "acnt items m x = acnt items ?m x + 1" using r(5) that by simp
      then show ?thesis using le [of x] by linarith
    qed
    have "cache_ok items e ?m"
    proof (rule cache_okI)
      fix c show "cache_list_len (caches ?m c) = length (cached items ?m c)" "distinct (cached items ?m c)"
        using D(1,2) by (simp_all add: cs)
      show "set (cached items ?m c) \<inter> set (cached items ?m d) = {}" if "c \<noteq> d" for d using D(3) [OF that] by (simp add: cs)
      fix p assume "p \<in> set (cached items ?m c)"
      then have p: "p \<in> set (cached items m c)" by (simp add: cs)
      show "aligned (start_address (allocator ?m)) e 0 p" using D(4) [OF p] r(4) by simp
      show "linked (pages (allocator ?m) p)" using D(5) [OF p] old [OF p covers_self] by simp
      fix x assume x: "covers 0 p x"
      show "acnt items ?m x = 0" using old [OF p x] by simp
      show "\<not> linked (pages (allocator ?m) x)" if "x \<noteq> p" using D(7) [OF p x that] old [OF p x] by simp
    qed
    then have "mm_inv items e ?m" using r(2) by (simp add: mm_inv_def)
    moreover have "in_use items e ?m a" using r(3,4,6) z by (simp add: in_use_def)
    ultimately show thesis using some [of a ?m] r(1,4,5,7) cs by (simp add: on_buddy_def)
  qed
qed

lemma buddy_free_page:
  assumes I: "mm_inv items e m" and a: "in_use items e m a"
  obtains m' where "on_buddy (free_by_order L a 0) m = (Ok (), m')" "mm_inv items e m'" "cached items m' = cached items m"
    "start_address (allocator m') = start_address (allocator m)"
    "\<forall>x. acnt items m' x = acnt items m x + of_bool (covers 0 a x)"
    "\<forall>x. acnt items m' x = 0 \<longrightarrow> pages (allocator m') x = pages (allocator m) x"
proof -
  have B: "buddy_inv items e (allocator m)" and C: "cache_ok items e m" using I by (simp_all add: mm_inv_def)
  note D = cache_okD [OF C]
  have k: "0 < MAX_ORDER" by (simp add: MAX_ORDER_def)
  have al: "aligned (start_address (allocator m)) e 0 a" using a by (simp add: in_use_def)
  obtain b where r: "free_by_order L a 0 (allocator m) = (Ok (), b)" "buddy_inv items e b" "start_address b = start_address (allocator m)"
    "\<forall>x. cnt (area items b) x = acnt items m x + of_bool (covers 0 a x)"
    "\<forall>x. cnt (area items b) x = 0 \<longrightarrow> pages b x = pages (allocator m) x"
    by (rule free_state [OF B k al]) (use a that in \<open>auto simp: in_use_def\<close>)
  let ?m = "m\<lparr>allocator := b\<rparr>"
  have cs: "cached items ?m = cached items m" by (auto simp: cached_def)
  have old: "cnt (area items b) x = 0 \<and> pages b x = pages (allocator m) x" if p: "p \<in> set (cached items m c)" "covers 0 p x" for p c x
  proof -
    have "p \<noteq> a" using D(5) [OF p(1)] a by (auto simp: in_use_def)
    then have "\<not> covers 0 a x" using page_same [OF D(4) [OF p(1)] al p(2)] by auto
    then have "cnt (area items b) x = 0" using r(4) D(6) [OF p] by simp
    then show ?thesis using r(5) by simp
  qed
  have "cache_ok items e ?m"
  proof (rule cache_okI)
    fix c show "cache_list_len (caches ?m c) = length (cached items ?m c)" "distinct (cached items ?m c)"
      using D(1,2) by (simp_all add: cs)
    show "set (cached items ?m c) \<inter> set (cached items ?m d) = {}" if "c \<noteq> d" for d using D(3) [OF that] by (simp add: cs)
    fix p assume "p \<in> set (cached items ?m c)"
    then have p: "p \<in> set (cached items m c)" by (simp add: cs)
    show "aligned (start_address (allocator ?m)) e 0 p" using D(4) [OF p] r(3) by simp
    show "linked (pages (allocator ?m) p)" using D(5) [OF p] old [OF p covers_self] by simp
    fix x assume x: "covers 0 p x"
    show "acnt items ?m x = 0" using old [OF p x] by simp
    show "\<not> linked (pages (allocator ?m) x)" if "x \<noteq> p" using D(7) [OF p x that] old [OF p x] by simp
  qed
  then have "mm_inv items e ?m" using r(2) by (simp add: mm_inv_def)
  then show thesis using that [of ?m] r(1,3,4,5) cs by (simp add: on_buddy_def)
qed

lemma paddr_page: "mm_inv items e m \<Longrightarrow> in_use items e m' a \<Longrightarrow> start_address (allocator m') = start_address (allocator m) \<Longrightarrow>
  paddr_to_page a s = (Ok a, s)"
  by (rule paddr_ok [of "start_address (allocator m)" e 0])
    (auto simp: mm_inv_def buddy_inv_def state_inv_def lists_inv_def in_use_def)

lemma avail_cases: "avail items m x \<longleftrightarrow> 0 < acnt items m x \<or> (\<exists>c. \<exists>a\<in>set (cached items m c). covers 0 a x)"
  by (simp add: avail_def free_byte_def)

lemma refill_spec:
  assumes "mm_inv items e m"
  shows "\<exists>m' new. refill L cpu n m = (Ok (), m') \<and> mm_inv items e m' \<and> start_address (allocator m') = start_address (allocator m) \<and>
    cached items m' = (cached items m)(cpu := new @ cached items m cpu) \<and> (\<forall>x. avail items m' x \<longleftrightarrow> avail items m x) \<and>
    (\<forall>x. \<not> avail items m x \<longrightarrow> pages (allocator m') x = pages (allocator m) x) \<and>
    (0 < n \<longrightarrow> new = [] \<longrightarrow> m' = m \<and> (\<forall>x. \<not> free_byte items (allocator m) x))"
  using assms
proof (induction n arbitrary: m)
  case 0
  then show ?case by (intro exI [of _ m] exI [of _ "[]"]) auto
next
  case (Suc n)
  show ?case
    using Suc.prems
  proof (cases rule: buddy_alloc_page)
    case none
    then show ?thesis using Suc.prems by (intro exI [of _ m] exI [of _ "[]"]) (auto simp: bind_def)
  next
    case r: (some a m1)
    obtain m2 where p: "cache_push_front L cpu a m1 = (Ok (), m2)" "mm_inv items e m2"
      "cached items m2 = (cached items m1)(cpu := a # cached items m1 cpu)"
      "start_address (allocator m2) = start_address (allocator m1)" "\<forall>x. acnt items m2 x = acnt items m1 x"
      "\<forall>x. x \<noteq> a \<longrightarrow> pages (allocator m2) x = pages (allocator m1) x"
      by (rule cache_push_state [OF r(2,3)])
    from Suc.IH [OF p(2)] obtain m3 new where
      i: "refill L cpu n m2 = (Ok (), m3)" "mm_inv items e m3" "start_address (allocator m3) = start_address (allocator m2)"
        "cached items m3 = (cached items m2)(cpu := new @ cached items m2 cpu)" "\<forall>x. avail items m3 x \<longleftrightarrow> avail items m2 x"
        "\<forall>x. \<not> avail items m2 x \<longrightarrow> pages (allocator m3) x = pages (allocator m2) x" by blast
    have pd: "paddr_to_page a m1 = (Ok a, m1)" by (rule paddr_page [OF r(2,3) refl])
    have "refill L cpu (Suc n) m = (Ok (), m3)" using r(1) pd p(1) i(1) by (simp add: bind_def)
    moreover have av: "avail items m2 x \<longleftrightarrow> avail items m x" for x
      unfolding avail_cases p(3) r(4) using p(5) r(6) by auto
    moreover have "pages (allocator m3) x = pages (allocator m) x" if x: "\<not> avail items m x" for x
    proof -
      have z: "acnt items m x = 0" using x by (simp add: avail_cases)
      then have "x \<noteq> a" using r(6) covers_self [of 0 a] by auto
      then show ?thesis using i(6) x av [of x] p(6) r(7) z by simp
    qed
    ultimately show ?thesis
      using i(1-5) p(3,4) r(4,5) by (intro exI [of _ m3] exI [of _ "new @ [a]"]) auto
  qed
qed

lemma take_avail:
  assumes I: "mm_inv items e m" and a: "a \<in> set (cached items m cpu)"
    and c: "cached items m' = (cached items m)(cpu := remove1 a (cached items m cpu))" "\<forall>x. acnt items m' x = acnt items m x"
  shows "avail items m x \<longleftrightarrow> avail items m' x \<or> covers 0 a x" "covers 0 a x \<Longrightarrow> \<not> avail items m' x"
proof -
  note D = cache_okD [OF I [unfolded mm_inv_def, THEN conjunct2]]
  have set': "set (cached items m' d) = set (cached items m d) - (if d = cpu then {a} else {})" for d
    using D(2) [of cpu] by (auto simp: c(1))
  have out: "a \<notin> set (cached items m d)" if "d \<noteq> cpu" for d using D(3) [OF that] a by blast
  have mem: "p \<in> set (cached items m' d) \<longleftrightarrow> p \<in> set (cached items m d) \<and> p \<noteq> a" for p d
    using set' [of d] out [of d] by (cases "d = cpu") auto
  show "avail items m x \<longleftrightarrow> avail items m' x \<or> covers 0 a x"
    unfolding avail_cases Bex_def mem c(2) [rule_format] using a by blast
  show "\<not> avail items m' x" if "covers 0 a x"
    unfolding avail_cases
    using c(2) D(6) [OF a that] mem page_same [OF D(4) [OF a] D(4) that] by auto
qed

lemma cache_pop:
  assumes I: "mm_inv items e m" and l: "cached items m cpu = a # as"
  obtains m' where "cache_alloc_page L cpu (Suc f) m = (Ok (Some a), m')" "mm_inv items e m'" "in_use items e m' a"
    "start_address (allocator m') = start_address (allocator m)"
    "\<forall>x. avail items m x \<longleftrightarrow> avail items m' x \<or> covers 0 a x" "\<forall>x. covers 0 a x \<longrightarrow> \<not> avail items m' x"
    "\<forall>x. \<not> avail items m x \<longrightarrow> pages (allocator m') x = pages (allocator m) x"
proof -
  have a: "a \<in> set (cached items m cpu)" using l by simp
  from l obtain l' where l': "ll_pop_front L (cache_list (caches m cpu)) = Some (a, l')" "items l' = as"
    unfolding cached_def by (rule pop_front_Cons)
  have "items l' = remove1 a (cached items m cpu)" using l l'(2) by simp
  from cache_take_state [OF I a this] obtain m' where
    t: "cache_take cpu a l' m = (Ok (), m')" "mm_inv items e m'" "in_use items e m' a"
      "cached items m' = (cached items m)(cpu := remove1 a (cached items m cpu))"
      "start_address (allocator m') = start_address (allocator m)" "\<forall>x. acnt items m' x = acnt items m x"
      "\<forall>x. x \<noteq> a \<longrightarrow> pages (allocator m') x = pages (allocator m) x" by blast
  have "avail items m a" using a covers_self [of 0 a] unfolding avail_cases by blast
  then have "\<forall>x. \<not> avail items m x \<longrightarrow> pages (allocator m') x = pages (allocator m) x" using t(7) by auto
  then show thesis
    by (intro that [of m']) (use t(1-6) l'(1) take_avail [OF I a t(4,6)] in \<open>auto simp: bind_def\<close>)
qed

lemma cache_alloc_spec:
  assumes I: "mm_inv items e m"
  obtains (none) "cache_alloc_page L cpu 2 m = (Ok None, m)" "\<forall>x. \<not> free_byte items (allocator m) x" "cached items m cpu = []"
    | (some) a m' where "cache_alloc_page L cpu 2 m = (Ok (Some a), m')" "mm_inv items e m'" "in_use items e m' a"
    "start_address (allocator m') = start_address (allocator m)"
    "\<forall>x. avail items m x \<longleftrightarrow> avail items m' x \<or> covers 0 a x" "\<forall>x. covers 0 a x \<longrightarrow> \<not> avail items m' x"
    "\<forall>x. \<not> avail items m x \<longrightarrow> pages (allocator m') x = pages (allocator m) x"
proof (cases "cached items m cpu")
  case (Cons a as)
  show thesis by (rule cache_pop [OF I Cons, of 1]) (rule some, auto simp: numeral_2_eq_2)
next
  case Nil
  have n: "ll_pop_front L (cache_list (caches m cpu)) = None" using Nil pop_front_None by (simp add: cached_def)
  have b: "0 < PAGE_CACHE_LIST_BATCHCOUNT" by (simp add: PAGE_CACHE_LIST_BATCHCOUNT_def)
  from refill_spec [OF I, of cpu PAGE_CACHE_LIST_BATCHCOUNT] obtain m1 new where
    r: "refill L cpu PAGE_CACHE_LIST_BATCHCOUNT m = (Ok (), m1)" "mm_inv items e m1"
      "start_address (allocator m1) = start_address (allocator m)"
      "cached items m1 = (cached items m)(cpu := new @ cached items m cpu)" "\<forall>x. avail items m1 x \<longleftrightarrow> avail items m x"
      "new = [] \<longrightarrow> m1 = m \<and> (\<forall>x. \<not> free_byte items (allocator m) x)"
      "\<forall>x. \<not> avail items m x \<longrightarrow> pages (allocator m1) x = pages (allocator m) x" using b by blast
  have len: "cache_list_len (caches m cpu) = 0" "cache_list_len (caches m1 cpu) = length new"
    using I r(2) cache_okD(1) [of items e m cpu] cache_okD(1) [of items e m1 cpu] Nil r(4) by (simp_all add: mm_inv_def)
  have c: "cache_alloc_page L cpu 2 m = (if new = [] then (Ok None, m1) else cache_alloc_page L cpu (Suc 0) m1)"
    using n r(1) len by (simp add: numeral_2_eq_2 bind_def)
  show thesis
  proof (cases new)
    case Nil' : Nil
    then show thesis using none c r(6) Nil by simp
  next
    case (Cons a as)
    have l: "cached items m1 cpu = a # as" using r(4) Nil Cons by simp
    show thesis
      by (rule cache_pop [OF r(2) l, of 0]) (rule some, use c Cons r(3,5,7) in auto)
  qed
qed

lemma drain_spec:
  assumes "mm_inv items e m" "n \<le> length (cached items m cpu)"
  shows "\<exists>m'. drain L cpu n m = (Ok (), m') \<and> mm_inv items e m' \<and> (\<forall>x. avail items m' x \<longleftrightarrow> avail items m x) \<and>
    start_address (allocator m') = start_address (allocator m) \<and> (\<forall>x. \<not> avail items m x \<longrightarrow> pages (allocator m') x = pages (allocator m) x)"
  using assms
proof (induction n arbitrary: m)
  case 0
  then show ?case by simp
next
  case (Suc n)
  note I = Suc.prems(1)
  have ne: "cached items m cpu \<noteq> []" using Suc.prems(2) by auto
  then obtain as a where l: "cached items m cpu = as @ [a]" by (metis rev_exhaust)
  then obtain l' where l': "ll_pop_back L (cache_list (caches m cpu)) = Some (a, l')" "items l' = as"
    unfolding cached_def by (rule pop_back_snoc)
  have a: "a \<in> set (cached items m cpu)" using l by simp
  have "distinct (cached items m cpu)" using I cache_okD(2) by (auto simp: mm_inv_def)
  then have rm: "remove1 a (cached items m cpu) = as" using l by (simp add: remove1_append)
  with l'(2) have l2: "items l' = remove1 a (cached items m cpu)" by simp
  obtain m1 where
    t: "cache_take cpu a l' m = (Ok (), m1)" "mm_inv items e m1" "in_use items e m1 a"
      "cached items m1 = (cached items m)(cpu := remove1 a (cached items m cpu))" "\<forall>x. acnt items m1 x = acnt items m x"
      "start_address (allocator m1) = start_address (allocator m)"
      "\<forall>x. x \<noteq> a \<longrightarrow> pages (allocator m1) x = pages (allocator m) x"
    by (rule cache_take_state [OF I a l2])
  obtain m2 where
    f: "on_buddy (free_by_order L a 0) m1 = (Ok (), m2)" "mm_inv items e m2" "cached items m2 = cached items m1"
      "\<forall>x. acnt items m2 x = acnt items m1 x + of_bool (covers 0 a x)"
      "start_address (allocator m2) = start_address (allocator m1)"
      "\<forall>x. acnt items m2 x = 0 \<longrightarrow> pages (allocator m2) x = pages (allocator m1) x"
    by (rule buddy_free_page [OF t(2,3)])
  have av: "avail items m2 x \<longleftrightarrow> avail items m x" for x
    using take_avail(1) [OF I a t(4,5), of x] f(3,4) by (auto simp: avail_cases)
  have keep: "pages (allocator m2) x = pages (allocator m) x" if "\<not> avail items m x" for x
  proof -
    have "acnt items m2 x = 0" using av [of x] that by (simp add: avail_cases)
    moreover have "x \<noteq> a" using that a covers_self [of 0 a] unfolding avail_cases by blast
    ultimately show ?thesis using f(6) t(7) by simp
  qed
  have "n \<le> length (cached items m2 cpu)" using Suc.prems(2) l rm by (simp add: f(3) t(4))
  from Suc.IH [OF f(2) this] show ?case using l'(1) t(1,6) f(1,5) av keep by (auto simp: bind_def)
qed

lemma cache_dealloc_spec:
  assumes I: "mm_inv items e m" and a: "in_use items e m a"
  shows "\<exists>m'. cache_dealloc_page L cpu a m = (Ok (), m') \<and> mm_inv items e m' \<and>
    (\<forall>x. avail items m' x \<longleftrightarrow> avail items m x \<or> covers 0 a x) \<and>
    start_address (allocator m') = start_address (allocator m) \<and>
    (\<forall>x. \<not> avail items m' x \<longrightarrow> pages (allocator m') x = pages (allocator m) x)"
proof -
  obtain m1 where p: "cache_push_front L cpu a m = (Ok (), m1)" "mm_inv items e m1"
    "cached items m1 = (cached items m)(cpu := a # cached items m cpu)" "\<forall>x. acnt items m1 x = acnt items m x"
    "start_address (allocator m1) = start_address (allocator m)" "\<forall>x. x \<noteq> a \<longrightarrow> pages (allocator m1) x = pages (allocator m) x"
    by (rule cache_push_state [OF I a])
  have av: "avail items m1 x \<longleftrightarrow> avail items m x \<or> covers 0 a x" for x unfolding avail_cases p(3) using p(4) by auto
  have keep: "pages (allocator m1) x = pages (allocator m) x" if "\<not> avail items m1 x" for x
  proof -
    have "x \<noteq> a" using that av [of x] covers_self [of 0 a] by auto
    then show ?thesis using p(6) by simp
  qed
  have pd: "paddr_to_page a m = (Ok a, m)" by (rule paddr_page [OF I a refl])
  have len: "cache_list_len (caches m1 cpu) = length (cached items m1 cpu)"
    using p(2) cache_okD(1) by (auto simp: mm_inv_def)
  show ?thesis
  proof (cases "cache_list_len (caches m1 cpu) < PAGE_CACHE_LIST_LIMIT")
    case True
    then show ?thesis using pd p(1,2,5) av keep by (simp add: cache_dealloc_page_def bind_def)
  next
    case False
    then have "PAGE_CACHE_LIST_BATCHCOUNT \<le> length (cached items m1 cpu)"
      using len by (simp add: PAGE_CACHE_LIST_BATCHCOUNT_def PAGE_CACHE_LIST_LIMIT_def)
    from drain_spec [OF p(2) this] show ?thesis using False pd p(1,5) av keep by (auto simp: cache_dealloc_page_def bind_def)
  qed
qed

end

section \<open>Properties\<close>

definition kernel_mm :: "nat list mm" where
  "kernel_mm = \<lparr>allocator = kernel_start, caches = (\<lambda>_. \<lparr>cache_list = [], cache_list_len = 0\<rparr>)\<rparr>"

lemma kernel_mm_inv: "mm_inv (\<lambda>l. l) DIRECT_MAPPING_END_VADDR kernel_mm"
  using kernel_start_inv(1) by (simp add: mm_inv_def kernel_mm_def cache_ok_def cached_def)

text \<open>C11: Pages are handed out once. With the per-CPU caches in front of the allocator, \<open>alloc_page\<close> on any CPU returns a page that was available
  and no longer is, and leaves every other byte as available as it was; it returns \<open>None\<close> only when the allocator has no free byte and
  the cache of this CPU is empty. Freeing the page, on the same or on another CPU, succeeds and makes available
  exactly what was available before.\<close>

theorem page_alloc_exclusive:
  assumes "linked_list_laws L items" "mm_inv items e m"
  shows "\<exists>r m'. alloc_page L cpu m = (Ok r, m') \<and> mm_inv items e m' \<and>
    (case r of
       None \<Rightarrow> m' = m \<and> (\<forall>x. \<not> free_byte items (allocator m) x) \<and> cached items m cpu = []
     | Some a \<Rightarrow> (\<forall>x. avail items m x \<longleftrightarrow> avail items m' x \<or> covers 0 a x) \<and> (\<forall>x. covers 0 a x \<longrightarrow> \<not> avail items m' x) \<and>
         (\<exists>m''. free_page L cpu' a m' = (Ok (), m'') \<and> mm_inv items e m'' \<and> (\<forall>x. avail items m'' x \<longleftrightarrow> avail items m x)))"
proof -
  have pl: "page_lists L items" using assms(1) by (rule page_lists.intro)
  have ap: "alloc_page L cpu m = cache_alloc_page L cpu 2 m"
    by (simp add: alloc_page_def mm_alloc_by_order_def MAX_ORDER_def)
  have fp: "free_page L cpu' a m' = cache_dealloc_page L cpu' a m'" for a m'
    by (simp add: free_page_def mm_free_by_order_def MAX_ORDER_def)
  show ?thesis
  proof (rule page_lists.cache_alloc_spec [OF pl assms(2), of cpu], goal_cases none some)
    case none
    then show ?thesis using ap assms(2) by simp
  next
    case r: (some a m')
    from page_lists.cache_dealloc_spec [OF pl r(2,3), of cpu'] obtain m'' where
      "cache_dealloc_page L cpu' a m' = (Ok (), m'')" "mm_inv items e m''"
      "\<forall>x. avail items m'' x \<longleftrightarrow> avail items m' x \<or> covers 0 a x" by blast
    then show ?thesis using ap fp r by (intro exI [of _ "Some a"] exI [of _ m']) simp
  qed
qed

theorem page_alloc_exclusive_witness:
  "\<exists>a m'. alloc_page hol_list 0 kernel_mm = (Ok (Some a), m') \<and> avail (\<lambda>l. l) kernel_mm a \<and> \<not> avail (\<lambda>l. l) m' a"
proof -
  have "free_byte (\<lambda>l. l) (allocator kernel_mm) DIRECT_MAPPING_BASE_VADDR"
    using kernel_region(2) by (simp add: kernel_mm_def free_byte_def kernel_start_inv(3))
  then show ?thesis
    using page_alloc_exclusive [OF hl.linked_list_laws_axioms kernel_mm_inv, of 0 1] covers_self [of 0]
    by (fastforce split: option.splits)
qed

lemma log2_ceil_upper: "n \<le> 2 ^ log2_ceil n"
proof (induction n rule: log2_ceil.induct)
  case (1 n)
  then show ?case by (cases "n \<le> 1") (auto simp: log2_ceil.simps [of n])
qed

lemma log2_ceil_lower: "log2_ceil n = Suc k \<Longrightarrow> 2 ^ k < n"
proof (induction n arbitrary: k rule: log2_ceil.induct)
  case (1 n)
  from "1.prems" have n: "\<not> n \<le> 1" "log2_ceil ((n + 1) div 2) = k"
    by (simp_all add: log2_ceil.simps [of n] split: if_splits)
  show ?case
  proof (cases k)
    case (Suc j)
    then show ?thesis using "1.IH" [OF n(1), of j] n(2) by simp
  qed (use n in simp)
qed

text \<open>Orders for sizes. \<open>find_order\<close> gives the smallest order whose blocks hold the requested number of bytes.\<close>

theorem find_order_least:
  "sz \<le> block_size k \<longleftrightarrow> find_order sz \<le> k"
proof -
  let ?n = "div_ceil sz PGSIZE"
  have pg: "0 < PGSIZE" by (simp add: PGSIZE_def)
  have fit: "sz \<le> block_size k \<longleftrightarrow> ?n \<le> 2 ^ k" for k
  proof
    show "?n \<le> 2 ^ k" if "sz \<le> block_size k"
      using div_ceil_le [OF pg, of sz "2 ^ k"] that by (simp add: block_size_def mult.commute)
    show "sz \<le> block_size k" if "?n \<le> 2 ^ k"
      unfolding block_size_def mult.commute [of PGSIZE] by (rule order_trans [OF div_ceil_ge [OF pg] mult_le_mono1 [OF that]])
  qed
  show ?thesis
  proof
    assume "sz \<le> block_size k"
    then have "?n \<le> 2 ^ k" using fit by simp
    then show "find_order sz \<le> k"
    proof (cases "find_order sz")
      case (Suc j)
      then have "2 ^ j < ?n" by (intro log2_ceil_lower) (simp add: find_order_def)
      then have "(2 :: nat) ^ j < 2 ^ k" using \<open>?n \<le> 2 ^ k\<close> by linarith
      then show ?thesis using Suc by simp
    qed simp
  next
    assume "find_order sz \<le> k"
    then have "(2 :: nat) ^ find_order sz \<le> 2 ^ k" by (rule power_increasing) simp
    then have "?n \<le> 2 ^ k" using log2_ceil_upper [of ?n] unfolding find_order_def by linarith
    then show "sz \<le> block_size k" using fit by simp
  qed
qed

end
