(* ===== verification/Rw_PtSpec.thy ===== *)
theory Rw_PtSpec
  imports Rw_PageTable Rw_PageCache
begin

text \<open>
  What the page table means: the entry that the hardware finds for a virtual page, as a function of the page, and how each
  operation of Rw_PageTable changes that function. The tables of one page table form a tree of pages that the allocator has handed out.
\<close>

section \<open>Bits of an entry\<close>

lemma bit_pow_word: "k < LENGTH('a) \<Longrightarrow> bit (2 ^ k :: 'a :: len word) n \<longleftrightarrow> n = k"
  by (auto simp: bit_exp_iff possible_bit_word)

lemma pte_flag_powers:
  "PTE_VALID = 2 ^ 0" "PTE_READ = 2 ^ 1" "PTE_WRITE = 2 ^ 2" "PTE_EXEC = 2 ^ 3" "PTE_USER = 2 ^ 4"
  by (simp_all add: PTE_VALID_def PTE_READ_def PTE_WRITE_def PTE_EXEC_def PTE_USER_def)

lemma ep_flag_powers:
  "EP_VALID = 2 ^ 0" "EP_WRITABLE = 2 ^ 1" "EP_READABLE = 2 ^ 2" "EP_USER = 2 ^ 3" "EP_EXECUTABLE = 2 ^ 4"
  by (simp_all add: EP_VALID_def EP_WRITABLE_def EP_READABLE_def EP_USER_def EP_EXECUTABLE_def)

lemma pte_flag_bits [simp]:
  "bit PTE_VALID n \<longleftrightarrow> n = 0" "bit PTE_READ n \<longleftrightarrow> n = 1" "bit PTE_WRITE n \<longleftrightarrow> n = 2"
  "bit PTE_EXEC n \<longleftrightarrow> n = 3" "bit PTE_USER n \<longleftrightarrow> n = 4"
  unfolding pte_flag_powers by (rule bit_pow_word, simp)+

lemma ep_flag_bits [simp]:
  "bit EP_VALID n \<longleftrightarrow> n = 0" "bit EP_WRITABLE n \<longleftrightarrow> n = 1" "bit EP_READABLE n \<longleftrightarrow> n = 2"
  "bit EP_USER n \<longleftrightarrow> n = 3" "bit EP_EXECUTABLE n \<longleftrightarrow> n = 4"
  unfolding ep_flag_powers by (rule bit_pow_word, simp)+

lemma and_single_bit:
  fixes e f :: "'a :: len word"
  assumes "\<And>n. bit f n \<longleftrightarrow> n = k" shows "e AND f \<noteq> 0 \<longleftrightarrow> bit e k" "e AND f = f \<longleftrightarrow> bit e k"
proof -
  have k: "bit f k" using assms by simp
  show "e AND f \<noteq> 0 \<longleftrightarrow> bit e k"
  proof
    assume "e AND f \<noteq> 0"
    then obtain n where "bit (e AND f) n" by (auto simp: bit_eq_iff)
    then show "bit e k" using assms by (auto simp: bit_and_iff)
  next
    assume "bit e k"
    then have "bit (e AND f) k" using k by (simp add: bit_and_iff)
    then show "e AND f \<noteq> 0" by auto
  qed
  show "e AND f = f \<longleftrightarrow> bit e k"
  proof
    assume "e AND f = f"
    then have "bit (e AND f) k" using k by simp
    then show "bit e k" by (simp add: bit_and_iff)
  next
    assume "bit e k"
    then show "e AND f = f" using assms by (intro bit_word_eqI) (auto simp: bit_and_iff)
  qed
qed

lemma pte_is_bits:
  "pte_is_valid e \<longleftrightarrow> bit e 0" "pte_is_readable e \<longleftrightarrow> bit e 1" "pte_is_writable e \<longleftrightarrow> bit e 2"
  "pte_is_executable e \<longleftrightarrow> bit e 3" "pte_is_user e \<longleftrightarrow> bit e 4"
  unfolding pte_is_valid_def pte_is_readable_def pte_is_writable_def pte_is_executable_def pte_is_user_def
  by (simp_all add: and_single_bit)

lemma ep_contains_bits:
  "ep_contains p EP_VALID \<longleftrightarrow> bit p 0" "ep_contains p EP_WRITABLE \<longleftrightarrow> bit p 1" "ep_contains p EP_READABLE \<longleftrightarrow> bit p 2"
  "ep_contains p EP_USER \<longleftrightarrow> bit p 3" "ep_contains p EP_EXECUTABLE \<longleftrightarrow> bit p 4"
  by (simp_all add: ep_contains_def and_single_bit)

lemma bit_pte_perm:
  "bit (pte_perm e) n \<longleftrightarrow> n = 0 \<and> bit e 0 \<or> n = 1 \<and> bit e 2 \<or> n = 2 \<and> bit e 1 \<or> n = 3 \<and> bit e 4 \<or> n = 4 \<and> bit e 3"
  unfolding pte_perm_def pte_is_bits by (auto simp: bit_or_iff)

lemma bit_arch_entry_perm:
  "bit (arch_entry_perm p) n \<longleftrightarrow> n = 0 \<and> bit p 0 \<or> n = 1 \<and> bit p 2 \<or> n = 2 \<and> bit p 1 \<or> n = 3 \<and> bit p 4 \<or> n = 4 \<and> bit p 3"
  unfolding arch_entry_perm_def ep_contains_bits by (auto simp: bit_or_iff)

lemma bit_apply_perm:
  "n < 64 \<Longrightarrow> bit (apply_perm p e) n \<longleftrightarrow>
     (if n = 0 then bit p 0 else if n = 1 then bit p 2 else if n = 2 then bit p 1 else if n = 3 then bit p 4
      else if n = 4 then bit p 3 else bit e n)"
  unfolding apply_perm_def ep_contains_bits set_valid_def set_writable_def set_readable_def set_user_def set_executable_def
  by (auto simp: bit_or_iff bit_and_iff bit_not_iff)

definition PERM_BITS :: entry_perm where "PERM_BITS = 31"

lemma bit_PERM_BITS: "bit PERM_BITS n \<longleftrightarrow> n < 5"
proof -
  have "PERM_BITS = mask 5" by (simp add: PERM_BITS_def mask_eq_exp_minus_1)
  then show ?thesis using bit_mask_iff [where 'a = u64, of 10 n] bit_mask_iff [where 'a = u32, of 5 n] by (auto simp: possible_bit_word)
qed

text \<open>Setting the permissions bit by bit, as \<open>map\<close> does, or as a whole, as \<open>vmap\<close> does, is read back as the five flags.\<close>

lemma pte_perm_apply: "pte_perm (apply_perm p e) = p AND PERM_BITS"
  by (rule bit_word_eqI) (auto simp: bit_pte_perm bit_apply_perm bit_and_iff bit_PERM_BITS less_Suc_eq numeral_eq_Suc)

lemma bit_FLAGS_MASK: "bit FLAGS_MASK n \<longleftrightarrow> n < 10"
proof -
  have "FLAGS_MASK = mask 10" by (simp add: FLAGS_MASK_def mask_eq_exp_minus_1)
  then show ?thesis using bit_mask_iff [where 'a = u64, of 10 n] bit_mask_iff [where 'a = u32, of 5 n] by (auto simp: possible_bit_word)
qed

lemma pte_perm_set: "pte_perm (set_perm (arch_entry_perm p) e) = p AND PERM_BITS"
  unfolding set_perm_def
  by (rule bit_word_eqI)
    (auto simp: bit_pte_perm bit_arch_entry_perm bit_or_iff bit_and_iff bit_not_iff bit_FLAGS_MASK bit_PERM_BITS less_Suc_eq numeral_eq_Suc)

section \<open>Addresses in an entry\<close>

definition set_addr :: "nat \<Rightarrow> pte \<Rightarrow> pte" where
  "set_addr a e = (e AND FLAGS_MASK) OR push_bit 10 (word_of_nat (a div 4096))"

lemma ppn_word:
  assumes "a mod 4096 = 0" "a < 2 ^ 64"
  shows "unat ((word_of_nat (a div 4096) :: u64) * 4096) = a" "n \<ge> 52 \<Longrightarrow> \<not> bit (word_of_nat (a div 4096) :: u64) n"
proof -
  have d: "a div 4096 < 2 ^ 52" using assms(2) by (simp add: less_mult_imp_div_less)
  have "(word_of_nat (a div 4096) :: u64) * 4096 = word_of_nat (a div 4096 * 4096)" by simp
  also have "a div 4096 * 4096 = a" using assms(1) by auto
  finally show "unat ((word_of_nat (a div 4096) :: u64) * 4096) = a"
    using assms(2) by (simp add: unat_of_nat)
  show "\<not> bit (word_of_nat (a div 4096) :: u64) n" if "n \<ge> 52"
  proof
    assume "bit (word_of_nat (a div 4096) :: u64) n"
    then have "bit (a div 4096) n" by (simp add: bit_of_nat_iff)
    then have "2 ^ n \<le> a div 4096" by (simp add: bit_iff_odd) (metis div_less even_zero not_less)
    moreover have "(2 :: nat) ^ 52 \<le> 2 ^ n" using that by (intro power_increasing) auto
    ultimately show False using d by linarith
  qed
qed

lemma addr_of_ppn:
  assumes "a mod 4096 = 0" "a < 2 ^ 64" "\<And>n. n \<ge> 10 \<Longrightarrow> bit e n \<longleftrightarrow> bit (push_bit 10 (word_of_nat (a div 4096)) :: u64) n"
  shows "physical_addr e = a"
proof -
  have "drop_bit 10 e = word_of_nat (a div 4096)"
  proof (rule bit_word_eqI)
    fix n assume "n < LENGTH(64)"
    have "bit e (10 + n) \<longleftrightarrow> bit (push_bit 10 (word_of_nat (a div 4096)) :: u64) (10 + n)" by (rule assms(3)) simp
    then show "bit (drop_bit 10 e) n \<longleftrightarrow> bit (word_of_nat (a div 4096) :: u64) n"
      using ppn_word(2) [OF assms(1,2), of n] by (auto simp: bit_drop_bit_eq bit_push_bit_iff)
  qed
  then show ?thesis using ppn_word(1) [OF assms(1,2)] by (simp add: physical_addr_def physical_page_num_def)
qed

lemma low_bits_push: "n < 10 \<Longrightarrow> \<not> bit (push_bit 10 (w :: u64)) n"
  by (simp add: bit_push_bit_iff)

lemma make_pde_facts:
  assumes "a mod 4096 = 0" "a < 2 ^ 64"
  shows "pte_is_valid (make_pde a)" "is_page_table (make_pde a)" "physical_addr (make_pde a) = a"
proof -
  show "pte_is_valid (make_pde a)" by (simp add: pte_is_bits make_pde_def bit_or_iff)
  show "is_page_table (make_pde a)"
    unfolding is_page_table_def make_pde_def
    by (rule bit_word_eqI) (auto simp: bit_and_iff bit_or_iff low_bits_push)
  show "physical_addr (make_pde a) = a"
    by (rule addr_of_ppn [OF assms]) (simp add: make_pde_def bit_or_iff)
qed

lemma set_addr_facts:
  assumes "a mod 4096 = 0" "a < 2 ^ 64"
  shows "physical_addr (apply_perm p (set_addr a e)) = a" "physical_addr (set_perm (arch_entry_perm p) (set_addr a e)) = a"
proof -
  show "physical_addr (apply_perm p (set_addr a e)) = a"
  proof (rule addr_of_ppn [OF assms])
    fix n :: nat assume "n \<ge> 10"
    then show "bit (apply_perm p (set_addr a e)) n \<longleftrightarrow> bit (push_bit 10 (word_of_nat (a div 4096)) :: u64) n"
      by (cases "n < 64")
        (auto simp: bit_apply_perm set_addr_def bit_or_iff bit_and_iff bit_FLAGS_MASK dest: bit_imp_le_length)
  qed
  show "physical_addr (set_perm (arch_entry_perm p) (set_addr a e)) = a"
  proof (rule addr_of_ppn [OF assms])
    fix n :: nat assume "n \<ge> 10"
    then show "bit (set_perm (arch_entry_perm p) (set_addr a e)) n \<longleftrightarrow> bit (push_bit 10 (word_of_nat (a div 4096)) :: u64) n"
      by (cases "n < 64")
        (auto simp: set_perm_def bit_arch_entry_perm set_addr_def bit_or_iff bit_and_iff bit_not_iff bit_FLAGS_MASK dest: bit_imp_le_length)
  qed
qed

lemma set_physical_addr_ok:
  "a mod 4096 = 0 \<Longrightarrow> a \<noteq> 0 \<Longrightarrow> set_physical_addr a e s = (Ok (set_addr a e), s)"
  by (simp add: set_physical_addr_def set_addr_def)

lemma valid_perm: "pte_is_valid e \<longleftrightarrow> bit (pte_perm e) 0"
  by (simp add: pte_is_bits bit_pte_perm)

lemma valid_zero [simp]: "\<not> pte_is_valid 0"
  by (simp add: pte_is_bits)

section \<open>The pages\<close>

text \<open>What the page tables rely on: the allocator hands out pages that are not in use, takes back pages that are, and does nothing else.\<close>

locale page_source_laws =
  fixes P :: "'p page_source"
    and ok :: "'p \<Rightarrow> bool"
    and used :: "'p \<Rightarrow> nat set"
  assumes alloc: "ok p \<Longrightarrow> \<exists>r p'. ps_alloc P p = (Ok r, p') \<and> ok p' \<and>
      (case r of None \<Rightarrow> p' = p | Some a \<Rightarrow> a \<notin> used p \<and> used p' = insert a (used p))"
    and free: "ok p \<Longrightarrow> a \<in> used p \<Longrightarrow> \<exists>p'. ps_free P a p = (Ok (), p') \<and> ok p' \<and> used p' = used p - {a}"
    and used_page: "ok p \<Longrightarrow> a \<in> used p \<Longrightarrow> a mod 4096 = 0 \<and> 0 < a \<and> a < 2 ^ 64"

definition mm_used :: "('l \<Rightarrow> nat list) \<Rightarrow> nat \<Rightarrow> 'l mm \<Rightarrow> nat set" where
  "mm_used items e m = {a. in_use items e m a}"

lemma in_use_not_avail:
  assumes I: "mm_inv items e m" and a: "in_use items e m a" and x: "covers 0 a x"
  shows "\<not> avail items m x"
proof
  assume "avail items m x"
  moreover have "acnt items m x = 0" using a x by (simp add: in_use_def)
  ultimately obtain c b where b: "b \<in> set (cached items m c)" "covers 0 b x" by (auto simp: avail_def free_byte_def)
  note D = cache_okD [OF I [unfolded mm_inv_def, THEN conjunct2]]
  have "b = a" using page_same [OF D(4) [OF b(1)] _ b(2) x] a by (simp add: in_use_def)
  then show False using D(5) [OF b(1)] a covers_self [of 0 a] by (simp add: in_use_def)
qed

lemma in_use_moved:
  assumes I: "mm_inv items e m" and b: "in_use items e m b" and st: "start_address (allocator m') = start_address (allocator m)"
    and x: "\<And>x. covers 0 b x \<Longrightarrow> \<not> avail items m x \<Longrightarrow> \<not> avail items m' x \<and> pages (allocator m') x = pages (allocator m) x"
  shows "in_use items e m' b"
proof -
  have "acnt items m' x = 0 \<and> \<not> linked (pages (allocator m') x)" if c: "covers 0 b x" for x
    using x [OF c in_use_not_avail [OF I b c]] b c by (auto simp: in_use_def avail_def free_byte_def)
  then show ?thesis using b st by (simp add: in_use_def)
qed

lemma mm_source:
  assumes L: "linked_list_laws L items"
  shows "page_source_laws (buddy_pages L cpu) (mm_inv items e) (mm_used items e)"
proof
  have pl: "page_lists L items" using L by (rule page_lists.intro)
  fix m assume I: "mm_inv items e m"
  have ap: "ps_alloc (buddy_pages L cpu) m = (case cache_alloc_page L cpu 2 m of (r, m') \<Rightarrow> (case r of Ok x \<Rightarrow> Ok x | Err _ \<Rightarrow> Err NoFuel | Panic \<Rightarrow> Panic, m'))"
    by (auto simp: buddy_pages_def lift_mm_def map_err_def alloc_page_def mm_alloc_by_order_def MAX_ORDER_def split: prod.splits outcome.splits)
  show "\<exists>r p'. ps_alloc (buddy_pages L cpu) m = (Ok r, p') \<and> mm_inv items e p' \<and>
    (case r of None \<Rightarrow> p' = m | Some a \<Rightarrow> a \<notin> mm_used items e m \<and> mm_used items e p' = insert a (mm_used items e m))"
  proof (rule page_lists.cache_alloc_spec [OF pl I, of cpu], goal_cases none some)
    case none
    then show ?thesis using ap I by simp
  next
    case r: (some a m')
    have "in_use items e m' b" if "in_use items e m b" for b
      by (rule in_use_moved [OF I that r(4)]) (use r(5,7) in auto)
    moreover have "in_use items e m b" if b: "in_use items e m' b" "b \<noteq> a" for b
    proof (rule in_use_moved [OF r(2) b(1) r(4) [symmetric]])
      fix x assume x: "covers 0 b x" "\<not> avail items m' x"
      have "\<not> covers 0 a x" using page_same [of _ e b a x] x(1) b r(3) by (auto simp: in_use_def)
      then show "\<not> avail items m x \<and> pages (allocator m) x = pages (allocator m') x" using x(2) r(5,7) by auto
    qed
    moreover have "\<not> in_use items e m a" using in_use_not_avail [OF I _ covers_self, of a] r(5) covers_self [of 0 a] by blast
    ultimately show ?thesis using r(1,2,3) ap by (intro exI [of _ "Some a"] exI [of _ m']) (auto simp: mm_used_def)
  qed
  fix a assume u: "a \<in> mm_used items e m"
  then have a: "in_use items e m a" by (simp add: mm_used_def)
  have fp: "ps_free (buddy_pages L cpu) a m = (case cache_dealloc_page L cpu a m of (r, m') \<Rightarrow> (case r of Ok x \<Rightarrow> Ok x | Err _ \<Rightarrow> Err NoFuel | Panic \<Rightarrow> Panic, m'))"
    by (auto simp: buddy_pages_def lift_mm_def map_err_def free_page_def mm_free_by_order_def MAX_ORDER_def split: prod.splits outcome.splits)
  from page_lists.cache_dealloc_spec [OF pl I a, of cpu] obtain m' where
    r: "cache_dealloc_page L cpu a m = (Ok (), m')" "mm_inv items e m'" "\<forall>x. avail items m' x \<longleftrightarrow> avail items m x \<or> covers 0 a x"
      "start_address (allocator m') = start_address (allocator m)"
      "\<forall>x. \<not> avail items m' x \<longrightarrow> pages (allocator m') x = pages (allocator m) x" by blast
  have "in_use items e m' b" if b: "in_use items e m b" "b \<noteq> a" for b
  proof (rule in_use_moved [OF I b(1) r(4)])
    fix x assume x: "covers 0 b x" "\<not> avail items m x"
    have "\<not> covers 0 a x" using page_same [of _ e b a x] x(1) b a by (auto simp: in_use_def)
    then show "\<not> avail items m' x \<and> pages (allocator m') x = pages (allocator m) x" using x(2) r(3,5) by auto
  qed
  moreover have "in_use items e m b" if b: "in_use items e m' b" for b
    by (rule in_use_moved [OF r(2) b r(4) [symmetric]]) (use r(3,5) in auto)
  moreover have "\<not> in_use items e m' a" using in_use_not_avail [OF r(2) _ covers_self, of a] r(3) covers_self [of 0 a] by blast
  ultimately show "\<exists>p'. ps_free (buddy_pages L cpu) a m = (Ok (), p') \<and> mm_inv items e p' \<and> mm_used items e p' = mm_used items e m - {a}"
    using r(1,2) fp by (intro exI [of _ m']) (auto simp: mm_used_def)
  have R: "region_ok (start_address (allocator m)) e" using I by (simp add: mm_inv_def buddy_inv_def state_inv_def lists_inv_def)
  have al: "aligned (start_address (allocator m)) e 0 a" using a by (simp add: in_use_def)
  then obtain q where "a = start_address (allocator m) + q * 4096" by (auto simp: aligned_def block_size_def PGSIZE_def)
  then show "a mod 4096 = 0 \<and> 0 < a \<and> a < 2 ^ 64"
    using R al by (auto simp: region_ok_def aligned_def PGSIZE_def DIRECT_MAPPING_BASE_VADDR_def DIRECT_MAPPING_END_VADDR_def DIRECT_MAPPING_SIZE_def)
qed

interpretation hm: page_source_laws "buddy_pages hol_list cpu" "mm_inv (\<lambda>l. l) e" "mm_used (\<lambda>l. l) e" for cpu e
  by (rule mm_source [OF hl.linked_list_laws_axioms])

section \<open>The tree of tables\<close>

text \<open>A virtual page is named by its number; its index at a level is a digit in base 512.\<close>

definition idx :: "nat \<Rightarrow> nat \<Rightarrow> nat" where
  "idx l v = v div 512 ^ l mod 512"

lemma idx_less [simp]: "idx l v < 512"
  by (simp add: idx_def)

lemma and_mask_mod: "(x :: nat) AND (2 ^ n - 1) = x mod 2 ^ n"
  unfolding mask_nat_def [symmetric] take_bit_eq_mask [symmetric] take_bit_eq_mod ..

lemma or_disjoint: "b < 2 ^ n \<Longrightarrow> (a * 2 ^ n OR b :: nat) = a * 2 ^ n + b"
proof (induction n arbitrary: b)
  case (Suc n)
  have b: "b div 2 < 2 ^ n" using Suc.prems by auto
  have "a * 2 ^ Suc n OR b = of_bool (odd b) + 2 * (a * 2 ^ n OR b div 2)"
    by (subst or_nat_rec) simp
  also have "\<dots> = of_bool (odd b) + 2 * (a * 2 ^ n + b div 2)" by (simp only: Suc.IH [OF b])
  also have "\<dots> = a * 2 ^ Suc n + b" by simp
  finally show ?case .
qed simp

lemma shift_512: "(2 :: nat) ^ (l * 9 + 12) = 4096 * 512 ^ l"
proof -
  have "(2 :: nat) ^ (l * 9) = (2 ^ 9) ^ l" by (simp only: mult.commute [of l] power_mult)
  then show ?thesis by (simp add: power_add)
qed

lemma index_for_va_idx: "index_for_va l va = idx l (va div 4096)"
  unfolding index_for_va_def and_mask_mod drop_bit_eq_div shift_512 idx_def by (simp add: div_mult2_eq)

lemma upper_bound_idx:
  "va mod 4096 = 0 \<Longrightarrow> upper_bound_index_for_va l va = idx l (va div 4096) + of_bool ((va div 4096) mod 512 ^ l \<noteq> 0)"
  using index_for_va_idx [of l va, unfolded index_for_va_def and_mask_mod]
  unfolding upper_bound_index_for_va_def Let_def and_mask_mod shift_512 by (simp add: mod_mult2_eq)

lemma va_for_index_eq: "va_for_index l i = i * (4096 * 512 ^ l)"
  unfolding va_for_index_def push_bit_eq_mult shift_512 ..

text \<open>The table at the end of a path of indices.\<close>

definition child :: "(nat \<Rightarrow> nat \<Rightarrow> u64) \<Rightarrow> nat \<Rightarrow> nat \<Rightarrow> nat option" where
  "child m t i = (if pte_is_valid (m t i) then Some (physical_addr (m t i)) else None)"

fun node :: "(nat \<Rightarrow> nat \<Rightarrow> u64) \<Rightarrow> nat \<Rightarrow> nat list \<Rightarrow> nat option" where
  "node m t [] = Some t"
| "node m t (i # p) = (case child m t i of None \<Rightarrow> None | Some t' \<Rightarrow> node m t' p)"

definition tpaths :: "nat list set" where
  "tpaths = {p. length p \<le> 2 \<and> set p \<subseteq> {..<512}}"

definition pt_wf :: "(nat \<Rightarrow> nat \<Rightarrow> u64) \<Rightarrow> nat \<Rightarrow> nat set \<Rightarrow> bool" where
  "pt_wf m root U \<longleftrightarrow>
     (\<forall>p\<in>tpaths. \<forall>t. node m root p = Some t \<longrightarrow> t \<in> U \<and>
        (length p < 2 \<longrightarrow> (\<forall>i<512. pte_is_valid (m t i) \<longrightarrow> is_page_table (m t i)))) \<and>
     (\<forall>p\<in>tpaths. \<forall>q\<in>tpaths. \<forall>t. node m root p = Some t \<and> node m root q = Some t \<longrightarrow> p = q)"

text \<open>The entry for a virtual page; 0 where a table is missing on the way.\<close>

definition pte_at :: "(nat \<Rightarrow> nat \<Rightarrow> u64) \<Rightarrow> nat \<Rightarrow> nat \<Rightarrow> pte" where
  "pte_at m root v = (case node m root [idx 2 v, idx 1 v] of None \<Rightarrow> 0 | Some t \<Rightarrow> m t (idx 0 v))"

lemma pt_wfD:
  assumes "pt_wf m root U"
  shows "\<And>p t. p \<in> tpaths \<Longrightarrow> node m root p = Some t \<Longrightarrow> t \<in> U"
    "\<And>p t i. p \<in> tpaths \<Longrightarrow> node m root p = Some t \<Longrightarrow> length p < 2 \<Longrightarrow> i < 512 \<Longrightarrow> pte_is_valid (m t i) \<Longrightarrow> is_page_table (m t i)"
    "\<And>p q t. p \<in> tpaths \<Longrightarrow> q \<in> tpaths \<Longrightarrow> node m root p = Some t \<Longrightarrow> node m root q = Some t \<Longrightarrow> p = q"
  using assms unfolding pt_wf_def by blast+

lemma path_simps [simp]:
  "[] \<in> tpaths" "[i] \<in> tpaths \<longleftrightarrow> i < 512" "[i, j] \<in> tpaths \<longleftrightarrow> i < 512 \<and> j < 512"
  by (auto simp: tpaths_def)

lemma node_append: "node m t (p @ q) = (case node m t p of None \<Rightarrow> None | Some t' \<Rightarrow> node m t' q)"
  by (induction p arbitrary: t) (auto split: option.splits)

lemma node_cong:
  assumes "\<And>p j r t. q = p @ j # r \<Longrightarrow> node m root p = Some t \<Longrightarrow> m' t j = m t j"
  shows "node m' root q = node m root q"
  using assms
proof (induction q arbitrary: root)
  case (Cons i q)
  have "m' root i = m root i" by (rule Cons.prems [of "[]"]) simp_all
  then have c: "child m' root i = child m root i" by (simp add: child_def)
  have "node m' t q = node m t q" if "child m root i = Some t" for t
    by (rule Cons.IH, rule Cons.prems [of "i # _"]) (use that in simp_all)
  then show ?case using c by (auto split: option.splits)
qed simp

lemma path_prefix: "p @ j # r \<in> tpaths \<Longrightarrow> p \<in> tpaths \<and> length p < 2 \<and> j < 512"
  by (auto simp: tpaths_def)

text \<open>Memory outside the tables does not matter.\<close>

lemma wf_frame:
  assumes W: "pt_wf m root U" and same: "\<And>p t. p \<in> tpaths \<Longrightarrow> node m root p = Some t \<Longrightarrow> m' t = m t" and U: "U' \<supseteq> U"
  shows "pt_wf m' root U'" "pte_at m' root v = pte_at m root v" "\<And>q. q \<in> tpaths \<Longrightarrow> node m' root q = node m root q"
proof -
  show n: "node m' root q = node m root q" if "q \<in> tpaths" for q
  proof (rule node_cong)
    fix p j r t assume "q = p @ j # r" "node m root p = Some t"
    then show "m' t j = m t j" using same [of p t] path_prefix [of p j r] that by simp
  qed
  show "pte_at m' root v = pte_at m root v"
    using n [of "[idx 2 v, idx 1 v]"] same [of "[idx 2 v, idx 1 v]"] by (auto simp: pte_at_def simp del: node.simps split: option.splits)
  show "pt_wf m' root U'"
    unfolding pt_wf_def using pt_wfD [OF W] n same U by (smt (verit) subsetD)
qed

text \<open>A new, empty table below a missing entry.\<close>

lemma wf_add:
  assumes W: "pt_wf m root U" and p: "p \<in> tpaths" "length p < 2" "node m root p = Some t" and i: "i < 512" "\<not> pte_is_valid (m t i)"
    and a: "a \<notin> U" "a mod 4096 = 0" "a < 2 ^ 64"
    and m': "m' = m(a := (\<lambda>_. 0), t := (m t)(i := make_pde a))"
  shows "\<And>q. q \<in> tpaths \<Longrightarrow> node m' root q = (if q = p @ [i] then Some a else node m root q)"
    "pt_wf m' root (insert a U)" "pte_at m' root v = pte_at m root v"
proof -
  note D = pt_wfD [OF W]
  have ta: "t \<noteq> a" using D(1) [OF p(1,3)] a(1) by auto
  have pi: "p @ [i] \<in> tpaths" using p(1,2) i(1) by (auto simp: tpaths_def)
  have ch: "child m' t i = Some a" using ta make_pde_facts [OF a(2,3)] by (simp add: child_def m')
  have far: "node m' root q = node m root q" if q: "q \<in> tpaths" "\<And>r. q \<noteq> p @ i # r" for q
  proof (rule node_cong)
    fix p0 j r u assume u: "q = p0 @ j # r" "node m root p0 = Some u"
    have p0: "p0 \<in> tpaths" using path_prefix q(1) u(1) by auto
    have "u \<noteq> a" using D(1) [OF p0 u(2)] a(1) by auto
    moreover have "u = t \<Longrightarrow> j \<noteq> i" using D(3) [OF p0 p(1) u(2)] p(3) q(2) [of r] u(1) by auto
    ultimately show "m' u j = m u j" by (auto simp: m')
  qed
  have "p \<noteq> p @ i # r" for r by simp
  then have np: "node m' root p = Some t" using far [OF p(1)] p(3) by auto
  show n: "node m' root q = (if q = p @ [i] then Some a else node m root q)" if q: "q \<in> tpaths" for q
  proof (cases "\<exists>r. q = p @ i # r")
    case True
    then obtain r where r: "q = p @ i # r" by blast
    have "node m root q = None" using p(3) i(2) by (simp add: r node_append child_def)
    moreover have "node m' root q = node m' a r" using np ch by (simp add: r node_append)
    moreover have "r \<noteq> [] \<Longrightarrow> node m' a r = None" using ta by (cases r) (simp_all add: child_def m')
    ultimately show ?thesis using r by (cases "r = []") auto
  qed (use far q in auto)
  have new: "node m root q \<noteq> Some a" if "q \<in> tpaths" for q using D(1) [OF that] a(1) by blast
  have tab: "pte_is_valid (m' u j) \<Longrightarrow> is_page_table (m' u j)" if "q \<in> tpaths" "node m' root q = Some u" "length q < 2" "j < 512" for q u j
    using that n [OF that(1)] D(2) [OF that(1) _ that(3,4)] make_pde_facts [OF a(2,3)] new [OF that(1)] ta
    by (auto simp: m' split: if_splits)
  have inU: "u \<in> insert a U" if "q \<in> tpaths" "node m' root q = Some u" for q u
    using that n [OF that(1)] D(1) [OF that(1)] by (auto split: if_splits)
  have inj: "q = q'" if "q \<in> tpaths" "q' \<in> tpaths" "node m' root q = Some u" "node m' root q' = Some u" for q q' u
    using that n [OF that(1)] n [OF that(2)] new D(3) [OF that(1,2)] by (auto split: if_splits)
  show "pt_wf m' root (insert a U)" unfolding pt_wf_def using inU tab inj by blast
  have v: "[idx 2 v, idx 1 v] \<in> tpaths" by simp
  show "pte_at m' root v = pte_at m root v"
  proof (cases "[idx 2 v, idx 1 v] = p @ [i]")
    case True
    have "node m root [idx 2 v, idx 1 v] = None" unfolding True using p(3) i(2) by (simp add: node_append child_def)
    moreover have "node m' root [idx 2 v, idx 1 v] = Some a" using n [OF v] True by (simp del: node.simps)
    ultimately show ?thesis using ta by (simp add: pte_at_def m' del: node.simps)
  next
    case False
    have "u \<noteq> a \<and> u \<noteq> t" if "node m root [idx 2 v, idx 1 v] = Some u" for u
      using D(1) [OF v that] a(1) D(3) [OF v p(1) that] p(2,3) by auto
    then show ?thesis using n [OF v] False by (auto simp: pte_at_def m' simp del: node.simps split: option.splits)
  qed
qed

text \<open>Writing an entry of a table of the lowest level.\<close>

lemma wf_set:
  assumes W: "pt_wf m root U" and t: "node m root [i, j] = Some t" and i: "i < 512" "j < 512"
    and m': "m' = m(t := (m t)(k := e))"
  shows "\<And>q. q \<in> tpaths \<Longrightarrow> node m' root q = node m root q" "pt_wf m' root U"
    "pte_at m' root v = (if idx 2 v = i \<and> idx 1 v = j \<and> idx 0 v = k then e else pte_at m root v)"
proof -
  note D = pt_wfD [OF W]
  have ij: "[i, j] \<in> tpaths" using i by simp
  have up: "u \<noteq> t" if "q \<in> tpaths" "length q < 2" "node m root q = Some u" for q u
    using D(3) [OF that(1) ij that(3)] t that(2) by auto
  show n: "node m' root q = node m root q" if "q \<in> tpaths" for q
  proof (rule node_cong)
    fix p x r u assume "q = p @ x # r" "node m root p = Some u"
    then show "m' u x = m u x" using up [of p u] path_prefix [of p x r] that by (simp add: m')
  qed
  show "pt_wf m' root U"
    unfolding pt_wf_def
  proof (intro conjI ballI allI impI)
    fix q u assume q: "q \<in> tpaths" "node m' root q = Some u"
    then show "u \<in> U" using n D(1) by auto
    fix x assume "length q < 2" "x < 512" "pte_is_valid (m' u x)"
    then show "is_page_table (m' u x)" using D(2) [of q u x] q n up [of q u] by (simp add: m')
  next
    fix p q u assume "p \<in> tpaths" "q \<in> tpaths" "node m' root p = Some u \<and> node m' root q = Some u"
    then show "p = q" using n D(3) by auto
  qed
  have v: "[idx 2 v, idx 1 v] \<in> tpaths" by simp
  have "node m root [idx 2 v, idx 1 v] = Some t \<longleftrightarrow> idx 2 v = i \<and> idx 1 v = j"
    using D(3) [OF v ij _ t] t by auto
  then show "pte_at m' root v = (if idx 2 v = i \<and> idx 1 v = j \<and> idx 0 v = k then e else pte_at m root v)"
    using n [OF v] by (auto simp: pte_at_def m' simp del: node.simps split: option.splits)
qed

lemma idx_inj:
  assumes "v < 2 ^ 27" "w < 2 ^ 27"
  shows "idx 2 v = idx 2 w \<and> idx 1 v = idx 1 w \<and> idx 0 v = idx 0 w \<longleftrightarrow> v = w"
proof -
  have d: "x = (idx 2 x * 512 + idx 1 x) * 512 + idx 0 x" if "x < 2 ^ 27" for x
  proof -
    have "x div 512 div 512 < 512" using that by (simp add: div_mult2_eq [symmetric] less_mult_imp_div_less)
    then have "idx 2 x = x div 512 div 512" by (simp add: idx_def div_mult2_eq power2_eq_square)
    moreover have "idx 1 x = x div 512 mod 512" "idx 0 x = x mod 512" by (simp_all add: idx_def)
    ultimately show ?thesis by (simp add: mult.commute)
  qed
  show ?thesis using d [OF assms(1)] d [OF assms(2)] by auto
qed

definition tables :: "(nat \<Rightarrow> nat \<Rightarrow> u64) \<Rightarrow> nat \<Rightarrow> nat set" where
  "tables m root = {t. \<exists>q\<in>tpaths. node m root q = Some t}"

definition pt_inv :: "('p \<Rightarrow> bool) \<Rightarrow> ('p \<Rightarrow> nat set) \<Rightarrow> nat \<Rightarrow> 'p machine \<Rightarrow> bool" where
  "pt_inv ok used root s \<longleftrightarrow> ok (pool s) \<and> pt_wf (frames s) root (used (pool s))"

text \<open>Growing the tree: new tables come from the allocator, no entry and no other page changes.\<close>

definition pt_ext :: "('p \<Rightarrow> nat set) \<Rightarrow> nat \<Rightarrow> 'p machine \<Rightarrow> 'p machine \<Rightarrow> bool" where
  "pt_ext used root s s' \<longleftrightarrow>
     used (pool s') = used (pool s) \<union> tables (frames s') root \<and>
     (\<forall>a\<in>used (pool s). a \<notin> tables (frames s) root \<longrightarrow> frames s' a = frames s a) \<and>
     (\<forall>q\<in>tpaths. \<forall>t. node (frames s) root q = Some t \<longrightarrow> node (frames s') root q = Some t) \<and>
     tables (frames s') root \<inter> used (pool s) = tables (frames s) root \<and>
     (\<forall>v. pte_at (frames s') root v = pte_at (frames s) root v)"

lemma tables_sub: "pt_wf m root U \<Longrightarrow> tables m root \<subseteq> U"
  unfolding tables_def using pt_wfD(1) by blast

lemma pt_ext_refl: "pt_inv ok used root s \<Longrightarrow> pt_ext used root s s"
  using tables_sub [of "frames s" root "used (pool s)"] by (auto simp: pt_ext_def pt_inv_def)

lemma pt_extD:
  assumes "pt_ext used root s s'"
  shows "used (pool s') = used (pool s) \<union> tables (frames s') root"
    "\<And>a. a \<in> used (pool s) \<Longrightarrow> a \<notin> tables (frames s) root \<Longrightarrow> frames s' a = frames s a"
    "\<And>q t. q \<in> tpaths \<Longrightarrow> node (frames s) root q = Some t \<Longrightarrow> node (frames s') root q = Some t"
    "tables (frames s') root \<inter> used (pool s) = tables (frames s) root"
    "\<And>v. pte_at (frames s') root v = pte_at (frames s) root v"
  using assms unfolding pt_ext_def by blast+

lemma pt_ext_trans:
  assumes "pt_ext used root s s1" "pt_ext used root s1 s2" shows "pt_ext used root s s2"
proof -
  note A = pt_extD [OF assms(1)] and B = pt_extD [OF assms(2)]
  have sub: "tables (frames s1) root \<subseteq> tables (frames s2) root" using B(4) by blast
  have "frames s2 a = frames s a" if "a \<in> used (pool s)" "a \<notin> tables (frames s) root" for a
    using that A(1,2,4) B(2) [of a] by auto
  moreover have "tables (frames s2) root \<inter> used (pool s) = tables (frames s) root" using A(1,4) B(4) by blast
  moreover have "used (pool s2) = used (pool s) \<union> tables (frames s2) root" using A(1) B(1) sub by blast
  ultimately show ?thesis unfolding pt_ext_def using A(3,5) B(3,5) by auto
qed

lemma tables_insert:
  assumes "\<And>q. q \<in> tpaths \<Longrightarrow> node m' root q = (if q = r then Some a else node m root q)" "r \<in> tpaths" "node m root r = None"
  shows "tables m' root = insert a (tables m root)"
proof (rule set_eqI)
  fix t
  show "t \<in> tables m' root \<longleftrightarrow> t \<in> insert a (tables m root)"
  proof
    assume "t \<in> tables m' root"
    then obtain q where q: "q \<in> tpaths" "node m' root q = Some t" by (auto simp: tables_def)
    then show "t \<in> insert a (tables m root)" using assms(1) [OF q(1)] by (cases "q = r") (auto simp: tables_def)
  next
    assume t: "t \<in> insert a (tables m root)"
    show "t \<in> tables m' root"
    proof (cases "t = a")
      case True
      then show ?thesis using assms(1) [OF assms(2)] assms(2) by (auto simp: tables_def)
    next
      case False
      then obtain q where q: "q \<in> tpaths" "node m root q = Some t" using t by (auto simp: tables_def)
      then show ?thesis using assms(1) [OF q(1)] assms(3) by (cases "q = r") (auto simp: tables_def)
    qed
  qed
qed

context page_source_laws
begin

lemma alloc_zeroed_spec:
  assumes "ok (pool s)"
  obtains (none) "alloc_zeroed_page P s = (Ok None, s)"
    | (some) a s' where "alloc_zeroed_page P s = (Ok (Some a), s')" "frames s' = (frames s)(a := (\<lambda>_. 0))" "ok (pool s')"
      "a \<notin> used (pool s)" "used (pool s') = insert a (used (pool s))" "a mod 4096 = 0" "0 < a" "a < 2 ^ 64"
proof -
  from alloc [OF assms] obtain r p' where r: "ps_alloc P (pool s) = (Ok r, p')" "ok p'"
    "case r of None \<Rightarrow> p' = pool s | Some a \<Rightarrow> a \<notin> used (pool s) \<and> used p' = insert a (used (pool s))" by blast
  show thesis
  proof (cases r)
    case None
    then show thesis using r by (intro none) (simp add: alloc_zeroed_page_def on_pool_def bind_def)
  next
    case (Some a)
    then have "a \<in> used p'" using r(3) by simp
    from used_page [OF r(2) this] show thesis
      using r Some by (intro some [of a "s\<lparr>frames := (frames s)(a := (\<lambda>_. 0)), pool := p'\<rparr>"])
        (simp_all add: alloc_zeroed_page_def on_pool_def bind_def)
  qed
qed

lemma try_alloc_spec:
  assumes "ok (pool s)"
  obtains (none) "try_alloc P s = (Err (SysErr SysOutOfMemory), s)"
    | (some) a s' where "try_alloc P s = (Ok a, s')" "frames s' = (frames s)(a := (\<lambda>_. 0))" "ok (pool s')"
      "a \<notin> used (pool s)" "used (pool s') = insert a (used (pool s))" "a mod 4096 = 0" "0 < a" "a < 2 ^ 64"
proof (rule alloc_zeroed_spec [OF assms], goal_cases)
  case 1
  then show ?case by (intro none) (simp add: try_alloc_def bind_def)
next
  case (2 a s')
  then show ?case by (intro some [of a s']) (simp_all add: try_alloc_def bind_def)
qed

text \<open>Entering a new table.\<close>

lemma add_table:
  assumes I: "pt_inv ok used root s" and p: "p \<in> tpaths" "length p < 2" "node (frames s) root p = Some t"
    and i: "i < 512" "\<not> pte_is_valid (frames s t i)"
    and a: "frames s1 = (frames s)(a := (\<lambda>_. 0))" "ok (pool s1)" "a \<notin> used (pool s)" "used (pool s1) = insert a (used (pool s))"
      "a mod 4096 = 0" "a < 2 ^ 64"
  defines "s' \<equiv> write_slot (t, i) (make_pde a) s1"
  shows "pt_inv ok used root s'" "pt_ext used root s s'" "node (frames s') root (p @ [i]) = Some a"
proof -
  have W: "pt_wf (frames s) root (used (pool s))" using I by (simp add: pt_inv_def)
  have tU: "t \<in> used (pool s)" using pt_wfD(1) [OF W p(1,3)] .
  then have ta: "t \<noteq> a" using a(3) by auto
  have fr: "frames s' = (frames s)(a := (\<lambda>_. 0), t := (frames s t)(i := make_pde a))"
    using a(1) ta by (auto simp: s'_def write_slot_def fun_upd_twist)
  have po: "pool s' = pool s1" by (simp add: s'_def write_slot_def)
  note N = wf_add [OF W p(1,2,3) i a(3,5,6) fr]
  have pi: "p @ [i] \<in> tpaths" using p(1,2) i(1) by (auto simp: tpaths_def)
  have no: "node (frames s) root (p @ [i]) = None" using p(3) i(2) by (simp add: node_append child_def)
  show "node (frames s') root (p @ [i]) = Some a" using N(1) [OF pi] by simp
  have T: "tables (frames s') root = insert a (tables (frames s) root)" by (rule tables_insert [OF N(1) pi no])
  show "pt_inv ok used root s'" using N(2) a(2,4) po by (simp add: pt_inv_def)
  have t: "t \<in> tables (frames s) root" using p by (auto simp: tables_def)
  show "pt_ext used root s s'"
    unfolding pt_ext_def T po a(4)
  proof (intro conjI ballI allI impI)
    show "insert a (used (pool s)) = used (pool s) \<union> insert a (tables (frames s) root)" using tables_sub [OF W] by auto
    show "insert a (tables (frames s) root) \<inter> used (pool s) = tables (frames s) root" using tables_sub [OF W] a(3) by auto
    show "pte_at (frames s') root v = pte_at (frames s) root v" for v by (rule N(3))
    show "frames s' b = frames s b" if "b \<in> used (pool s)" "b \<notin> tables (frames s) root" for b
      using that a(3) t by (auto simp: fr)
    show "node (frames s') root q = Some u" if "q \<in> tpaths" "node (frames s) root q = Some u" for q u
      using N(1) [OF that(1)] that(2) no by auto
  qed
qed

lemma next_table_spec:
  assumes I: "pt_inv ok used root s" and p: "p \<in> tpaths" "length p < 2" "node (frames s) root p = Some t" and i: "i < 512"
  obtains (none) "next_table P (t, i) s = (Ok None, s)"
    | (some) t' s' where "next_table P (t, i) s = (Ok (Some t'), s')" "pt_inv ok used root s'" "pt_ext used root s s'"
      "node (frames s') root (p @ [i]) = Some t'"
proof (cases "pte_is_valid (frames s t i)")
  case True
  have "is_page_table (frames s t i)" using I p i True pt_wfD(2) by (auto simp: pt_inv_def)
  then have "next_table P (t, i) s = (Ok (Some (physical_addr (frames s t i))), s)"
    using True by (simp add: next_table_def read_slot_def as_table_def bind_def)
  moreover have "node (frames s) root (p @ [i]) = Some (physical_addr (frames s t i))"
    using p(3) True by (simp add: node_append child_def)
  ultimately show ?thesis using some I pt_ext_refl [OF I] by blast
next
  case False
  have okp: "ok (pool s)" using I by (simp add: pt_inv_def)
  show ?thesis
  proof (rule try_alloc_spec [OF okp], goal_cases)
    case 1
    then show ?case using False by (intro none) (simp add: next_table_def read_slot_def attempt_def bind_def)
  next
    case a: (2 a s1)
    note S = add_table [OF I p i False a(2,3,4,5,6,8)]
    show ?case
      using S a(1) False by (intro some [of a "write_slot (t, i) (make_pde a) s1"])
        (simp_all add: next_table_def read_slot_def attempt_def bind_def put_slot_def)
  qed
qed

lemma walk_spec:
  assumes I: "pt_inv ok used root s" and v: "v = va div 4096"
  obtains (none) s' where "walk P root va s = (Ok None, s')" "pt_inv ok used root s'" "pt_ext used root s s'"
    | (some) t s' where "walk P root va s = (Ok (Some (t, idx 0 v)), s')" "pt_inv ok used root s'" "pt_ext used root s s'"
      "node (frames s') root [idx 2 v, idx 1 v] = Some t"
proof -
  have ix: "index_for_va l va = idx l v" for l by (simp add: index_for_va_idx v)
  have r: "[] \<in> tpaths" "length ([] :: nat list) < 2" "node (frames s) root [] = Some root" by simp_all
  have W: "walk P root va s = bind (next_table P (root, idx 2 v)) (\<lambda>r. case r of None \<Rightarrow> ret None | Some t \<Rightarrow>
    bind (next_table P (t, idx 1 v)) (\<lambda>r. case r of None \<Rightarrow> ret None | Some t \<Rightarrow> ret (Some (t, idx 0 v)))) s"
    by (auto simp: walk_def ix bind_def split: prod.splits outcome.splits option.splits)
  show thesis
  proof (rule next_table_spec [OF I r idx_less [of 2 v]], goal_cases)
    case 1
    then show ?case using none [of s] I pt_ext_refl [OF I] by (simp add: W bind_def)
  next
    case a: (2 t1 s1)
    have p1: "[idx 2 v] \<in> tpaths" "length [idx 2 v] < 2" "node (frames s1) root [idx 2 v] = Some t1" using a(4) by simp_all
    show ?case
    proof (rule next_table_spec [OF a(2) p1 idx_less [of 1 v]], goal_cases)
      case 1
      then show ?case using none [of s1] a by (simp add: W bind_def)
    next
      case b: (2 t0 s2)
      then show ?case using some [of t0 s2] a pt_ext_trans [OF a(3) b(3)] by (simp add: W bind_def)
    qed
  qed
qed

end

section \<open>Reading, mapping and unmapping one page\<close>

lemma check_va_ok [simp]: "va < 2 ^ 39 \<Longrightarrow> check_va va s = (Ok (), s)"
proof -
  assume va: "va < 2 ^ 39"
  then have "mask_out va (2 ^ 39 - 1) = 0" using mask_out_power [of va 39] by simp
  then show ?thesis unfolding check_va_def RISCV_VA_MASK_def by simp
qed

lemma check_va_bind [simp]: "va < 2 ^ 39 \<Longrightarrow> bind (check_va va) k s = k () s"
  by (simp add: bind_def)

text \<open>\<open>get_entry\<close> finds the entry of the page if it is valid, and nothing otherwise.\<close>

lemma get_entry_spec:
  assumes W: "pt_wf (frames s) root U" and va: "va < 2 ^ 39" and v: "v = va div 4096"
  shows "get_entry root va s =
    (Ok (if pte_is_valid (pte_at (frames s) root v) then Some (the (node (frames s) root [idx 2 v, idx 1 v]), idx 0 v) else None), s)"
proof -
  have ix: "index_for_va l va = idx l v" for l by (simp add: index_for_va_idx v)
  have t2: "pte_is_valid (frames s root (idx 2 v)) \<Longrightarrow> is_page_table (frames s root (idx 2 v))"
    using pt_wfD(2) [OF W, of "[]" root] by simp
  have t1: "child (frames s) root (idx 2 v) = Some t \<Longrightarrow> pte_is_valid (frames s t (idx 1 v)) \<Longrightarrow> is_page_table (frames s t (idx 1 v))" for t
    using pt_wfD(2) [OF W, of "[idx 2 v]" t] by simp
  show ?thesis
    using va t2 t1
    by (auto simp: get_entry_def ix read_slot_def as_table_def bind_def child_def pte_at_def simp del: One_nat_def split: option.splits)
qed

lemma get_entry_mut_eq: "get_entry_mut root va = get_entry root va"
  by (simp add: get_entry_mut_def get_entry_def)

lemma valid_node:
  assumes "pte_is_valid (pte_at m root v)"
  obtains t where "node m root [idx 2 v, idx 1 v] = Some t" "pte_at m root v = m t (idx 0 v)"
  using assms that by (auto simp: pte_at_def split: option.splits)

text \<open>Writing the entry of a page.\<close>

lemma write_leaf:
  fixes e :: pte
  assumes I: "pt_inv ok used root s" and t: "node (frames s) root [idx 2 v, idx 1 v] = Some t"
  defines "s' \<equiv> write_slot (t, idx 0 v) e s"
  shows "pt_inv ok used root s'" "\<And>w. w < 2 ^ 27 \<Longrightarrow> v < 2 ^ 27 \<Longrightarrow> pte_at (frames s') root w = (if w = v then e else pte_at (frames s) root w)"
    "\<And>q. q \<in> tpaths \<Longrightarrow> node (frames s') root q = node (frames s) root q" "pool s' = pool s" "tables (frames s') root = tables (frames s) root"
    "\<And>a. a \<notin> tables (frames s) root \<Longrightarrow> frames s' a = frames s a"
proof -
  have W: "pt_wf (frames s) root (used (pool s))" using I by (simp add: pt_inv_def)
  have fr: "frames s' = (frames s)(t := (frames s t)(idx 0 v := e))" by (simp add: s'_def write_slot_def)
  note S = wf_set [OF W t idx_less idx_less fr]
  show p: "pool s' = pool s" by (simp add: s'_def write_slot_def)
  show "pt_inv ok used root s'" using S(2) I p by (simp add: pt_inv_def)
  show "pte_at (frames s') root w = (if w = v then e else pte_at (frames s) root w)" if "w < 2 ^ 27" "v < 2 ^ 27" for w
    unfolding S(3) using idx_inj [OF that] by auto
  show n: "node (frames s') root q = node (frames s) root q" if "q \<in> tpaths" for q by (rule S(1) [OF that])
  show "tables (frames s') root = tables (frames s) root" unfolding tables_def using n by auto
  have "t \<in> tables (frames s) root"
    unfolding tables_def mem_Collect_eq by (rule bexI [of _ "[idx 2 v, idx 1 v]"]) (use t in simp_all)
  then show "frames s' a = frames s a" if "a \<notin> tables (frames s) root" for a using that by (auto simp: fr)
qed

context page_source_laws
begin

lemma fill_slot_ok:
  assumes "pa mod 4096 = 0" "pa \<noteq> 0"
  shows "fill_slot sl pa perm s = (Ok (), write_slot sl (apply_perm (perm OR EP_VALID) (set_addr pa (read_slot sl s))) s)"
  using assms by (simp add: fill_slot_def set_physical_addr_ok bind_def put_slot_def)

lemma filled_entry:
  fixes perm :: entry_perm and old :: pte
  assumes "pa mod 4096 = 0" "pa < 2 ^ 64"
  defines "e \<equiv> apply_perm (perm OR EP_VALID) (set_addr pa old)"
  shows "physical_addr e = pa" "pte_perm e = (perm OR EP_VALID) AND PERM_BITS" "pte_is_valid e"
  using set_addr_facts(1) [OF assms(1,2)]
  by (simp_all add: e_def pte_perm_apply valid_perm bit_and_iff bit_or_iff bit_PERM_BITS)

lemma va_page: "va < 2 ^ 39 \<Longrightarrow> va div 4096 < (2 :: nat) ^ 27"
  by (simp add: less_mult_imp_div_less)

lemma map_spec:
  assumes I: "pt_inv ok used root s" and va: "va < 2 ^ 39" and v: "v = va div 4096" and pa: "pa mod 4096 = 0" "pa \<noteq> 0" "pa < 2 ^ 64"
  obtains (none) s' where "pt_map P root va pa perm s = (Err (SysErr SysOutOfMemory), s')" "pt_inv ok used root s'" "pt_ext used root s s'"
    | (some) t s1 e where "pt_ext used root s s1" "pt_inv ok used root s1" "node (frames s1) root [idx 2 v, idx 1 v] = Some t"
      "pt_map P root va pa perm s = (Ok (t, idx 0 v), write_slot (t, idx 0 v) e s1)"
      "physical_addr e = pa" "pte_perm e = (perm OR EP_VALID) AND PERM_BITS" "pte_is_valid e"
proof -
  show thesis
  proof (rule walk_spec [OF I v], goal_cases)
    case (1 s')
    then show ?case using none [of s'] va by (simp add: pt_map_def bind_def)
  next
    case a: (2 t s')
    show ?case
      using a va pa by (intro some [of s' t, OF a(3,2,4) _ filled_entry [OF pa(1,3), of perm "read_slot (t, idx 0 v) s'"]])
        (simp add: pt_map_def bind_def fill_slot_ok)
  qed
qed

lemma try_map_spec:
  assumes I: "pt_inv ok used root s" and va: "va < 2 ^ 39" and v: "v = va div 4096" and pa: "pa mod 4096 = 0" "pa \<noteq> 0" "pa < 2 ^ 64"
  obtains (none) s' where "try_map P root va pa perm s = (Err (SysErr SysOutOfMemory), s')" "pt_inv ok used root s'" "pt_ext used root s s'"
    | (mapped) s' where "try_map P root va pa perm s = (Ok None, s')" "pt_inv ok used root s'" "pt_ext used root s s'"
      "pte_is_valid (pte_at (frames s) root v)"
    | (some) t s1 e where "pt_ext used root s s1" "pt_inv ok used root s1" "node (frames s1) root [idx 2 v, idx 1 v] = Some t"
      "try_map P root va pa perm s = (Ok (Some (t, idx 0 v)), write_slot (t, idx 0 v) e s1)" "\<not> pte_is_valid (pte_at (frames s) root v)"
      "physical_addr e = pa" "pte_perm e = (perm OR EP_VALID) AND PERM_BITS" "pte_is_valid e"
proof -
  show thesis
  proof (rule walk_spec [OF I v], goal_cases)
    case (1 s')
    then show ?case using none [of s'] va by (simp add: try_map_def bind_def)
  next
    case a: (2 t s')
    have at: "read_slot (t, idx 0 v) s' = pte_at (frames s) root v"
      using a(4) pt_extD(5) [OF a(3), of v] by (simp add: pte_at_def read_slot_def)
    show ?case
    proof (cases "pte_is_valid (pte_at (frames s) root v)")
      case True
      then show ?thesis using mapped [of s'] a va at by (simp add: try_map_def bind_def)
    next
      case False
      then show ?thesis
        using a va pa at by (intro some [of s' t, OF a(3,2,4) _ False filled_entry [OF pa(1,3), of perm "read_slot (t, idx 0 v) s'"]])
          (simp add: try_map_def bind_def fill_slot_ok)
    qed
  qed
qed

end

lemma unmap_spec:
  assumes I: "pt_inv ok used root s" and va: "va < 2 ^ 39" and v: "v = va div 4096"
  obtains (none) "unmap root va s = (Ok None, s)" "\<not> pte_is_valid (pte_at (frames s) root v)"
    | (some) t where "pte_is_valid (pte_at (frames s) root v)" "node (frames s) root [idx 2 v, idx 1 v] = Some t"
      "unmap root va s = (Ok (Some (physical_addr (pte_at (frames s) root v))), write_slot (t, idx 0 v) 0 s)"
proof (cases "pte_is_valid (pte_at (frames s) root v)")
  case True
  then obtain t where t: "node (frames s) root [idx 2 v, idx 1 v] = Some t" "pte_at (frames s) root v = frames s t (idx 0 v)"
    by (rule valid_node)
  have W: "pt_wf (frames s) root (used (pool s))" using I by (simp add: pt_inv_def)
  show thesis
    using True t va
    by (intro some [OF True t(1)]) (simp add: unmap_def get_entry_mut_eq bind_def read_slot_def get_entry_spec [OF W va v] del: node.simps)
next
  case False
  have W: "pt_wf (frames s) root (used (pool s))" using I by (simp add: pt_inv_def)
  show thesis using none False va by (simp add: unmap_def get_entry_mut_eq bind_def get_entry_spec [OF W va v])
qed

end
