(* ===== verification/Rw_PtRange.thy ===== *)
theory Rw_PtRange
  imports Rw_PtSpec
begin

text \<open>
  Ranges of virtual pages: the iterator of Rw_PageTable visits the entries of a range in order, and the recursive walk visits and
  creates them in order, when the range does not end at a 2 MiB boundary. Both restrict the last table of a level by
  the index of the end address at that level, which is 0 at such a boundary.
\<close>

section \<open>What an iterator has left\<close>

text \<open>An item of the iterator of a table, with what the iterator of the level below needs to know.\<close>

type_synonym flagged = "nat \<times> nat \<times> slot \<times> bool \<times> bool"

definition flagged_item :: "table_iter \<Rightarrow> nat \<Rightarrow> flagged" where
  "flagged_item ti i = (i, it_base_va ti OR va_for_index (it_level ti) i, (it_table ti, i),
     it_is_first ti \<and> it_start_idx ti = i, it_is_last ti \<and> it_end_idx ti - 1 = i)"

definition own :: "(nat \<Rightarrow> nat \<Rightarrow> u64) \<Rightarrow> table_iter \<Rightarrow> flagged list" where
  "own m ti = map (flagged_item ti) (filter (\<lambda>i. pte_is_valid (m (it_table ti) i)) [it_cur_idx ti..<it_end_idx ti])"

definition slots :: "table_iter \<Rightarrow> (nat \<times> slot) list" where
  "slots ti = map (\<lambda>i. (it_base_va ti OR va_for_index (it_level ti) i, (it_table ti, i))) [it_cur_idx ti..<it_end_idx ti]"

fun sub_iter :: "(nat \<Rightarrow> nat \<Rightarrow> u64) \<Rightarrow> nat \<Rightarrow> nat \<Rightarrow> nat \<Rightarrow> flagged \<Rightarrow> table_iter" where
  "sub_iter m l sv ev (i, base, sl, f, la) = table_iter_new (physical_addr (m (fst sl) (snd sl))) l base sv ev f la"

abbreviation items2 :: "(nat \<Rightarrow> nat \<Rightarrow> u64) \<Rightarrow> range_iter \<Rightarrow> flagged list" where
  "items2 m it \<equiv> own m (table_iters it 2)"

definition items1 :: "(nat \<Rightarrow> nat \<Rightarrow> u64) \<Rightarrow> range_iter \<Rightarrow> flagged list" where
  "items1 m it = own m (table_iters it 1) @
     concat (map (\<lambda>x. own m (sub_iter m 1 (ri_start_va it) (ri_end_va it) x)) (items2 m it))"

text \<open>The entries of the lowest level that are still to be looked at, valid or not.\<close>

definition raw :: "(nat \<Rightarrow> nat \<Rightarrow> u64) \<Rightarrow> range_iter \<Rightarrow> (nat \<times> slot) list" where
  "raw m it = slots (table_iters it 0) @
     concat (map (\<lambda>x. slots (sub_iter m 0 (ri_start_va it) (ri_end_va it) x)) (items1 m it))"

fun slot_of_item :: "flagged \<Rightarrow> slot" where
  "slot_of_item (i, base, sl, f, la) = sl"

text \<open>The iterators read directories of the set \<open>D\<close> only, and what they are about to enter is a table.\<close>

definition iter_in :: "nat set \<Rightarrow> table_iter \<Rightarrow> bool" where
  "iter_in D ti \<longleftrightarrow> (it_cur_idx ti < it_end_idx ti \<longrightarrow> it_table ti \<in> D)"

definition enters :: "(nat \<Rightarrow> nat \<Rightarrow> u64) \<Rightarrow> nat set \<Rightarrow> flagged \<Rightarrow> bool" where
  "enters m D x \<longleftrightarrow> is_page_table (m (fst (slot_of_item x)) (snd (slot_of_item x))) \<and>
     physical_addr (m (fst (slot_of_item x)) (snd (slot_of_item x))) \<in> D"

definition dirs2 :: "nat set \<Rightarrow> (nat \<Rightarrow> nat \<Rightarrow> u64) \<Rightarrow> range_iter \<Rightarrow> bool" where
  "dirs2 D m it \<longleftrightarrow> iter_in D (table_iters it 2) \<and> iter_in D (table_iters it 1) \<and> (\<forall>x\<in>set (items2 m it). enters m D x)"

definition dirs_ok :: "nat set \<Rightarrow> (nat \<Rightarrow> nat \<Rightarrow> u64) \<Rightarrow> range_iter \<Rightarrow> bool" where
  "dirs_ok D m it \<longleftrightarrow> dirs2 D m it \<and> (\<forall>x\<in>set (items1 m it). enters m UNIV x)"

lemma upt_split: "a \<le> b \<Longrightarrow> b \<le> c \<Longrightarrow> [a..<c] = [a..<b] @ [b..<c]"
  using upt_add_eq_append [of a b "c - b"] by simp

lemma upt_filter_cases:
  "filter Q [a..<b] = [] \<or> (\<exists>i. a \<le> i \<and> i < b \<and> filter Q [a..<b] = i # filter Q [Suc i..<b] \<and> Q i \<and> (\<forall>j. a \<le> j \<longrightarrow> j < i \<longrightarrow> \<not> Q j))"
proof (induction "b - a" arbitrary: a)
  case (Suc n)
  then have ab: "a < b" by simp
  then have u: "[a..<b] = a # [Suc a..<b]" by (simp add: upt_conv_Cons)
  show ?case
  proof (cases "Q a")
    case True
    then show ?thesis using ab u by (intro disjI2 exI [of _ a]) auto
  next
    case False
    have eq: "filter Q [a..<b] = filter Q [Suc a..<b]" using u False by simp
    from Suc.hyps(1) [of "Suc a"] Suc.hyps(2) consider "filter Q [Suc a..<b] = []"
      | i where "Suc a \<le> i" "i < b" "filter Q [Suc a..<b] = i # filter Q [Suc i..<b]" "Q i" "\<forall>j. Suc a \<le> j \<longrightarrow> j < i \<longrightarrow> \<not> Q j"
      by fastforce
    then show ?thesis
    proof cases
      case (2 i)
      have "\<not> Q j" if "a \<le> j" "j < i" for j using that 2(5) False by (cases "j = a") auto
      then show ?thesis using 2 eq by (intro disjI2 exI [of _ i]) auto
    qed (simp add: eq)
  qed
qed simp

lemma table_iter_next_eq:
  "table_iter_next m ti =
     (case filter (\<lambda>i. pte_is_valid (m (it_table ti) i)) [it_cur_idx ti..<it_end_idx ti] of
        [] \<Rightarrow> (None, ti\<lparr>it_cur_idx := max (it_cur_idx ti) (it_end_idx ti)\<rparr>)
      | i # _ \<Rightarrow> (Some (i, it_base_va ti OR va_for_index (it_level ti) i, (it_table ti, i)), ti\<lparr>it_cur_idx := Suc i\<rparr>))"
proof (induction m ti rule: table_iter_next.induct)
  case (1 m ti)
  show ?case
  proof (cases "it_cur_idx ti < it_end_idx ti")
    case True
    then have u: "[it_cur_idx ti..<it_end_idx ti] = it_cur_idx ti # [Suc (it_cur_idx ti)..<it_end_idx ti]" by (simp add: upt_conv_Cons)
    show ?thesis
    proof (cases "pte_is_valid (m (it_table ti) (it_cur_idx ti))")
      case v: False
      have "table_iter_next m ti = table_iter_next m (ti\<lparr>it_cur_idx := it_cur_idx ti + 1\<rparr>)"
        using True v by (simp add: table_iter_next.simps [of m ti])
      then show ?thesis using "1.IH" [OF True v] u v True by (auto split: list.splits)
    qed (use True u in \<open>simp add: table_iter_next.simps [of m ti]\<close>)
  qed (simp add: table_iter_next.simps [of m ti])
qed

fun item_of :: "flagged \<Rightarrow> item" where
  "item_of (i, base, sl, f, la) = (i, base, sl)"

definition flags_at :: "table_iter \<Rightarrow> flagged \<Rightarrow> bool" where
  "flags_at ti x \<longleftrightarrow> (case x of (i, base, sl, f, la) \<Rightarrow>
     f = (it_is_first ti \<and> it_start_idx ti = i) \<and> la = (it_is_last ti \<and> it_end_idx ti - 1 = i))"

lemma step_iter_own:
  fixes it :: range_iter
  obtains (none) it' where "step_iter m l it = (None, it')" "own m (table_iters it l) = []" "own m (table_iters it' l) = []"
      "\<And>k. k \<noteq> l \<Longrightarrow> table_iters it' k = table_iters it k"
      "ri_start_va it' = ri_start_va it" "ri_end_va it' = ri_end_va it" "\<And>D. iter_in D (table_iters it l) \<Longrightarrow> iter_in D (table_iters it' l)"
    | (some) x xs it' where "step_iter m l it = (Some (item_of x), it')" "own m (table_iters it l) = x # xs" "own m (table_iters it' l) = xs"
      "flags_at (table_iters it' l) x" "\<And>k. k \<noteq> l \<Longrightarrow> table_iters it' k = table_iters it k"
      "ri_start_va it' = ri_start_va it" "ri_end_va it' = ri_end_va it" "\<And>D. iter_in D (table_iters it l) \<Longrightarrow> iter_in D (table_iters it' l)"
proof -
  let ?t = "table_iters it l" and ?Q = "\<lambda>i. pte_is_valid (m (it_table (table_iters it l)) i)"
  consider "filter ?Q [it_cur_idx ?t..<it_end_idx ?t] = []"
    | i where "filter ?Q [it_cur_idx ?t..<it_end_idx ?t] = i # filter ?Q [Suc i..<it_end_idx ?t]" "it_cur_idx ?t \<le> i" "i < it_end_idx ?t"
    using upt_filter_cases [of ?Q "it_cur_idx ?t" "it_end_idx ?t"] by blast
  then show thesis
  proof cases
    case 1
    let ?n = "it\<lparr>table_iters := (table_iters it)(l := ?t\<lparr>it_cur_idx := max (it_cur_idx ?t) (it_end_idx ?t)\<rparr>)\<rparr>"
    show thesis
      by (rule none [of ?n]) (use 1 in \<open>simp_all add: step_iter_def table_iter_next_eq own_def iter_in_def\<close>)
  next
    case (2 i)
    let ?n = "it\<lparr>table_iters := (table_iters it)(l := ?t\<lparr>it_cur_idx := Suc i\<rparr>)\<rparr>"
    show thesis
      by (rule some [of "flagged_item ?t i" ?n "own m (?t\<lparr>it_cur_idx := Suc i\<rparr>)"])
        (use 2 in \<open>simp_all add: step_iter_def table_iter_next_eq own_def flagged_item_def flags_at_def iter_in_def\<close>)
  qed
qed

lemma sub_iter_descend:
  assumes "flags_at (table_iters it (Suc l)) x" "as_table (m (fst (slot_of_item x)) (snd (slot_of_item x))) it = (Ok t, it)"
    "x = (i, base, sl, f, la)"
  shows "table_iters (descend l i base t it) l = sub_iter m l (ri_start_va it) (ri_end_va it) x"
    "\<And>k. k \<noteq> l \<Longrightarrow> table_iters (descend l i base t it) k = table_iters it k"
    "ri_start_va (descend l i base t it) = ri_start_va it" "ri_end_va (descend l i base t it) = ri_end_va it"
proof -
  have "t = physical_addr (m (fst sl) (snd sl))"
    using assms(2,3) by (auto simp: as_table_def assert_that_def bind_def split: if_splits)
  then show "table_iters (descend l i base t it) l = sub_iter m l (ri_start_va it) (ri_end_va it) x"
    using assms(1,3) by (simp add: descend_def Let_def flags_at_def)
qed (simp_all add: descend_def Let_def)

lemma as_table_ok: "is_page_table e \<Longrightarrow> as_table e s = (Ok (physical_addr e), s)"
  by (simp add: as_table_def)

lemma next_level1:
  assumes "items2 m it = ys" "dirs2 D m it"
  shows "\<exists>it'. table_iters it' 0 = table_iters it 0 \<and> ri_start_va it' = ri_start_va it \<and> ri_end_va it' = ri_end_va it \<and> dirs2 D m it' \<and>
    (case items1 m it of [] \<Rightarrow> next_recursive m (Suc 0) it = (Ok None, it') \<and> items1 m it' = []
     | x # xs \<Rightarrow> next_recursive m (Suc 0) it = (Ok (Some (item_of x)), it') \<and> items1 m it' = xs \<and> flags_at (table_iters it' (Suc 0)) x)"
  using assms
proof (induction ys arbitrary: it)
  case (Cons y ys)
  show ?case
  proof (rule step_iter_own [of m "Suc 0" it], goal_cases none some)
    case (some x xs it1)
    have "items1 m it = x # items1 m it1" using some by (simp add: items1_def)
    moreover have "dirs2 D m it1" using some(5,8) Cons.prems(2) by (simp add: dirs2_def)
    ultimately show ?thesis using some by (intro exI [of _ it1]) (simp add: next_recursive.simps [of m "Suc 0" it])
  next
    case (none it1)
    show ?thesis
    proof (rule step_iter_own [of m 2 it1], goal_cases none2 some2)
      case (none2 it2)
      then show ?thesis using none Cons.prems by simp
    next
      case (some2 x xs it2)
      have xy: "x = y" "xs = ys" using some2(2) none(4) [of 2] Cons.prems(1) by simp_all
      obtain i base sl f la where x: "x = (i, base, sl, f, la)" by (cases x)
      have pt: "is_page_table (m (fst sl) (snd sl))" "physical_addr (m (fst sl) (snd sl)) \<in> D"
        using Cons.prems xy x by (auto simp: dirs2_def enters_def)
      let ?t = "physical_addr (m (fst sl) (snd sl))" let ?d = "descend (Suc 0) i base ?t it2"
      have fl: "flags_at (table_iters it2 (Suc (Suc 0))) x" using some2(4) by (simp add: numeral_2_eq_2)
      have at: "as_table (m (fst (slot_of_item x)) (snd (slot_of_item x))) it2 = (Ok ?t, it2)" using as_table_ok [OF pt(1)] x by simp
      note sd = sub_iter_descend [where m = m, OF fl at x]
      have d2: "items2 m ?d = ys" using sd(2) [of 2] some2(3) xy by simp
      have up: "next_recursive m 2 it1 = (Ok (Some (item_of x)), it2)" using some2(1) by (simp add: next_recursive.simps [of m 2 it1])
      have eq: "next_recursive m (Suc 0) it = next_recursive m (Suc 0) ?d"
        using none(1) up x by (simp add: next_recursive.simps [of m "Suc 0" it] numeral_2_eq_2 as_table_ok [OF pt(1)])
      have e1: "items1 m ?d = items1 m it"
        unfolding items1_def using sd none(2,3,5,6) some2 xy Cons.prems(1) by (simp add: numeral_2_eq_2)
      have e0: "table_iters ?d 0 = table_iters it 0" using sd(2) [of 0] some2(5) [of 0] none(4) [of 0] by simp
      have se: "ri_start_va ?d = ri_start_va it" "ri_end_va ?d = ri_end_va it" using sd(3,4) some2(6,7) none(5,6) by simp_all
      have "iter_in D (table_iters it2 2)" using some2(8) none(4) [of 2] Cons.prems(2) by (simp add: dirs2_def)
      moreover have "iter_in D (table_iters ?d (Suc 0))" unfolding sd(1) using pt(2) by (simp add: x iter_in_def table_iter_new_def)
      ultimately have dd: "dirs2 D m ?d"
        using d2 Cons.prems sd(2) [of 2] unfolding dirs2_def by simp
      from Cons.IH [OF d2 dd] obtain it' where
        "table_iters it' 0 = table_iters it 0" "ri_start_va it' = ri_start_va it" "ri_end_va it' = ri_end_va it" "dirs2 D m it'"
        "case items1 m it of [] \<Rightarrow> next_recursive m (Suc 0) it = (Ok None, it') \<and> items1 m it' = []
         | x # xs \<Rightarrow> next_recursive m (Suc 0) it = (Ok (Some (item_of x)), it') \<and> items1 m it' = xs \<and> flags_at (table_iters it' (Suc 0)) x"
        unfolding e1 e0 se eq by auto
      then show ?thesis by (intro exI [of _ it']) auto
    qed
  qed
next
  case Nil
  show ?case
  proof (rule step_iter_own [of m "Suc 0" it], goal_cases none some)
    case (some x xs it1)
    have "items1 m it = x # items1 m it1" using some by (simp add: items1_def)
    moreover have "dirs2 D m it1" using some(5,8) Nil.prems(2) by (simp add: dirs2_def)
    ultimately show ?thesis using some by (intro exI [of _ it1]) (simp add: next_recursive.simps [of m "Suc 0" it])
  next
    case (none it1)
    show ?thesis
    proof (rule step_iter_own [of m 2 it1], goal_cases none2 some2)
      case (none2 it2)
      have up: "next_recursive m 2 it1 = (Ok None, it2)" using none2(1) by (simp add: next_recursive.simps [of m 2 it1])
      then have "next_recursive m (Suc 0) it = (Ok None, it2)"
        using none(1) by (simp add: next_recursive.simps [of m "Suc 0" it] numeral_2_eq_2)
      moreover have "dirs2 D m it2"
        using Nil.prems(2) none(4) [of 2] none(7) [of D] none2(3) none2(4) [of "Suc 0"] none2(7) [of D] by (simp add: dirs2_def)
      ultimately show ?thesis using none none2 Nil by (intro exI [of _ it2]) (simp add: items1_def)
    next
      case (some2 x xs it2)
      then show ?thesis using none Nil by simp
    qed
  qed
qed

abbreviation slot_valid :: "(nat \<Rightarrow> nat \<Rightarrow> u64) \<Rightarrow> nat \<times> slot \<Rightarrow> bool" where
  "slot_valid m x \<equiv> pte_is_valid (m (fst (snd x)) (snd (snd x)))"

lemma step_iter_slots:
  fixes it :: range_iter
  obtains (none) it' where "step_iter m l it = (None, it')" "\<forall>x\<in>set (slots (table_iters it l)). \<not> slot_valid m x"
      "slots (table_iters it' l) = []" "\<And>k. k \<noteq> l \<Longrightarrow> table_iters it' k = table_iters it k"
      "ri_start_va it' = ri_start_va it" "ri_end_va it' = ri_end_va it"
    | (some) pre i va sl it' where "step_iter m l it = (Some (i, va, sl), it')"
      "slots (table_iters it l) = pre @ (va, sl) # slots (table_iters it' l)" "\<forall>x\<in>set pre. \<not> slot_valid m x" "slot_valid m (va, sl)"
      "\<And>k. k \<noteq> l \<Longrightarrow> table_iters it' k = table_iters it k" "ri_start_va it' = ri_start_va it" "ri_end_va it' = ri_end_va it"
proof -
  let ?t = "table_iters it l" and ?Q = "\<lambda>i. pte_is_valid (m (it_table (table_iters it l)) i)"
  let ?f = "\<lambda>i. (it_base_va ?t OR va_for_index (it_level ?t) i, (it_table ?t, i))"
  consider "filter ?Q [it_cur_idx ?t..<it_end_idx ?t] = []"
    | i where "it_cur_idx ?t \<le> i" "i < it_end_idx ?t" "filter ?Q [it_cur_idx ?t..<it_end_idx ?t] = i # filter ?Q [Suc i..<it_end_idx ?t]" "?Q i"
      "\<forall>j. it_cur_idx ?t \<le> j \<longrightarrow> j < i \<longrightarrow> \<not> ?Q j"
    using upt_filter_cases [of ?Q "it_cur_idx ?t" "it_end_idx ?t"] by blast
  then show thesis
  proof cases
    case 1
    let ?n = "it\<lparr>table_iters := (table_iters it)(l := ?t\<lparr>it_cur_idx := max (it_cur_idx ?t) (it_end_idx ?t)\<rparr>)\<rparr>"
    show thesis
      by (rule none [of ?n]) (use 1 in \<open>auto simp: step_iter_def table_iter_next_eq slots_def filter_empty_conv\<close>)
  next
    case (2 i)
    let ?n = "it\<lparr>table_iters := (table_iters it)(l := ?t\<lparr>it_cur_idx := Suc i\<rparr>)\<rparr>"
    have "[it_cur_idx ?t..<it_end_idx ?t] = [it_cur_idx ?t..<i] @ i # [Suc i..<it_end_idx ?t]"
      using 2(1,2) upt_split [of "it_cur_idx ?t" i "it_end_idx ?t"] by (simp add: upt_conv_Cons)
    then have sl: "slots ?t = map ?f [it_cur_idx ?t..<i] @ ?f i # slots (table_iters ?n l)" by (simp add: slots_def)
    show thesis
      by (rule some [of i "fst (?f i)" "snd (?f i)" ?n "map ?f [it_cur_idx ?t..<i]"])
        (use 2 sl in \<open>auto simp: step_iter_def table_iter_next_eq\<close>)
  qed
qed

lemma next_level0:
  assumes "items1 m it = zs" "dirs_ok D m it"
  shows "\<exists>it'. dirs_ok D m it' \<and>
    (next_recursive m 0 it = (Ok None, it') \<and> (\<forall>x\<in>set (raw m it). \<not> slot_valid m x) \<or>
     (\<exists>pre i va sl. next_recursive m 0 it = (Ok (Some (i, va, sl)), it') \<and> raw m it = pre @ (va, sl) # raw m it' \<and>
        (\<forall>x\<in>set pre. \<not> slot_valid m x) \<and> slot_valid m (va, sl)))"
  using assms
proof (induction zs arbitrary: it)
  case (Cons z zs)
  show ?case
  proof (rule step_iter_slots [of m 0 it], goal_cases none some)
    case (some pre i va sl it1)
    have same: "items2 m it1 = items2 m it" "items1 m it1 = items1 m it" using some(5-7) by (simp_all add: items1_def)
    have "raw m it = pre @ (va, sl) # raw m it1" unfolding raw_def same using some(2,6,7) by simp
    moreover have "next_recursive m 0 it = (Ok (Some (i, va, sl)), it1)" using some(1) by (simp add: next_recursive.simps [of m 0 it])
    moreover have "dirs_ok D m it1" using Cons.prems(2) same some(5) by (simp add: dirs_ok_def dirs2_def)
    ultimately show ?thesis using some(3,4) by blast
  next
    case (none it1)
    have same: "items2 m it1 = items2 m it" "items1 m it1 = items1 m it" using none(4-6) by (simp_all add: items1_def)
    have d2: "dirs2 D m it1" using Cons.prems(2) same none(4) by (simp add: dirs_ok_def dirs2_def)
    from next_level1 [OF refl d2] obtain it2 where
      u: "table_iters it2 0 = table_iters it1 0" "ri_start_va it2 = ri_start_va it1" "ri_end_va it2 = ri_end_va it1"
        "dirs2 D m it2" "next_recursive m (Suc 0) it1 = (Ok (Some (item_of z)), it2)" "items1 m it2 = zs"
        "flags_at (table_iters it2 (Suc 0)) z"
      unfolding same Cons.prems(1) by auto
    obtain i base sl f la where z: "z = (i, base, sl, f, la)" by (cases z)
    have pt: "is_page_table (m (fst sl) (snd sl))" using Cons.prems z by (auto simp: dirs_ok_def enters_def)
    let ?t = "physical_addr (m (fst sl) (snd sl))" let ?d = "descend 0 i base ?t it2"
    have at: "as_table (m (fst (slot_of_item z)) (snd (slot_of_item z))) it2 = (Ok ?t, it2)" using as_table_ok [OF pt] z by simp
    note sd = sub_iter_descend [where m = m, OF u(7) at z]
    have eq: "next_recursive m 0 it = next_recursive m 0 ?d"
      using none(1) u(5) z by (simp add: next_recursive.simps [of m 0 it] as_table_ok [OF pt])
    have i1: "items1 m ?d = zs" using sd(2-4) u(6) by (simp add: items1_def)
    have dok: "dirs_ok D m ?d"
      using sd(2) [of 2] sd(2) [of 1] i1 u(4) Cons.prems same by (auto simp: dirs_ok_def dirs2_def)
    have rw: "raw m it = slots (table_iters it 0) @ raw m ?d"
      unfolding raw_def i1 Cons.prems(1) sd(1,3,4) using u(2,3) none(5,6) by simp
    from Cons.IH [OF i1 dok] obtain it' where r: "dirs_ok D m it'" "next_recursive m 0 ?d = (Ok None, it') \<and> (\<forall>x\<in>set (raw m ?d). \<not> slot_valid m x) \<or>
     (\<exists>pre i va sl. next_recursive m 0 ?d = (Ok (Some (i, va, sl)), it') \<and> raw m ?d = pre @ (va, sl) # raw m it' \<and>
        (\<forall>x\<in>set pre. \<not> slot_valid m x) \<and> slot_valid m (va, sl))" by blast
    from r(2) show ?thesis
    proof (elim disjE exE conjE, goal_cases a b)
      case a
      then show ?case using r(1) eq rw none(2) by (intro exI [of _ it']) auto
    next
      case (b pre i' va' sl')
      then have "next_recursive m 0 it = (Ok (Some (i', va', sl')), it')" "raw m it = (slots (table_iters it 0) @ pre) @ (va', sl') # raw m it'"
        "\<forall>x\<in>set (slots (table_iters it 0) @ pre). \<not> slot_valid m x" "slot_valid m (va', sl')"
        using eq rw none(2) by auto
      then show ?case using r(1) by blast
    qed
  qed
next
  case Nil
  show ?case
  proof (rule step_iter_slots [of m 0 it], goal_cases none some)
    case (some pre i va sl it1)
    have same: "items2 m it1 = items2 m it" "items1 m it1 = items1 m it" using some(5-7) by (simp_all add: items1_def)
    have "raw m it = pre @ (va, sl) # raw m it1" unfolding raw_def same using some(2,6,7) by simp
    moreover have "next_recursive m 0 it = (Ok (Some (i, va, sl)), it1)" using some(1) by (simp add: next_recursive.simps [of m 0 it])
    moreover have "dirs_ok D m it1" using Nil.prems(2) same some(5) by (simp add: dirs_ok_def dirs2_def)
    ultimately show ?thesis using some(3,4) by blast
  next
    case (none it1)
    have same: "items2 m it1 = items2 m it" "items1 m it1 = items1 m it" using none(4-6) by (simp_all add: items1_def)
    have d2: "dirs2 D m it1" using Nil.prems(2) same none(4) by (simp add: dirs_ok_def dirs2_def)
    from next_level1 [OF refl d2] obtain it2 where
      u: "dirs2 D m it2" "next_recursive m (Suc 0) it1 = (Ok None, it2)" "items1 m it2 = []"
      unfolding same Nil.prems(1) by auto
    have "next_recursive m 0 it = (Ok None, it2)" using none(1) u(2) by (simp add: next_recursive.simps [of m 0 it])
    moreover have "dirs_ok D m it2" using u by (simp add: dirs_ok_def)
    moreover have "raw m it = slots (table_iters it 0)" unfolding raw_def Nil.prems(1) by simp
    ultimately show ?thesis using none(2) by auto
  qed
qed

section \<open>Loops over the entries\<close>

lemma own_in: "x \<in> set (own m ti) \<Longrightarrow> iter_in D ti \<Longrightarrow> fst (slot_of_item x) \<in> D"
  by (auto simp: own_def iter_in_def flagged_item_def)

lemma own_cong: "iter_in D ti \<Longrightarrow> \<forall>t\<in>D. m' t = m t \<Longrightarrow> own m' ti = own m ti"
  by (cases "it_cur_idx ti < it_end_idx ti") (auto simp: own_def iter_in_def)

lemma sub_iter_cong: "m' (fst (slot_of_item x)) = m (fst (slot_of_item x)) \<Longrightarrow> sub_iter m' l sv ev x = sub_iter m l sv ev x"
  by (cases x) simp

lemma enters_cong: "m' (fst (slot_of_item x)) = m (fst (slot_of_item x)) \<Longrightarrow> enters m' D x \<longleftrightarrow> enters m D x"
  by (simp add: enters_def)

lemma sub_iter_in: "enters m D x \<Longrightarrow> iter_in D (sub_iter m l sv ev x)"
  by (cases x) (simp add: enters_def iter_in_def table_iter_new_def)

lemma dirs_cong:
  assumes d: "dirs_ok D m it" and same: "\<forall>t\<in>D. m' t = m t"
  shows "raw m' it = raw m it" "dirs_ok D m' it"
proof -
  have i2: "iter_in D (table_iters it 2)" and i1: "iter_in D (table_iters it 1)" and e2: "\<forall>x\<in>set (items2 m it). enters m D x"
    and e1: "\<forall>x\<in>set (items1 m it). enters m UNIV x" using d by (simp_all add: dirs_ok_def dirs2_def)
  have o2: "items2 m' it = items2 m it" by (rule own_cong [OF i2 same])
  have s2: "m' (fst (slot_of_item x)) = m (fst (slot_of_item x))" if "x \<in> set (items2 m it)" for x
    using own_in [OF that i2] same by blast
  have sub: "own m' (sub_iter m' 1 sv ev x) = own m (sub_iter m 1 sv ev x)" if "x \<in> set (items2 m it)" for x sv ev
    using sub_iter_cong [of m' x m, OF s2 [OF that]] own_cong [OF sub_iter_in [of m D x] same] e2 that by simp
  have o1: "items1 m' it = items1 m it"
    unfolding items1_def o2 own_cong [OF i1 same] using sub by (simp cong: map_cong)
  have s1: "m' (fst (slot_of_item x)) = m (fst (slot_of_item x))" if x: "x \<in> set (items1 m it)" for x
  proof -
    from x consider "x \<in> set (own m (table_iters it 1))"
      | y where "y \<in> set (items2 m it)" "x \<in> set (own m (sub_iter m 1 (ri_start_va it) (ri_end_va it) y))" by (auto simp: items1_def)
    then have "fst (slot_of_item x) \<in> D"
      by cases (use own_in [OF _ i1] own_in [OF _ sub_iter_in [of m D]] e2 in blast)+
    then show ?thesis using same by blast
  qed
  show "raw m' it = raw m it" unfolding raw_def o1 using sub_iter_cong [of m' _ m, OF s1] by (simp cong: map_cong)
  show "dirs_ok D m' it"
    unfolding dirs_ok_def dirs2_def o1 o2 using i2 i1 e2 e1 enters_cong [of m' _ m, OF s2] enters_cong [of m' _ m, OF s1] by simp
qed

text \<open>The loop over a list of entries, of which the valid ones are visited.\<close>

fun visit :: "(nat \<times> slot) list \<Rightarrow> (nat \<Rightarrow> slot \<Rightarrow> ('p, unit) pt_call) \<Rightarrow> ('p, unit) pt_call" where
  "visit [] body s = (Ok (), s)"
| "visit (x # xs) body s =
     (if slot_valid (frames s) x then bind (body (fst x) (snd x)) (\<lambda>_. visit xs body) s else visit xs body s)"

lemma visit_skip: "\<forall>x\<in>set pre. \<not> slot_valid (frames s) x \<Longrightarrow> visit (pre @ xs) body s = visit xs body s"
  by (induction pre) auto

lemma for_entries_visit:
  assumes "raw (frames s) it = xs" "dirs_ok D (frames s) it" "Inv s"
    and keep: "\<And>x s s'. x \<in> set xs \<Longrightarrow> Inv s \<Longrightarrow> slot_valid (frames s) x \<Longrightarrow> body (fst x) (snd x) s = (Ok (), s') \<Longrightarrow>
      Inv s' \<and> (\<forall>t\<in>D. frames s' t = frames s t)"
  shows "for_entries it body s = visit xs body s"
  using assms
proof (induction "length xs" arbitrary: xs it s rule: less_induct)
  case less
  from next_level0 [OF refl less.prems(2)] obtain it' where d: "dirs_ok D (frames s) it'" and
    c: "next_recursive (frames s) 0 it = (Ok None, it') \<and> (\<forall>x\<in>set xs. \<not> slot_valid (frames s) x) \<or>
     (\<exists>pre i va sl. next_recursive (frames s) 0 it = (Ok (Some (i, va, sl)), it') \<and> xs = pre @ (va, sl) # raw (frames s) it' \<and>
        (\<forall>x\<in>set pre. \<not> slot_valid (frames s) x) \<and> slot_valid (frames s) (va, sl))" unfolding less.prems(1) by blast
  from c show ?case
  proof (elim disjE exE conjE, goal_cases a b)
    case a
    then show ?case using visit_skip [of xs s "[]" body] by (simp add: for_entries.simps [of it] range_next_def)
  next
    case (b pre i va sl)
    let ?ys = "raw (frames s) it'"
    have f: "for_entries it body s = bind (body va sl) (\<lambda>_. for_entries it' body) s"
      using b(1) by (simp add: for_entries.simps [of it] range_next_def)
    have v: "visit xs body s = bind (body va sl) (\<lambda>_. visit ?ys body) s"
      using b visit_skip [of pre s "(va, sl) # ?ys" body] by simp
    have "for_entries it' body s' = visit ?ys body s'" if "body va sl s = (Ok (), s')" for s'
    proof -
      have k: "Inv s'" "\<forall>t\<in>D. frames s' t = frames s t" using less.prems(4) [of "(va, sl)" s s'] b that less.prems(3) by auto
      note dc = dirs_cong [OF d k(2)]
      show ?thesis
      proof (rule less.hyps [OF _ dc(1) dc(2) k(1)])
        show "length ?ys < length xs" using b(2) by simp
        fix x u u' assume x: "x \<in> set ?ys" "Inv u" "slot_valid (frames u) x" "body (fst x) (snd x) u = (Ok (), u')"
        have "x \<in> set xs" using x(1) b(2) by simp
        from less.prems(4) [OF this x(2-4)] show "Inv u' \<and> (\<forall>t\<in>D. frames u' t = frames u t)" .
      qed
    qed
    then show ?case unfolding f v by (auto simp: bind_def split: prod.splits outcome.splits)
  qed
qed

section \<open>The pages of a table\<close>

text \<open>The part of the range of pages \<open>{S..<E}\<close> that a table at level \<open>l\<close> whose first page is \<open>B\<close> covers.\<close>

definition t_lo :: "nat \<Rightarrow> nat \<Rightarrow> bool \<Rightarrow> nat" where
  "t_lo S B f = (if f then S else B)"

definition t_hi :: "nat \<Rightarrow> nat \<Rightarrow> nat \<Rightarrow> bool \<Rightarrow> nat" where
  "t_hi l E B la = (if la then E else B + 512 ^ Suc l)"

definition t_range :: "nat \<Rightarrow> nat \<Rightarrow> nat \<Rightarrow> nat \<Rightarrow> bool \<Rightarrow> bool \<Rightarrow> bool" where
  "t_range l S E B f la \<longleftrightarrow> (\<exists>q. B = q * 512 ^ Suc l) \<and> (f \<longrightarrow> B \<le> S \<and> S < B + 512 ^ Suc l) \<and> (la \<longrightarrow> B \<le> E \<and> E < B + 512 ^ Suc l) \<and>
     t_lo S B f \<le> t_hi l E B la"

definition bound :: "nat \<Rightarrow> nat \<Rightarrow> nat \<Rightarrow> nat \<Rightarrow> bool \<Rightarrow> bool \<Rightarrow> nat \<Rightarrow> nat" where
  "bound l S E B f la i = max (t_lo S B f) (min (t_hi l E B la) (B + i * 512 ^ l))"

lemma digit:
  assumes "B = q * 512 ^ Suc l" "B \<le> x" "x < B + 512 ^ Suc l"
  shows "idx l x = (x - B) div 512 ^ l" "x mod 512 ^ l = (x - B) mod 512 ^ l"
proof -
  let ?K = "512 ^ l :: nat"
  obtain r where r: "x = B + r" using assms(2) le_Suc_ex by blast
  have rl: "r div ?K < 512" using assms(3) r by (simp add: less_mult_imp_div_less mult.commute)
  have B: "B = (q * 512) * ?K" using assms(1) by simp
  have "x div ?K = q * 512 + r div ?K" unfolding r B by (subst div_mult_self3) simp_all
  then show "idx l x = (x - B) div ?K" using rl r by (simp add: idx_def)
  show "x mod ?K = (x - B) mod ?K" unfolding r B by simp
qed

lemma start_index_eq:
  assumes "t_range l S E B f la" shows "start_index l (S * 4096) f = (t_lo S B f - B) div 512 ^ l"
  using assms digit(1) [of B _ l S] by (auto simp: t_range_def start_index_def t_lo_def index_for_va_idx)

lemma ceil_eq: "0 < K \<Longrightarrow> (r :: nat) div K + of_bool (r mod K \<noteq> 0) = (r + K - 1) div K"
proof -
  assume K: "0 < K"
  have "(r + K - 1) div K = r div K + (r mod K + (K - 1)) div K"
    by (metis (no_types, lifting) K Nat.add_diff_assoc One_nat_def Suc_leI add.assoc div_mult_mod_eq div_mult_self3 less_numeral_extra(3) mult.commute)
  moreover have "(r mod K + (K - 1)) div K = of_bool (r mod K \<noteq> 0)"
  proof (cases "r mod K = 0")
    case True
    then show ?thesis using K by simp
  next
    case False
    have "r mod K < K" using K by simp
    then have "K \<le> r mod K + (K - 1)" "r mod K + (K - 1) < 2 * K" using False by linarith+
    then have "(r mod K + (K - 1)) div K = 1" by (simp add: div_nat_eqI)
    then show ?thesis using False by simp
  qed
  ultimately show ?thesis by simp
qed

lemma end_index_eq:
  assumes "t_range l S E B f la" shows "end_index l (E * 4096) la = (t_hi l E B la - B + 512 ^ l - 1) div 512 ^ l"
proof (cases la)
  case True
  then have r: "\<exists>q. B = q * 512 ^ Suc l" "B \<le> E" "E < B + 512 ^ Suc l" using assms by (auto simp: t_range_def)
  then show ?thesis
    using True digit [of B _ l E] ceil_eq [of "512 ^ l" "E - B"]
    by (auto simp: end_index_def t_hi_def upper_bound_idx)
next
  case False
  have "((512 :: nat) * 512 ^ l + 512 ^ l - 1) div 512 ^ l = 512"
    using ceil_eq [of "512 ^ l" "512 * 512 ^ l"] by simp
  then show ?thesis using False by (simp add: end_index_def t_hi_def TABLE_LEN_def PGSIZE_def)
qed

lemma concat_ranges:
  assumes "a \<le> b" "\<And>i j. a \<le> i \<Longrightarrow> i \<le> j \<Longrightarrow> j \<le> b \<Longrightarrow> f i \<le> f j"
  shows "concat (map (\<lambda>i. [f i..<f (Suc i)]) [a..<b]) = [f a..<f (b :: nat) :: nat]"
  using assms
proof (induction b)
  case (Suc b)
  show ?case
  proof (cases "a = Suc b")
    case False
    then have ab: "a \<le> b" using Suc.prems by simp
    have "concat (map (\<lambda>i. [f i..<f (Suc i)]) [a..<b]) = [f a..<f b]"
      by (rule Suc.IH [OF ab]) (use Suc.prems(2) in auto)
    then show ?thesis
      using ab upt_split [of "f a" "f b" "f (Suc b)"] Suc.prems(2) [of a b] Suc.prems(2) [of b "Suc b"] by simp
  qed simp
qed simp

lemma bound_mono: "i \<le> j \<Longrightarrow> bound l S E B f la i \<le> bound l S E B f la j"
proof -
  assume "i \<le> j"
  then have "B + i * 512 ^ l \<le> B + j * 512 ^ l" by simp
  then show ?thesis unfolding bound_def by (intro max.mono min.mono order_refl)
qed

lemma t_rangeD:
  assumes "t_range l S E B f la"
  shows "B \<le> t_lo S B f" "t_lo S B f \<le> t_hi l E B la" "t_hi l E B la \<le> B + 512 ^ Suc l" "f \<Longrightarrow> S < B + 512 ^ Suc l" "la \<Longrightarrow> E < B + 512 ^ Suc l"
  using assms by (auto simp: t_range_def t_lo_def t_hi_def)

lemma bound_ends:
  assumes R: "t_range l S E B f la"
  defines "si \<equiv> (t_lo S B f - B) div 512 ^ l" and "ei \<equiv> (t_hi l E B la - B + 512 ^ l - 1) div 512 ^ l"
  shows "bound l S E B f la si = t_lo S B f" "bound l S E B f la ei = t_hi l E B la" "si \<le> ei" "ei \<le> 512"
    "t_hi l E B la \<le> B + ei * 512 ^ l" "\<And>i. i < ei \<Longrightarrow> B + i * 512 ^ l < t_hi l E B la" "B + si * 512 ^ l \<le> t_lo S B f"
    "\<And>i. si < i \<Longrightarrow> t_lo S B f < B + i * 512 ^ l"
proof -
  note D = t_rangeD [OF R]
  let ?K = "512 ^ l :: nat" let ?lo = "t_lo S B f" let ?hi = "t_hi l E B la"
  have K: "0 < ?K" by simp
  have s: "si * ?K \<le> ?lo - B" by (simp add: si_def)
  show lo: "B + si * ?K \<le> ?lo" using s D(1) by linarith
  show "bound l S E B f la si = ?lo" using lo by (simp add: bound_def)
  have e: "?hi - B \<le> ei * ?K" using div_ceil_ge [OF K, of "?hi - B"] by (simp add: ei_def div_ceil_def)
  show hi: "?hi \<le> B + ei * ?K" using e by linarith
  show "bound l S E B f la ei = ?hi" using hi D(2) by (simp add: bound_def)
  show "si \<le> ei" unfolding si_def ei_def by (rule div_le_mono) (use D(2) K in linarith)
  have "?hi - B \<le> 512 * ?K" using D(3) by simp
  then show "ei \<le> 512" using div_ceil_le [OF K, of "?hi - B" 512] by (simp add: ei_def div_ceil_def)
  show "B + i * ?K < ?hi" if "i < ei" for i
  proof (rule ccontr)
    assume "\<not> B + i * ?K < ?hi"
    then have "?hi - B \<le> i * ?K" by linarith
    then show False using div_ceil_le [OF K, of "?hi - B" i] that by (simp add: ei_def div_ceil_def)
  qed
  show "?lo < B + i * ?K" if "si < i" for i
  proof -
    have "?lo - B < Suc si * ?K" unfolding si_def using dividend_less_div_times [OF K, of "?lo - B"] by simp
    also have "\<dots> \<le> i * ?K" using that by (intro mult_le_mono1) simp
    finally show ?thesis using D(1) by linarith
  qed
qed

lemma sub_range:
  assumes R: "t_range (Suc k) S E B f la"
  defines "si \<equiv> (t_lo S B f - B) div 512 ^ Suc k" and "ei \<equiv> (t_hi (Suc k) E B la - B + 512 ^ Suc k - 1) div 512 ^ Suc k"
  assumes i: "si \<le> i" "i < ei" and E: "la \<Longrightarrow> ei - 1 = i \<Longrightarrow> E \<noteq> B + i * 512 ^ Suc k + 512 ^ Suc k"
  defines "B' \<equiv> B + i * 512 ^ Suc k" and "f' \<equiv> f \<and> si = i" and "la' \<equiv> la \<and> ei - 1 = i"
  shows "t_range k S E B' f' la'" "t_lo S B' f' = bound (Suc k) S E B f la i" "t_hi k E B' la' = bound (Suc k) S E B f la (Suc i)"
proof -
  let ?K = "512 ^ Suc k :: nat" let ?lo = "t_lo S B f" let ?hi = "t_hi (Suc k) E B la"
  note BE = bound_ends [OF R, folded si_def ei_def]
  obtain q where q: "B = q * 512 ^ Suc (Suc k)" using R by (auto simp: t_range_def)
  have hi: "B' < ?hi" using BE(6) [OF i(2)] by (simp add: B'_def)
  have next_lo: "?lo < B' + ?K" using BE(8) [of "Suc i"] i(1) by (simp add: B'_def)
  have lo: "t_lo S B' f' = bound (Suc k) S E B f la i"
  proof (cases "si = i")
    case True
    then have "bound (Suc k) S E B f la i = ?lo" using BE(1) by simp
    moreover have "\<not> f \<Longrightarrow> B' = B" using True by (simp add: B'_def si_def t_lo_def)
    ultimately show ?thesis using True by (auto simp: f'_def t_lo_def)
  next
    case False
    then have "?lo < B'" using BE(8) [of i] i(1) by (simp add: B'_def)
    then show ?thesis using hi False by (simp add: bound_def f'_def t_lo_def B'_def)
  qed
  then show "t_lo S B' f' = bound (Suc k) S E B f la i" .
  show hh: "t_hi k E B' la' = bound (Suc k) S E B f la (Suc i)"
  proof (cases "ei - 1 = i")
    case True
    then have si: "Suc i = ei" using i(2) by simp
    have "?hi = B' + ?K" if "\<not> la"
    proof -
      have "?hi - B = 512 * ?K" using that by (simp add: t_hi_def)
      then have "ei = 512" unfolding ei_def using ceil_eq [of ?K "512 * ?K"] by simp
      then show ?thesis using si that by (simp add: B'_def t_hi_def)
    qed
    then show ?thesis using si BE(2) True by (auto simp: la'_def t_hi_def)
  next
    case False
    then have "B + Suc i * ?K < ?hi" using BE(6) [of "Suc i"] i(2) by simp
    then show ?thesis using next_lo False by (simp add: bound_def la'_def t_hi_def B'_def)
  qed
  have "B' = (q * 512 + i) * 512 ^ Suc k" unfolding B'_def q by (simp add: algebra_simps)
  moreover have "f' \<Longrightarrow> B' \<le> S \<and> S < B' + ?K" using BE(7) next_lo by (auto simp: f'_def B'_def t_lo_def)
  moreover have "la' \<Longrightarrow> B' \<le> E \<and> E < B' + ?K"
  proof -
    assume l: "la'"
    then have e: "ei = Suc i" "?hi = E" using i(2) by (auto simp: la'_def t_hi_def)
    then have "E \<le> B' + ?K" using BE(5) unfolding e by (simp add: B'_def)
    moreover have "E \<noteq> B' + ?K" using E l by (simp add: B'_def la'_def)
    ultimately show ?thesis using hi \<open>?hi = E\<close> by simp
  qed
  moreover have "t_lo S B' f' \<le> t_hi k E B' la'" unfolding lo hh by (rule bound_mono) simp
  ultimately show "t_range k S E B' f' la'" unfolding t_range_def by blast
qed

lemma base_or:
  assumes "B = q * 512 ^ Suc l" "i < 512"
  shows "B * 4096 OR va_for_index l i = (B + i * 512 ^ l) * 4096"
proof -
  have n: "(2 :: nat) ^ (Suc l * 9 + 12) = 4096 * 512 ^ Suc l" by (rule shift_512)
  have "B * 4096 = q * 2 ^ (Suc l * 9 + 12)" unfolding n assms(1) by simp
  moreover have "va_for_index l i < 2 ^ (Suc l * 9 + 12)" unfolding n va_for_index_eq using assms(2) by simp
  ultimately have "B * 4096 OR va_for_index l i = B * 4096 + va_for_index l i" using or_disjoint by metis
  then show ?thesis by (simp add: va_for_index_eq algebra_simps)
qed

lemma bound_digit:
  assumes R: "t_range l S E B f la"
  defines "si \<equiv> (t_lo S B f - B) div 512 ^ l" and "ei \<equiv> (t_hi l E B la - B + 512 ^ l - 1) div 512 ^ l"
  assumes i: "si \<le> i" "i < ei" and v: "bound l S E B f la i \<le> v" "v < bound l S E B f la (Suc i)"
  shows "idx l v = i" "B \<le> v" "v < B + 512 ^ Suc l" "B + i * 512 ^ l \<le> v" "v < B + i * 512 ^ l + 512 ^ l"
proof -
  let ?K = "512 ^ l :: nat"
  note BE = bound_ends [OF R, folded si_def ei_def]
  note D = t_rangeD [OF R]
  obtain q where q: "B = q * 512 ^ Suc l" using R by (auto simp: t_range_def)
  have "B + i * ?K \<le> bound l S E B f la i" using BE(6) [OF i(2)] by (simp add: bound_def)
  then show lo: "B + i * ?K \<le> v" using v(1) by linarith
  have "bound l S E B f la (Suc i) \<le> B + Suc i * ?K" using BE(8) [of "Suc i"] i(1) by (simp add: bound_def)
  then show hi: "v < B + i * ?K + ?K" using v(2) by simp
  show B: "B \<le> v" using lo by simp
  have "bound l S E B f la (Suc i) \<le> t_hi l E B la" using D(2) by (simp add: bound_def)
  then show B2: "v < B + 512 ^ Suc l" using v(2) D(3) by linarith
  have "(v - B) div ?K = i" by (rule div_nat_eqI) (use lo hi in \<open>auto simp: algebra_simps\<close>)
  then show "idx l v = i" using digit(1) [OF q B B2] by simp
qed

lemma concat_map_filter_if: "concat (map h (filter Q xs)) = concat (map (\<lambda>i. if Q i then h i else []) xs)"
  by (induction xs) auto

lemma slots_level0:
  assumes R: "t_range 0 S E B f la"
  shows "slots (table_iter_new t 0 (B * 4096) (S * 4096) (E * 4096) f la) = map (\<lambda>v. (v * 4096, (t, idx 0 v))) [t_lo S B f..<t_hi 0 E B la]"
proof -
  note D = t_rangeD [OF R]
  obtain q where q: "B = q * 512 ^ Suc 0" using R by (auto simp: t_range_def)
  let ?a = "t_lo S B f - B" and ?b = "t_hi 0 E B la - B"
  have up: "map ((+) B) [?a..<?b] = [t_lo S B f..<t_hi 0 E B la]"
    by (rule nth_equalityI) (use D(1,2) in auto)
  have f: "(B * 4096 OR va_for_index 0 i, (t, i)) = ((B + i) * 4096, (t, idx 0 (B + i)))" if "i < ?b" for i
  proof -
    have "i < 512" using that D(3) by simp
    then show ?thesis using base_or [OF q, of i] q by (simp add: idx_def)
  qed
  have "slots (table_iter_new t 0 (B * 4096) (S * 4096) (E * 4096) f la) = map (\<lambda>i. (B * 4096 OR va_for_index 0 i, (t, i))) [?a..<?b]"
    using start_index_eq [OF R] end_index_eq [OF R] by (simp add: slots_def table_iter_new_def)
  also have "\<dots> = map (\<lambda>v. (v * 4096, (t, idx 0 v))) (map ((+) B) [?a..<?b])" using f by simp
  finally show ?thesis unfolding up .
qed

lemma not_boundary:
  assumes "t_range (Suc k) S E B f la" "E mod 512 \<noteq> 0" shows "E \<noteq> B + i * 512 ^ Suc k + 512 ^ Suc k"
proof
  obtain q where q: "B = q * 512 ^ Suc (Suc k)" using assms(1) by (auto simp: t_range_def)
  assume e: "E = B + i * 512 ^ Suc k + 512 ^ Suc k"
  have "B + i * 512 ^ Suc k + 512 ^ Suc k = 512 * (q * 512 ^ Suc k + i * 512 ^ k + 512 ^ k)" unfolding q by (simp add: algebra_simps)
  then have "E mod 512 = 0" unfolding e by (simp only: mod_mult_self1_is_0)
  then show False using assms(2) by simp
qed

text \<open>The entries of the pages that have a table of the lowest level.\<close>

definition leaf_slots :: "(nat \<Rightarrow> nat \<Rightarrow> u64) \<Rightarrow> nat \<Rightarrow> nat list \<Rightarrow> (nat \<times> slot) list" where
  "leaf_slots m root vs = map (\<lambda>v. (v * 4096, (the (node m root [idx 2 v, idx 1 v]), idx 0 v)))
     (filter (\<lambda>v. node m root [idx 2 v, idx 1 v] \<noteq> None) vs)"

lemma leaf_slots_concat: "leaf_slots m root (concat vss) = concat (map (leaf_slots m root) vss)"
  by (induction vss) (simp_all add: leaf_slots_def)

lemma leaf_slots_append: "leaf_slots m root (vs @ ws) = leaf_slots m root vs @ leaf_slots m root ws"
  by (simp add: leaf_slots_def)

lemma leaf_slots_ranges:
  assumes R: "t_range l S E B f la"
  defines "si \<equiv> (t_lo S B f - B) div 512 ^ l" and "ei \<equiv> (t_hi l E B la - B + 512 ^ l - 1) div 512 ^ l"
  assumes j: "si \<le> j" "j \<le> ei"
  shows "concat (map (\<lambda>i. leaf_slots m root [bound l S E B f la i..<bound l S E B f la (Suc i)]) [si..<j]) =
    leaf_slots m root [t_lo S B f..<bound l S E B f la j]"
proof -
  note BE = bound_ends [OF R, folded si_def ei_def]
  have "concat (map (\<lambda>i. [bound l S E B f la i..<bound l S E B f la (Suc i)]) [si..<j]) = [t_lo S B f..<bound l S E B f la j]"
    unfolding BE(1) [symmetric] by (rule concat_ranges [OF j(1)]) (rule bound_mono)
  then have "leaf_slots m root [t_lo S B f..<bound l S E B f la j] =
    leaf_slots m root (concat (map (\<lambda>i. [bound l S E B f la i..<bound l S E B f la (Suc i)]) [si..<j]))" by simp
  then show ?thesis by (simp add: leaf_slots_concat o_def)
qed

text \<open>What the iterator of a directory leads to, entry by entry: the pages of the entry when the range does not end with them.
  \<open>table_reach\<close> says of a function on the sub-iterators that it does so one level below.\<close>

definition table_reach :: "(nat \<Rightarrow> nat \<Rightarrow> u64) \<Rightarrow> nat \<Rightarrow> nat \<Rightarrow> nat \<Rightarrow> nat \<Rightarrow> nat \<Rightarrow> nat \<Rightarrow> bool \<Rightarrow> bool \<Rightarrow>
    (table_iter \<Rightarrow> (nat \<times> slot) list) \<Rightarrow> bool" where
  "table_reach m root t k S E B f la F \<longleftrightarrow> t_range (Suc k) S E B f la \<and>
    (\<forall>i f' la'. i < 512 \<longrightarrow> pte_is_valid (m t i) \<longrightarrow> t_range k S E (B + i * 512 ^ Suc k) f' la' \<longrightarrow>
      (la' \<longrightarrow> E mod 512 \<noteq> 0) \<longrightarrow> (\<forall>v. t_lo S (B + i * 512 ^ Suc k) f' \<le> v \<longrightarrow> v < t_hi k E (B + i * 512 ^ Suc k) la' \<longrightarrow> idx (Suc k) v = i \<and> B \<le> v \<and> v < B + 512 ^ Suc (Suc k)) \<longrightarrow>
      F (table_iter_new (physical_addr (m t i)) k ((B + i * 512 ^ Suc k) * 4096) (S * 4096) (E * 4096) f' la') =
        leaf_slots m root [t_lo S (B + i * 512 ^ Suc k) f'..<t_hi k E (B + i * 512 ^ Suc k) la']) \<and>
    (\<forall>v. B \<le> v \<longrightarrow> v < B + 512 ^ Suc (Suc k) \<longrightarrow> \<not> pte_is_valid (m t (idx (Suc k) v)) \<longrightarrow> node m root [idx 2 v, idx 1 v] = None)"

abbreviation si_of :: "nat \<Rightarrow> nat \<Rightarrow> nat \<Rightarrow> bool \<Rightarrow> nat" where
  "si_of l S B f \<equiv> (t_lo S B f - B) div 512 ^ l"

abbreviation ei_of :: "nat \<Rightarrow> nat \<Rightarrow> nat \<Rightarrow> bool \<Rightarrow> nat" where
  "ei_of l E B la \<equiv> (t_hi l E B la - B + 512 ^ l - 1) div 512 ^ l"

abbreviation iter_on :: "nat \<Rightarrow> nat \<Rightarrow> nat \<Rightarrow> nat \<Rightarrow> nat \<Rightarrow> bool \<Rightarrow> bool \<Rightarrow> table_iter" where
  "iter_on t l S E B f la \<equiv> table_iter_new t l (B * 4096) (S * 4096) (E * 4096) f la"

definition entry_slots :: "(nat \<Rightarrow> nat \<Rightarrow> u64) \<Rightarrow> nat \<Rightarrow> nat \<Rightarrow> nat \<Rightarrow> nat \<Rightarrow> nat \<Rightarrow> bool \<Rightarrow> bool \<Rightarrow> (table_iter \<Rightarrow> (nat \<times> slot) list) \<Rightarrow> nat \<Rightarrow> (nat \<times> slot) list" where
  "entry_slots m t k S E B f la F i =
    (if pte_is_valid (m t i) then F (sub_iter m k (S * 4096) (E * 4096) (flagged_item (iter_on t (Suc k) S E B f la) i)) else [])"

lemma iter_on_fields:
  assumes "t_range l S E B f la"
  shows "it_cur_idx (iter_on t l S E B f la) = si_of l S B f" "it_start_idx (iter_on t l S E B f la) = si_of l S B f"
    "it_end_idx (iter_on t l S E B f la) = ei_of l E B la" "it_is_first (iter_on t l S E B f la) = f"
    "it_is_last (iter_on t l S E B f la) = la" "it_table (iter_on t l S E B f la) = t"
    "it_base_va (iter_on t l S E B f la) = B * 4096" "it_level (iter_on t l S E B f la) = l"
  using start_index_eq [OF assms] end_index_eq [OF assms] by (simp_all add: table_iter_new_def)

lemma sub_iter_entry:
  assumes R: "t_range (Suc k) S E B f la" and "i < 512"
  shows "sub_iter m k (S * 4096) (E * 4096) (flagged_item (iter_on t (Suc k) S E B f la) i) =
    iter_on (physical_addr (m t i)) k S E (B + i * 512 ^ Suc k) (f \<and> si_of (Suc k) S B f = i) (la \<and> ei_of (Suc k) E B la - 1 = i)"
proof -
  obtain q where "B = q * 512 ^ Suc (Suc k)" using R by (auto simp: t_range_def)
  from base_or [OF this assms(2)] show ?thesis unfolding flagged_item_def iter_on_fields [OF R] by simp
qed

lemma entry_slots_eq:
  assumes T: "table_reach m root t k S E B f la F" and i: "si_of (Suc k) S B f \<le> i" "i < ei_of (Suc k) E B la"
    and E: "la \<Longrightarrow> ei_of (Suc k) E B la - 1 = i \<Longrightarrow> E mod 512 \<noteq> 0"
  shows "entry_slots m t k S E B f la F i = leaf_slots m root [bound (Suc k) S E B f la i..<bound (Suc k) S E B f la (Suc i)]"
proof -
  let ?K = "512 ^ Suc k :: nat"
  let ?f = "f \<and> si_of (Suc k) S B f = i" and ?la = "la \<and> ei_of (Suc k) E B la - 1 = i"
  have R: "t_range (Suc k) S E B f la" using T by (simp add: table_reach_def)
  have i512: "i < 512" using i(2) bound_ends(4) [OF R] by simp
  have dig: "idx (Suc k) v = i \<and> B \<le> v \<and> v < B + 512 ^ Suc (Suc k)" if "bound (Suc k) S E B f la i \<le> v" "v < bound (Suc k) S E B f la (Suc i)" for v
    by (intro conjI bound_digit [OF R i that])
  have SR: "t_range k S E (B + i * ?K) ?f ?la" "t_lo S (B + i * ?K) ?f = bound (Suc k) S E B f la i"
    "t_hi k E (B + i * ?K) ?la = bound (Suc k) S E B f la (Suc i)"
    by (rule sub_range [OF R i]; rule not_boundary [OF R]; rule E; assumption)+
  show ?thesis
  proof (cases "pte_is_valid (m t i)")
    case True
    have "F (iter_on (physical_addr (m t i)) k S E (B + i * ?K) ?f ?la) = leaf_slots m root [t_lo S (B + i * ?K) ?f..<t_hi k E (B + i * ?K) ?la]"
      using T [unfolded table_reach_def, THEN conjunct2, THEN conjunct1, rule_format, OF i512 True SR(1)] E dig unfolding SR(2,3) by blast
    then show ?thesis unfolding entry_slots_def sub_iter_entry [OF R i512] SR(2,3) using True by simp
  next
    case False
    have "node m root [idx 2 v, idx 1 v] = None" if "v \<in> set [bound (Suc k) S E B f la i..<bound (Suc k) S E B f la (Suc i)]" for v
      using dig [of v] that T False unfolding table_reach_def by auto
    then show ?thesis using False by (simp add: leaf_slots_def entry_slots_def filter_empty_conv del: node.simps)
  qed
qed

lemma own_slots:
  assumes "t_range (Suc k) S E B f la"
  shows "concat (map (\<lambda>x. F (sub_iter m k (S * 4096) (E * 4096) x)) (own m (iter_on t (Suc k) S E B f la))) =
    concat (map (entry_slots m t k S E B f la F) [si_of (Suc k) S B f..<ei_of (Suc k) E B la])"
  unfolding own_def iter_on_fields [OF assms] entry_slots_def by (simp add: o_def concat_map_filter_if del: sub_iter.simps)

lemma slots_before:
  assumes T: "table_reach m root t k S E B f la F" and j: "si_of (Suc k) S B f \<le> j" "j \<le> ei_of (Suc k) E B la"
    and E: "la \<Longrightarrow> ei_of (Suc k) E B la = j \<Longrightarrow> E mod 512 \<noteq> 0"
  shows "concat (map (entry_slots m t k S E B f la F) [si_of (Suc k) S B f..<j]) = leaf_slots m root [t_lo S B f..<bound (Suc k) S E B f la j]"
proof -
  have R: "t_range (Suc k) S E B f la" using T by (simp add: table_reach_def)
  have "map (entry_slots m t k S E B f la F) [si_of (Suc k) S B f..<j] =
    map (\<lambda>i. leaf_slots m root [bound (Suc k) S E B f la i..<bound (Suc k) S E B f la (Suc i)]) [si_of (Suc k) S B f..<j]"
  proof (rule map_cong [OF refl])
    fix i assume i: "i \<in> set [si_of (Suc k) S B f..<j]"
    show "entry_slots m t k S E B f la F i = leaf_slots m root [bound (Suc k) S E B f la i..<bound (Suc k) S E B f la (Suc i)]"
    proof (rule entry_slots_eq [OF T])
      show "si_of (Suc k) S B f \<le> i" "i < ei_of (Suc k) E B la" using i j(2) by auto
      assume "la" "ei_of (Suc k) E B la - 1 = i"
      moreover have "e = j" if "e - 1 = i" "j \<le> e" for e using i that by auto
      then have "ei_of (Suc k) E B la = j" using calculation(2) j(2) by blast
      ultimately show "E mod 512 \<noteq> 0" using E by blast
    qed
  qed
  then show ?thesis using leaf_slots_ranges [OF R j] by (simp only:)
qed

lemma table_slots:
  assumes T: "table_reach m root t k S E B f la F"
    and E: "la \<Longrightarrow> E mod 512 \<noteq> 0"
  shows "concat (map (\<lambda>x. F (sub_iter m k (S * 4096) (E * 4096) x)) (own m (iter_on t (Suc k) S E B f la))) =
    leaf_slots m root [t_lo S B f..<t_hi (Suc k) E B la]"
proof -
  have R: "t_range (Suc k) S E B f la" using T by (simp add: table_reach_def)
  from slots_before [OF T bound_ends(3) [OF R] order_refl E] show ?thesis unfolding own_slots [OF R] bound_ends(2) [OF R] .
qed

text \<open>At a boundary, the last entry gives what it gives.\<close>

lemma table_slots_last:
  assumes T: "table_reach m root t k S E B f la F" and ne: "si_of (Suc k) S B f < ei_of (Suc k) E B la"
  shows "concat (map (\<lambda>x. F (sub_iter m k (S * 4096) (E * 4096) x)) (own m (iter_on t (Suc k) S E B f la))) =
    leaf_slots m root [t_lo S B f..<bound (Suc k) S E B f la (ei_of (Suc k) E B la - 1)] @ entry_slots m t k S E B f la F (ei_of (Suc k) E B la - 1)"
proof -
  have R: "t_range (Suc k) S E B f la" using T by (simp add: table_reach_def)
  have "[si_of (Suc k) S B f..<ei_of (Suc k) E B la] = [si_of (Suc k) S B f..<ei_of (Suc k) E B la - 1] @ [ei_of (Suc k) E B la - 1]"
    using ne upt_Suc_append [of "si_of (Suc k) S B f" "ei_of (Suc k) E B la - 1"] by simp
  moreover have "concat (map (entry_slots m t k S E B f la F) [si_of (Suc k) S B f..<ei_of (Suc k) E B la - 1]) =
      leaf_slots m root [t_lo S B f..<bound (Suc k) S E B f la (ei_of (Suc k) E B la - 1)]"
    by (rule slots_before [OF T]) (use ne in auto)
  ultimately show ?thesis unfolding own_slots [OF R] by simp
qed

lemma idx2_in: "i < 512 \<Longrightarrow> i * 512 ^ 2 \<le> v \<Longrightarrow> v < i * 512 ^ 2 + 512 ^ 2 \<Longrightarrow> idx 2 v = i"
proof -
  assume a: "i < 512" "i * 512 ^ 2 \<le> v" "v < i * 512 ^ 2 + 512 ^ 2"
  then have "v div 512 ^ 2 = i" by (intro div_nat_eqI) auto
  then show ?thesis using a(1) by (simp add: idx_def)
qed

text \<open>A table of level 1: its entries lead to the tables of the lowest level.\<close>

lemma reach1:
  assumes R: "t_range (Suc 0) S E (i * 512 ^ 2) f la" and i: "i < 512" and t: "pte_is_valid (m root i)"
  shows "table_reach m root (physical_addr (m root i)) 0 S E (i * 512 ^ 2) f la slots"
proof -
  let ?B = "i * 512 ^ 2 :: nat" let ?t = "physical_addr (m root i)"
  have nd: "node m root [idx 2 v, idx 1 v] = child m ?t (idx 1 v)" if "?B \<le> v" "v < ?B + 512 ^ Suc (Suc 0)" for v
    using idx2_in [OF i that(1)] that(2) t by (simp add: child_def power2_eq_square split: option.splits)
  have "slots (iter_on (physical_addr (m ?t j)) 0 S E (?B + j * 512 ^ Suc 0) f' la') =
      leaf_slots m root [t_lo S (?B + j * 512 ^ Suc 0) f'..<t_hi 0 E (?B + j * 512 ^ Suc 0) la']"
    if j: "pte_is_valid (m ?t j)" "t_range 0 S E (?B + j * 512 ^ Suc 0) f' la'"
      and dig: "\<And>v. t_lo S (?B + j * 512 ^ Suc 0) f' \<le> v \<Longrightarrow> v < t_hi 0 E (?B + j * 512 ^ Suc 0) la' \<Longrightarrow>
        idx (Suc 0) v = j \<and> ?B \<le> v \<and> v < ?B + 512 ^ Suc (Suc 0)" for j f' la'
  proof -
    have "node m root [idx 2 v, idx 1 v] = Some (physical_addr (m ?t j))"
      if "v \<in> set [t_lo S (?B + j * 512 ^ Suc 0) f'..<t_hi 0 E (?B + j * 512 ^ Suc 0) la']" for v
      using dig [of v] that nd [of v] j(1) by (auto simp: child_def simp del: node.simps)
    then show ?thesis
      unfolding slots_level0 [OF j(2)] leaf_slots_def by (simp cong: map_cong filter_cong del: node.simps)
  qed
  moreover have "node m root [idx 2 v, idx 1 v] = None" if "?B \<le> v" "v < ?B + 512 ^ Suc (Suc 0)" "\<not> pte_is_valid (m ?t (idx (Suc 0) v))" for v
    using nd [OF that(1,2)] that(3) by (simp add: child_def del: node.simps)
  ultimately show ?thesis unfolding table_reach_def using R by blast
qed

text \<open>The iterator over the entries of a table of the lowest level below a table of level 1.\<close>

abbreviation level1_slots :: "(nat \<Rightarrow> nat \<Rightarrow> u64) \<Rightarrow> nat \<Rightarrow> nat \<Rightarrow> table_iter \<Rightarrow> (nat \<times> slot) list" where
  "level1_slots m S E it \<equiv> concat (map (\<lambda>x. slots (sub_iter m 0 (S * 4096) (E * 4096) x)) (own m it))"

text \<open>When the range ends at a multiple of \<open>512 ^ Suc l\<close>, the iterator of the last table of level \<open>l\<close> is empty.\<close>

lemma end_index_boundary: "E mod 512 ^ Suc l = 0 \<Longrightarrow> end_index l (E * 4096) True = 0"
proof -
  assume "E mod 512 ^ Suc l = 0"
  then obtain q where q: "E = 512 ^ Suc l * q" by blast
  have "E = 512 ^ l * (512 * q)" unfolding q by simp
  then have "E div 512 ^ l mod 512 = 0" "E mod 512 ^ l = 0" by simp_all
  then show ?thesis by (simp add: end_index_def upper_bound_idx idx_def)
qed

lemma boundary_empty:
  assumes "E mod 512 ^ Suc l = 0"
  shows "own m (table_iter_new t l base sv (E * 4096) f True) = []" "slots (table_iter_new t l base sv (E * 4096) f True) = []"
  using end_index_boundary [OF assms] by (simp_all add: own_def slots_def table_iter_new_def)

lemma bound_max: "j \<le> ei_of l E B la \<Longrightarrow> t_range l S E B f la \<Longrightarrow> bound l S E B f la j = max (t_lo S B f) (min (t_hi l E B la) (B + j * 512 ^ l))"
  by (simp add: bound_def t_range_def)

lemma entry_slots_boundary:
  assumes R: "t_range (Suc k) S E B f True" and ne: "si_of (Suc k) S B f < ei_of (Suc k) E B True"
    and F: "\<And>t base f'. F (table_iter_new t k base (S * 4096) (E * 4096) f' True) = []"
  shows "entry_slots m t k S E B f True F (ei_of (Suc k) E B True - 1) = []"
proof -
  have "ei_of (Suc k) E B True - 1 < 512" using bound_ends(4) [OF R] ne by linarith
  note sub_iter_entry [OF R this]
  then show ?thesis unfolding entry_slots_def by (simp only: F simp_thms if_cancel)
qed

lemma level1_boundary:
  assumes R: "t_range (Suc 0) S E (i * 512 ^ 2) f True" and E: "E mod 512 = 0" and i: "i < 512" and t: "pte_is_valid (m root i)"
    and ne: "t_lo S (i * 512 ^ 2) f < E"
  shows "level1_slots m S E (iter_on (physical_addr (m root i)) (Suc 0) S E (i * 512 ^ 2) f True) =
    leaf_slots m root [t_lo S (i * 512 ^ 2) f..<max (t_lo S (i * 512 ^ 2) f) (E - 512)]"
proof -
  let ?B = "i * 512 ^ 2 :: nat" let ?ei = "ei_of (Suc 0) E (i * 512 ^ 2) True"
  have hi: "t_hi (Suc 0) E ?B True = E" by (simp add: t_hi_def)
  obtain q where q: "E = 512 * q" using E by blast
  have BE: "?B < E" using t_rangeD [OF R] ne by simp
  have "E - ?B = 512 * (q - i * 512)" unfolding q by (simp add: power2_eq_square diff_mult_distrib2)
  then have ei: "?ei = q - i * 512" unfolding hi by simp
  have ql: "i * 512 < q" using BE q by (simp add: power2_eq_square)
  have si: "si_of (Suc 0) S ?B f < ?ei"
  proof -
    have "t_lo S ?B f - ?B < 512 * (q - i * 512)" using ne q t_rangeD(1) [OF R] ql by (simp add: power2_eq_square diff_mult_distrib2)
    then have "(t_lo S ?B f - ?B) div 512 < q - i * 512" by (simp add: less_mult_imp_div_less mult.commute)
    then show ?thesis unfolding ei by simp
  qed
  have "entry_slots m (physical_addr (m root i)) 0 S E ?B f True slots (?ei - 1) = []"
    by (rule entry_slots_boundary [OF R si]) (use E boundary_empty(2) [of E 0] in simp)
  moreover have "bound (Suc 0) S E ?B f True (?ei - 1) = max (t_lo S ?B f) (E - 512)"
  proof -
    have "?B + (q - i * 512 - 1) * 512 = E - 512" using q ql by (simp add: power2_eq_square diff_mult_distrib)
    then show ?thesis unfolding bound_max [OF diff_le_self R] unfolding ei unfolding hi by simp
  qed
  ultimately show ?thesis using table_slots_last [OF reach1 [where m = m and root = root, OF R i t] si] by simp
qed

lemma dummy_iter: "slots (table_iter_new t 2 0 0 0 True True) = []" "own m (table_iter_new t 2 0 0 0 True True) = []"
  by (simp_all add: slots_def own_def table_iter_new_def start_index_def end_index_def index_for_va_idx upper_bound_idx idx_def)

lemma concat_map_concat: "concat (map h (concat (map g xs))) = concat (map (\<lambda>x. concat (map h (g x))) xs)"
  by (induction xs) auto

lemma reach2:
  assumes R: "t_range (Suc 1) S E 0 f la"
  shows "table_reach m root root 1 S E 0 f la (\<lambda>it. level1_slots m S E it)"
proof -
  have "level1_slots m S E (iter_on (physical_addr (m root i)) 1 S E (0 + i * 512 ^ Suc 1) f' la') =
      leaf_slots m root [t_lo S (0 + i * 512 ^ Suc 1) f'..<t_hi 1 E (0 + i * 512 ^ Suc 1) la']"
    if i: "i < 512" "pte_is_valid (m root i)" "t_range 1 S E (0 + i * 512 ^ Suc 1) f' la'" "la' \<longrightarrow> E mod 512 \<noteq> 0" for i f' la'
  proof -
    have "t_range (Suc 0) S E (i * 512 ^ 2) f' la'" using i(3) by (simp add: numeral_2_eq_2)
    from table_slots [OF reach1 [where m = m and root = root, OF this i(1,2)]] show ?thesis using i(4) by (simp add: numeral_2_eq_2)
  qed
  moreover have "node m root [idx 2 v, idx 1 v] = None" if "\<not> pte_is_valid (m root (idx (Suc 1) v))" for v
    using that by (simp add: child_def numeral_2_eq_2)
  ultimately show ?thesis unfolding table_reach_def using R by blast
qed

lemma raw_eq:
  "raw m (range_iter_new root (S * 4096) (E * 4096)) = concat (map (\<lambda>x. level1_slots m S E (sub_iter m 1 (S * 4096) (E * 4096) x))
    (own m (iter_on root (Suc 1) S E 0 True True)))"
proof -
  let ?it = "range_iter_new root (S * 4096) (E * 4096)"
  have its: "table_iters ?it 0 = table_iter_new root 2 0 0 0 True True" "table_iters ?it 1 = table_iter_new root 2 0 0 0 True True"
    "table_iters ?it 2 = table_iter_new root (Suc 1) (0 * 4096) (S * 4096) (E * 4096) True True" "ri_start_va ?it = S * 4096" "ri_end_va ?it = E * 4096"
    by (simp_all add: range_iter_new_def numeral_2_eq_2)
  show ?thesis
    unfolding raw_def items1_def its dummy_iter append_Nil concat_map_concat ..
qed

text \<open>The iterator starts with the entries of the pages of the range, in order.\<close>

lemma raw_new:
  assumes "S \<le> E" "E < 2 ^ 27" "E mod 512 \<noteq> 0"
  shows "raw m (range_iter_new root (S * 4096) (E * 4096)) = leaf_slots m root [S..<E]"
proof -
  have R: "t_range (Suc 1) S E 0 True True" using assms by (auto simp: t_range_def t_lo_def t_hi_def)
  have "raw m (range_iter_new root (S * 4096) (E * 4096)) = concat (map (\<lambda>x. level1_slots m S E (sub_iter m 1 (S * 4096) (E * 4096) x))
      (own m (iter_on root (Suc 1) S E 0 True True)))" by (rule raw_eq)
  also have "\<dots> = leaf_slots m root [t_lo S 0 True..<t_hi (Suc 1) E 0 True]"
    by (rule table_slots [OF reach2 [OF R]]) (use assms(3) in simp)
  finally show ?thesis by (simp add: t_lo_def t_hi_def)
qed

lemma last_level1:
  assumes R: "t_range (Suc 1) S E 0 True True" and i: "i < 512" "si_of (Suc 1) S 0 True \<le> i" "i < ei_of (Suc 1) E 0 True"
    "i = ei_of (Suc 1) E 0 True - 1"
    and E: "E mod 512 = 0" "E < i * 512 ^ Suc 1 + 512 ^ Suc 1" "i * 512 ^ Suc 1 < E" and S: "S < E"
  defines "b \<equiv> bound (Suc 1) S E 0 True True i"
  shows "entry_slots m root 1 S E 0 True True (\<lambda>it. level1_slots m S E it) i = leaf_slots m root [b..<max b (E - 512)]"
proof -
  let ?B = "i * 512 ^ 2 :: nat" let ?f = "si_of (Suc 1) S 0 True = i"
  have K: "0 + i * 512 ^ Suc 1 = ?B" by (simp add: numeral_2_eq_2)
  have SR: "t_range (Suc 0) S E ?B ?f True" "t_lo S ?B ?f = b"
    using sub_range(1,2) [OF R i(2,3)] E(2) i(4) unfolding K b_def by simp_all
  have bB: "?B \<le> b" using t_rangeD(1) [OF SR(1)] unfolding SR(2) .
  have bE: "b < E" unfolding b_def bound_max [OF less_imp_le [OF i(3)] R] using S E(3) by (simp add: t_lo_def t_hi_def)
  show ?thesis
  proof (cases "pte_is_valid (m root i)")
    case True
    then show ?thesis
      using level1_boundary [where m = m and root = root, OF SR(1) E(1) i(1) True] bE sub_iter_entry [OF R i(1), of m root]
      unfolding SR(2) entry_slots_def K i(4) [symmetric] by simp
  next
    case False
    have "node m root [idx 2 v, idx 1 v] = None" if "v \<in> set [b..<max b (E - 512)]" for v
    proof -
      have "?B \<le> v" "v < ?B + 512 ^ 2" using that bB E(2) by (auto simp: numeral_2_eq_2)
      then have "idx 2 v = i" by (rule idx2_in [OF i(1)])
      then show ?thesis using False by (simp add: child_def)
    qed
    then show ?thesis using False by (simp add: leaf_slots_def entry_slots_def filter_empty_conv del: node.simps)
  qed
qed

text \<open>The end of the pages a range iterator visits: when the range ends with a table, the pages of this last table are left out.\<close>

definition visited_end :: "nat \<Rightarrow> nat \<Rightarrow> nat" where
  "visited_end S E = (if E mod 512 \<noteq> 0 \<or> S = E then E else max S (if E mod 512 ^ 2 \<noteq> 0 then E - 512 else E - 512 ^ 2))"

lemma raw_boundary:
  assumes "S < E" "E < 2 ^ 27" "E mod 512 = 0"
  shows "raw m (range_iter_new root (S * 4096) (E * 4096)) = leaf_slots m root [S..<visited_end S E]"
proof -
  have R: "t_range (Suc 1) S E 0 True True" using assms by (auto simp: t_range_def t_lo_def t_hi_def)
  let ?si = "si_of (Suc 1) S 0 True" and ?ei = "ei_of (Suc 1) E 0 True" and ?F = "\<lambda>it. level1_slots m S E it"
  have ends: "t_lo S 0 True = S" "t_hi (Suc 1) E 0 True = E" by (simp_all add: t_lo_def t_hi_def)
  let ?K = "512 ^ Suc 1 :: nat"
  note BE = bound_ends [OF R, unfolded ends add_0]
  have "?si * ?K < ?ei * ?K" using BE(5,7) assms(1) unfolding ends by linarith
  then have ne: "?si < ?ei" unfolding mult_less_cancel2 by blast
  then obtain i where i: "?ei = Suc i" by (cases ?ei) auto
  have i': "i = ?ei - 1" unfolding i by simp
  have ei: "i * ?K < E" "E \<le> i * ?K + ?K" "i < 512" "?si \<le> i" "i < ?ei"
    using BE(4,5) BE(6) [of i] ne unfolding ends i [unfolded ends] by auto
  note all = table_slots_last [OF reach2 [where m = m and root = root, OF R] ne, folded i', unfolded ends]
  have b: "bound (Suc 1) S E 0 True True i = max S (i * ?K)"
    unfolding i' bound_max [OF diff_le_self R] unfolding ends i [unfolded ends] using ei(1) by (simp add: min_def)
  show ?thesis
  proof (cases "E mod 512 ^ 2 = 0")
    case True
    have "entry_slots m root 1 S E 0 True True ?F i = []"
      unfolding i' by (rule entry_slots_boundary [OF R ne]) (use boundary_empty(1) [of E 1] True in \<open>simp add: numeral_2_eq_2\<close>)
    moreover have "i * ?K = E - ?K"
    proof -
      obtain r where r: "E = r * ?K" using True by (auto simp: numeral_2_eq_2 mult.commute elim!: dvdE)
      have "i * ?K < r * ?K" "r * ?K \<le> Suc i * ?K" using ei(1,2) unfolding r by simp_all
      then have "i < r" "r \<le> Suc i" unfolding mult_less_cancel2 mult_le_cancel2 by simp_all
      then have "r = Suc i" by simp
      then show ?thesis unfolding r by simp
    qed
    ultimately show ?thesis unfolding raw_eq all b using assms True by (simp add: visited_end_def numeral_2_eq_2)
  next
    case False
    have lt: "E < i * ?K + ?K" using ei(2) False by (auto simp: le_less numeral_2_eq_2)
    obtain q where q: "E = 512 * q" using assms(3) by blast
    have le: "i * ?K \<le> E - 512" using ei(1) unfolding q by simp
    have mx: "max (max S (i * ?K)) (E - 512) = max S (E - 512)" using le by simp
    have "entry_slots m root 1 S E 0 True True ?F i = leaf_slots m root [max S (i * ?K)..<max S (E - 512)]"
      by (rule last_level1 [OF R ei(3-5) i' assms(3) lt ei(1), unfolded b mx]) (use assms in simp)
    moreover have "[S..<max S (E - 512)] = [S..<max S (i * ?K)] @ [max S (i * ?K)..<max S (E - 512)]"
      by (rule upt_split) (use le in auto)
    ultimately show ?thesis unfolding raw_eq all b visited_end_def using assms False by (simp add: leaf_slots_append)
  qed
qed

lemma own_empty_range:
  assumes "x \<in> set (own m (table_iter_new t l base (S * 4096) (S * 4096) True True))"
  obtains i b sl where "x = (i, b, sl, True, True)"
  using assms that
  by (auto simp: own_def flagged_item_def table_iter_new_def start_index_def end_index_def index_for_va_idx upper_bound_idx of_bool_def split: if_splits)

lemma raw_empty: "raw m (range_iter_new root (S * 4096) (S * 4096)) = []"
proof -
  let ?it = "range_iter_new root (S * 4096) (S * 4096)"
  have its: "table_iters ?it 0 = table_iter_new root 2 0 0 0 True True" "table_iters ?it 1 = table_iter_new root 2 0 0 0 True True"
    "table_iters ?it 2 = table_iter_new root 2 0 (S * 4096) (S * 4096) True True" "ri_start_va ?it = S * 4096" "ri_end_va ?it = S * 4096"
    by (simp_all add: range_iter_new_def)
  have "slots (sub_iter m 0 (S * 4096) (S * 4096) x) = []" if x: "x \<in> set (items1 m ?it)" for x
  proof -
    from x obtain y where y: "y \<in> set (items2 m ?it)" "x \<in> set (own m (sub_iter m 1 (S * 4096) (S * 4096) y))"
      unfolding items1_def its dummy_iter by auto
    from y(1) obtain i b sl where "y = (i, b, sl, True, True)" unfolding its by (rule own_empty_range)
    with y(2) obtain j c sl' where "x = (j, c, sl', True, True)" by (auto elim: own_empty_range)
    then show ?thesis
      by (simp add: slots_def table_iter_new_def start_index_def end_index_def index_for_va_idx upper_bound_idx)
  qed
  then show ?thesis unfolding raw_def its dummy_iter by simp
qed

lemma raw_all:
  assumes "S \<le> E" "E < 2 ^ 27"
  shows "raw m (range_iter_new root (S * 4096) (E * 4096)) = leaf_slots m root [S..<visited_end S E]"
proof (cases "S = E")
  case True
  then show ?thesis using raw_empty [of m root E] by (simp add: visited_end_def leaf_slots_def)
next
  case False
  then show ?thesis
    using raw_new [OF assms] raw_boundary [of S E] assms by (cases "E mod 512 = 0") (simp_all add: visited_end_def)
qed

lemma visited_end_le: "S \<le> E \<Longrightarrow> S \<le> visited_end S E \<and> visited_end S E \<le> E"
  by (simp add: visited_end_def)

text \<open>The directories of a page table.\<close>

definition dirs :: "(nat \<Rightarrow> nat \<Rightarrow> u64) \<Rightarrow> nat \<Rightarrow> nat set" where
  "dirs m root = {t. \<exists>q\<in>tpaths. length q < 2 \<and> node m root q = Some t}"

lemma end_index_le: "end_index l ev la \<le> 512"
proof -
  have "(x :: nat) AND 511 \<le> 511" for x using and_mask_mod [of x 9] by simp
  from this [of "drop_bit (l * 9 + 12) ev"] show ?thesis
    by (auto simp: end_index_def TABLE_LEN_def PGSIZE_def upper_bound_index_for_va_def Let_def)
qed

lemma own_new:
  assumes "x \<in> set (own m (table_iter_new t l base sv ev f la))"
  obtains i b f' la' where "x = (i, b, (t, i), f', la')" "i < 512" "pte_is_valid (m t i)"
  using assms that end_index_le [of l ev la] by (fastforce simp: own_def flagged_item_def table_iter_new_def)

lemma dirs_ok_new:
  assumes W: "pt_wf m root U"
  shows "dirs_ok (dirs m root) m (range_iter_new root sv ev)"
proof -
  let ?it = "range_iter_new root sv ev"
  note D = pt_wfD [OF W]
  have its: "table_iters ?it 0 = table_iter_new root 2 0 0 0 True True" "table_iters ?it 1 = table_iter_new root 2 0 0 0 True True"
    "table_iters ?it 2 = table_iter_new root 2 0 sv ev True True" "ri_start_va ?it = sv" "ri_end_va ?it = ev"
    by (simp_all add: range_iter_new_def)
  have r: "root \<in> dirs m root" unfolding dirs_def by (auto intro!: bexI [of _ "[]"])
  have e2: "is_page_table (m root i) \<and> physical_addr (m root i) \<in> dirs m root" if "i < 512" "pte_is_valid (m root i)" for i
    using D(2) [of "[]" root i] that unfolding dirs_def by (auto intro!: bexI [of _ "[i]"] simp: child_def)
  have E2: "enters m (dirs m root) x" if "x \<in> set (items2 m ?it)" for x
    using that unfolding its by (rule own_new) (use e2 in \<open>auto simp: enters_def\<close>)
  have e1: "is_page_table (m t j)" if "i < 512" "pte_is_valid (m root i)" "t = physical_addr (m root i)" "j < 512" "pte_is_valid (m t j)" for i j t
    using D(2) [of "[i]" t j] that by (simp add: child_def)
  have E1: "enters m UNIV x" if "x \<in> set (items1 m ?it)" for x
  proof -
    from that obtain y where y: "y \<in> set (items2 m ?it)" "x \<in> set (own m (sub_iter m 1 sv ev y))"
      unfolding items1_def its dummy_iter by auto
    from y(1) obtain i b f la where i: "y = (i, b, (root, i), f, la)" "i < 512" "pte_is_valid (m root i)" unfolding its by (rule own_new)
    from y(2) obtain j c f' la' where j: "x = (j, c, (physical_addr (m root i), j), f', la')" "j < 512" "pte_is_valid (m (physical_addr (m root i)) j)"
      unfolding i(1) by (auto elim: own_new)
    show ?thesis using e1 [OF i(2,3) refl j(2,3)] j(1) by (simp add: enters_def)
  qed
  have "iter_in (dirs m root) (table_iters ?it l)" for l using r by (simp add: range_iter_new_def iter_in_def table_iter_new_def)
  then show ?thesis unfolding dirs_ok_def dirs2_def using E1 E2 by blast
qed

end
