(* ===== verification/Rw_PtOps.thy ===== *)
theory Rw_PtOps
  imports Rw_PtRange
begin

text \<open>
  The operations on ranges of pages: what \<open>vunmap\<close>, \<open>unmap_range\<close> and \<open>vmap\<close> do to the entries and to the pages of the
  allocator, with the error paths, and the release of the tables by \<open>clear\<close>.
\<close>

section \<open>Unmapping a range\<close>

lemma leaf_not_dir:
  assumes W: "pt_wf m root U" and t: "node m root [idx 2 v, idx 1 v] = Some t" shows "t \<notin> dirs m root"
proof
  assume "t \<in> dirs m root"
  then obtain q where q: "q \<in> tpaths" "length q < 2" "node m root q = Some t" by (auto simp: dirs_def)
  have "q = [idx 2 v, idx 1 v]" by (rule pt_wfD(3) [OF W q(1) _ q(3) t]) simp
  then show False using q(2) by simp
qed

lemma leaf_slot_mem:
  "x \<in> set (leaf_slots m root vs) \<longleftrightarrow>
     (\<exists>v\<in>set vs. \<exists>t. node m root [idx 2 v, idx 1 v] = Some t \<and> x = (v * 4096, (t, idx 0 v)))"
  by (auto simp: leaf_slots_def simp del: node.simps)

lemma range_loop:
  assumes W: "pt_wf (frames s) root U" and R: "S \<le> E" "E < 2 ^ 27"
    and keep: "\<And>v t s s'. S \<le> v \<Longrightarrow> v < visited_end S E \<Longrightarrow> t \<notin> D \<Longrightarrow> Inv s \<Longrightarrow> pte_is_valid (frames s t (idx 0 v)) \<Longrightarrow>
      body (v * 4096) (t, idx 0 v) s = (Ok (), s') \<Longrightarrow> Inv s' \<and> (\<forall>t\<in>D. frames s' t = frames s t)"
    and D: "D = dirs (frames s) root" and I: "Inv s"
  shows "for_entries (range_iter_new root (S * 4096) (E * 4096)) body s = visit (leaf_slots (frames s) root [S..<visited_end S E]) body s"
proof (rule for_entries_visit [where Inv = Inv and D = D])
  show "raw (frames s) (range_iter_new root (S * 4096) (E * 4096)) = leaf_slots (frames s) root [S..<visited_end S E]" by (rule raw_all [OF R])
  show "dirs_ok D (frames s) (range_iter_new root (S * 4096) (E * 4096))" unfolding D by (rule dirs_ok_new [OF W])
  show "Inv s" by (rule I)
  fix x u u' assume x: "x \<in> set (leaf_slots (frames s) root [S..<visited_end S E])" and u: "Inv u" "slot_valid (frames u) x" "body (fst x) (snd x) u = (Ok (), u')"
  from x obtain v t where v: "S \<le> v" "v < visited_end S E" "node (frames s) root [idx 2 v, idx 1 v] = Some t" "x = (v * 4096, (t, idx 0 v))"
    unfolding leaf_slot_mem by auto
  have "t \<notin> D" unfolding D by (rule leaf_not_dir [OF W v(3)])
  then show "Inv u' \<and> (\<forall>t\<in>D. frames u' t = frames u t)" using keep [OF v(1,2) _ u(1)] u(2,3) v(4) by simp
qed

lemma leaf_slots_Cons:
  "leaf_slots m root (v # vs) = (case node m root [idx 2 v, idx 1 v] of None \<Rightarrow> [] | Some t \<Rightarrow> [(v * 4096, (t, idx 0 v))]) @ leaf_slots m root vs"
  by (simp add: leaf_slots_def del: node.simps split: option.splits)

lemma leaf_slots_cong:
  "(\<And>q. q \<in> tpaths \<Longrightarrow> node m' root q = node m root q) \<Longrightarrow> leaf_slots m' root vs = leaf_slots m root vs"
  by (simp add: leaf_slots_def del: node.simps)

lemma wf_shrink:
  assumes "pt_wf m root U" "a \<notin> tables m root" shows "pt_wf m root (U - {a})"
  using assms unfolding pt_wf_def tables_def by blast

definition unmap_entry :: "'p page_source \<Rightarrow> slot \<Rightarrow> ('p, unit) pt_call" where
  "unmap_entry P pte = (\<lambda>s.
     let paddr = physical_addr (read_slot pte s) in
     bind (put_slot pte 0) (\<lambda>_. free_frame P paddr) s)"

lemma vunmap_eq:
  "vunmap P root va sz =
     bind (checked (va + sz)) (\<lambda>e.
     bind (range_of_entries_mut root va e) (\<lambda>it. for_entries it (\<lambda>_ pte. unmap_entry P pte)))"
  by (simp add: vunmap_def unmap_entry_def)

text \<open>The pages behind the valid entries of a set of virtual pages: handed out, not tables, and not shared.\<close>

definition owns :: "(nat \<Rightarrow> nat \<Rightarrow> u64) \<Rightarrow> nat \<Rightarrow> nat set \<Rightarrow> nat set \<Rightarrow> bool" where
  "owns m root U V \<longleftrightarrow>
     (\<forall>v\<in>V. pte_is_valid (pte_at m root v) \<longrightarrow>
        physical_addr (pte_at m root v) \<in> U \<and> physical_addr (pte_at m root v) \<notin> tables m root \<and>
        (\<forall>w\<in>V. pte_is_valid (pte_at m root w) \<longrightarrow> physical_addr (pte_at m root w) = physical_addr (pte_at m root v) \<longrightarrow> w = v))"

definition pages_of :: "(nat \<Rightarrow> nat \<Rightarrow> u64) \<Rightarrow> nat \<Rightarrow> nat set \<Rightarrow> nat set" where
  "pages_of m root V = {physical_addr (pte_at m root v) | v. v \<in> V \<and> pte_is_valid (pte_at m root v)}"

context page_source_laws
begin

lemma unmap_entry_spec:
  assumes I: "pt_inv ok used root s" and t: "node (frames s) root [idx 2 v, idx 1 v] = Some t" and v: "v < 2 ^ 27"
    and o: "physical_addr (pte_at (frames s) root v) \<in> used (pool s)" "physical_addr (pte_at (frames s) root v) \<notin> tables (frames s) root"
  obtains s' where "unmap_entry P (t, idx 0 v) s = (Ok (), s')" "pt_inv ok used root s'"
    "\<And>w. w < 2 ^ 27 \<Longrightarrow> pte_at (frames s') root w = (if w = v then 0 else pte_at (frames s) root w)"
    "\<And>q. q \<in> tpaths \<Longrightarrow> node (frames s') root q = node (frames s) root q" "tables (frames s') root = tables (frames s) root"
    "used (pool s') = used (pool s) - {physical_addr (pte_at (frames s) root v)}" "\<And>a. a \<notin> tables (frames s) root \<Longrightarrow> frames s' a = frames s a"
proof -
  let ?a = "physical_addr (pte_at (frames s) root v)"
  have at: "read_slot (t, idx 0 v) s = pte_at (frames s) root v" using t by (simp add: pte_at_def read_slot_def)
  define s1 where "s1 = write_slot (t, idx 0 v) 0 s"
  note L = write_leaf [OF I t, where e = 0, folded s1_def]
  have okp: "ok (pool s1)" "?a \<in> used (pool s1)" using I o(1) L(4) by (simp_all add: pt_inv_def)
  from free [OF okp] obtain p' where f: "ps_free P ?a (pool s1) = (Ok (), p')" "ok p'" "used p' = used (pool s1) - {?a}" by blast
  let ?s2 = "s1\<lparr>pool := p'\<rparr>"
  have r: "unmap_entry P (t, idx 0 v) s = (Ok (), ?s2)"
    using f(1) at by (simp add: unmap_entry_def put_slot_def bind_def free_frame_def on_pool_def s1_def)
  have "pt_wf (frames s1) root (used (pool s1) - {?a})"
    by (rule wf_shrink) (use L(1) o(2) L(5) in \<open>simp_all add: pt_inv_def\<close>)
  then have "pt_inv ok used root ?s2" using f by (simp add: pt_inv_def)
  then show thesis by (rule that [OF r]) (use L f(3) v in simp_all)
qed

lemma visit_unmap:
  assumes "pt_inv ok used root s" "distinct vs" "\<forall>v\<in>set vs. v < 2 ^ 27" "owns (frames s) root (used (pool s)) (set vs)"
  shows "\<exists>s'. visit (leaf_slots (frames s) root vs) (\<lambda>_ pte. unmap_entry P pte) s = (Ok (), s') \<and> pt_inv ok used root s' \<and>
    (\<forall>w<2 ^ 27. pte_at (frames s') root w = (if w \<in> set vs \<and> pte_is_valid (pte_at (frames s) root w) then 0 else pte_at (frames s) root w)) \<and>
    used (pool s') = used (pool s) - pages_of (frames s) root (set vs) \<and>
    (\<forall>q\<in>tpaths. node (frames s') root q = node (frames s) root q) \<and>
    (\<forall>a. a \<notin> tables (frames s) root \<longrightarrow> frames s' a = frames s a)"
  using assms
proof (induction vs arbitrary: s)
  case Nil
  then show ?case by (simp add: leaf_slots_def pages_of_def)
next
  case (Cons v vs)
  note I = Cons.prems(1)
  have v: "v < 2 ^ 27" using Cons.prems(3) by simp
  show ?case
  proof (cases "pte_is_valid (pte_at (frames s) root v)")
    case False
    have "visit (leaf_slots (frames s) root (v # vs)) (\<lambda>_ pte. unmap_entry P pte) s = visit (leaf_slots (frames s) root vs) (\<lambda>_ pte. unmap_entry P pte) s"
      using False by (auto simp: leaf_slots_Cons pte_at_def simp del: node.simps split: option.splits)
    moreover have "pages_of (frames s) root (set (v # vs)) = pages_of (frames s) root (set vs)" using False by (auto simp: pages_of_def)
    moreover have "owns (frames s) root (used (pool s)) (set vs)" using Cons.prems(4) by (auto simp: owns_def)
    ultimately show ?thesis using Cons.IH [OF I] Cons.prems(2,3) False by auto
  next
    case True
    then obtain t where t: "node (frames s) root [idx 2 v, idx 1 v] = Some t" "pte_at (frames s) root v = frames s t (idx 0 v)" by (rule valid_node)
    let ?a = "physical_addr (pte_at (frames s) root v)"
    have o: "?a \<in> used (pool s)" "?a \<notin> tables (frames s) root"
      and inj: "\<And>w. w \<in> set (v # vs) \<Longrightarrow> pte_is_valid (pte_at (frames s) root w) \<Longrightarrow> physical_addr (pte_at (frames s) root w) = ?a \<Longrightarrow> w = v"
      using Cons.prems(4) True unfolding owns_def by auto
    obtain s1 where u: "unmap_entry P (t, idx 0 v) s = (Ok (), s1)" "pt_inv ok used root s1"
      "\<And>w. w < 2 ^ 27 \<Longrightarrow> pte_at (frames s1) root w = (if w = v then 0 else pte_at (frames s) root w)"
      "\<And>q. q \<in> tpaths \<Longrightarrow> node (frames s1) root q = node (frames s) root q" "tables (frames s1) root = tables (frames s) root"
      "used (pool s1) = used (pool s) - {?a}" "\<And>a. a \<notin> tables (frames s) root \<Longrightarrow> frames s1 a = frames s a"
      by (rule unmap_entry_spec [OF I t(1) v o]) (rule that)
    have nv: "v \<notin> set vs" using Cons.prems(2) by simp
    have pa: "pte_at (frames s1) root w = pte_at (frames s) root w" if "w \<in> set vs" for w
      using u(3) [of w] that Cons.prems(3) nv by auto
    have ow: "owns (frames s1) root (used (pool s1)) (set vs)"
      unfolding owns_def
    proof (intro ballI impI)
      fix w assume w: "w \<in> set vs" "pte_is_valid (pte_at (frames s1) root w)"
      have val: "pte_is_valid (pte_at (frames s) root w)" using w pa by simp
      have "physical_addr (pte_at (frames s) root w) \<noteq> ?a" using inj [of w] w(1) val nv by auto
      moreover have "physical_addr (pte_at (frames s) root w) \<in> used (pool s) \<and> physical_addr (pte_at (frames s) root w) \<notin> tables (frames s) root \<and>
        (\<forall>x\<in>set vs. pte_is_valid (pte_at (frames s) root x) \<longrightarrow> physical_addr (pte_at (frames s) root x) = physical_addr (pte_at (frames s) root w) \<longrightarrow> x = w)"
        using Cons.prems(4) w(1) val unfolding owns_def by auto
      ultimately show "physical_addr (pte_at (frames s1) root w) \<in> used (pool s1) \<and> physical_addr (pte_at (frames s1) root w) \<notin> tables (frames s1) root \<and>
        (\<forall>x\<in>set vs. pte_is_valid (pte_at (frames s1) root x) \<longrightarrow> physical_addr (pte_at (frames s1) root x) = physical_addr (pte_at (frames s1) root w) \<longrightarrow> x = w)"
        using pa w(1) u(5,6) by simp
    qed
    have "pages_of (frames s1) root (set vs) = pages_of (frames s) root (set vs)"
      unfolding pages_of_def by (intro Collect_cong ex_cong1) (use pa in auto)
    then have pg: "pages_of (frames s) root (set (v # vs)) = insert ?a (pages_of (frames s1) root (set vs))"
      using True by (auto simp: pages_of_def)
    have vi: "visit (leaf_slots (frames s) root (v # vs)) (\<lambda>_ pte. unmap_entry P pte) s =
      visit (leaf_slots (frames s1) root vs) (\<lambda>_ pte. unmap_entry P pte) s1"
      using t True u(1) leaf_slots_cong [of "frames s1" root "frames s" vs, OF u(4)] by (simp add: leaf_slots_Cons bind_def del: node.simps)
    from Cons.IH [OF u(2) _ _ ow] Cons.prems(2,3) obtain s2 where
      r: "visit (leaf_slots (frames s1) root vs) (\<lambda>_ pte. unmap_entry P pte) s1 = (Ok (), s2)" "pt_inv ok used root s2"
      "\<forall>w<2 ^ 27. pte_at (frames s2) root w = (if w \<in> set vs \<and> pte_is_valid (pte_at (frames s1) root w) then 0 else pte_at (frames s1) root w)"
      "used (pool s2) = used (pool s1) - pages_of (frames s1) root (set vs)"
      "\<forall>q\<in>tpaths. node (frames s2) root q = node (frames s1) root q" "\<forall>a. a \<notin> tables (frames s1) root \<longrightarrow> frames s2 a = frames s1 a" by auto
    have "pte_at (frames s2) root w = (if w \<in> set (v # vs) \<and> pte_is_valid (pte_at (frames s) root w) then 0 else pte_at (frames s) root w)"
      if "w < 2 ^ 27" for w using r(3) u(3) [OF that] that True by auto
    then show ?thesis using vi r u pg by (intro exI [of _ s2]) auto
  qed
qed

lemma unmap_entry_frames: "unmap_entry P (t, i) s = (Ok (), s') \<Longrightarrow> d \<noteq> t \<Longrightarrow> frames s' d = frames s d"
  by (auto simp: unmap_entry_def put_slot_def write_slot_def bind_def free_frame_def on_pool_def split: prod.splits outcome.splits)

lemma vunmap_spec:
  assumes I: "pt_inv ok used root s" and R: "S \<le> E" "E < 2 ^ 27"
    and o: "owns (frames s) root (used (pool s)) {S..<visited_end S E}"
  shows "\<exists>s'. vunmap P root (S * 4096) ((E - S) * 4096) s = (Ok (), s') \<and> pt_inv ok used root s' \<and>
    (\<forall>w<2 ^ 27. pte_at (frames s') root w =
      (if S \<le> w \<and> w < visited_end S E \<and> pte_is_valid (pte_at (frames s) root w) then 0 else pte_at (frames s) root w)) \<and>
    used (pool s') = used (pool s) - pages_of (frames s) root {S..<visited_end S E} \<and>
    (\<forall>q\<in>tpaths. node (frames s') root q = node (frames s) root q) \<and>
    (\<forall>a. a \<notin> tables (frames s) root \<longrightarrow> frames s' a = frames s a)"
proof -
  have W: "pt_wf (frames s) root (used (pool s))" using I by (simp add: pt_inv_def)
  have sum: "S * 4096 + (E - S) * 4096 = E * 4096" using R(1) by (simp add: diff_mult_distrib)
  have "vunmap P root (S * 4096) ((E - S) * 4096) s =
      for_entries (range_iter_new root (S * 4096) (E * 4096)) (\<lambda>_ pte. unmap_entry P pte) s"
    unfolding vunmap_eq sum using R by (simp add: checked_def range_of_entries_mut_def bind_def usize_limit_def)
  also have "\<dots> = visit (leaf_slots (frames s) root [S..<visited_end S E]) (\<lambda>_ pte. unmap_entry P pte) s"
    by (rule range_loop [OF W R, where Inv = "\<lambda>_. True"]) (use unmap_entry_frames in \<open>auto simp: dirs_def\<close>)
  finally have v: "vunmap P root (S * 4096) ((E - S) * 4096) s = visit (leaf_slots (frames s) root [S..<visited_end S E]) (\<lambda>_ pte. unmap_entry P pte) s" .
  have "\<forall>v\<in>set [S..<visited_end S E]. v < 2 ^ 27" using visited_end_le [OF R(1)] R(2) by auto
  from visit_unmap [OF I distinct_upt this] o show ?thesis unfolding v by simp
qed

end

section \<open>The walk that creates tables\<close>

lemma for_each_rule:
  assumes "\<And>i s. a \<le> i \<Longrightarrow> i < b \<Longrightarrow> J i s \<Longrightarrow>
      (\<exists>s'. F i s = (Ok (), s') \<and> J (Suc i) s') \<or> (\<exists>e s'. F i s = (Err e, s') \<and> X i e s')"
    and "a \<le> b" "J a s"
  shows "(\<exists>s'. for_each [a..<b] F s = (Ok (), s') \<and> J b s') \<or> (\<exists>i e s'. a \<le> i \<and> i < b \<and> for_each [a..<b] F s = (Err e, s') \<and> X i e s')"
  using assms
proof (induction "b - a" arbitrary: a s)
  case (Suc n)
  then have ab: "a < b" by simp
  then have u: "[a..<b] = a # [Suc a..<b]" by (simp add: upt_conv_Cons)
  from Suc.prems(1) [of a s] ab Suc.prems(3) consider s' where "F a s = (Ok (), s')" "J (Suc a) s'" | e s' where "F a s = (Err e, s')" "X a e s'" by auto
  then show ?case
  proof cases
    case (1 s')
    have "(\<exists>s''. for_each [Suc a..<b] F s' = (Ok (), s'') \<and> J b s'') \<or>
      (\<exists>i e s''. Suc a \<le> i \<and> i < b \<and> for_each [Suc a..<b] F s' = (Err e, s'') \<and> X i e s'')"
      by (rule Suc.hyps(1)) (use Suc.hyps(2) Suc.prems(1) ab 1(2) in auto)
    then show ?thesis using 1(1) u by (auto simp: bind_def)
  next
    case (2 e s')
    then show ?thesis using u ab by (auto simp: bind_def)
  qed
qed auto

definition grows :: "nat \<Rightarrow> 'p machine \<Rightarrow> 'p machine \<Rightarrow> bool" where
  "grows root s s' \<longleftrightarrow> (\<forall>q\<in>tpaths. \<forall>t. node (frames s) root q = Some t \<longrightarrow> node (frames s') root q = Some t)"

lemma grows_refl [simp]: "grows root s s"
  by (simp add: grows_def)

lemma grows_trans: "grows root s s1 \<Longrightarrow> grows root s1 s2 \<Longrightarrow> grows root s s2"
  by (simp add: grows_def)

lemma ext_grows: "pt_ext used root s s' \<Longrightarrow> grows root s s'"
  unfolding grows_def using pt_extD(3) by blast

lemma sub_path:
  assumes k: "Suc k \<le> 2" and p: "\<And>v. B \<le> v \<Longrightarrow> v < B + 512 ^ Suc (Suc k) \<Longrightarrow> p = take (2 - Suc k) [idx 2 v, idx 1 v]"
    and B: "B = q * 512 ^ Suc (Suc k)" and i: "i < 512" and v: "B + i * 512 ^ Suc k \<le> v" "v < B + i * 512 ^ Suc k + 512 ^ Suc k"
  shows "p @ [i] = take (2 - k) [idx 2 v, idx 1 v]"
proof -
  have hi: "v < B + 512 ^ Suc (Suc k)"
  proof -
    have "i * 512 ^ Suc k + 512 ^ Suc k = Suc i * 512 ^ Suc k" by simp
    also have "\<dots> \<le> 512 * 512 ^ Suc k" using i by (intro mult_le_mono1) simp
    finally have "i * 512 ^ Suc k + 512 ^ Suc k \<le> 512 ^ Suc (Suc k)" by simp
    then show ?thesis using v(2) by linarith
  qed
  have "idx (Suc k) v = (v - B) div 512 ^ Suc k" by (rule digit(1) [OF B]) (use v hi in auto)
  also have "\<dots> = i" by (rule div_nat_eqI) (use v in \<open>auto simp: algebra_simps\<close>)
  finally have "idx (Suc k) v = i" .
  moreover have "p = take (2 - Suc k) [idx 2 v, idx 1 v]" using p v(1) hi by simp
  moreover have "k = 0 \<or> k = 1" using k by auto
  ultimately show ?thesis by (auto simp: numeral_2_eq_2)
qed

context page_source_laws
begin

lemma ensure_table_spec:
  assumes I: "pt_inv ok used root s" and p: "p \<in> tpaths" "length p < 2" "node (frames s) root p = Some t" and i: "i < 512"
  obtains (none) "ensure_table P brk (t, i) s = (Err (brk, SysErr SysOutOfMemory), s)"
    | (some) t' s' where "ensure_table P brk (t, i) s = (Ok t', s')" "pt_inv ok used root s'" "pt_ext used root s s'"
      "node (frames s') root (p @ [i]) = Some t'"
proof (cases "pte_is_valid (frames s t i)")
  case True
  have "is_page_table (frames s t i)" using I p i True pt_wfD(2) by (auto simp: pt_inv_def)
  then have "ensure_table P brk (t, i) s = (Ok (physical_addr (frames s t i)), s)"
    using True by (simp add: ensure_table_def read_slot_def as_table_def bind_def)
  moreover have "node (frames s) root (p @ [i]) = Some (physical_addr (frames s t i))"
    using p(3) True by (simp add: node_append child_def)
  ultimately show ?thesis using some I pt_ext_refl [OF I] by blast
next
  case False
  have okp: "ok (pool s)" using I by (simp add: pt_inv_def)
  show ?thesis
  proof (rule try_alloc_spec [OF okp], goal_cases)
    case 1
    then show ?case using False by (intro none) (simp add: ensure_table_def read_slot_def attempt_def map_err_def bind_def)
  next
    case a: (2 a s1)
    note S = add_table [OF I p i False a(2,3,4,5,6,8)]
    have e: "read_slot (t, i) (write_slot (t, i) (make_pde a) s1) = make_pde a" by (simp add: read_slot_def write_slot_def)
    show ?case
      using S a(1) False e make_pde_facts [OF a(6,8)]
      by (intro some [of a "write_slot (t, i) (make_pde a) s1"])
        (simp_all add: ensure_table_def read_slot_def [of _ s] attempt_def map_err_def bind_def put_slot_def as_table_def)
  qed
qed

end

text \<open>How a walk over a range can break off: at the entry of a page, or for want of a table. In the second case the address is
  that of the page the walk had come to, or the start of the range.\<close>

definition walk_failed :: "nat \<Rightarrow> nat \<Rightarrow> (nat \<Rightarrow> 'p machine \<Rightarrow> bool) \<Rightarrow> (nat \<Rightarrow> kerror \<Rightarrow> 'p machine \<Rightarrow> bool) \<Rightarrow>
    nat \<Rightarrow> nat \<times> kerror \<Rightarrow> 'p machine \<Rightarrow> bool" where
  "walk_failed S E Inv Q v x s' \<longleftrightarrow> S \<le> v \<and> v \<le> E \<and>
     (fst x = v * 4096 \<and> Q v (snd x) s' \<or>
      snd x = SysErr SysOutOfMemory \<and> (fst x = v * 4096 \<or> fst x = S * 4096) \<and> Inv v s')"

locale range_walk = page_source_laws P ok used
  for P :: "'p page_source" and ok :: "'p \<Rightarrow> bool" and used :: "'p \<Rightarrow> nat set" +
  fixes root :: nat and f :: "nat \<Rightarrow> slot \<Rightarrow> ('p, unit) pt_call" and S E :: nat
    and Inv :: "nat \<Rightarrow> 'p machine \<Rightarrow> bool" and Q :: "nat \<Rightarrow> kerror \<Rightarrow> 'p machine \<Rightarrow> bool"
  assumes inv: "Inv v s \<Longrightarrow> pt_inv ok used root s"
    and ext: "Inv v s \<Longrightarrow> pt_inv ok used root s' \<Longrightarrow> pt_ext used root s s' \<Longrightarrow> Inv v s'"
    and leaf: "S \<le> v \<Longrightarrow> v < E \<Longrightarrow> Inv v s \<Longrightarrow> node (frames s) root [idx 2 v, idx 1 v] = Some t \<Longrightarrow>
      (\<exists>s'. f (v * 4096) (t, idx 0 v) s = (Ok (), s') \<and> Inv (Suc v) s' \<and> grows root s s') \<or>
      (\<exists>e s'. f (v * 4096) (t, idx 0 v) s = (Err e, s') \<and> Q v e s')"
begin

lemma walk_level0:
  assumes R: "t_range 0 S E B fi la" and I: "Inv (t_lo S B fi) s" and SE: "S \<le> t_lo S B fi" "t_hi 0 E B la \<le> E"
    and p: "\<And>v. B \<le> v \<Longrightarrow> v < B + 512 \<Longrightarrow> p = [idx 2 v, idx 1 v]" and t: "node (frames s) root p = Some t"
  shows "(\<exists>s'. walk_range_mut_recursive P f 0 (B * 4096) (S * 4096) (E * 4096) fi la t s = (Ok (), s') \<and> Inv (t_hi 0 E B la) s' \<and> grows root s s') \<or>
    (\<exists>v x s'. walk_range_mut_recursive P f 0 (B * 4096) (S * 4096) (E * 4096) fi la t s = (Err x, s') \<and> walk_failed S E Inv Q v x s')"
proof -
  define si where "si = (t_lo S B fi - B) div 512 ^ 0"
  define ei where "ei = (t_hi 0 E B la - B + 512 ^ 0 - 1) div 512 ^ 0"
  note BE = bound_ends [OF R, folded si_def ei_def] and D = t_rangeD [OF R]
  obtain q where q: "B = q * 512 ^ Suc 0" using R by (auto simp: t_range_def)
  let ?F = "\<lambda>i. map_err (Pair (B * 4096 OR va_for_index 0 i)) (f (B * 4096 OR va_for_index 0 i) (t, i))"
  have W: "walk_range_mut_recursive P f 0 (B * 4096) (S * 4096) (E * 4096) fi la t s = for_each [si..<ei] ?F s"
    using start_index_eq [OF R] end_index_eq [OF R] BE(3,4)
    by (simp add: si_def ei_def TABLE_LEN_def PGSIZE_def Let_def)
  have "(\<exists>s'. for_each [si..<ei] ?F s = (Ok (), s') \<and> Inv (B + ei) s' \<and> grows root s s') \<or>
    (\<exists>i x s'. si \<le> i \<and> i < ei \<and> for_each [si..<ei] ?F s = (Err x, s') \<and> walk_failed S E Inv Q (B + i) x s')"
  proof (rule for_each_rule [where J = "\<lambda>i s'. Inv (B + i) s' \<and> grows root s s'"])
    show "si \<le> ei" by (rule BE(3))
    show "Inv (B + si) s \<and> grows root s s" using I D(1) by (simp add: si_def)
    fix i u assume i: "si \<le> i" "i < ei" and J: "Inv (B + i) u \<and> grows root s u"
    have i512: "i < 512" using i BE(4) by simp
    have va: "B * 4096 OR va_for_index 0 i = (B + i) * 4096" using base_or [OF q i512] by simp
    have ix: "idx 0 (B + i) = i" using q i512 by (simp add: idx_def)
    have v: "S \<le> B + i" "B + i < E"
      using i SE D(1) by (auto simp: si_def ei_def)
    have "node (frames u) root [idx 2 (B + i), idx 1 (B + i)] = Some t"
    proof -
      have pp: "p = [idx 2 (B + i), idx 1 (B + i)]" using p [of "B + i"] i512 by simp
      have "p \<in> tpaths" unfolding pp by simp
      then show ?thesis using J t unfolding grows_def pp [symmetric] by blast
    qed
    from leaf [OF v _ this] J ix consider s' where "f ((B + i) * 4096) (t, i) u = (Ok (), s')" "Inv (Suc (B + i)) s'" "grows root u s'"
      | e s' where "f ((B + i) * 4096) (t, i) u = (Err e, s')" "Q (B + i) e s'" by auto
    then show "(\<exists>s'. ?F i u = (Ok (), s') \<and> Inv (B + Suc i) s' \<and> grows root s s') \<or> (\<exists>x s'. ?F i u = (Err x, s') \<and> walk_failed S E Inv Q (B + i) x s')"
    proof cases
      case (1 s')
      then show ?thesis using va J grows_trans by (intro disjI1 exI [of _ s']) (auto simp: map_err_def)
    next
      case (2 e s')
      then show ?thesis using va v by (intro disjI2 exI [of _ "((B + i) * 4096, e)"] exI [of _ s']) (simp add: map_err_def walk_failed_def)
    qed
  qed
  moreover have "B + ei = t_hi 0 E B la" using D(1,2) by (simp add: ei_def)
  ultimately show ?thesis unfolding W by auto
qed

lemma walk_level:
  assumes nb: "E mod 512 \<noteq> 0"
    and "k \<le> 2" "t_range k S E B fi la" "Inv (t_lo S B fi) s" "S \<le> t_lo S B fi" "t_hi k E B la \<le> E"
    and "\<And>v. B \<le> v \<Longrightarrow> v < B + 512 ^ Suc k \<Longrightarrow> p = take (2 - k) [idx 2 v, idx 1 v]" "node (frames s) root p = Some t"
  shows "(\<exists>s'. walk_range_mut_recursive P f k (B * 4096) (S * 4096) (E * 4096) fi la t s = (Ok (), s') \<and> Inv (t_hi k E B la) s' \<and> grows root s s') \<or>
    (\<exists>v x s'. walk_range_mut_recursive P f k (B * 4096) (S * 4096) (E * 4096) fi la t s = (Err x, s') \<and> walk_failed S E Inv Q v x s')"
  using assms(2-)
proof (induction k arbitrary: B fi la s p t)
  case 0
  have "\<And>v. B \<le> v \<Longrightarrow> v < B + 512 \<Longrightarrow> p = [idx 2 v, idx 1 v]" using "0.prems"(6) by simp
  from walk_level0 [OF "0.prems"(2,3,4,5) this "0.prems"(7)] show ?case .
next
  case (Suc k)
  note R = Suc.prems(2) and SE = Suc.prems(4,5)
  define si where "si = (t_lo S B fi - B) div 512 ^ Suc k"
  define ei where "ei = (t_hi (Suc k) E B la - B + 512 ^ Suc k - 1) div 512 ^ Suc k"
  let ?b = "bound (Suc k) S E B fi la" let ?K = "512 ^ Suc k :: nat"
  note BE = bound_ends [OF R, folded si_def ei_def] and D = t_rangeD [OF R]
  obtain q where q: "B = q * 512 ^ Suc (Suc k)" using R by (auto simp: t_range_def)
  let ?F = "\<lambda>i. let base_va = B * 4096 OR va_for_index (Suc k) i in
    bind (ensure_table P (if fi then S * 4096 else base_va) (t, i)) (\<lambda>t'.
      walk_range_mut_recursive P f k base_va (S * 4096) (E * 4096) (fi \<and> i = si) (la \<and> i = ei - 1) t')"
  have W: "walk_range_mut_recursive P f (Suc k) (B * 4096) (S * 4096) (E * 4096) fi la t s = for_each [si..<ei] ?F s"
    using BE(3,4)
    by (simp add: start_index_eq [OF R, folded si_def] end_index_eq [OF R, folded ei_def] TABLE_LEN_def PGSIZE_def Let_def del: power_Suc)
  have "B \<le> B" "B < B + 512 ^ Suc (Suc k)" by simp_all
  then have plen: "p = take (2 - Suc k) [idx 2 B, idx 1 B]" by (rule Suc.prems(6))
  have p: "p \<in> tpaths" "length p < 2" using plen Suc.prems(1) by (auto simp: tpaths_def dest!: in_set_takeD)
  have "(\<exists>s'. for_each [si..<ei] ?F s = (Ok (), s') \<and> Inv (?b ei) s' \<and> grows root s s') \<or>
    (\<exists>i x s'. si \<le> i \<and> i < ei \<and> for_each [si..<ei] ?F s = (Err x, s') \<and> (\<exists>v. walk_failed S E Inv Q v x s'))"
  proof (rule for_each_rule [where J = "\<lambda>i s'. Inv (?b i) s' \<and> grows root s s'"])
    show "si \<le> ei" by (rule BE(3))
    show "Inv (?b si) s \<and> grows root s s" using Suc.prems(3) BE(1) by simp
    fix i u assume i: "si \<le> i" "i < ei" and J: "Inv (?b i) u \<and> grows root s u"
    have i512: "i < 512" using i BE(4) by simp
    have va: "B * 4096 OR va_for_index (Suc k) i = (B + i * ?K) * 4096" by (rule base_or [OF q i512])
    have tu: "node (frames u) root p = Some t" using J p(1) Suc.prems(7) by (simp add: grows_def)
    have Iu: "pt_inv ok used root u" using inv J by blast
    have bi: "S \<le> ?b i" "?b i \<le> E" using SE D(2) by (simp_all add: bound_def)
    show "(\<exists>s'. ?F i u = (Ok (), s') \<and> Inv (?b (Suc i)) s' \<and> grows root s s') \<or> (\<exists>x s'. ?F i u = (Err x, s') \<and> (\<exists>v. walk_failed S E Inv Q v x s'))"
    proof (rule ensure_table_spec [OF Iu p tu i512, of "if fi then S * 4096 else (B + i * ?K) * 4096"], goal_cases none some)
      case none
      have "\<not> fi \<Longrightarrow> ?b i = B + i * ?K" using BE(6) [OF i(2)] by (simp add: bound_def t_lo_def)
      then have "walk_failed S E Inv Q (?b i) (if fi then S * 4096 else (B + i * ?K) * 4096, SysErr SysOutOfMemory) u"
        using bi J by (auto simp: walk_failed_def)
      moreover have "?F i u = (Err (if fi then S * 4096 else (B + i * ?K) * 4096, SysErr SysOutOfMemory), u)"
        unfolding Let_def va bind_def none by simp
      ultimately show ?thesis by blast
    next
      case (some t' s1)
      note SR = sub_range [OF R i [unfolded si_def ei_def] not_boundary [OF R nb], folded si_def ei_def]
      have fl: "(si = i) = (i = si)" "(ei - 1 = i) = (i = ei - 1)" by auto
      have I1: "Inv (?b i) s1" using ext [OF _ some(2,3)] J by blast
      have g1: "grows root s s1" using J ext_grows [OF some(3)] grows_trans by blast
      have k2: "k \<le> 2" using Suc.prems(1) by simp
      have Fi: "?F i u = walk_range_mut_recursive P f k ((B + i * ?K) * 4096) (S * 4096) (E * 4096) (fi \<and> si = i) (la \<and> ei - 1 = i) t' s1"
        unfolding Let_def va bind_def some(1) fl by simp
      have hE: "?b (Suc i) \<le> E" using SE D(2) by (simp add: bound_def)
      have "(\<exists>s'. ?F i u = (Ok (), s') \<and> Inv (t_hi k E (B + i * ?K) (la \<and> ei - 1 = i)) s' \<and> grows root s1 s') \<or>
        (\<exists>v x s'. ?F i u = (Err x, s') \<and> walk_failed S E Inv Q v x s')"
        unfolding Fi
      proof (rule Suc.IH [OF k2 SR(1)])
        show "Inv (t_lo S (B + i * ?K) (fi \<and> si = i)) s1" unfolding SR(2) by (rule I1)
        show "S \<le> t_lo S (B + i * ?K) (fi \<and> si = i)" unfolding SR(2) by (rule bi(1))
        show "t_hi k E (B + i * ?K) (la \<and> ei - 1 = i) \<le> E" unfolding SR(3) by (rule hE)
        show "p @ [i] = take (2 - k) [idx 2 v, idx 1 v]" if "B + i * ?K \<le> v" "v < B + i * ?K + 512 ^ Suc k" for v
          by (rule sub_path [OF Suc.prems(1,6) q i512 that])
        show "node (frames s1) root (p @ [i]) = Some t'" by (rule some(4))
      qed
      then show ?thesis unfolding SR(3) using g1 grows_trans by blast
    qed
  qed
  then show ?case unfolding W BE(2) by auto
qed

end

section \<open>Mapping a range to new pages\<close>

context page_source_laws
begin

lemma vmap_entry_spec:
  assumes I: "pt_inv ok used root s" and t: "node (frames s) root [idx 2 v, idx 1 v] = Some t" and v: "v < 2 ^ 27"
  obtains (mapped) "pte_is_valid (pte_at (frames s) root v)"
      "vmap_entry P (arch_entry_perm (perm OR EP_VALID)) va (t, idx 0 v) s = (Err (SysErr SysInvalidArgument), s)"
    | (none) "\<not> pte_is_valid (pte_at (frames s) root v)"
      "vmap_entry P (arch_entry_perm (perm OR EP_VALID)) va (t, idx 0 v) s = (Err (SysErr SysOutOfMemory), s)"
    | (some) a e s' where "\<not> pte_is_valid (pte_at (frames s) root v)"
      "vmap_entry P (arch_entry_perm (perm OR EP_VALID)) va (t, idx 0 v) s = (Ok (), s')" "pt_inv ok used root s'"
      "\<And>w. w < 2 ^ 27 \<Longrightarrow> pte_at (frames s') root w = (if w = v then e else pte_at (frames s) root w)"
      "\<And>q. q \<in> tpaths \<Longrightarrow> node (frames s') root q = node (frames s) root q" "tables (frames s') root = tables (frames s) root"
      "a \<notin> used (pool s)" "used (pool s') = insert a (used (pool s))" "frames s' a = (\<lambda>_. 0)"
      "\<And>b. b \<notin> tables (frames s) root \<Longrightarrow> b \<noteq> a \<Longrightarrow> frames s' b = frames s b"
      "physical_addr e = a" "pte_perm e = (perm OR EP_VALID) AND PERM_BITS" "pte_is_valid e"
proof (cases "pte_is_valid (pte_at (frames s) root v)")
  case True
  then show ?thesis using t by (intro mapped) (simp_all add: vmap_entry_def pte_at_def read_slot_def)
next
  case False
  note W = I [unfolded pt_inv_def]
  have nv: "\<not> pte_is_valid (read_slot (t, idx 0 v) s)" using False t by (simp add: pte_at_def read_slot_def)
  have okp: "ok (pool s)" using I by (simp add: pt_inv_def)
  show ?thesis
  proof (rule alloc_zeroed_spec [OF okp], goal_cases)
    case 1
    then show ?case using False nv by (intro none) (simp_all add: vmap_entry_def bind_def)
  next
    case a: (2 a s1)
    have ta: "a \<notin> tables (frames s) root" using tables_sub W a(4) by blast
    have same: "frames s1 u = frames s u" if "q \<in> tpaths" "node (frames s) root q = Some u" for q u
      using that ta unfolding a(2) tables_def by auto
    have W1: "pt_wf (frames s1) root (used (pool s1))" "pte_at (frames s1) root w = pte_at (frames s) root w"
      "q \<in> tpaths \<Longrightarrow> node (frames s1) root q = node (frames s) root q" for q w
      by (rule wf_frame [OF conjunct2 [OF W] same]; use a(5) in auto)+
    have I1: "pt_inv ok used root s1" using W1(1) a(3) by (simp add: pt_inv_def)
    have t1: "node (frames s1) root [idx 2 v, idx 1 v] = Some t" using W1(3) [of "[idx 2 v, idx 1 v]"] t by simp
    have tb: "tables (frames s1) root = tables (frames s) root" using W1(3) by (simp add: tables_def)
    define e where "e = set_perm (arch_entry_perm (perm OR EP_VALID)) (set_addr a (read_slot (t, idx 0 v) s1))"
    note L = write_leaf [OF I1 t1, where e = e]
    have r: "vmap_entry P (arch_entry_perm (perm OR EP_VALID)) va (t, idx 0 v) s = (Ok (), write_slot (t, idx 0 v) e s1)"
      using nv a(1,6,7) by (simp add: vmap_entry_def bind_def put_slot_def e_def set_physical_addr_ok)
    have e: "physical_addr e = a" "pte_perm e = (perm OR EP_VALID) AND PERM_BITS" "pte_is_valid e"
      using set_addr_facts(2) [OF a(6,8)] by (simp_all add: e_def pte_perm_set valid_perm bit_and_iff bit_or_iff bit_PERM_BITS)
    show ?case
      by (rule some [OF False r L(1) _ _ _ a(4) _ _ _ e]) (use L v W1 tb ta a(2,5) in auto)
  qed
qed

end

text \<open>What the walk of \<open>vmap\<close> has done when it has come to page \<open>v\<close>: the pages before have new zeroed pages of the allocator,
  everything else is as before.\<close>

definition vmap_done :: "('p \<Rightarrow> nat set) \<Rightarrow> nat \<Rightarrow> entry_perm \<Rightarrow> 'p machine \<Rightarrow> nat \<Rightarrow> nat \<Rightarrow> 'p machine \<Rightarrow> bool" where
  "vmap_done used root perm s0 S v s \<longleftrightarrow>
     (\<forall>w<2 ^ 27. \<not> (S \<le> w \<and> w < v) \<longrightarrow> pte_at (frames s) root w = pte_at (frames s0) root w) \<and>
     (\<forall>w. S \<le> w \<longrightarrow> w < v \<longrightarrow> \<not> pte_is_valid (pte_at (frames s0) root w) \<and> pte_is_valid (pte_at (frames s) root w) \<and>
        pte_perm (pte_at (frames s) root w) = (perm OR EP_VALID) AND PERM_BITS \<and>
        physical_addr (pte_at (frames s) root w) \<notin> used (pool s0) \<and> physical_addr (pte_at (frames s) root w) \<in> used (pool s) \<and>
        physical_addr (pte_at (frames s) root w) \<notin> tables (frames s) root \<and> frames s (physical_addr (pte_at (frames s) root w)) = (\<lambda>_. 0)) \<and>
     (\<forall>w x. S \<le> w \<longrightarrow> w < v \<longrightarrow> S \<le> x \<longrightarrow> x < v \<longrightarrow>
        physical_addr (pte_at (frames s) root w) = physical_addr (pte_at (frames s) root x) \<longrightarrow> w = x) \<and>
     used (pool s) = used (pool s0) \<union> tables (frames s) root \<union> pages_of (frames s) root {S..<v} \<and>
     (\<forall>a\<in>used (pool s0). a \<notin> tables (frames s0) root \<longrightarrow> frames s a = frames s0 a) \<and>
     tables (frames s) root \<inter> used (pool s0) = tables (frames s0) root \<and> grows root s0 s"

lemma vmap_doneD:
  assumes "vmap_done used root perm s0 S v s"
  shows "\<And>w. w < 2 ^ 27 \<Longrightarrow> \<not> (S \<le> w \<and> w < v) \<Longrightarrow> pte_at (frames s) root w = pte_at (frames s0) root w"
    "\<And>w. S \<le> w \<Longrightarrow> w < v \<Longrightarrow> \<not> pte_is_valid (pte_at (frames s0) root w) \<and> pte_is_valid (pte_at (frames s) root w) \<and>
        pte_perm (pte_at (frames s) root w) = (perm OR EP_VALID) AND PERM_BITS \<and>
        physical_addr (pte_at (frames s) root w) \<notin> used (pool s0) \<and> physical_addr (pte_at (frames s) root w) \<in> used (pool s) \<and>
        physical_addr (pte_at (frames s) root w) \<notin> tables (frames s) root \<and> frames s (physical_addr (pte_at (frames s) root w)) = (\<lambda>_. 0)"
    "\<And>w x. S \<le> w \<Longrightarrow> w < v \<Longrightarrow> S \<le> x \<Longrightarrow> x < v \<Longrightarrow>
        physical_addr (pte_at (frames s) root w) = physical_addr (pte_at (frames s) root x) \<Longrightarrow> w = x"
    "used (pool s) = used (pool s0) \<union> tables (frames s) root \<union> pages_of (frames s) root {S..<v}"
    "\<And>a. a \<in> used (pool s0) \<Longrightarrow> a \<notin> tables (frames s0) root \<Longrightarrow> frames s a = frames s0 a"
    "tables (frames s) root \<inter> used (pool s0) = tables (frames s0) root" "grows root s0 s"
  using assms unfolding vmap_done_def by blast+

lemma vmap_done_start: "pt_inv ok used root s \<Longrightarrow> vmap_done used root perm s S S s"
  using tables_sub [of "frames s" root "used (pool s)"] by (auto simp: vmap_done_def pt_inv_def pages_of_def)

lemma vmap_done_ext:
  assumes "vmap_done used root perm s0 S v s" "pt_ext used root s s'" shows "vmap_done used root perm s0 S v s'"
proof -
  note D = vmap_doneD [OF assms(1)] and X = pt_extD [OF assms(2)]
  have sub: "tables (frames s) root \<subseteq> tables (frames s') root" using X(4) by blast
  have "frames s' a = frames s0 a" if "a \<in> used (pool s0)" "a \<notin> tables (frames s0) root" for a
  proof -
    have "a \<in> used (pool s)" "a \<notin> tables (frames s) root" using that D(4,6) by auto
    then show ?thesis using X(2) D(5) [OF that] by simp
  qed
  moreover have "tables (frames s') root \<inter> used (pool s0) = tables (frames s0) root" using X(4) D(4,6) by blast
  moreover have "pages_of (frames s') root {S..<v} = pages_of (frames s) root {S..<v}" by (simp add: pages_of_def X(5))
  then have "used (pool s') = used (pool s0) \<union> tables (frames s') root \<union> pages_of (frames s') root {S..<v}" using X(1) D(4) sub by auto
  moreover have "physical_addr (pte_at (frames s') root w) \<in> used (pool s') \<and> physical_addr (pte_at (frames s') root w) \<notin> tables (frames s') root \<and>
    frames s' (physical_addr (pte_at (frames s') root w)) = (\<lambda>_. 0)" if "S \<le> w" "w < v" for w
    unfolding X(5) using D(2) [OF that] X(1,4) X(2) [of "physical_addr (pte_at (frames s) root w)"] by auto
  moreover have "grows root s0 s'" using D(7) ext_grows [OF assms(2)] by (rule grows_trans)
  ultimately show ?thesis using D(1-3) unfolding vmap_done_def X(5) by blast
qed

lemma vmap_done_step:
  assumes D0: "vmap_done used root perm s0 S v s" and v: "S \<le> v" "v < 2 ^ 27" and I: "pt_inv ok used root s" and I': "pt_inv ok used root s'"
    and nv: "\<not> pte_is_valid (pte_at (frames s) root v)"
    and at: "\<And>w. w < 2 ^ 27 \<Longrightarrow> pte_at (frames s') root w = (if w = v then e else pte_at (frames s) root w)"
    and nd: "\<And>q. q \<in> tpaths \<Longrightarrow> node (frames s') root q = node (frames s) root q" and tb: "tables (frames s') root = tables (frames s) root"
    and a: "a \<notin> used (pool s)" "used (pool s') = insert a (used (pool s))" "frames s' a = (\<lambda>_. 0)"
    and fr: "\<And>b. b \<notin> tables (frames s) root \<Longrightarrow> b \<noteq> a \<Longrightarrow> frames s' b = frames s b"
    and e: "physical_addr e = a" "pte_perm e = (perm OR EP_VALID) AND PERM_BITS" "pte_is_valid e"
  shows "vmap_done used root perm s0 S (Suc v) s'"
proof -
  note D = vmap_doneD [OF D0]
  have lt: "w < 2 ^ 27" if "w < v" for w using that v(2) by simp
  have old: "pte_at (frames s') root w = pte_at (frames s) root w" if "w < v" for w using at lt [OF that] that by simp
  have new: "pte_at (frames s') root v = e" using at v(2) by simp
  have u0: "used (pool s0) \<subseteq> used (pool s)" using D(4) by blast
  have ta: "a \<notin> tables (frames s) root" using tables_sub [of "frames s"] I a(1) by (auto simp: pt_inv_def)
  have pg: "pages_of (frames s') root {S..<Suc v} = insert a (pages_of (frames s) root {S..<v})"
  proof -
    have "{S..<Suc v} = insert v {S..<v}" using v(1) by auto
    then have "pages_of (frames s') root {S..<Suc v} = insert a (pages_of (frames s') root {S..<v})"
      using new e by (auto simp: pages_of_def)
    also have "pages_of (frames s') root {S..<v} = pages_of (frames s) root {S..<v}"
      unfolding pages_of_def by (intro Collect_cong ex_cong1) (auto simp: old)
    finally show ?thesis .
  qed
  have "pte_at (frames s') root w = pte_at (frames s0) root w" if "w < 2 ^ 27" "\<not> (S \<le> w \<and> w < Suc v)" for w
    using at [OF that(1)] D(1) [OF that(1)] that(2) v(1) by auto
  moreover have "\<not> pte_is_valid (pte_at (frames s0) root w) \<and> pte_is_valid (pte_at (frames s') root w) \<and>
        pte_perm (pte_at (frames s') root w) = (perm OR EP_VALID) AND PERM_BITS \<and>
        physical_addr (pte_at (frames s') root w) \<notin> used (pool s0) \<and> physical_addr (pte_at (frames s') root w) \<in> used (pool s') \<and>
        physical_addr (pte_at (frames s') root w) \<notin> tables (frames s') root \<and> frames s' (physical_addr (pte_at (frames s') root w)) = (\<lambda>_. 0)"
    if "S \<le> w" "w < Suc v" for w
  proof (cases "w = v")
    case True
    then show ?thesis using new e a ta tb u0 nv D(1) [OF v(2)] by auto
  next
    case False
    then have w: "w < v" using that by simp
    have "physical_addr (pte_at (frames s) root w) \<noteq> a" using D(2) [OF that(1) w] a(1) by auto
    then show ?thesis unfolding old [OF w] tb using D(2) [OF that(1) w] a(2) fr [of "physical_addr (pte_at (frames s) root w)"] by simp
  qed
  moreover have "w = x" if wx: "S \<le> w" "w < Suc v" "S \<le> x" "x < Suc v"
    and eq: "physical_addr (pte_at (frames s') root w) = physical_addr (pte_at (frames s') root x)" for w x
  proof -
    have ne: "physical_addr (pte_at (frames s') root y) \<noteq> a" if "S \<le> y" "y < v" for y using D(2) [OF that] a(1) old that by auto
    show ?thesis using wx eq ne [of w] ne [of x] new e(1) D(3) [of w x] old by (cases "w = v"; cases "x = v") auto
  qed
  moreover have "used (pool s') = used (pool s0) \<union> tables (frames s') root \<union> pages_of (frames s') root {S..<Suc v}"
    unfolding pg a(2) tb D(4) by auto
  moreover have "frames s' b = frames s0 b" if "b \<in> used (pool s0)" "b \<notin> tables (frames s0) root" for b
    using fr [of b] D(5) [OF that] D(6) that u0 a(1) by auto
  moreover have "grows root s0 s'" using D(7) nd by (auto simp: grows_def)
  moreover have "tables (frames s') root \<inter> used (pool s0) = tables (frames s0) root" using D(6) tb by simp
  ultimately show ?thesis unfolding vmap_done_def by blast
qed

definition vmap_inv :: "('p \<Rightarrow> bool) \<Rightarrow> ('p \<Rightarrow> nat set) \<Rightarrow> nat \<Rightarrow> entry_perm \<Rightarrow> 'p machine \<Rightarrow> nat \<Rightarrow> nat \<Rightarrow> nat \<Rightarrow> 'p machine \<Rightarrow> bool" where
  "vmap_inv ok used root perm s0 S E v s \<longleftrightarrow> E < 2 ^ 27 \<and> pt_inv ok used root s \<and> vmap_done used root perm s0 S v s"

definition vmap_stop :: "('p \<Rightarrow> bool) \<Rightarrow> ('p \<Rightarrow> nat set) \<Rightarrow> nat \<Rightarrow> entry_perm \<Rightarrow> 'p machine \<Rightarrow> nat \<Rightarrow> nat \<Rightarrow> nat \<Rightarrow> kerror \<Rightarrow> 'p machine \<Rightarrow> bool" where
  "vmap_stop ok used root perm s0 S E v e s \<longleftrightarrow> v < E \<and> vmap_inv ok used root perm s0 S E v s \<and>
     (e = SysErr SysInvalidArgument \<and> pte_is_valid (pte_at (frames s0) root v) \<or> e = SysErr SysOutOfMemory)"

context page_source_laws
begin

lemma vmap_walk:
  "range_walk P ok used root (vmap_entry P (arch_entry_perm (perm OR EP_VALID))) S E
     (vmap_inv ok used root perm s0 S E) (vmap_stop ok used root perm s0 S E)"
proof (unfold_locales, goal_cases inv ext leaf)
  case (inv v s)
  then show ?case by (simp add: vmap_inv_def)
next
  case (ext v s s')
  then show ?case using vmap_done_ext by (auto simp: vmap_inv_def)
next
  case (leaf v s t)
  note I = leaf(3) [unfolded vmap_inv_def, THEN conjunct2, THEN conjunct1] and D = leaf(3) [unfolded vmap_inv_def, THEN conjunct2, THEN conjunct2]
  have v: "v < 2 ^ 27" using leaf(2,3) by (simp add: vmap_inv_def)
  have at: "pte_at (frames s) root v = pte_at (frames s0) root v" using vmap_doneD(1) [OF D v] by simp
  show ?case
  proof (rule vmap_entry_spec [OF I leaf(4) v, of perm "v * 4096"], goal_cases)
    case 1
    then show ?case using leaf at by (auto simp: vmap_stop_def)
  next
    case 2
    then show ?case using leaf by (auto simp: vmap_stop_def)
  next
    case n: (3 a e s')
    have "vmap_done used root perm s0 S (Suc v) s'" by (rule vmap_done_step [OF D leaf(1) v I n(3,1,4-)])
    moreover have "grows root s s'" using n(5) by (simp add: grows_def)
    ultimately show ?case using n(2,3) leaf(3) by (auto simp: vmap_inv_def)
  qed
qed

text \<open>The whole operation. When the walk breaks off, the pages before the address it reports are unmapped again.\<close>

lemma vmap_rollback:
  assumes I: "pt_inv ok used root s1" and D: "vmap_done used root perm s S v s1" and SE: "S \<le> b" "b \<le> v" "v < 2 ^ 27"
  obtains s' where "vunmap P root (S * 4096) (b * 4096 - S * 4096) s1 = (Ok (), s')" "pt_inv ok used root s'"
    "\<And>w. w < 2 ^ 27 \<Longrightarrow> \<not> (S \<le> w \<and> w < v) \<Longrightarrow> pte_at (frames s') root w = pte_at (frames s) root w"
    "\<And>w. S \<le> w \<Longrightarrow> w < visited_end S b \<Longrightarrow> pte_at (frames s') root w = 0"
    "\<And>w. visited_end S b \<le> w \<Longrightarrow> w < v \<Longrightarrow> pte_is_valid (pte_at (frames s') root w)"
    "used (pool s') = used (pool s) \<union> tables (frames s') root \<union> pages_of (frames s') root {visited_end S b..<v}"
    "\<And>a. a \<in> used (pool s) \<Longrightarrow> a \<notin> tables (frames s) root \<Longrightarrow> frames s' a = frames s a"
proof -
  note D = vmap_doneD [OF D]
  let ?z = "visited_end S b"
  have z: "S \<le> ?z" "?z \<le> v" using visited_end_le [OF SE(1)] SE(2) by auto
  have "owns (frames s1) root (used (pool s1)) {S..<?z}" unfolding owns_def using D(2,3) z by (auto simp: less_le_trans)
  moreover have "b < 2 ^ 27" using SE by simp
  ultimately obtain s' where u: "vunmap P root (S * 4096) ((b - S) * 4096) s1 = (Ok (), s')" "pt_inv ok used root s'"
    "\<And>w. w < 2 ^ 27 \<Longrightarrow> pte_at (frames s') root w = (if S \<le> w \<and> w < ?z \<and> pte_is_valid (pte_at (frames s1) root w) then 0 else pte_at (frames s1) root w)"
    "used (pool s') = used (pool s1) - pages_of (frames s1) root {S..<?z}"
    "\<forall>q\<in>tpaths. node (frames s') root q = node (frames s1) root q" "\<And>a. a \<notin> tables (frames s1) root \<Longrightarrow> frames s' a = frames s1 a"
    using vunmap_spec [OF I SE(1)] by blast
  have lt: "w < 2 ^ 27" if "w < v" for w using that SE(3) by simp
  have tb: "tables (frames s') root = tables (frames s1) root" using u(5) by (auto simp: tables_def)
  have keep: "pte_at (frames s') root w = pte_at (frames s1) root w" if "?z \<le> w" "w < v" for w using u(3) [of w] lt that by simp
  have split: "pages_of (frames s1) root {S..<v} = pages_of (frames s1) root {S..<?z} \<union> pages_of (frames s1) root {?z..<v}"
    unfolding pages_of_def using z by (auto simp: not_le) (metis not_le)
  have "pages_of (frames s') root {?z..<v} = pages_of (frames s1) root {?z..<v}"
    unfolding pages_of_def by (intro Collect_cong ex_cong1) (auto simp: keep)
  moreover have "a \<notin> pages_of (frames s1) root {S..<?z}" if "a \<in> used (pool s) \<union> tables (frames s1) root \<union> pages_of (frames s1) root {?z..<v}" for a
  proof
    assume "a \<in> pages_of (frames s1) root {S..<?z}"
    then obtain w where w: "S \<le> w" "w < ?z" "a = physical_addr (pte_at (frames s1) root w)" by (auto simp: pages_of_def)
    have wv: "w < v" using w z by simp
    from that D(2) [OF w(1) wv] w(3) obtain x where x: "?z \<le> x" "x < v" "a = physical_addr (pte_at (frames s1) root x)" by (auto simp: pages_of_def)
    then show False using D(3) [OF w(1) wv _ x(2)] w z by auto
  qed
  ultimately have us: "used (pool s') = used (pool s) \<union> tables (frames s') root \<union> pages_of (frames s') root {?z..<v}"
    unfolding u(4) D(4) tb split by blast
  have "vunmap P root (S * 4096) (b * 4096 - S * 4096) s1 = (Ok (), s')" using u(1) by (simp add: diff_mult_distrib)
  then show thesis
  proof (rule that [OF _ u(2) _ _ _ us])
    show "pte_at (frames s') root w = pte_at (frames s) root w" if "w < 2 ^ 27" "\<not> (S \<le> w \<and> w < v)" for w
      using u(3) [OF that(1)] D(1) [OF that] that(2) z by auto
    show "pte_at (frames s') root w = 0" if "S \<le> w" "w < ?z" for w using u(3) [of w] lt [of w] D(2) [of w] that z by simp
    show "pte_is_valid (pte_at (frames s') root w)" if "?z \<le> w" "w < v" for w using keep [OF that] D(2) [of w] that z by simp
    show "frames s' a = frames s a" if "a \<in> used (pool s)" "a \<notin> tables (frames s) root" for a
    proof -
      have "a \<notin> tables (frames s1) root" using D(6) that by auto
      then show ?thesis using u(6) D(5) [OF that] by simp
    qed
  qed
qed

lemma vmap_spec:
  assumes I: "pt_inv ok used root s" and R: "S \<le> E" "E < 2 ^ 27" "E mod 512 \<noteq> 0"
  obtains (ok) s' where "vmap P root (S * 4096) ((E - S) * 4096) perm s = (Ok (), s')" "pt_inv ok used root s'" "vmap_done used root perm s S E s'"
    | (err) e v b s' where "vmap P root (S * 4096) ((E - S) * 4096) perm s = (Err (SysErr e), s')" "pt_inv ok used root s'"
      "S \<le> v" "v \<le> E" "\<And>w. S \<le> w \<Longrightarrow> w < v \<Longrightarrow> \<not> pte_is_valid (pte_at (frames s) root w)"
      "e = SysInvalidArgument \<and> v < E \<and> pte_is_valid (pte_at (frames s) root v) \<and> b = v \<or> e = SysOutOfMemory \<and> (b = v \<or> b = S)"
      "\<And>w. w < 2 ^ 27 \<Longrightarrow> \<not> (S \<le> w \<and> w < v) \<Longrightarrow> pte_at (frames s') root w = pte_at (frames s) root w"
      "\<And>w. S \<le> w \<Longrightarrow> w < visited_end S b \<Longrightarrow> pte_at (frames s') root w = 0"
      "\<And>w. visited_end S b \<le> w \<Longrightarrow> w < v \<Longrightarrow> pte_is_valid (pte_at (frames s') root w)"
      "used (pool s') = used (pool s) \<union> tables (frames s') root \<union> pages_of (frames s') root {visited_end S b..<v}"
      "\<And>a. a \<in> used (pool s) \<Longrightarrow> a \<notin> tables (frames s) root \<Longrightarrow> frames s' a = frames s a"
proof -
  let ?f = "vmap_entry P (arch_entry_perm (perm OR EP_VALID))"
  let ?w = "walk_range_mut_recursive P ?f 2 0 (S * 4096) (E * 4096) True True root s"
  have sum: "S * 4096 + (E - S) * 4096 = E * 4096" using R(1) by (simp add: diff_mult_distrib)
  have T: "t_range 2 S E 0 True True" using R by (auto simp: t_range_def t_lo_def t_hi_def)
  have I0: "vmap_inv ok used root perm s S E (t_lo S 0 True) s" using I vmap_done_start [OF I] R by (simp add: vmap_inv_def t_lo_def)
  have "(\<exists>s'. ?w = (Ok (), s') \<and> vmap_inv ok used root perm s S E (t_hi 2 E 0 True) s' \<and> grows root s s') \<or>
    (\<exists>v x s'. ?w = (Err x, s') \<and> walk_failed S E (vmap_inv ok used root perm s S E) (vmap_stop ok used root perm s S E) v x s')"
    by (rule range_walk.walk_level [OF vmap_walk R(3) order_refl T I0, where p = "[]", simplified mult_0])
      (simp_all add: t_lo_def t_hi_def)
  then consider s' where "?w = (Ok (), s')" "vmap_inv ok used root perm s S E E s'"
    | v x s' where "?w = (Err x, s')" "walk_failed S E (vmap_inv ok used root perm s S E) (vmap_stop ok used root perm s S E) v x s'"
    by (auto simp: t_hi_def)
  then show thesis
  proof cases
    case (1 s')
    then show thesis using R by (intro ok [of s']) (simp_all add: vmap_def sum usize_limit_def vmap_inv_def)
  next
    case (2 v x s1)
    note wf = 2(2) [unfolded walk_failed_def]
    obtain brk err where x: "x = (brk, err)" by (cases x)
    from wf obtain b e where b: "brk = b * 4096" "err = SysErr e" "b = v \<or> b = S" and v: "S \<le> v" "v \<le> E"
      and e: "e = SysInvalidArgument \<and> v < E \<and> pte_is_valid (pte_at (frames s) root v) \<and> b = v \<or> e = SysOutOfMemory"
      and i: "vmap_inv ok used root perm s S E v s1"
      unfolding x vmap_stop_def by auto
    have I1: "pt_inv ok used root s1" and D1: "vmap_done used root perm s S v s1" using i by (simp_all add: vmap_inv_def)
    have bb: "S \<le> b" "b \<le> v" "v < 2 ^ 27" using b(3) v R(2) by auto
    show thesis
    proof (rule vmap_rollback [OF I1 D1 bb], goal_cases)
      case u: (1 s')
      have "vmap P root (S * 4096) ((E - S) * 4096) perm s = (Err (SysErr e), s')"
        using R 2(1) x b u(1) bb(1) by (simp add: vmap_def sum usize_limit_def page_aligned_new_def PGSIZE_def bind_def)
      then show thesis
        by (rule err [OF _ u(2) v]) (use vmap_doneD(2) [OF D1] e b(3) u in auto)
    qed
  qed
qed

text \<open>A range that is exactly one table of the lowest level.\<close>

lemma walk_one:
  assumes "start_index (Suc k) sv True = i" "end_index (Suc k) ev True = Suc i" "i < 512"
  shows "walk_range_mut_recursive P f (Suc k) base sv ev True True t s =
    bind (ensure_table P sv (t, i)) (\<lambda>t'. walk_range_mut_recursive P f k (base OR va_for_index (Suc k) i) sv ev True True t') s"
  using assms by (simp add: TABLE_LEN_def PGSIZE_def bind_def split: prod.splits outcome.splits)

lemma walk_whole_table:
  fixes f :: "nat \<Rightarrow> slot \<Rightarrow> ('p, unit) pt_call"
  assumes I: "pt_inv ok used root s" and c: "S = 512 * c" "c mod 512 \<noteq> 511" "S + 512 < 2 ^ 27"
  defines "w \<equiv> walk_range_mut_recursive P f 2 0 (S * 4096) ((S + 512) * 4096) True True root s"
  obtains (none) s' where "w = (Err (S * 4096, SysErr SysOutOfMemory), s')" "pt_inv ok used root s'" "pt_ext used root s s'"
    | (ok) s' where "w = (Ok (), s')" "pt_inv ok used root s'" "pt_ext used root s s'"
proof -
  let ?i = "c div 512" and ?j = "c mod 512"
  have c18: "c < 512 * 512" "Suc c < 512 * 512" using c(1,3) by simp_all
  then have i: "?i < 512" by (simp add: less_mult_imp_div_less)
  have sc: "Suc c div 512 = ?i" "Suc c mod 512 = Suc ?j" using c(2) by (auto simp: div_Suc mod_Suc)
  have E: "S + 512 = 512 * Suc c" using c(1) by simp
  have st: "start_index 2 (S * 4096) True = ?i" "start_index 1 (S * 4096) True = ?j" "start_index 0 (S * 4096) True = 0"
    using i by (simp_all add: start_index_def index_for_va_idx idx_def c(1) power2_eq_square div_mult2_eq)
  have en: "end_index 2 ((S + 512) * 4096) True = Suc ?i" "end_index 1 ((S + 512) * 4096) True = Suc ?j" "end_index 0 ((S + 512) * 4096) True = 0"
  proof -
    obtain m where m: "m = Suc c" by blast
    have d: "512 * m div 262144 = m div 512" "512 * m mod 262144 = 512 * (m mod 512)"
      using div_mult2_eq [of "512 * m" 512 512] mod_mult2_eq [of "512 * m" 512 512] by simp_all
    show "end_index 2 ((S + 512) * 4096) True = Suc ?i" "end_index 1 ((S + 512) * 4096) True = Suc ?j" "end_index 0 ((S + 512) * 4096) True = 0"
      unfolding E m [symmetric] using i sc [folded m] d by (simp_all add: end_index_def upper_bound_idx idx_def power2_eq_square)
  qed
  have w1: "w = bind (ensure_table P (S * 4096) (root, ?i)) (\<lambda>t'. walk_range_mut_recursive P f 1 (0 OR va_for_index (Suc 1) ?i) (S * 4096) ((S + 512) * 4096) True True t') s"
    unfolding w_def Suc_1 [symmetric] by (rule walk_one [OF _ _ i]) (simp_all only: st en Suc_1)
  have j: "?j < 512" by simp
  have w2: "walk_range_mut_recursive P f 1 base (S * 4096) ((S + 512) * 4096) True True t u =
      bind (ensure_table P (S * 4096) (t, ?j)) (\<lambda>t'. walk_range_mut_recursive P f 0 (base OR va_for_index (Suc 0) ?j) (S * 4096) ((S + 512) * 4096) True True t') u" for base t u
    unfolding One_nat_def by (rule walk_one [OF _ _ j]) (simp_all only: st en One_nat_def [symmetric])
  have w3: "walk_range_mut_recursive P f 0 base (S * 4096) ((S + 512) * 4096) True True t u = (Ok (), u)" for base t u
    using st(3) en(3) by (simp add: Let_def)
  show thesis
  proof (rule ensure_table_spec [OF I _ _ _ i, of "[]" root "S * 4096"], goal_cases p l n oom new)
    case oom
    then show thesis using pt_ext_refl [OF I] I by (intro none) (simp_all add: w1 bind_def)
  next
    case s1: (new t1 s1)
    have n1: "node (frames s1) root [?i] = Some t1" using s1(4) by simp
    have w12: "w = bind (ensure_table P (S * 4096) (t1, ?j)) (\<lambda>t'. walk_range_mut_recursive P f 0 ((0 OR va_for_index (Suc 1) ?i) OR va_for_index (Suc 0) ?j) (S * 4096) ((S + 512) * 4096) True True t') s1"
      unfolding w1 w2 [symmetric] by (simp only: bind_def s1(1) prod.case outcome.case)
    have p1: "[?i] \<in> tpaths" using i by (simp add: tpaths_def)
    show thesis
    proof (rule ensure_table_spec [OF s1(2) p1 _ n1, of ?j "S * 4096"], goal_cases l j oom new)
      case oom
      then show thesis using s1(2,3) by (intro none) (simp_all only: w12 bind_def prod.case outcome.case)
    next
      case s2: (new t2 s2)
      show thesis by (rule ok [OF _ s2(2) pt_ext_trans [OF s1(3) s2(3)]]) (simp only: w12 bind_def s2(1) w3 prod.case outcome.case)
    qed simp_all
  qed (simp_all add: tpaths_def)
qed

lemma vmap_whole_table:
  assumes I: "pt_inv ok used root s" and c: "S = 512 * c" "c mod 512 \<noteq> 511" "S + 512 < 2 ^ 27"
  shows "\<exists>r s'. vmap P root (S * 4096) (512 * 4096) perm s = (r, s') \<and> pt_inv ok used root s' \<and>
    (r = Ok () \<or> r = Err (SysErr SysOutOfMemory)) \<and> (\<forall>w<2 ^ 27. pte_at (frames s') root w = pte_at (frames s) root w)"
proof -
  have sum: "S * 4096 + 512 * 4096 = (S + 512) * 4096" "\<not> usize_limit \<le> (S + 512) * 4096" using c(3) by (simp_all add: usize_limit_def)
  show ?thesis
  proof (rule walk_whole_table [OF I c, where f = "vmap_entry P (arch_entry_perm (perm OR EP_VALID))"], goal_cases)
    case (1 s1)
    have D: "vmap_done used root perm s S S s1" by (rule vmap_done_ext [OF vmap_done_start [OF I] 1(3)])
    have S27: "S < 2 ^ 27" using c(3) by simp
    obtain s' where u: "vunmap P root (S * 4096) (S * 4096 - S * 4096) s1 = (Ok (), s')" "pt_inv ok used root s'"
      "\<And>w. w < 2 ^ 27 \<Longrightarrow> \<not> (S \<le> w \<and> w < S) \<Longrightarrow> pte_at (frames s') root w = pte_at (frames s) root w"
      by (rule vmap_rollback [OF 1(2) D order_refl order_refl S27]) (rule that)
    have "vmap P root (S * 4096) (512 * 4096) perm s = (Err (SysErr SysOutOfMemory), s')"
      unfolding vmap_def Let_def sum using 1(1) u(1) sum(2) by (simp add: page_aligned_new_def PGSIZE_def bind_def)
    then show ?thesis using u(2,3) by auto
  next
    case (2 s1)
    have "vmap P root (S * 4096) (512 * 4096) perm s = (Ok (), s1)" unfolding vmap_def Let_def sum using 2(1) sum(2) by simp
    then show ?thesis using 2(2) pt_extD(5) [OF 2(3)] by auto
  qed
qed

end

interpretation vmap_range: range_walk "buddy_pages hol_list cpu" "mm_inv (\<lambda>l. l) e" "mm_used (\<lambda>l. l) e" root
    "vmap_entry (buddy_pages hol_list cpu) (arch_entry_perm (perm OR EP_VALID))" S E
    "vmap_inv (mm_inv (\<lambda>l. l) e) (mm_used (\<lambda>l. l) e) root perm s0 S E" "vmap_stop (mm_inv (\<lambda>l. l) e) (mm_used (\<lambda>l. l) e) root perm s0 S E"
  for cpu e root perm s0 S E
  by (rule hm.vmap_walk)

section \<open>Properties of the page table\<close>

abbreviation "mm_ok items e \<equiv> pt_inv (mm_inv items e) (mm_used items e)"

text \<open>A new address space: the kernel's first free page as an empty root table.\<close>

lemma empty_root:
  "\<exists>root s. mm_ok (\<lambda>l. l) DIRECT_MAPPING_END_VADDR root (s :: nat list mm machine) \<and> (\<forall>v. pte_at (frames s) root v = 0)"
proof -
  have pl: "page_lists hol_list (\<lambda>l. l)" by (rule page_lists.intro [OF hl.linked_list_laws_axioms])
  have fb: "free_byte (\<lambda>l. l) (allocator kernel_mm) DIRECT_MAPPING_BASE_VADDR"
    using kernel_region(2) by (simp add: kernel_mm_def free_byte_def kernel_start_inv(3))
  obtain a m where m: "mm_inv (\<lambda>l. l) DIRECT_MAPPING_END_VADDR m" "in_use (\<lambda>l. l) DIRECT_MAPPING_END_VADDR m a"
    using fb by (rule_tac page_lists.cache_alloc_spec [OF pl kernel_mm_inv, of 0]) auto
  let ?s = "\<lparr>frames = (\<lambda>_ _. 0), pool = m\<rparr>"
  have n: "node (\<lambda>_ _. 0) a p = (if p = [] then Some a else None)" for p by (cases p) (simp_all add: child_def)
  have "pt_wf (\<lambda>_ _. 0) a (mm_used (\<lambda>l. l) DIRECT_MAPPING_END_VADDR m)" using m(2) by (simp add: pt_wf_def n mm_used_def)
  then have "mm_ok (\<lambda>l. l) DIRECT_MAPPING_END_VADDR a ?s" using m(1) by (simp add: pt_inv_def)
  then show ?thesis by (intro exI [of _ a] exI [of _ ?s]) (simp add: pte_at_def n del: node.simps)
qed

text \<open>C12: Mapping a page. \<open>map\<close> never panics on a Sv39 address and a page; it keeps the page table well formed and every page that is not a table.
  When it succeeds, \<open>get_entry\<close> finds for the address an entry with the given physical address and permissions, and for every other page
  exactly the entry it found before; otherwise the allocator had no page for a table, and no translation has changed.\<close>

theorem pt_map_translates:
  assumes "linked_list_laws L items" and I: "mm_ok items e root s"
    and va: "va < 2 ^ 39" and pa: "pa mod 4096 = 0" "pa \<noteq> 0" "pa < 2 ^ 64"
  shows "\<exists>r s'. pt_map (buddy_pages L cpu) root va pa perm s = (r, s') \<and> mm_ok items e root s' \<and>
    (\<forall>a\<in>mm_used items e (pool s). a \<notin> tables (frames s) root \<longrightarrow> frames s' a = frames s a) \<and>
    (case r of
       Ok _ \<Rightarrow> (\<exists>sl. get_entry root va s' = ((Ok (Some sl), s') :: (kerror, _) outcome \<times> _) \<and> physical_addr (read_slot sl s') = pa \<and>
           pte_perm (read_slot sl s') = (perm OR EP_VALID) AND PERM_BITS) \<and>
         (\<forall>w<2 ^ 27. w \<noteq> va div 4096 \<longrightarrow> pte_at (frames s') root w = pte_at (frames s) root w)
     | Err x \<Rightarrow> x = SysErr SysOutOfMemory \<and> (\<forall>w. pte_at (frames s') root w = pte_at (frames s) root w)
     | Panic \<Rightarrow> False)"
proof -
  have ps: "page_source_laws (buddy_pages L cpu) (mm_inv items e) (mm_used items e)" by (rule mm_source [OF assms(1)])
  show ?thesis
  proof (rule page_source_laws.map_spec [OF ps I va refl pa, of perm], goal_cases)
    case (1 s')
    then show ?case using pt_extD [OF 1(3)] by auto
  next
    case (2 t s1 x)
    let ?v = "va div 4096" let ?s = "write_slot (t, idx 0 ?v) x s1"
    have v: "?v < 2 ^ 27" using va by (simp add: less_mult_imp_div_less)
    note L = write_leaf [OF 2(2,3), where e = x] and X = pt_extD [OF 2(1)]
    have at: "pte_at (frames ?s) root ?v = x" using L(2) [OF v v] by simp
    have n: "node (frames ?s) root [idx 2 ?v, idx 1 ?v] = Some t" using L(3) [of "[idx 2 ?v, idx 1 ?v]"] 2(3) by simp
    have W: "pt_wf (frames ?s) root (mm_used items e (pool ?s))" using L(1) by (simp add: pt_inv_def)
    have g: "get_entry root va ?s = ((Ok (Some (t, idx 0 ?v)), ?s) :: (kerror, _) outcome \<times> _)"
      unfolding get_entry_spec [OF W va refl] at n using 2(7) by simp
    have rd: "read_slot (t, idx 0 ?v) ?s = x" by (simp add: read_slot_def write_slot_def)
    have "frames ?s a = frames s a" if "a \<in> mm_used items e (pool s)" "a \<notin> tables (frames s) root" for a
      using X(2) [OF that] L(6) [of a] X(4) that by auto
    moreover have "pte_at (frames ?s) root w = pte_at (frames s) root w" if "w < 2 ^ 27" "w \<noteq> ?v" for w
      using L(2) [OF that(1) v] that(2) X(5) by simp
    ultimately show ?case using 2(4-6) L(1) g rd by auto
  qed
qed

theorem pt_map_translates_witness:
  "\<exists>root (s :: nat list mm machine) r s'. pt_map (buddy_pages hol_list 0) root 65536 0x80200000 with_rw s = (r, s') \<and> r \<noteq> Panic \<and>
    pte_at (frames s) root 17 = 0 \<and> pte_at (frames s') root 17 = 0"
proof -
  obtain root and s :: "nat list mm machine" where s: "mm_ok (\<lambda>l. l) DIRECT_MAPPING_END_VADDR root s" "\<And>v. pte_at (frames s) root v = 0"
    using empty_root by blast
  have a: "(65536 :: nat) < 2 ^ 39" "(0x80200000 :: nat) mod 4096 = 0" "(0x80200000 :: nat) \<noteq> 0" "(0x80200000 :: nat) < 2 ^ 64" by simp_all
  have "\<exists>r s'. pt_map (buddy_pages hol_list 0) root 65536 0x80200000 with_rw s = (r, s') \<and> r \<noteq> Panic \<and> pte_at (frames s') root 17 = 0"
    using pt_map_translates [OF hl.linked_list_laws_axioms s(1) a, of 0 with_rw] s(2)
    by (elim exE conjE, rename_tac r s', case_tac r) auto
  then show ?thesis using s(2) by blast
qed



text \<open>C14: Unmapping a range. When the pages behind the range are allocated, are not tables and are mapped once, \<open>vunmap\<close> succeeds. It clears the
  valid entries of the pages before \<open>visited_end S E\<close>, which is the end of the range unless this is a multiple of 2 MiB, and gives exactly
  the pages behind them back to the allocator; every other entry, every table and the contents of every page are kept.\<close>

theorem vunmap_correct:
  assumes "linked_list_laws L items" and I: "mm_ok items e root s" and R: "S \<le> E" "E < 2 ^ 27"
    and o: "owns (frames s) root (mm_used items e (pool s)) {S..<visited_end S E}"
  shows "\<exists>s'. vunmap (buddy_pages L cpu) root (S * 4096) ((E - S) * 4096) s = (Ok (), s') \<and> mm_ok items e root s' \<and>
    (\<forall>w<2 ^ 27. pte_at (frames s') root w =
      (if S \<le> w \<and> w < visited_end S E \<and> pte_is_valid (pte_at (frames s) root w) then 0 else pte_at (frames s) root w)) \<and>
    mm_used items e (pool s') = mm_used items e (pool s) - pages_of (frames s) root {S..<visited_end S E} \<and>
    tables (frames s') root = tables (frames s) root \<and>
    (\<forall>a. a \<notin> tables (frames s) root \<longrightarrow> frames s' a = frames s a)"
proof -
  have ps: "page_source_laws (buddy_pages L cpu) (mm_inv items e) (mm_used items e)" by (rule mm_source [OF assms(1)])
  from page_source_laws.vunmap_spec [OF ps I R o] obtain s' where s': "vunmap (buddy_pages L cpu) root (S * 4096) ((E - S) * 4096) s = (Ok (), s')"
    "mm_ok items e root s'"
    "\<forall>w<2 ^ 27. pte_at (frames s') root w =
      (if S \<le> w \<and> w < visited_end S E \<and> pte_is_valid (pte_at (frames s) root w) then 0 else pte_at (frames s) root w)"
    "mm_used items e (pool s') = mm_used items e (pool s) - pages_of (frames s) root {S..<visited_end S E}"
    "\<forall>q\<in>tpaths. node (frames s') root q = node (frames s) root q" "\<forall>a. a \<notin> tables (frames s) root \<longrightarrow> frames s' a = frames s a" by blast
  have "tables (frames s') root = tables (frames s) root" using s'(5) by (auto simp: tables_def)
  then show ?thesis using s' by blast
qed

theorem vunmap_correct_witness:
  "\<exists>root (s :: nat list mm machine) s'. vunmap (buddy_pages hol_list 0) root (16 * 4096) ((20 - 16) * 4096) s = (Ok (), s') \<and>
    pte_at (frames s') root 16 = 0"
proof -
  obtain root and s :: "nat list mm machine" where s: "mm_ok (\<lambda>l. l) DIRECT_MAPPING_END_VADDR root s" "\<And>v. pte_at (frames s) root v = 0"
    using empty_root by blast
  have "(16 :: nat) \<le> 20" "(20 :: nat) < 2 ^ 27" "owns (frames s) root U {16..<visited_end 16 20}" for U
    using s(2) by (simp_all add: owns_def pte_is_valid_def)
  from vunmap_correct [OF hl.linked_list_laws_axioms s(1) this, of 0] obtain s' where
    "vunmap (buddy_pages hol_list 0) root (16 * 4096) ((20 - 16) * 4096) s = (Ok (), s')"
    "\<forall>w<2 ^ 27. pte_at (frames s') root w = (if 16 \<le> w \<and> w < visited_end 16 20 \<and> pte_is_valid (pte_at (frames s) root w) then 0 else pte_at (frames s) root w)"
    by blast
  then show ?thesis using s(2) by (intro exI [of _ root] exI [of _ s] exI [of _ s']) simp
qed



end
