(* ===== verification/Rw_Vm.thy ===== *)
theory Rw_Vm
  imports Rw_PtOps
begin

text \<open>
  Address spaces (src/kernel/src/mmu/vm.rs, src/kernel/src/mmu/vm_area.rs, src/kernel/src/arch/riscv64/memory.rs): the list of
  areas, growing and shrinking the user space, lazy allocation on a page fault, segments and the trapframe, copying an address space
  for \<open>fork\<close>, writing into one from the kernel, and releasing one. The state is the address space together with the memory.
\<close>

section \<open>Areas\<close>

record vm_area =
  area_va :: nat
  area_size :: nat
  area_perm :: entry_perm

definition area_end_va :: "vm_area \<Rightarrow> ('s, 'e, nat) call" where
  "area_end_va a = checked (area_va a + area_size a)"

definition area_contains :: "vm_area \<Rightarrow> nat \<Rightarrow> ('s, 'e, bool) call" where
  "area_contains a va = (if va \<ge> area_va a then bind (area_end_va a) (\<lambda>e. ret (va < e)) else ret False)"

fun overlap_loop :: "nat \<Rightarrow> nat \<Rightarrow> vm_area list \<Rightarrow> ('s, 'e, bool) call" where
  "overlap_loop start_va end_va [] = ret False"
| "overlap_loop start_va end_va (a # as) =
     bind (area_end_va a) (\<lambda>e. if start_va < e \<and> area_va a < end_va then ret True else overlap_loop start_va end_va as)"

definition is_overlap :: "vm_area list \<Rightarrow> nat \<Rightarrow> nat \<Rightarrow> ('s, 'e, bool) call" where
  "is_overlap as start_va sz =
     (case checked_add start_va sz of None \<Rightarrow> ret False | Some end_va \<Rightarrow> overlap_loop start_va end_va as)"

text \<open>\<open>add\<close> gives the new list, or None for its error.\<close>

definition area_add :: "vm_area \<Rightarrow> vm_area list \<Rightarrow> ('s, 'e, vm_area list option) call" where
  "area_add a as =
     bind (is_overlap as (area_va a) (area_size a)) (\<lambda>o'. if o' then ret None else ret (Some (as @ [a])))"

text \<open>\<open>position\<close> of the first area that contains an address.\<close>

fun area_position :: "nat \<Rightarrow> vm_area list \<Rightarrow> ('s, 'e, nat option) call" where
  "area_position va [] = ret None"
| "area_position va (a # as) =
     bind (area_contains a va) (\<lambda>c. if c then ret (Some 0) else bind (area_position va as) (\<lambda>r. ret (map_option Suc r)))"

definition remove_by_va :: "nat \<Rightarrow> vm_area list \<Rightarrow> ('s, 'e, (vm_area \<times> vm_area list) option) call" where
  "remove_by_va va as =
     bind (area_position va as) (\<lambda>r. ret (map_option (\<lambda>pos. (as ! pos, take pos as @ drop (Suc pos) as)) r))"

definition get_by_va :: "nat \<Rightarrow> vm_area list \<Rightarrow> ('s, 'e, vm_area option) call" where
  "get_by_va va as = bind (area_position va as) (\<lambda>r. ret (map_option (\<lambda>pos. as ! pos) r))"

section \<open>Address spaces\<close>

record vm_inner =
  pg_table :: nat
  user_space_size :: nat
  area_list :: "vm_area list"

record 'p vm_state =
  self_vm :: vm_inner
  mem :: "'p machine"

type_synonym ('p, 'a) vm_call = "('p vm_state, kerror, 'a) call"

definition on_mem :: "('p, 'a) pt_call \<Rightarrow> ('p, 'a) vm_call" where
  "on_mem c = (\<lambda>s. case c (mem s) of (r, m) \<Rightarrow> (r, s\<lparr>mem := m\<rparr>))"

text \<open>Operations on the page table of the address space.\<close>

definition on_table :: "(nat \<Rightarrow> ('p, 'a) pt_call) \<Rightarrow> ('p, 'a) vm_call" where
  "on_table c = (\<lambda>s. on_mem (c (pg_table (self_vm s))) s)"

definition set_self :: "(vm_inner \<Rightarrow> vm_inner) \<Rightarrow> ('p, unit) vm_call" where
  "set_self f = (\<lambda>s. (Ok (), s\<lparr>self_vm := f (self_vm s)\<rparr>))"

definition create_empty :: "'p page_source \<Rightarrow> ('p, vm_inner) pt_call" where
  "create_empty P = bind (try_alloc P) (\<lambda>t. ret \<lparr>pg_table = t, user_space_size = 0, area_list = []\<rparr>)"

definition with_kernel_vm :: "'p page_source \<Rightarrow> vm_inner \<Rightarrow> ('p, vm_inner) pt_call" where
  "with_kernel_vm P kernel_vm =
     bind (create_empty P) (\<lambda>v. bind (copy_from_kernel (pg_table v) (pg_table kernel_vm)) (\<lambda>_. ret v))"

text \<open>\<open>kmap\<close> unwraps the alignment of its arguments and the result of the mapping.\<close>

definition kmap :: "'p page_source \<Rightarrow> nat \<Rightarrow> nat \<Rightarrow> nat \<Rightarrow> nat \<Rightarrow> entry_perm \<Rightarrow> ('p, unit) pt_call" where
  "kmap P root va pa sz perm =
     bind (assert_that (page_aligned_new va \<noteq> None \<and> page_aligned_new pa \<noteq> None \<and> page_aligned_new sz \<noteq> None)) (\<lambda>_.
     bind (attempt (map_range P root va pa sz perm)) (\<lambda>r.
       case r of Inr _ \<Rightarrow> ret () | Inl _ \<Rightarrow> panic))"

section \<open>The user space\<close>

text \<open>Writing through \<open>va2pa\<close>: the physical memory as bytes, little endian in the words of the frames.\<close>

definition byte_of :: "u64 \<Rightarrow> nat \<Rightarrow> u8" where
  "byte_of w k = ucast (drop_bit (8 * k) w)"

definition set_byte :: "u64 \<Rightarrow> nat \<Rightarrow> u8 \<Rightarrow> u64" where
  "set_byte w k b = (w AND NOT (push_bit (8 * k) 0xFF)) OR push_bit (8 * k) (ucast b)"

definition read_byte :: "'p machine \<Rightarrow> nat \<Rightarrow> u8" where
  "read_byte s a = byte_of (frames s (a div 4096 * 4096) (a mod 4096 div 8)) (a mod 8)"

definition write_byte :: "nat \<Rightarrow> u8 \<Rightarrow> 'p machine \<Rightarrow> 'p machine" where
  "write_byte a b s =
     (let p = a div 4096 * 4096; i = a mod 4096 div 8 in
      s\<lparr>frames := (frames s)(p := (frames s p)(i := set_byte (frames s p i) (a mod 8) b))\<rparr>)"

fun copy_bytes :: "nat \<Rightarrow> u8 list \<Rightarrow> 'p machine \<Rightarrow> 'p machine" where
  "copy_bytes a [] s = s"
| "copy_bytes a (b # bs) s = copy_bytes (Suc a) bs (write_byte a b s)"

text \<open>The copy of a whole page.\<close>

definition copy_page :: "nat \<Rightarrow> nat \<Rightarrow> ('p machine, 'e, unit) call" where
  "copy_page dst src = (\<lambda>s. (Ok (), s\<lparr>frames := (frames s)(dst := frames s src)\<rparr>))"

definition va2pa :: "vm_inner \<Rightarrow> nat \<Rightarrow> ('p, nat option) pt_call" where
  "va2pa vm va =
     bind (get_entry (pg_table vm) va) (\<lambda>r s. (Ok (map_option (\<lambda>sl. physical_addr (read_slot sl s)) r), s))"

function vm_write :: "vm_inner \<Rightarrow> nat \<Rightarrow> u8 list \<Rightarrow> ('p, nat) pt_call" where
  "vm_write vm va bytes s =
     (if bytes = [] then ret va s
      else bind (va2pa vm (mask_out va 4095)) (\<lambda>r s.
        case r of
          None \<Rightarrow> fail (SysErr SysInvalidArgument) s
        | Some pa \<Rightarrow>
            if \<not> is_valid_phy_addr pa then fail (SysErr SysInvalidArgument) s
            else
              let offset = va mod 4096;
                  remainning = PGSIZE - offset;
                  bytes_cp = min (length bytes) remainning
              in bind (checked (va + bytes_cp)) (\<lambda>va'. vm_write vm va' (drop bytes_cp bytes)) (copy_bytes (pa + offset) (take bytes_cp bytes) s)) s)"
  by pat_completeness auto
termination
  by (relation "measure (\<lambda>(vm, va, bytes, s). length bytes)") (auto simp: PGSIZE_def)

declare vm_write.simps [simp del]

definition uvalloc :: "'p page_source \<Rightarrow> nat \<Rightarrow> entry_perm \<Rightarrow> bool \<Rightarrow> ('p, unit) vm_call" where
  "uvalloc P new_sz perm lazy = (\<lambda>s0.
     bind (pg_round_up (user_space_size (self_vm s0))) (\<lambda>old_sz_aligned.
     bind (pg_round_up new_sz) (\<lambda>new_sz_aligned.
       if new_sz_aligned > USER_END_VADDR then fail (SysErr SysOutOfMemory)
       else if old_sz_aligned = new_sz_aligned then ret ()
       else
         bind (if new_sz_aligned > old_sz_aligned
               then if lazy then assert_that (perm = with_rw)
                    else bind (checked (USER_BASE_VADDR + old_sz_aligned)) (\<lambda>va.
                      on_table (\<lambda>t. vmap P t va (new_sz_aligned - old_sz_aligned) (perm OR EP_USER)))
               else bind (checked (USER_BASE_VADDR + new_sz_aligned)) (\<lambda>va.
                      on_table (\<lambda>t. vunmap P t va (old_sz_aligned - new_sz_aligned))))
           (\<lambda>_. set_self (\<lambda>v. v\<lparr>user_space_size := new_sz\<rparr>)))) s0)"

definition uvgrow_page :: "'p page_source \<Rightarrow> entry_perm \<Rightarrow> ('p, unit) vm_call" where
  "uvgrow_page P perm = (\<lambda>s. bind (checked (user_space_size (self_vm s) + PGSIZE)) (\<lambda>n. uvalloc P n perm False) s)"

definition brk :: "'p page_source \<Rightarrow> nat \<Rightarrow> ('p, nat) vm_call" where
  "brk P new_brk_ptr = (\<lambda>s.
     bind (checked (USER_BASE_VADDR + user_space_size (self_vm s))) (\<lambda>old_brk_ptr.
       if new_brk_ptr = 0 then ret old_brk_ptr
       else if \<not> (USER_BASE_VADDR \<le> new_brk_ptr \<and> new_brk_ptr \<le> USER_END_VADDR) then fail (SysErr SysInvalidArgument)
       else bind (uvalloc P (new_brk_ptr - USER_BASE_VADDR) with_rw True) (\<lambda>_. ret old_brk_ptr)) s)"

text \<open>\<open>on_page_fault\<close>: pages of the user space are allocated when they are first accessed.\<close>

definition on_page_fault :: "'p page_source \<Rightarrow> nat \<Rightarrow> ('p, unit) vm_call" where
  "on_page_fault P addr = (\<lambda>s.
     bind (checked (USER_BASE_VADDR + user_space_size (self_vm s))) (\<lambda>end_va.
       if USER_BASE_VADDR \<le> addr \<and> addr < end_va then
         bind (pg_round_down addr) (\<lambda>pg_vaddr.
         bind (on_table (\<lambda>t. get_entry t pg_vaddr)) (\<lambda>entry.
           if entry \<noteq> None then fail (SysErr SysFault)
           else bind (on_table (\<lambda>t. vmap_page P t pg_vaddr (with_rw OR EP_USER))) (\<lambda>_. ret ())))
       else fail (SysErr SysOutOfMemory)) s)"

section \<open>Segments\<close>

definition alloc_segment :: "'p page_source \<Rightarrow> nat \<Rightarrow> nat \<Rightarrow> entry_perm \<Rightarrow> ('p, unit) vm_call" where
  "alloc_segment P va sz perm =
     bind (on_table (\<lambda>t. vmap P t va sz perm)) (\<lambda>_ s.
     bind (area_add \<lparr>area_va = va, area_size = sz, area_perm = perm\<rparr> (area_list (self_vm s))) (\<lambda>r.
       case r of
         Some as \<Rightarrow> set_self (\<lambda>v. v\<lparr>area_list := as\<rparr>)
       | None \<Rightarrow> panic) s)"

definition dealloc_segment :: "'p page_source \<Rightarrow> nat \<Rightarrow> ('p, bool) vm_call" where
  "dealloc_segment P va = (\<lambda>s.
     bind (remove_by_va va (area_list (self_vm s))) (\<lambda>r.
       case r of
         Some (ar, as) \<Rightarrow>
           bind (set_self (\<lambda>v. v\<lparr>area_list := as\<rparr>)) (\<lambda>_.
           bind (on_table (\<lambda>t. vunmap P t (area_va ar) (area_size ar))) (\<lambda>_. ret True))
       | None \<Rightarrow> ret False) s)"

definition dealloc_all_segments :: "'p page_source \<Rightarrow> ('p, unit) vm_call" where
  "dealloc_all_segments P = (\<lambda>s.
     let as = area_list (self_vm s) in
     bind (set_self (\<lambda>v. v\<lparr>area_list := []\<rparr>)) (\<lambda>_.
       for_each as (\<lambda>ar. on_table (\<lambda>t. vunmap P t (area_va ar) (area_size ar)))) s)"

definition trapframe :: "vm_inner \<Rightarrow> ('p, nat) pt_call" where
  "trapframe vm =
     bind (va2pa vm TASK_TRAPFRAME_BASE) (\<lambda>r. case r of Some pa \<Rightarrow> ret pa | None \<Rightarrow> panic)"

text \<open>The trapframe is a sequence of 64-bit words at the start of its page.\<close>

definition store_words :: "nat \<Rightarrow> u64 list \<Rightarrow> ('p machine, 'e, unit) call" where
  "store_words pa ws = (\<lambda>s. (Ok (), s\<lparr>frames := (frames s)(pa := (\<lambda>i. if i < length ws then ws ! i else frames s pa i))\<rparr>))"

definition alloc_trapframe :: "'p page_source \<Rightarrow> u64 list \<Rightarrow> ('p, nat) vm_call" where
  "alloc_trapframe P tf =
     bind (dealloc_segment P TASK_TRAPFRAME_BASE) (\<lambda>_.
     bind (alloc_segment P TASK_TRAPFRAME_BASE PGSIZE with_rw) (\<lambda>_ s.
     bind (on_mem (trapframe (self_vm s))) (\<lambda>ptr.
     bind (on_mem (store_words ptr tf)) (\<lambda>_. ret ptr)) s))"

section \<open>Copying an address space\<close>

definition copy_entry :: "'p page_source \<Rightarrow> nat \<Rightarrow> nat \<Rightarrow> nat \<Rightarrow> slot \<Rightarrow> ('p, unit) pt_call" where
  "copy_entry P root start_va va entry = (\<lambda>s.
     bind (attempt (vmap_page P root va (pte_perm (read_slot entry s)))) (\<lambda>r s.
       case r of
         Inr dst_paddr \<Rightarrow> copy_page dst_paddr (physical_addr (read_slot entry s)) s
       | Inl err \<Rightarrow> bind (vunmap P root start_va (va - start_va)) (\<lambda>_. fail (SysErr err)) s) s)"

definition copy_content_from :: "'p page_source \<Rightarrow> nat \<Rightarrow> nat \<Rightarrow> vm_inner \<Rightarrow> ('p, unit) vm_call" where
  "copy_content_from P start_va sz src =
     bind (checked (start_va + sz)) (\<lambda>e.
     bind (range_of_entries (pg_table src) start_va e) (\<lambda>it.
       on_table (\<lambda>t. for_entries it (copy_entry P t start_va))))"

definition copy_user_content_from :: "'p page_source \<Rightarrow> vm_inner \<Rightarrow> ('p, unit) vm_call" where
  "copy_user_content_from P user_vm =
     bind (dealloc_all_segments P) (\<lambda>_.
     bind (uvalloc P 0 0 False) (\<lambda>_.
     bind (for_each (area_list user_vm) (\<lambda>ar.
             bind (copy_content_from P (area_va ar) (area_size ar) user_vm) (\<lambda>_ s.
             bind (area_add ar (area_list (self_vm s))) (\<lambda>r.
               case r of Some as \<Rightarrow> set_self (\<lambda>v. v\<lparr>area_list := as\<rparr>) | None \<Rightarrow> panic) s))) (\<lambda>_.
     bind (pg_round_up (user_space_size user_vm)) (\<lambda>sz.
     bind (copy_content_from P USER_BASE_VADDR sz user_vm) (\<lambda>_.
       set_self (\<lambda>v. v\<lparr>user_space_size := user_space_size user_vm\<rparr>))))))"

text \<open>\<open>Drop\<close>: the segments, the user space and the tables below the root; the page of the root is that of a \<open>BuddyBox\<close>.\<close>

definition vm_drop :: "'p page_source \<Rightarrow> ('p, unit) vm_call" where
  "vm_drop P =
     bind (dealloc_all_segments P) (\<lambda>_ s.
     bind (pg_round_up (user_space_size (self_vm s))) (\<lambda>sz.
     bind (on_table (\<lambda>t. vunmap P t USER_BASE_VADDR sz)) (\<lambda>_.
     bind (on_table (\<lambda>t. pt_clear P t)) (\<lambda>_.
       on_table (\<lambda>t. free_frame P t)))) s)"

section \<open>The kernel's address space\<close>

text \<open>The sections of the kernel image come from the linker script.\<close>

record kernel_ld =
  start_of_text :: nat
  end_of_text :: nat
  start_of_rodata :: nat
  end_of_rodata :: nat
  start_of_data :: nat
  end_of_data :: nat
  start_of_bss :: nat
  end_of_bss :: nat

definition kernel_map :: "kernel_ld \<Rightarrow> (nat \<times> nat \<times> entry_perm) list" where
  "kernel_map ld =
     [(start_of_text ld, end_of_text ld, EP_READABLE OR EP_EXECUTABLE),
      (start_of_rodata ld, end_of_rodata ld, EP_READABLE),
      (start_of_data ld, end_of_data ld, EP_READABLE OR EP_WRITABLE),
      (start_of_bss ld, end_of_bss ld, EP_READABLE OR EP_WRITABLE)]"

definition VMAP_TABLE :: "(nat \<times> nat \<times> nat \<times> entry_perm) list" where
  "VMAP_TABLE =
     [(UART_BASE_VADDR, UART_END_VADDR, UART_BASE_PADDR, with_rw),
      (VIRTIO_BASE_VADDR, VIRTIO_END_VADDR, VIRTIO_BASE_PADDR, with_rw),
      (PLIC_BASE_VADDR, PLIC_END_VADDR, PLIC_BASE_PADDR, with_rw),
      (DIRECT_MAPPING_BASE_VADDR, DIRECT_MAPPING_END_VADDR, DIRECT_MAPPING_BASE_VADDR, with_rw)]"

definition arch_vm_init :: "'p page_source \<Rightarrow> nat \<Rightarrow> ('p, unit) pt_call" where
  "arch_vm_init P root = for_each VMAP_TABLE (\<lambda>(vbase, vend, paddr, perm). kmap P root vbase paddr (vend - vbase) perm)"

definition vm_init :: "'p page_source \<Rightarrow> kernel_ld \<Rightarrow> ('p, vm_inner) pt_call" where
  "vm_init P ld =
     bind (attempt (create_empty P)) (\<lambda>r. case r of Inl _ \<Rightarrow> panic | Inr kvm \<Rightarrow>
     bind (kmap P (pg_table kvm) 0x100000 0x100000 PGSIZE with_rw) (\<lambda>_.
     bind (for_each (kernel_map ld) (\<lambda>(svaddr, evaddr, perm).
             bind (assert_that (svaddr \<le> evaddr)) (\<lambda>_. kmap P (pg_table kvm) svaddr svaddr (evaddr - svaddr) perm))) (\<lambda>_.
     bind (arch_vm_init P (pg_table kvm)) (\<lambda>_. ret kvm))))"

section \<open>Mapping one page\<close>

lemma mask_out_page: "x < 2 ^ 64 \<Longrightarrow> mask_out x 4095 = x div 4096 * 4096"
  using mask_out_power [of x 12] by simp

lemma ext_pages: "pt_ext used root s s' \<Longrightarrow> pages_of (frames s') root V = pages_of (frames s) root V"
  by (simp add: pages_of_def pt_extD(5))

context page_source_laws
begin

text \<open>After a failed \<open>try_map\<close>, \<open>vmap_page\<close> gives the new page back.\<close>

lemma give_back:
  assumes I: "pt_inv ok used root s2" and X: "pt_ext used root s1 s2" and a: "a \<notin> used (pool s)" "used (pool s1) = insert a (used (pool s))"
    and W: "pt_inv ok used root s" and tb: "tables (frames s1) root = tables (frames s) root"
    and fr: "\<And>b. b \<noteq> a \<Longrightarrow> frames s1 b = frames s b" and at: "\<And>v. pte_at (frames s1) root v = pte_at (frames s) root v"
  obtains s' where "free_frame P a s2 = (Ok (), s')" "pt_inv ok used root s'" "\<And>v. pte_at (frames s') root v = pte_at (frames s) root v"
    "used (pool s') = used (pool s) \<union> tables (frames s') root" "\<And>b. b \<in> used (pool s) \<Longrightarrow> b \<notin> tables (frames s) root \<Longrightarrow> frames s' b = frames s b"
    "tables (frames s') root \<inter> used (pool s) = tables (frames s) root"
proof -
  note D = pt_extD [OF X]
  have at: "a \<in> used (pool s2)" using D(1) a(2) by simp
  have ts: "tables (frames s) root \<subseteq> used (pool s)" using W tables_sub by (auto simp: pt_inv_def)
  have nt: "a \<notin> tables (frames s2) root"
  proof
    assume "a \<in> tables (frames s2) root"
    then have "a \<in> tables (frames s1) root" using D(4) a(2) by blast
    then show False using tb ts a(1) by blast
  qed
  have "ok (pool s2)" using I by (simp add: pt_inv_def)
  from free [OF this at] obtain p' where f: "ps_free P a (pool s2) = (Ok (), p')" "ok p'" "used p' = used (pool s2) - {a}" by blast
  let ?s = "s2\<lparr>pool := p'\<rparr>"
  have "pt_wf (frames s2) root (used (pool s2) - {a})" by (rule wf_shrink) (use I nt in \<open>simp_all add: pt_inv_def\<close>)
  then have "pt_inv ok used root ?s" using f by (simp add: pt_inv_def)
  then show thesis
  proof (rule that [rotated])
    show "free_frame P a s2 = (Ok (), ?s)" using f(1) by (simp add: free_frame_def on_pool_def)
    show "pte_at (frames ?s) root v = pte_at (frames s) root v" for v using D(5) assms(8) by simp
    show "used (pool ?s) = used (pool s) \<union> tables (frames ?s) root" using f(3) D(1) a nt by auto
    show "tables (frames ?s) root \<inter> used (pool s) = tables (frames s) root" using D(4) tb a ts by auto
    show "frames ?s b = frames s b" if b: "b \<in> used (pool s)" "b \<notin> tables (frames s) root" for b
    proof -
      have "b \<in> used (pool s1)" "b \<noteq> a" using b a by auto
      then show ?thesis using D(2) [of b] b fr tb by simp
    qed
  qed
qed

lemma vmap_page_spec:
  assumes I: "pt_inv ok used root s" and va: "va = v * 4096" "v < 2 ^ 27" "is_vmap_area va"
  obtains (fail) e s' where "vmap_page P root va perm s = (Err (SysErr e), s')" "pt_inv ok used root s'"
      "e = SysInvalidArgument \<and> pte_is_valid (pte_at (frames s) root v) \<or> e = SysOutOfMemory"
      "\<And>w. pte_at (frames s') root w = pte_at (frames s) root w" "used (pool s') = used (pool s) \<union> tables (frames s') root"
      "\<And>b. b \<in> used (pool s) \<Longrightarrow> b \<notin> tables (frames s) root \<Longrightarrow> frames s' b = frames s b"
      "tables (frames s') root \<inter> used (pool s) = tables (frames s) root"
    | (ok) a e s' where "\<not> pte_is_valid (pte_at (frames s) root v)" "vmap_page P root va perm s = (Ok a, s')" "pt_inv ok used root s'"
      "a \<notin> used (pool s)" "a \<notin> tables (frames s') root" "used (pool s') = insert a (used (pool s)) \<union> tables (frames s') root"
      "\<And>w. w < 2 ^ 27 \<Longrightarrow> pte_at (frames s') root w = (if w = v then e else pte_at (frames s) root w)"
      "frames s' a = (\<lambda>_. 0)" "\<And>b. b \<in> used (pool s) \<Longrightarrow> b \<notin> tables (frames s) root \<Longrightarrow> frames s' b = frames s b"
      "tables (frames s') root \<inter> used (pool s) = tables (frames s) root"
      "physical_addr e = a" "pte_perm e = (perm OR EP_VALID) AND PERM_BITS" "pte_is_valid e"
proof -
  have va39: "va < 2 ^ 39" and vd: "v = va div 4096" using va by simp_all
  have okp: "ok (pool s)" using I by (simp add: pt_inv_def)
  show thesis
  proof (rule alloc_zeroed_spec [OF okp], goal_cases)
    case 1
    then show ?case using I tables_sub [of "frames s" root "used (pool s)"] va(3)
      by (intro fail [of SysOutOfMemory s]) (auto simp: vmap_page_def bind_def pt_inv_def)
  next
    case a: (2 a s1)
    have ts: "tables (frames s) root \<subseteq> used (pool s)" using I tables_sub by (auto simp: pt_inv_def)
    have same: "frames s1 u = frames s u" if "q \<in> tpaths" "node (frames s) root q = Some u" for q u
      using that a(2,4) ts unfolding tables_def by auto
    have W1: "pt_wf (frames s1) root (used (pool s1))" "pte_at (frames s1) root w = pte_at (frames s) root w"
      "q \<in> tpaths \<Longrightarrow> node (frames s1) root q = node (frames s) root q" for q w
      by (rule wf_frame [OF conjunct2 [OF I [unfolded pt_inv_def]] same]; use a(5) in auto)+
    have I1: "pt_inv ok used root s1" using W1(1) a(3) by (simp add: pt_inv_def)
    have tb: "tables (frames s1) root = tables (frames s) root" using W1(3) by (simp add: tables_def)
    have fr: "\<And>b. b \<noteq> a \<Longrightarrow> frames s1 b = frames s b" by (simp add: a(2))
    have vp: "vmap_page P root va perm s = bind (attempt (try_map P root va a perm)) (\<lambda>pte.
        case pte of Inr (Some _) \<Rightarrow> ret a | Inr None \<Rightarrow> bind (free_frame P a) (\<lambda>_. fail (SysErr SysInvalidArgument))
        | Inl e \<Rightarrow> bind (free_frame P a) (\<lambda>_. fail (SysErr e))) s1"
      using a(1) va(3) by (simp add: vmap_page_def bind_Ok)
    have a0: "a \<noteq> 0" using a(7) by simp
    show ?case
    proof (rule try_map_spec [OF I1 va39 vd a(6) a0 a(8), of perm], goal_cases oom mapped new)
      case (oom s2)
      obtain s' where u: "free_frame P a s2 = (Ok (), s')" "pt_inv ok used root s'" "\<And>v. pte_at (frames s') root v = pte_at (frames s) root v"
        "used (pool s') = used (pool s) \<union> tables (frames s') root" "\<And>b. b \<in> used (pool s) \<Longrightarrow> b \<notin> tables (frames s) root \<Longrightarrow> frames s' b = frames s b"
        "tables (frames s') root \<inter> used (pool s) = tables (frames s) root"
        by (rule give_back [OF oom(2,3) a(4,5) I tb fr W1(2)]) (assumption, rule that)
      show ?thesis by (rule fail [where e = SysOutOfMemory, OF _ u(2) _ u(3-6)]) (use oom(1) u(1) vp in \<open>simp_all add: attempt_def bind_def\<close>)
    next
      case (mapped s2)
      obtain s' where u: "free_frame P a s2 = (Ok (), s')" "pt_inv ok used root s'" "\<And>v. pte_at (frames s') root v = pte_at (frames s) root v"
        "used (pool s') = used (pool s) \<union> tables (frames s') root" "\<And>b. b \<in> used (pool s) \<Longrightarrow> b \<notin> tables (frames s) root \<Longrightarrow> frames s' b = frames s b"
        "tables (frames s') root \<inter> used (pool s) = tables (frames s) root"
        by (rule give_back [OF mapped(2,3) a(4,5) I tb fr W1(2)]) (assumption, rule that)
      show ?thesis by (rule fail [where e = SysInvalidArgument, OF _ u(2) _ u(3-6)]) (use mapped(1,4) u(1) vp W1(2) in \<open>simp_all add: attempt_def bind_def\<close>)
    next
      case (new t s2 e)
      let ?s = "write_slot (t, idx 0 v) e s2"
      note X = pt_extD [OF new(1)] and L = write_leaf [OF new(2,3), where e = e]
      have nt: "a \<notin> tables (frames s2) root" using X(4) a(4,5) tb ts by auto
      show ?thesis
      proof (rule ok [where a = a and e = e and s' = ?s])
        show "\<not> pte_is_valid (pte_at (frames s) root v)" using new(5) W1(2) by simp
        show "vmap_page P root va perm s = (Ok a, ?s)" using new(4) vp by (simp add: attempt_def bind_def)
        show "pt_inv ok used root ?s" by (rule L(1))
        show "a \<notin> used (pool s)" by (rule a(4))
        show "a \<notin> tables (frames ?s) root" using nt L(5) by simp
        show "used (pool ?s) = insert a (used (pool s)) \<union> tables (frames ?s) root" using X(1) L(4,5) a(5) by simp
        show "pte_at (frames ?s) root w = (if w = v then e else pte_at (frames s) root w)" if "w < 2 ^ 27" for w
          using L(2) [OF that va(2)] X(5) W1(2) by simp
        show "frames ?s a = (\<lambda>_. 0)" using L(6) [OF nt] X(2) [of a] a(2,4,5) tb ts by auto
        show "tables (frames ?s) root \<inter> used (pool s) = tables (frames s) root" using X(4) L(5) a(5) tb ts a(4) by auto
        show "frames ?s b = frames s b" if b: "b \<in> used (pool s)" "b \<notin> tables (frames s) root" for b
        proof -
          have "b \<in> used (pool s1)" "b \<noteq> a" "b \<notin> tables (frames s1) root" using b a(4,5) tb by auto
          moreover from this have "b \<notin> tables (frames s2) root" using X(4) by blast
          ultimately show ?thesis using X(2) [of b] L(6) [of b] fr by simp
        qed
        show "physical_addr e = a" "pte_perm e = (perm OR EP_VALID) AND PERM_BITS" "pte_is_valid e" by (rule new(6-8))+
      qed
    qed
  qed
qed

end

section \<open>Properties of the user space\<close>

lemma checked_ok [simp]: "n < 2 ^ 64 \<Longrightarrow> checked n s = (Ok n, s)"
  by (simp add: checked_def usize_limit_def)

lemma checked_bind [simp]: "n < 2 ^ 64 \<Longrightarrow> bind (checked n) k s = k n s"
  by (simp add: bind_def)

lemma round_down_bind: "x < 2 ^ 64 \<Longrightarrow> bind (pg_round_down x) k s = k (x div 4096 * 4096) s"
  by (simp add: bind_def PGSIZE_def)

lemma round_up_bind: "x + 4096 \<le> 2 ^ 64 \<Longrightarrow> bind (pg_round_up x) k s = k ((x + 4095) div 4096 * 4096) s"
  by (simp add: bind_def pg_round_up_ok PGSIZE_def add.commute)

lemma on_table_eq: "c (pg_table (self_vm s)) (mem s) = (r, m) \<Longrightarrow> on_table c s = (r, s\<lparr>mem := m\<rparr>)"
  by (simp add: on_table_def on_mem_def)

lemma user_page:
  assumes "USER_BASE_VADDR \<le> addr" "addr < USER_BASE_VADDR + n" "n \<le> USER_AREA_SIZE"
  shows "addr div 4096 < 2 ^ 27" "is_vmap_area (addr div 4096 * 4096)" "addr < 2 ^ 64"
proof -
  have a: "0x300000000 \<le> addr" "addr < 0x340000000" using assms by (simp_all add: USER_BASE_VADDR_def USER_AREA_SIZE_def)
  show "addr div 4096 < 2 ^ 27" "addr < 2 ^ 64" using a by (simp_all add: less_mult_imp_div_less)
  have "0x300000000 div 4096 \<le> addr div 4096" using a(1) by (rule div_le_mono)
  then show "is_vmap_area (addr div 4096 * 4096)" by (simp add: is_vmap_area_def)
qed

text \<open>C15: Lazy allocation. On a fault inside the user space at an address without a page, \<open>on_page_fault\<close> maps one page there: it is fresh from the allocator,
  zeroed, readable, writable and accessible to the user; when memory has run out, no translation changes. A fault on a mapped page gives \<open>Fault\<close>,
  one outside the user space \<open>OutOfMemory\<close>, and nothing changes. No other translation and no page changes in any case.\<close>

theorem lazy_page_fault:
  fixes addr :: nat
  assumes "linked_list_laws L items" and I: "mm_ok items e (pg_table (self_vm s)) (mem s)" and sz: "user_space_size (self_vm s) \<le> USER_AREA_SIZE"
  defines "v \<equiv> addr div 4096" and "root \<equiv> pg_table (self_vm s)"
    and "inside \<equiv> USER_BASE_VADDR \<le> addr \<and> addr < USER_BASE_VADDR + user_space_size (self_vm s)"
  shows "\<exists>r s'. on_page_fault (buddy_pages L cpu) addr s = (r, s') \<and> self_vm s' = self_vm s \<and> mm_ok items e root (mem s') \<and>
    (\<forall>a\<in>mm_used items e (pool (mem s)). a \<notin> tables (frames (mem s)) root \<longrightarrow> frames (mem s') a = frames (mem s) a) \<and>
    (\<forall>w<2 ^ 27. w \<noteq> v \<longrightarrow> pte_at (frames (mem s')) root w = pte_at (frames (mem s)) root w) \<and>
    (if \<not> inside then r = Err (SysErr SysOutOfMemory) \<and> s' = s
     else if pte_is_valid (pte_at (frames (mem s)) root v) then r = Err (SysErr SysFault) \<and> s' = s
     else case r of
       Ok _ \<Rightarrow> (let p = pte_at (frames (mem s')) root v in pte_is_valid p \<and> pte_perm p = EP_VALID OR with_rw OR EP_USER \<and>
         physical_addr p \<notin> mm_used items e (pool (mem s)) \<and> frames (mem s') (physical_addr p) = (\<lambda>_. 0))
     | Err x \<Rightarrow> x = SysErr SysOutOfMemory \<and> pte_at (frames (mem s')) root v = pte_at (frames (mem s)) root v
     | Panic \<Rightarrow> False)"
proof -
  have ps: "page_source_laws (buddy_pages L cpu) (mm_inv items e) (mm_used items e)" by (rule mm_source [OF assms(1)])
  have "USER_BASE_VADDR + user_space_size (self_vm s) < 2 ^ 64" using sz by (simp add: USER_BASE_VADDR_def USER_AREA_SIZE_def)
  note chk = checked_bind [OF this]
  show ?thesis
  proof (cases inside)
    case False
    then have "on_page_fault (buddy_pages L cpu) addr s = (Err (SysErr SysOutOfMemory), s)"
      by (auto simp: on_page_fault_def chk inside_def simp del: checked_bind)
    then show ?thesis using False I by (auto simp: root_def)
  next
    case True
    note U = user_page [OF conjunct1 [OF True [unfolded inside_def]] conjunct2 [OF True [unfolded inside_def]] sz, folded v_def]
    have W: "pt_wf (frames (mem s)) root (mm_used items e (pool (mem s)))" using I by (simp add: pt_inv_def root_def)
    have va: "v * 4096 < 2 ^ 39" "v = v * 4096 div 4096" using U(1) by simp_all
    note rd = round_down_bind [OF U(3), folded v_def]
    have ge: "on_table (\<lambda>t. get_entry t (v * 4096)) s =
        (Ok (if pte_is_valid (pte_at (frames (mem s)) root v) then Some (the (node (frames (mem s)) root [idx 2 v, idx 1 v]), idx 0 v) else None), s)"
      by (simp add: on_table_def on_mem_def get_entry_spec [OF W va, unfolded root_def] root_def del: node.simps)
    have pf: "on_page_fault (buddy_pages L cpu) addr s = (if pte_is_valid (pte_at (frames (mem s)) root v) then (Err (SysErr SysFault), s)
        else bind (on_table (\<lambda>t. vmap_page (buddy_pages L cpu) t (v * 4096) (with_rw OR EP_USER))) (\<lambda>_. ret ()) s)"
      using True by (simp add: on_page_fault_def chk rd bind_Ok ge inside_def del: checked_bind)
    show ?thesis
    proof (cases "pte_is_valid (pte_at (frames (mem s)) root v)")
      case True
      then show ?thesis using pf I \<open>inside\<close> by (auto simp: root_def)
    next
      case False
      have Ir: "mm_ok items e root (mem s)" using I by (simp add: root_def)
      show ?thesis
      proof (rule page_source_laws.vmap_page_spec [OF ps Ir refl U(1,2), of "with_rw OR EP_USER"], goal_cases bad good)
        case (bad x m)
        have "on_page_fault (buddy_pages L cpu) addr s = (Err (SysErr SysOutOfMemory), s\<lparr>mem := m\<rparr>)"
          using pf False bad(3) bad(1) by (simp add: bind_def on_table_def on_mem_def root_def)
        then show ?thesis using bad False \<open>inside\<close> by (auto simp: root_def)
      next
        case (good a p m)
        have "on_page_fault (buddy_pages L cpu) addr s = (Ok (), s\<lparr>mem := m\<rparr>)"
          using pf False good(2) by (simp add: bind_def on_table_def on_mem_def root_def)
        moreover have "((with_rw OR EP_USER) OR EP_VALID) AND PERM_BITS = EP_VALID OR with_rw OR EP_USER"
          by (simp add: with_rw_def EP_USER_def EP_VALID_def EP_READABLE_def EP_WRITABLE_def PERM_BITS_def)
        ultimately show ?thesis using good False \<open>inside\<close> U(1) by (auto simp: root_def Let_def)
      qed
    qed
  qed
qed

theorem lazy_page_fault_witness:
  "\<exists>(s :: nat list mm vm_state) r s'. on_page_fault (buddy_pages hol_list 0) (USER_BASE_VADDR + 5000) s = (r, s') \<and> r \<noteq> Panic \<and>
    pte_at (frames (mem s')) (pg_table (self_vm s)) 1 = 0"
proof -
  obtain root and m :: "nat list mm machine" where m: "mm_ok (\<lambda>l. l) DIRECT_MAPPING_END_VADDR root m" "\<And>v. pte_at (frames m) root v = 0"
    using empty_root by blast
  let ?s = "\<lparr>self_vm = \<lparr>pg_table = root, user_space_size = 8192, area_list = []\<rparr>, mem = m\<rparr>"
  have "mm_ok (\<lambda>l. l) DIRECT_MAPPING_END_VADDR (pg_table (self_vm ?s)) (mem ?s)" "user_space_size (self_vm ?s) \<le> USER_AREA_SIZE"
    using m(1) by (simp_all add: USER_AREA_SIZE_def)
  note F = lazy_page_fault [where addr = "USER_BASE_VADDR + 5000" and cpu = 0, OF hl.linked_list_laws_axioms this]
  have "\<exists>r s'. on_page_fault (buddy_pages hol_list 0) (USER_BASE_VADDR + 5000) ?s = (r, s') \<and> r \<noteq> Panic \<and> pte_at (frames (mem s')) root 1 = 0"
    using F m(2) by (elim exE conjE, rename_tac r s', rule_tac x = r in exI, rule_tac x = s' in exI) (auto simp: USER_BASE_VADDR_def pte_is_valid_def)
  then show ?thesis by (intro exI [of _ ?s]) simp
qed

text \<open>C18: A break within a page is lost. When the new break rounds to the same page as the old one, \<open>brk\<close> returns success and changes nothing, not even the
  recorded size; a fault at the last byte the caller was granted is then refused as outside the user space.\<close>

theorem brk_within_page_is_lost:
  assumes sz: "user_space_size (self_vm s) < new_sz" "new_sz \<le> USER_AREA_SIZE"
    and same: "(user_space_size (self_vm s) + 4095) div 4096 = (new_sz + 4095) div 4096"
  shows "brk P (USER_BASE_VADDR + new_sz) s = (Ok (USER_BASE_VADDR + user_space_size (self_vm s)), s) \<and>
    on_page_fault P (USER_BASE_VADDR + new_sz - 1) s = (Err (SysErr SysOutOfMemory), s)"
proof
  let ?n = "user_space_size (self_vm s)"
  have n: "?n < 0x40000000" "new_sz \<le> 0x40000000" using sz by (simp_all add: USER_AREA_SIZE_def)
  have ge: "\<not> new_sz div 4096 * 4096 > USER_END_VADDR" "(new_sz + 4095) div 4096 * 4096 \<le> USER_END_VADDR"
    using n(2) by (simp_all add: USER_END_VADDR_def USER_BASE_VADDR_def USER_AREA_SIZE_def)
  have u: "uvalloc P new_sz with_rw True s = (Ok (), s)"
    using n same ge(2) by (simp add: uvalloc_def round_up_bind)
  show "brk P (USER_BASE_VADDR + new_sz) s = (Ok (USER_BASE_VADDR + ?n), s)"
    using n sz(2) u by (simp add: brk_def bind_Ok USER_BASE_VADDR_def USER_END_VADDR_def)
  show "on_page_fault P (USER_BASE_VADDR + new_sz - 1) s = (Err (SysErr SysOutOfMemory), s)"
    using n sz(1) by (auto simp: on_page_fault_def USER_BASE_VADDR_def)
qed

theorem brk_within_page_is_lost_witness:
  "brk (buddy_pages hol_list 0) (USER_BASE_VADDR + 200)
     \<lparr>self_vm = \<lparr>pg_table = 0, user_space_size = 100, area_list = []\<rparr>, mem = \<lparr>frames = (\<lambda>_ _. 0), pool = kernel_mm\<rparr>\<rparr> =
     (Ok (USER_BASE_VADDR + 100),
      \<lparr>self_vm = \<lparr>pg_table = 0, user_space_size = 100, area_list = []\<rparr>, mem = \<lparr>frames = (\<lambda>_ _. 0), pool = kernel_mm\<rparr>\<rparr>)"
  using brk_within_page_is_lost [of "\<lparr>self_vm = \<lparr>pg_table = 0, user_space_size = 100, area_list = []\<rparr>, mem = \<lparr>frames = (\<lambda>_ _. 0), pool = kernel_mm\<rparr>\<rparr>" 200
    "buddy_pages hol_list 0"]
  by (simp add: USER_AREA_SIZE_def)

section \<open>Writing into an address space\<close>

lemma byte_set_byte:
  assumes "k < 8" "j < 8" shows "byte_of (set_byte w k b) j = (if j = k then b else byte_of w j)"
proof (rule bit_word_eqI)
  fix n assume "n < LENGTH(8)"
  then have n: "n < 8" by simp
  have "(0xFF :: u64) = mask 8" by (simp add: mask_eq_exp_minus_1)
  then have sb: "set_byte w k b = (w AND NOT (push_bit (8 * k) (mask 8))) OR push_bit (8 * k) (ucast b)" unfolding set_byte_def by simp
  have b: "bit b i \<Longrightarrow> i < 8" for i using bit_imp_le_length [of b i] by simp
  have "bit (byte_of (set_byte w k b) j) n = bit (set_byte w k b) (8 * j + n)"
    using n by (simp add: byte_of_def bit_ucast_iff bit_drop_bit_eq)
  also have "\<dots> = (bit w (8 * j + n) \<and> \<not> (8 * k \<le> 8 * j + n \<and> 8 * j + n - 8 * k < 8) \<or> 8 * k \<le> 8 * j + n \<and> bit b (8 * j + n - 8 * k))"
    using assms n b unfolding sb by (auto simp: bit_or_iff bit_and_iff bit_not_iff bit_push_bit_iff bit_mask_iff bit_ucast_iff)
  also have "\<dots> = bit (if j = k then b else byte_of w j) n"
  proof (cases "j = k")
    case True
    then show ?thesis using n by simp
  next
    case False
    then have "\<not> (8 * k \<le> 8 * j + n \<and> 8 * j + n - 8 * k < 8)" using n by auto
    moreover from this have "\<not> (8 * k \<le> 8 * j + n \<and> bit b (8 * j + n - 8 * k))" using b by blast
    ultimately show ?thesis using False n by (auto simp: byte_of_def bit_ucast_iff bit_drop_bit_eq)
  qed
  finally show "bit (byte_of (set_byte w k b) j) n = bit (if j = k then b else byte_of w j) n" .
qed

lemma byte_place: "(a :: nat) div 4096 * 4096 = x div 4096 * 4096 \<Longrightarrow> a mod 4096 div 8 = x mod 4096 div 8 \<Longrightarrow> a mod 8 = x mod 8 \<Longrightarrow> a = x"
proof -
  assume e: "a div 4096 * 4096 = x div 4096 * 4096" "a mod 4096 div 8 = x mod 4096 div 8" "a mod 8 = x mod 8"
  have m: "y mod 4096 = y mod 4096 div 8 * 8 + y mod 8" for y :: nat
  proof -
    have "y mod 4096 mod 8 = y mod 8" by (rule mod_mod_cancel) simp
    from div_mult_mod_eq [of "y mod 4096" 8, unfolded this] show ?thesis by (rule sym)
  qed
  have "a mod 4096 = a mod 4096 div 8 * 8 + a mod 8" by (rule m)
  also have "\<dots> = x mod 4096 div 8 * 8 + x mod 8" unfolding e(2,3) ..
  also have "\<dots> = x mod 4096" by (rule m [symmetric])
  finally show "a = x" using e(1) by (metis div_mult_mod_eq)
qed

lemma read_write_byte: "read_byte (write_byte a b s) x = (if x = a then b else read_byte s x)"
proof (cases "x = a")
  case True
  then show ?thesis by (simp add: read_byte_def write_byte_def Let_def byte_set_byte)
next
  case False
  then show ?thesis
    using byte_place [of a x] by (auto simp: read_byte_def write_byte_def Let_def byte_set_byte)
qed

lemma read_copy_bytes: "read_byte (copy_bytes a bs s) x = (if a \<le> x \<and> x < a + length bs then bs ! (x - a) else read_byte s x)"
proof (induction bs arbitrary: a s)
  case (Cons b bs)
  then show ?case by (auto simp: read_write_byte nth_Cons' not_le le_Suc_eq)
qed auto

lemma copy_bytes_frames:
  assumes "a div 4096 * 4096 = p" "a mod 4096 + length bs \<le> 4096" "q \<noteq> p" shows "frames (copy_bytes a bs s) q = frames s q"
  using assms
proof (induction bs arbitrary: a s)
  case (Cons b bs)
  show ?case
  proof (cases "bs = []")
    case True
    then show ?thesis using Cons.prems by (simp add: write_byte_def Let_def)
  next
    case False
    then have "a mod 4096 < 4095" using Cons.prems(2) by (cases bs) auto
    then have "Suc a mod 4096 = Suc (a mod 4096)" "Suc a div 4096 = a div 4096" by (simp_all add: mod_Suc div_Suc)
    then have "frames (copy_bytes (Suc a) bs (write_byte a b s)) q = frames (write_byte a b s) q" using Cons.prems by (intro Cons.IH) auto
    then show ?thesis using Cons.prems by (simp add: write_byte_def Let_def)
  qed
qed simp

lemma copy_bytes_pool [simp]: "pool (copy_bytes a bs s) = pool s"
  by (induction bs arbitrary: a s) (simp_all add: write_byte_def Let_def)

text \<open>The physical address a virtual address stands for.\<close>

definition phys_of :: "(nat \<Rightarrow> nat \<Rightarrow> u64) \<Rightarrow> nat \<Rightarrow> nat \<Rightarrow> nat" where
  "phys_of m root va = physical_addr (pte_at m root (va div 4096)) + va mod 4096"

lemma va2pa_spec:
  assumes "pt_wf (frames s) (pg_table vm) U" "va < 2 ^ 39" "v = va div 4096"
  shows "va2pa vm va s = (Ok (if pte_is_valid (pte_at (frames s) (pg_table vm) v) then Some (physical_addr (pte_at (frames s) (pg_table vm) v)) else None), s)"
proof (cases "pte_is_valid (pte_at (frames s) (pg_table vm) v)")
  case True
  then obtain t where "node (frames s) (pg_table vm) [idx 2 v, idx 1 v] = Some t" "pte_at (frames s) (pg_table vm) v = frames s t (idx 0 v)" by (rule valid_node)
  then show ?thesis using True by (simp add: va2pa_def bind_def get_entry_spec [OF assms] read_slot_def del: node.simps)
next
  case False
  then show ?thesis by (simp add: va2pa_def bind_def get_entry_spec [OF assms])
qed

text \<open>One round of the loop.\<close>

lemma vm_write_step:
  assumes W: "pt_wf (frames s) (pg_table vm) U" and b: "bytes \<noteq> []" "va + length bytes \<le> 2 ^ 39"
    and ok: "pte_is_valid (pte_at (frames s) (pg_table vm) (va div 4096))" "is_valid_phy_addr (physical_addr (pte_at (frames s) (pg_table vm) (va div 4096)))"
  defines "n \<equiv> min (length bytes) (4096 - va mod 4096)"
  shows "vm_write vm va bytes s = vm_write vm (va + n) (drop n bytes) (copy_bytes (phys_of (frames s) (pg_table vm) va) (take n bytes) s)"
proof -
  have va: "va < 2 ^ 39" using b by (cases bytes) auto
  then have m: "mask_out va 4095 = va div 4096 * 4096" by (intro mask_out_page) simp
  have v: "va div 4096 * 4096 < 2 ^ 39" "va div 4096 = va div 4096 * 4096 div 4096"
    using va by (auto intro: le_less_trans [OF div_times_less_eq_dividend])
  have "n \<le> length bytes" by (simp add: n_def)
  then have n: "va + n < 2 ^ 64" using b(2) by simp
  show ?thesis
    using b(1) ok n
    by (subst vm_write.simps) (simp add: m bind_def va2pa_spec [OF W v] n_def phys_of_def PGSIZE_def Let_def)
qed

definition pages_at :: "nat \<Rightarrow> nat \<Rightarrow> nat set" where
  "pages_at va n = (\<lambda>i. (va + i) div 4096) ` {..<n}"

lemma phys_of_inj:
  assumes W: "\<And>a. a \<in> U \<Longrightarrow> a mod 4096 = 0" and o: "owns m root U (pages_at va n)" and val: "\<And>v. v \<in> pages_at va n \<Longrightarrow> pte_is_valid (pte_at m root v)"
    and ij: "i < n" "j < n" "phys_of m root (va + i) = phys_of m root (va + j)"
  shows "i = j"
proof -
  let ?p = "\<lambda>i. physical_addr (pte_at m root ((va + i) div 4096))"
  have pg: "(va + k) div 4096 \<in> pages_at va n" if "k < n" for k using that by (auto simp: pages_at_def)
  have al: "?p k mod 4096 = 0" if "k < n" for k
    using o val [OF pg [OF that]] pg [OF that] W unfolding owns_def by blast
  have eq: "?p i + (va + i) mod 4096 = ?p j + (va + j) mod 4096" using ij(3) by (simp add: phys_of_def)
  have "(va + i) mod 4096 = (va + j) mod 4096"
    using arg_cong [OF eq, of "\<lambda>x. x mod 4096"] al [OF ij(1)] al [OF ij(2)] by (metis add_0 mod_add_left_eq mod_mod_trivial)
  moreover from this eq have "?p i = ?p j" by simp
  then have "(va + i) div 4096 = (va + j) div 4096"
    using o val pg [OF ij(1)] pg [OF ij(2)] unfolding owns_def by metis
  ultimately have "va + i = va + j" by (metis div_mult_mod_eq)
  then show ?thesis by simp
qed

lemma vm_write_spec:
  assumes "pt_wf (frames s) (pg_table vm) U" "va + length bytes \<le> 2 ^ 39" "owns (frames s) (pg_table vm) U (pages_at va (length bytes))"
    and "\<And>v. v \<in> pages_at va (length bytes) \<Longrightarrow> pte_is_valid (pte_at (frames s) (pg_table vm) v) \<and> is_valid_phy_addr (physical_addr (pte_at (frames s) (pg_table vm) v))"
    and U: "\<And>a. a \<in> U \<Longrightarrow> a mod 4096 = 0"
  shows "\<exists>s'. vm_write vm va bytes s = (Ok (va + length bytes), s') \<and> pool s' = pool s \<and> pt_wf (frames s') (pg_table vm) U \<and>
    (\<forall>w. pte_at (frames s') (pg_table vm) w = pte_at (frames s) (pg_table vm) w) \<and> tables (frames s') (pg_table vm) = tables (frames s) (pg_table vm) \<and>
    (\<forall>i<length bytes. read_byte s' (phys_of (frames s) (pg_table vm) (va + i)) = bytes ! i) \<and>
    (\<forall>x. (\<forall>i<length bytes. x \<noteq> phys_of (frames s) (pg_table vm) (va + i)) \<longrightarrow> read_byte s' x = read_byte s x)"
  using assms(1-4)
proof (induction "length bytes" arbitrary: va bytes s rule: less_induct)
  case less
  let ?root = "pg_table vm"
  note W = less.prems(1)
  show ?case
  proof (cases "bytes = []")
    case True
    then show ?thesis using W by (subst vm_write.simps) simp
  next
    case False
    define n where "n = min (length bytes) (4096 - va mod 4096)"
    define pa where "pa = physical_addr (pte_at (frames s) ?root (va div 4096))"
    define s1 where "s1 = copy_bytes (phys_of (frames s) ?root va) (take n bytes) s"
    have n: "0 < n" "n \<le> length bytes" "n \<le> 4096 - va mod 4096" using False by (simp_all add: n_def)
    have v0: "va div 4096 \<in> pages_at va (length bytes)" using False by (auto simp: pages_at_def intro: image_eqI [of _ _ 0])
    have ok: "pte_is_valid (pte_at (frames s) ?root (va div 4096))" "is_valid_phy_addr pa" using less.prems(4) [OF v0] by (simp_all add: pa_def)
    have pU: "pa \<in> U" "pa \<notin> tables (frames s) ?root" using less.prems(3) v0 ok(1) unfolding owns_def pa_def by blast+
    have pal: "pa mod 4096 = 0" by (rule U [OF pU(1)])
    have pd: "phys_of (frames s) ?root va div 4096 * 4096 = pa" "phys_of (frames s) ?root va mod 4096 = va mod 4096"
      using pal unfolding phys_of_def pa_def [symmetric] by (auto simp: mod_add_left_eq [symmetric] elim!: dvdE)
    have step: "vm_write vm va bytes s = vm_write vm (va + n) (drop n bytes) s1"
      unfolding n_def s1_def by (rule vm_write_step [OF W False less.prems(2) ok(1) ok(2) [unfolded pa_def]])
    have fr: "frames s1 q = frames s q" if "q \<noteq> pa" for q
      unfolding s1_def by (rule copy_bytes_frames [OF pd(1)]) (use n pd(2) that in auto)
    have same: "frames s1 t = frames s t" if "p \<in> tpaths" "node (frames s) ?root p = Some t" for p t
      by (rule fr) (use that pU(2) in \<open>auto simp: tables_def\<close>)
    have F: "pt_wf (frames s1) ?root U" "pte_at (frames s1) ?root w = pte_at (frames s) ?root w"
      "q \<in> tpaths \<Longrightarrow> node (frames s1) ?root q = node (frames s) ?root q" for q w
      by (rule wf_frame [OF W same order_refl]; assumption)+
    have tb: "tables (frames s1) ?root = tables (frames s) ?root" using F(3) by (simp add: tables_def)
    have ph: "phys_of (frames s1) ?root x = phys_of (frames s) ?root x" for x by (simp add: phys_of_def F(2))
    have sub: "pages_at (va + n) (length (drop n bytes)) \<subseteq> pages_at va (length bytes)"
      by (auto simp: pages_at_def add.assoc intro!: image_eqI [of _ _ "n + i" for i])
    have ow: "owns (frames s1) ?root U (pages_at (va + n) (length (drop n bytes)))"
      using less.prems(3) sub unfolding owns_def F(2) tb by blast
    have "length (drop n bytes) < length bytes" using n by simp
    moreover have "va + n + length (drop n bytes) \<le> 2 ^ 39" using less.prems(2) n by simp
    moreover have "pte_is_valid (pte_at (frames s1) ?root v) \<and> is_valid_phy_addr (physical_addr (pte_at (frames s1) ?root v))"
      if "v \<in> pages_at (va + n) (length (drop n bytes))" for v using less.prems(4) that sub unfolding F(2) by blast
    ultimately obtain s' where s': "vm_write vm (va + n) (drop n bytes) s1 = (Ok (va + n + length (drop n bytes)), s')" "pool s' = pool s1"
      "pt_wf (frames s') ?root U" "\<forall>w. pte_at (frames s') ?root w = pte_at (frames s1) ?root w" "tables (frames s') ?root = tables (frames s1) ?root"
      "\<forall>i<length (drop n bytes). read_byte s' (phys_of (frames s1) ?root (va + n + i)) = drop n bytes ! i"
      "\<forall>x. (\<forall>i<length (drop n bytes). x \<noteq> phys_of (frames s1) ?root (va + n + i)) \<longrightarrow> read_byte s' x = read_byte s1 x"
      using less.hyps [OF _ F(1) _ ow] by blast
    have len: "length (drop n bytes) = length bytes - n" by simp
    have near: "phys_of (frames s) ?root (va + i) = phys_of (frames s) ?root va + i" if "i < n" for i
    proof -
      have "va mod 4096 + i < 4096" using that n(3) by linarith
      then have "(va + i) div 4096 = va div 4096" "(va + i) mod 4096 = va mod 4096 + i"
        by (simp_all add: div_add1_eq [of va i] mod_add_left_eq [of va 4096 i, symmetric])
      then show ?thesis by (simp add: phys_of_def)
    qed
    have s1x: "read_byte s1 x = (if phys_of (frames s) ?root va \<le> x \<and> x < phys_of (frames s) ?root va + n then bytes ! (x - phys_of (frames s) ?root va) else read_byte s x)" for x
      unfolding s1_def read_copy_bytes using n(2) by auto
    have "read_byte s' (phys_of (frames s) ?root (va + i)) = bytes ! i" if i: "i < length bytes" for i
    proof (cases "i < n")
      case True
      have "phys_of (frames s) ?root (va + i) \<noteq> phys_of (frames s) ?root (va + (n + j))" if "j < length bytes - n" for j
      proof -
        have "n + j < length bytes" using that by linarith
        then show ?thesis using phys_of_inj [OF U less.prems(3), of i "n + j"] less.prems(4) i True by auto
      qed
      then have "read_byte s' (phys_of (frames s) ?root (va + i)) = read_byte s1 (phys_of (frames s) ?root (va + i))"
        using s'(7) unfolding ph len by (simp add: add.assoc)
      then show ?thesis using s1x near [OF True] True by simp
    next
      case False
      then show ?thesis using s'(6) [rule_format, of "i - n"] i unfolding ph by simp
    qed
    moreover have "read_byte s' x = read_byte s x" if x: "\<forall>i<length bytes. x \<noteq> phys_of (frames s) ?root (va + i)" for x
    proof -
      have "\<not> (phys_of (frames s) ?root va \<le> x \<and> x < phys_of (frames s) ?root va + n)"
      proof
        assume a: "phys_of (frames s) ?root va \<le> x \<and> x < phys_of (frames s) ?root va + n"
        then obtain j where j: "x = phys_of (frames s) ?root va + j" "j < n" by (metis le_iff_add nat_add_left_cancel_less)
        then show False using x [rule_format, of j] near [of j] n(2) by simp
      qed
      moreover have "\<forall>i<length (drop n bytes). x \<noteq> phys_of (frames s1) ?root (va + n + i)"
        using x unfolding ph len by (auto simp: add.assoc)
      ultimately show ?thesis using s'(7) s1x by auto
    qed
    ultimately show ?thesis
      using step s'(1-5) F(2) tb n(2) by (intro exI [of _ s']) (simp add: s1_def)
  qed
qed

text \<open>C16: Writing from the kernel. When every page of the target range is mapped to its own page of directly mapped memory, none of them a table of the
  address space, \<open>write\<close> returns the end address, and afterwards every byte of the range, read through the translation, is the byte
  given for it. No other byte of the physical memory and no translation changes.\<close>

theorem vm_write_then_read:
  assumes "pt_wf (frames s) (pg_table vm) U" "\<And>a. a \<in> U \<Longrightarrow> a mod 4096 = 0" "va + length bytes \<le> 2 ^ 39"
    and "owns (frames s) (pg_table vm) U (pages_at va (length bytes))"
    and "\<And>v. v \<in> pages_at va (length bytes) \<Longrightarrow> pte_is_valid (pte_at (frames s) (pg_table vm) v) \<and> is_valid_phy_addr (physical_addr (pte_at (frames s) (pg_table vm) v))"
  shows "\<exists>s'. vm_write vm va bytes s = (Ok (va + length bytes), s') \<and> pool s' = pool s \<and> pt_wf (frames s') (pg_table vm) U \<and>
    (\<forall>w. pte_at (frames s') (pg_table vm) w = pte_at (frames s) (pg_table vm) w) \<and>
    (\<forall>i<length bytes. read_byte s' (phys_of (frames s') (pg_table vm) (va + i)) = bytes ! i) \<and>
    (\<forall>x. (\<forall>i<length bytes. x \<noteq> phys_of (frames s) (pg_table vm) (va + i)) \<longrightarrow> read_byte s' x = read_byte s x)"
  using vm_write_spec [OF assms(1,3,4,5,2)] unfolding phys_of_def by auto

lemma one_page_space:
  assumes d: "distinct [root, t1, t0, p]" "\<forall>a\<in>{root, t1, t0, p}. a mod 4096 = 0 \<and> 0 < a \<and> a < 2 ^ 64"
  obtains m where "pt_wf m root {root, t1, t0, p}" "pte_at m root 0x300000 = set_perm (arch_entry_perm (EP_VALID OR with_rw)) (set_addr p 0)"
    "p \<notin> tables m root"
proof -
  let ?m0 = "\<lambda>(_ :: nat) (_ :: nat). 0 :: u64"
  have n0: "node ?m0 root q = (if q = [] then Some root else None)" for q by (cases q) (simp_all add: child_def)
  have W0: "pt_wf ?m0 root {root}" by (simp add: pt_wf_def n0)
  define m1 where "m1 = ?m0(t1 := (\<lambda>_. 0), root := (?m0 root)(12 := make_pde t1))"
  have A1: "q \<in> tpaths \<Longrightarrow> node m1 root q = (if q = [] @ [12] then Some t1 else node ?m0 root q)" "pt_wf m1 root (insert t1 {root})" for q
    by (rule wf_add [OF W0, of "[]" root 12 t1]; use d in \<open>simp add: m1_def\<close>)+
  have n1: "node m1 root [12] = Some t1" using A1(1) [of "[12]"] by (simp add: tpaths_def)
  have z1: "\<not> pte_is_valid (m1 t1 0)" using d by (simp add: m1_def pte_is_valid_def)
  define m2 where "m2 = m1(t0 := (\<lambda>_. 0), t1 := (m1 t1)(0 := make_pde t0))"
  have A2: "q \<in> tpaths \<Longrightarrow> node m2 root q = (if q = [12] @ [0] then Some t0 else node m1 root q)" "pt_wf m2 root (insert t0 (insert t1 {root}))" for q
    by (rule wf_add [OF A1(2) _ _ n1 _ z1, of t0]; use d in \<open>simp add: m2_def tpaths_def\<close>)+
  have i: "idx 2 0x300000 = 12" "idx 1 0x300000 = 0" "idx 0 0x300000 = 0" by (simp_all add: idx_def)
  have n2: "node m2 root [idx 2 0x300000, idx 1 0x300000] = Some t0" unfolding i using A2(1) [of "[12, 0]"] by (simp add: tpaths_def)
  define e where "e = set_perm (arch_entry_perm (EP_VALID OR with_rw)) (set_addr p 0)"
  note S = wf_set [OF A2(2) n2 idx_less idx_less refl, where k = "idx 0 0x300000" and e = e]
  let ?m = "m2(t0 := (m2 t0)(idx 0 0x300000 := e))"
  have tb: "tables ?m root \<subseteq> {root, t1, t0}"
    unfolding tables_def using S(1) A2(1) A1(1) n0 by (auto split: if_splits)
  show thesis
  proof (rule that)
    show "pt_wf ?m root {root, t1, t0, p}" using wf_frame(1) [OF S(2), of ?m "{root, t1, t0, p}"] by auto
    show "pte_at ?m root 0x300000 = set_perm (arch_entry_perm (EP_VALID OR with_rw)) (set_addr p 0)" using S(3) [of "0x300000"] by (simp add: e_def)
    show "p \<notin> tables ?m root" using tb d(1) by auto
  qed
qed

theorem vm_write_then_read_witness:
  "\<exists>(vm :: vm_inner) (s :: unit machine) s'. vm_write vm USER_BASE_VADDR [1, 2, 3] s = (Ok (USER_BASE_VADDR + 3), s') \<and>
    read_byte s' (phys_of (frames s') (pg_table vm) (USER_BASE_VADDR + 2)) = 3"
proof -
  obtain m where m: "pt_wf m 0xD0000000 {0xD0000000, 0xD0001000, 0xD0002000, 0xD0003000}"
    "pte_at m 0xD0000000 0x300000 = set_perm (arch_entry_perm (EP_VALID OR with_rw)) (set_addr 0xD0003000 0)" "0xD0003000 \<notin> tables m 0xD0000000"
    by (rule one_page_space [of "0xD0000000" "0xD0001000" "0xD0002000" "0xD0003000"]) auto
  let ?vm = "\<lparr>pg_table = 0xD0000000, user_space_size = 4096, area_list = []\<rparr>" and ?s = "\<lparr>frames = m, pool = ()\<rparr>"
  have pg: "pages_at USER_BASE_VADDR (length [1 :: u8, 2, 3]) = {0x300000}"
    by (simp add: pages_at_def USER_BASE_VADDR_def lessThan_Suc)
  have e: "physical_addr (pte_at m 0xD0000000 0x300000) = 0xD0003000" "pte_is_valid (pte_at m 0xD0000000 0x300000)"
    unfolding m(2) using set_addr_facts(2) [of "0xD0003000"] by (simp_all add: pte_perm_set valid_perm bit_and_iff bit_or_iff bit_PERM_BITS EP_VALID_def)
  have o: "owns (frames ?s) (pg_table ?vm) {0xD0000000, 0xD0001000, 0xD0002000, 0xD0003000} (pages_at USER_BASE_VADDR (length [1 :: u8, 2, 3]))"
    unfolding pg owns_def using e m(3) by simp
  have w: "pt_wf (frames ?s) (pg_table ?vm) {0xD0000000, 0xD0001000, 0xD0002000, 0xD0003000}" using m(1) by simp
  have al: "a mod 4096 = 0" if "a \<in> {0xD0000000, 0xD0001000, 0xD0002000, 0xD0003000}" for a :: nat using that by auto
  have le: "USER_BASE_VADDR + length [1 :: u8, 2, 3] \<le> 2 ^ 39" by (simp add: USER_BASE_VADDR_def)
  have val: "pte_is_valid (pte_at (frames ?s) (pg_table ?vm) v) \<and> is_valid_phy_addr (physical_addr (pte_at (frames ?s) (pg_table ?vm) v))"
    if "v \<in> pages_at USER_BASE_VADDR (length [1 :: u8, 2, 3])" for v
    using that e unfolding pg by (simp add: is_valid_phy_addr_def DIRECT_MAPPING_BASE_VADDR_def DIRECT_MAPPING_END_VADDR_def DIRECT_MAPPING_SIZE_def)
  from vm_write_then_read [OF w al le o val] obtain s' where
    s': "vm_write ?vm USER_BASE_VADDR [1, 2, 3] ?s = (Ok (USER_BASE_VADDR + length [1 :: u8, 2, 3]), s')"
    "\<forall>i<length [1 :: u8, 2, 3]. read_byte s' (phys_of (frames s') (pg_table ?vm) (USER_BASE_VADDR + i)) = [1, 2, 3] ! i"
    by blast
  from s'(2) [rule_format, of 2] s'(1) show ?thesis by (intro exI [of _ ?vm] exI [of _ ?s] exI [of _ s']) simp
qed

section \<open>The list of areas\<close>

definition area_range :: "vm_area \<Rightarrow> nat set" where
  "area_range a = {area_va a..<area_va a + area_size a}"

definition areas_ok :: "vm_area list \<Rightarrow> bool" where
  "areas_ok as \<longleftrightarrow> (\<forall>a\<in>set as. area_va a + area_size a < 2 ^ 64) \<and> sorted_wrt (\<lambda>a b. area_range a \<inter> area_range b = {}) as"

lemma areas_ok_Cons: "areas_ok (a # as) \<longleftrightarrow> area_va a + area_size a < 2 ^ 64 \<and> (\<forall>b\<in>set as. area_range a \<inter> area_range b = {}) \<and> areas_ok as"
  by (auto simp: areas_ok_def)

lemma overlap_loop_eq:
  "\<forall>a\<in>set as. area_va a + area_size a < 2 ^ 64 \<Longrightarrow>
   overlap_loop start end as s = (Ok (\<exists>a\<in>set as. start < area_va a + area_size a \<and> area_va a < end), s)"
  by (induction as) (auto simp: area_end_va_def)

lemma area_contains_eq: "area_va a + area_size a < 2 ^ 64 \<Longrightarrow> area_contains a va s = (Ok (va \<in> area_range a), s)"
  by (simp add: area_contains_def area_end_va_def area_range_def)

fun first_area :: "nat \<Rightarrow> vm_area list \<Rightarrow> nat option" where
  "first_area va [] = None"
| "first_area va (a # as) = (if va \<in> area_range a then Some 0 else map_option Suc (first_area va as))"

lemma area_position_eq: "areas_ok as \<Longrightarrow> area_position va as s = (Ok (first_area va as), s)"
  by (induction as) (auto simp: areas_ok_Cons bind_def area_contains_eq)

lemma first_area_cases:
  "case first_area va as of None \<Rightarrow> \<forall>a\<in>set as. va \<notin> area_range a | Some i \<Rightarrow> i < length as \<and> va \<in> area_range (as ! i)"
  by (induction as) (auto split: option.splits)

lemma is_overlap_eq:
  "areas_ok as \<Longrightarrow> start + sz < 2 ^ 64 \<Longrightarrow>
   is_overlap as start sz s = (Ok (\<exists>b\<in>set as. start < area_va b + area_size b \<and> area_va b < start + sz), s)"
  by (simp add: is_overlap_def checked_add_def usize_limit_def overlap_loop_eq areas_ok_def)

lemma areas_ok_remove: "areas_ok as \<Longrightarrow> areas_ok (take i as @ drop (Suc i) as)"
proof -
  assume a: "areas_ok as"
  have "\<forall>a\<in>set (take i as @ drop (Suc i) as). area_va a + area_size a < 2 ^ 64"
    using a by (auto simp: areas_ok_def dest: in_set_takeD in_set_dropD)
  moreover have "sorted_wrt (\<lambda>a b. area_range a \<inter> area_range b = {}) (take i as @ drop (Suc i) as)"
  proof (cases "i < length as")
    case True
    have s: "sorted_wrt (\<lambda>a b. area_range a \<inter> area_range b = {}) (take i as @ as ! i # drop (Suc i) as)"
      using a True by (simp add: areas_ok_def id_take_nth_drop [symmetric])
    then show ?thesis unfolding sorted_wrt_append by auto
  next
    case False
    then show ?thesis using a by (simp add: areas_ok_def)
  qed
  ultimately show ?thesis by (simp add: areas_ok_def)
qed



end
