(* ===== verification/Rw_Sched.thy ===== *)
theory Rw_Sched
  imports Rw_Kernel
begin

text \<open>
  The schedulers (src/kernel/src/proc/sched): the completely fair scheduler of cfs.rs and the round-robin queue of rr.rs. The
  red-black tree of the fair scheduler is the crate \<open>intrusive_collections\<close>: a record of operations, with the locale
  \<open>rbtree_laws\<close> for their documented behaviour. Times are nanoseconds in \<open>u64\<close>.
\<close>

section \<open>The tree of ready tasks\<close>

text \<open>\<open>insert\<close> takes the key of the task, which the source reads through the key adapter; \<open>front\<close> looks at and \<open>pop\<close> removes the element with the least key.\<close>

record 'q rbtree =
  rb_new :: 'q
  rb_front :: "'q \<Rightarrow> nat option"
  rb_insert :: "nat \<Rightarrow> nat \<Rightarrow> 'q \<Rightarrow> 'q"
  rb_pop :: "'q \<Rightarrow> (nat \<times> 'q) option"

locale rbtree_laws =
  fixes R :: "'q rbtree"
    and elems :: "'q \<Rightarrow> (nat \<times> nat) list"
  assumes elems_new: "elems (rb_new R) = []"
    and front_elems: "rb_front R q = (case elems q of [] \<Rightarrow> None | (k, t) # es \<Rightarrow> Some t)"
    and insert_elems: "sorted (map fst (elems q)) \<Longrightarrow>
      \<exists>ys zs. elems q = ys @ zs \<and> elems (rb_insert R k t q) = ys @ (k, t) # zs \<and> sorted (map fst (elems (rb_insert R k t q)))"
    and pop_None: "rb_pop R q = None \<longleftrightarrow> elems q = []"
    and pop_Some: "rb_pop R q = Some (t, q') \<Longrightarrow> \<exists>k. elems q = (k, t) # elems q'"

text \<open>The laws hold of sorted lists.\<close>

fun insert_sorted :: "nat \<Rightarrow> nat \<Rightarrow> (nat \<times> nat) list \<Rightarrow> (nat \<times> nat) list" where
  "insert_sorted k t [] = [(k, t)]"
| "insert_sorted k t ((k', t') # es) = (if k < k' then (k, t) # (k', t') # es else (k', t') # insert_sorted k t es)"

definition sorted_queue :: "(nat \<times> nat) list rbtree" where
  "sorted_queue =
     \<lparr>rb_new = [], rb_front = (\<lambda>q. case q of [] \<Rightarrow> None | (k, t) # es \<Rightarrow> Some t), rb_insert = insert_sorted,
      rb_pop = (\<lambda>q. case q of [] \<Rightarrow> None | (k, t) # es \<Rightarrow> Some (t, es))\<rparr>"

lemma insert_sorted_split: "\<exists>ys zs. q = ys @ zs \<and> insert_sorted k t q = ys @ (k, t) # zs"
proof (induction q)
  case (Cons e q)
  obtain k' t' where e: "e = (k', t')" by (cases e)
  obtain ys zs where s: "q = ys @ zs" "insert_sorted k t q = ys @ (k, t) # zs" using Cons by blast
  show ?case
  proof (cases "k < k'")
    case True
    then show ?thesis by (intro exI [of _ "[]"] exI [of _ "e # q"]) (simp add: e)
  next
    case False
    then show ?thesis using s by (intro exI [of _ "e # ys"] exI [of _ zs]) (simp add: e)
  qed
qed simp

lemma insert_sorted_set [simp]: "set (insert_sorted k t q) = insert (k, t) (set q)"
  by (induction k t q rule: insert_sorted.induct) auto

lemma insert_sorted_sorted: "sorted (map fst q) \<Longrightarrow> sorted (map fst (insert_sorted k t q))"
proof (induction k t q rule: insert_sorted.induct)
  case (2 k t k' t' es)
  have "k \<le> fst x" if "k < k'" "x \<in> set es" for x
    using that "2.prems" by (auto dest: bspec [of _ _ x])
  then show ?case using 2 by (auto simp: not_less)
qed simp

interpretation sq: rbtree_laws sorted_queue "\<lambda>q. q"
proof (unfold_locales, goal_cases)
  case (3 q k t)
  then show ?case using insert_sorted_split [of q k t] insert_sorted_sorted [of q k t] by (auto simp: sorted_queue_def)
qed (auto simp: sorted_queue_def split: list.splits prod.splits)

section \<open>The completely fair scheduler\<close>

definition NICE_TO_WEIGHT :: "nat list" where
  "NICE_TO_WEIGHT =
     [88761, 71755, 56483, 46273, 36291,
      29154, 23254, 18705, 14949, 11916,
      9548, 7620, 6100, 4904, 3906,
      3121, 2501, 1991, 1586, 1277,
      1024, 820, 655, 526, 423,
      335, 272, 215, 172, 137,
      110, 87, 70, 56, 45,
      36, 29, 23, 18, 15]"

definition nice_to_weight :: "int \<Rightarrow> nat" where
  "nice_to_weight nice = (let clamped = max (- 20) (min 19 nice) in NICE_TO_WEIGHT ! nat (clamped + 20))"

record cfs_attrs =
  nice :: int
  vruntime :: nat
  start_execution_time :: nat
  slice :: nat

definition cfs_attrs_default :: cfs_attrs where
  "cfs_attrs_default = \<lparr>nice = 0, vruntime = 0, start_execution_time = 0, slice = 0\<rparr>"

text \<open>The scheduler with the attributes of the tasks, which the tasks keep beside it.\<close>

record 'q cfs =
  ready_tree :: 'q
  min_vruntime :: nat
  total_weight :: nat
  sched_latency :: nat
  sched_min_granularity :: nat
  attrs :: "nat \<Rightarrow> cfs_attrs"

definition cfs_new :: "'q rbtree \<Rightarrow> 'q cfs" where
  "cfs_new R = \<lparr>ready_tree = rb_new R, min_vruntime = 0, total_weight = 0, sched_latency = 20000000, sched_min_granularity = 4000000,
     attrs = (\<lambda>_. cfs_attrs_default)\<rparr>"

type_synonym ('q, 'a) cfs_call = "('q cfs, kerror, 'a) call"

definition cfs_enqueue_ready :: "'q rbtree \<Rightarrow> nat \<Rightarrow> ('q, unit) cfs_call" where
  "cfs_enqueue_ready R task = (\<lambda>s.
     let min_v = (case rb_front R (ready_tree s) of Some t \<Rightarrow> vruntime (attrs s t) | None \<Rightarrow> 0);
         a = attrs s task;
         a' = a\<lparr>vruntime := max (vruntime a) min_v\<rparr>;
         weight = nice_to_weight (nice a')
     in bind (assert_that (total_weight s + weight < usize_limit)) (\<lambda>_ s.
        (Ok (), s\<lparr>min_vruntime := min_v, attrs := (attrs s)(task := a'), total_weight := total_weight s + weight,
                  ready_tree := rb_insert R (vruntime a') task (ready_tree s)\<rparr>)) s)"

text \<open>\<open>tick\<close> charges the running task; the result says whether it has to yield.\<close>

definition cfs_tick :: "nat option \<Rightarrow> nat \<Rightarrow> ('q, bool) cfs_call" where
  "cfs_tick current now = (case current of
     None \<Rightarrow> ret False
   | Some task \<Rightarrow> (\<lambda>s.
       let a = attrs s task;
           delta = now - start_execution_time a;
           weight = nice_to_weight (nice a);
           v = vruntime a + delta * 1024 div weight
       in bind (assert_that (start_execution_time a \<le> now \<and> delta * 1024 < usize_limit \<and> v < usize_limit)) (\<lambda>_ s.
          (Ok (delta \<ge> slice a), s\<lparr>attrs := (attrs s)(task := a\<lparr>vruntime := v\<rparr>)\<rparr>)) s))"

definition cfs_pick_next_task :: "'q rbtree \<Rightarrow> nat \<Rightarrow> ('q, nat option) cfs_call" where
  "cfs_pick_next_task R now = (\<lambda>s.
     case rb_pop R (ready_tree s) of
       None \<Rightarrow> (Ok None, s)
     | Some (task, q) \<Rightarrow>
         let a = attrs s task; weight = nice_to_weight (nice a) in
         bind (assert_that (sched_latency s * weight < usize_limit \<and> total_weight s \<noteq> 0 \<and> weight \<le> total_weight s)) (\<lambda>_ s.
           (Ok (Some task),
            s\<lparr>ready_tree := q,
              attrs := (attrs s)(task := a\<lparr>start_execution_time := now,
                slice := max (sched_latency s * weight div total_weight s) (sched_min_granularity s)\<rparr>),
              total_weight := total_weight s - weight\<rparr>)) s)"

section \<open>The round-robin scheduler\<close>

definition rr_enqueue_ready :: "nat \<Rightarrow> nat list \<Rightarrow> nat list" where
  "rr_enqueue_ready task rq = rq @ [task]"

definition rr_pick_next_task :: "nat list \<Rightarrow> nat option \<times> nat list" where
  "rr_pick_next_task rq = (case rq of [] \<Rightarrow> (None, []) | t # ts \<Rightarrow> (Some t, ts))"

lemma rr_fifo: "rr_pick_next_task (rr_enqueue_ready t rq) = (case rq of [] \<Rightarrow> (Some t, []) | h # ts \<Rightarrow> (Some h, rr_enqueue_ready t ts))"
  by (cases rq) (simp_all add: rr_pick_next_task_def rr_enqueue_ready_def)

section \<open>Fairness\<close>

lemma weight_bounds: "15 \<le> nice_to_weight n" "nice_to_weight n \<le> 88761"
proof -
  have l: "nat (max (- 20) (min 19 n) + 20) < 40" by auto
  have "\<forall>w\<in>set NICE_TO_WEIGHT. 15 \<le> w \<and> w \<le> 88761" "length NICE_TO_WEIGHT = 40" by (simp_all add: NICE_TO_WEIGHT_def)
  then show "15 \<le> nice_to_weight n" "nice_to_weight n \<le> 88761" using l nth_mem [of _ NICE_TO_WEIGHT] by (simp_all add: nice_to_weight_def Let_def)
qed

text \<open>A lower nice value never has less weight.\<close>

lemma weight_antimono: "m \<le> n \<Longrightarrow> nice_to_weight n \<le> nice_to_weight m"
proof -
  have s: "sorted_wrt (\<ge>) NICE_TO_WEIGHT" by (simp add: NICE_TO_WEIGHT_def)
  have len: "length NICE_TO_WEIGHT = 40" by (simp add: NICE_TO_WEIGHT_def)
  define i where "i = nat (max (- 20) (min 19 m) + 20)"
  define j where "j = nat (max (- 20) (min 19 n) + 20)"
  assume "m \<le> n"
  then have ij: "i \<le> j" "j < 40" by (auto simp: i_def j_def)
  have "NICE_TO_WEIGHT ! j \<le> NICE_TO_WEIGHT ! i"
    using sorted_wrt_nth_less [OF s, of i j] ij len by (cases "i = j") simp_all
  then show ?thesis unfolding nice_to_weight_def Let_def i_def j_def .
qed

definition weight_of :: "(nat \<Rightarrow> cfs_attrs) \<Rightarrow> nat \<Rightarrow> nat" where
  "weight_of at t = nice_to_weight (nice (at t))"

text \<open>The ready tasks are ordered by their virtual run time, each is there once, and the total weight is the sum of their weights.\<close>

definition cfs_inv :: "('q \<Rightarrow> (nat \<times> nat) list) \<Rightarrow> 'q cfs \<Rightarrow> bool" where
  "cfs_inv elems s \<longleftrightarrow>
     sorted (map fst (elems (ready_tree s))) \<and> distinct (map snd (elems (ready_tree s))) \<and>
     (\<forall>(k, t)\<in>set (elems (ready_tree s)). k = vruntime (attrs s t)) \<and>
     total_weight s = sum_list (map (weight_of (attrs s) \<circ> snd) (elems (ready_tree s))) \<and>
     sched_latency s = 20000000 \<and> sched_min_granularity s = 4000000"

abbreviation ready :: "('q \<Rightarrow> (nat \<times> nat) list) \<Rightarrow> 'q cfs \<Rightarrow> nat set" where
  "ready elems s \<equiv> snd ` set (elems (ready_tree s))"

lemma weight_of_upd: "nice a = nice (at t) \<Longrightarrow> weight_of (at(t := a)) = weight_of at"
  by (auto simp: weight_of_def)

context rbtree_laws
begin

lemma cfs_pick_spec:
  assumes I: "cfs_inv elems s"
  obtains (empty) "cfs_pick_next_task R now s = (Ok None, s)" "elems (ready_tree s) = []"
    | (task) k t s' where "cfs_pick_next_task R now s = (Ok (Some t), s')" "elems (ready_tree s) = (k, t) # elems (ready_tree s')" "cfs_inv elems s'"
      "attrs s' = (attrs s)(t := (attrs s t)\<lparr>start_execution_time := now, slice := max (20000000 * weight_of (attrs s) t div total_weight s) 4000000\<rparr>)"
      "weight_of (attrs s) t \<le> total_weight s"
proof (cases "rb_pop R (ready_tree s)")
  case None
  then have "elems (ready_tree s) = []" using pop_None by blast
  then show thesis using None by (intro empty) (simp_all add: cfs_pick_next_task_def)
next
  case (Some r)
  obtain t q where r: "r = (t, q)" by (cases r)
  from pop_Some [of "ready_tree s" t q] obtain k where k: "elems (ready_tree s) = (k, t) # elems q" using Some r by auto
  let ?w = "weight_of (attrs s) t"
  have tw: "total_weight s = ?w + sum_list (map (weight_of (attrs s) \<circ> snd) (elems q))" using I k by (simp add: cfs_inv_def)
  have w: "15 \<le> ?w" "?w \<le> 88761" unfolding weight_of_def by (rule weight_bounds)+
  let ?a = "(attrs s t)\<lparr>start_execution_time := now, slice := max (20000000 * ?w div total_weight s) 4000000\<rparr>"
  let ?s = "s\<lparr>ready_tree := q, attrs := (attrs s)(t := ?a), total_weight := total_weight s - ?w\<rparr>"
  have "cfs_pick_next_task R now s = (Ok (Some t), ?s)"
  proof -
    have l: "sched_latency s = 20000000" "sched_min_granularity s = 4000000" using I by (simp_all add: cfs_inv_def)
    have "sched_latency s * ?w < usize_limit" "0 < total_weight s" "?w \<le> total_weight s" using w tw l by (simp_all add: usize_limit_def)
    then show ?thesis using Some r l by (simp add: cfs_pick_next_task_def Let_def weight_of_def)
  qed
  moreover have "cfs_inv elems ?s"
  proof -
    have "vruntime ?a = vruntime (attrs s t)" by simp
    then have "\<forall>(k', t')\<in>set (elems q). k' = vruntime (((attrs s)(t := ?a)) t')" using I k unfolding cfs_inv_def by auto
    moreover have "weight_of ((attrs s)(t := ?a)) = weight_of (attrs s)" by (rule weight_of_upd) simp
    moreover have "total_weight s - ?w = sum_list (map (weight_of (attrs s) \<circ> snd) (elems q))" using tw by simp
    ultimately show ?thesis using I k unfolding cfs_inv_def by simp
  qed
  ultimately show thesis using k tw by (intro task [of t ?s k]) simp_all
qed

lemma cfs_enqueue_spec:
  assumes I: "cfs_inv elems s" and t: "t \<notin> ready elems s" and room: "length (elems (ready_tree s)) < 2 ^ 40"
  obtains s' ys zs where "cfs_enqueue_ready R t s = (Ok (), s')" "cfs_inv elems s'" "elems (ready_tree s) = ys @ zs"
    "elems (ready_tree s') = ys @ (vruntime (attrs s' t), t) # zs"
    "attrs s' = (attrs s)(t := (attrs s t)\<lparr>vruntime := max (vruntime (attrs s t)) (case elems (ready_tree s) of [] \<Rightarrow> 0 | (k, t') # es \<Rightarrow> k)\<rparr>)"
proof -
  let ?es = "elems (ready_tree s)"
  let ?m = "case ?es of [] \<Rightarrow> 0 | (k, t') # es \<Rightarrow> k"
  have front: "(case rb_front R (ready_tree s) of Some t \<Rightarrow> vruntime (attrs s t) | None \<Rightarrow> 0) = ?m"
    using I by (auto simp: front_elems cfs_inv_def split: list.splits)
  let ?a = "(attrs s t)\<lparr>vruntime := max (vruntime (attrs s t)) ?m\<rparr>" let ?w = "weight_of (attrs s) t"
  have wl: "sum_list (map (weight_of (attrs s) \<circ> snd) es) \<le> length es * 88761" for es :: "(nat \<times> nat) list"
    by (induction es) (use weight_bounds(2) in \<open>auto simp: weight_of_def add_le_mono\<close>)
  have "total_weight s \<le> length ?es * 88761" using I wl by (simp add: cfs_inv_def)
  also have "\<dots> \<le> 2 ^ 40 * 88761" using room by (intro mult_le_mono1) simp
  finally have tw: "total_weight s + ?w < usize_limit" using weight_bounds(2) [of "nice (attrs s t)"] by (simp add: usize_limit_def weight_of_def)
  have so: "sorted (map fst ?es)" using I by (simp add: cfs_inv_def)
  obtain ys zs where s: "?es = ys @ zs" "elems (rb_insert R (vruntime ?a) t (ready_tree s)) = ys @ (vruntime ?a, t) # zs"
    "sorted (map fst (elems (rb_insert R (vruntime ?a) t (ready_tree s))))" using insert_elems [OF so] by blast
  let ?s = "s\<lparr>min_vruntime := ?m, attrs := (attrs s)(t := ?a), total_weight := total_weight s + ?w, ready_tree := rb_insert R (vruntime ?a) t (ready_tree s)\<rparr>"
  have e: "cfs_enqueue_ready R t s = (Ok (), ?s)"
    using tw front by (simp add: cfs_enqueue_ready_def Let_def weight_of_def bind_def)
  have nt: "t \<notin> snd ` set ys" "t \<notin> snd ` set zs" using t s(1) by auto
  have mc: "weight_of ((attrs s)(t := ?a)) = weight_of (attrs s)" by (rule weight_of_upd) simp
  have "\<forall>(k', t')\<in>set (ys @ (vruntime ?a, t) # zs). k' = vruntime (((attrs s)(t := ?a)) t')" 
  proof -
    have "\<And>k. (k, t) \<notin> set ys" "\<And>k. (k, t) \<notin> set zs" using nt by force+
    moreover have "k = vruntime (attrs s u)" if "(k, u) \<in> set ys \<union> set zs" for k u using I s(1) that unfolding cfs_inv_def by auto
    ultimately show ?thesis by auto
  qed
  then have "cfs_inv elems ?s"
    using I s nt mc unfolding cfs_inv_def by simp
  then show thesis using e s by (intro that [of ?s ys zs]) simp_all
qed

end

text \<open>C19: The fair scheduler. While the ready tasks are ordered by virtual run time and the total weight is that of the ready tasks, \<open>pick_next_task\<close> never panics
  and never divides by zero: it takes out a task whose virtual run time is least, gives it a slice between 4 and 20 milliseconds, and keeps the
  others; it returns \<open>None\<close> exactly when no task is ready. \<open>enqueue_ready\<close> adds a task that is not ready yet, does not let its virtual run time fall behind
  the least one, and loses no task. Both keep the invariant.\<close>

theorem cfs_picks_least_vruntime:
  assumes "rbtree_laws R elems" and I: "cfs_inv elems s" and t: "t \<notin> ready elems s" and room: "length (elems (ready_tree s)) < 2 ^ 40"
  shows "(\<exists>r s'. cfs_pick_next_task R now s = (Ok r, s') \<and> cfs_inv elems s' \<and>
      (case r of
         None \<Rightarrow> ready elems s = {} \<and> s' = s
       | Some u \<Rightarrow> u \<in> ready elems s \<and> ready elems s' = ready elems s - {u} \<and> (\<forall>x\<in>ready elems s. vruntime (attrs s u) \<le> vruntime (attrs s x)) \<and>
           4000000 \<le> slice (attrs s' u) \<and> slice (attrs s' u) \<le> 20000000)) \<and>
    (\<exists>s'. cfs_enqueue_ready R t s = (Ok (), s') \<and> cfs_inv elems s' \<and> ready elems s' = insert t (ready elems s) \<and>
      vruntime (attrs s t) \<le> vruntime (attrs s' t) \<and> (ready elems s = {} \<or> (\<exists>x\<in>ready elems s. vruntime (attrs s' x) \<le> vruntime (attrs s' t))))"
proof
  let ?es = "elems (ready_tree s)"
  have kv: "k = vruntime (attrs s u)" if "(k, u) \<in> set ?es" for k u using I that unfolding cfs_inv_def by auto
  show "\<exists>r s'. cfs_pick_next_task R now s = (Ok r, s') \<and> cfs_inv elems s' \<and>
      (case r of
         None \<Rightarrow> ready elems s = {} \<and> s' = s
       | Some u \<Rightarrow> u \<in> ready elems s \<and> ready elems s' = ready elems s - {u} \<and> (\<forall>x\<in>ready elems s. vruntime (attrs s u) \<le> vruntime (attrs s x)) \<and>
           4000000 \<le> slice (attrs s' u) \<and> slice (attrs s' u) \<le> 20000000)"
  proof (rule rbtree_laws.cfs_pick_spec [OF assms(1) I, of now], goal_cases)
    case 1
    then show ?case using I by auto
  next
    case (2 k u s')
    have d: "sorted (map fst ?es)" "distinct (map snd ?es)" using I unfolding cfs_inv_def by blast+
    have "vruntime (attrs s u) \<le> vruntime (attrs s x)" if "x \<in> ready elems s" for x
    proof -
      from that obtain kx where "(kx, x) \<in> set ?es" by auto
      moreover have "k \<le> fst y" if "y \<in> set ?es" for y using d(1) that unfolding 2(2) by auto
      ultimately show ?thesis using kv [of kx x] kv [of k u] 2(2) by fastforce
    qed
    moreover have "slice (attrs s' u) = max (20000000 * weight_of (attrs s) u div total_weight s) 4000000" by (simp add: 2(4))
    moreover have "20000000 * weight_of (attrs s) u div total_weight s \<le> 20000000"
      using 2(5) by (metis div_le_mono div_mult_self_is_m mult_le_mono2 le0 not_gr_zero div_by_0)
    moreover have "ready elems s' = ready elems s - {u}" "u \<in> ready elems s" using d(2) unfolding 2(2) by auto
    ultimately show ?case using 2(1,3) by (intro exI [of _ "Some u"] exI [of _ s']) simp
  qed
  show "\<exists>s'. cfs_enqueue_ready R t s = (Ok (), s') \<and> cfs_inv elems s' \<and> ready elems s' = insert t (ready elems s) \<and>
      vruntime (attrs s t) \<le> vruntime (attrs s' t) \<and> (ready elems s = {} \<or> (\<exists>x\<in>ready elems s. vruntime (attrs s' x) \<le> vruntime (attrs s' t)))"
  proof (rule rbtree_laws.cfs_enqueue_spec [OF assms(1) I t room], goal_cases)
    case (1 s' ys zs)
    have "\<exists>x\<in>ready elems s. vruntime (attrs s' x) \<le> vruntime (attrs s' t)" if "ready elems s \<noteq> {}"
    proof -
      from that obtain k x es where e: "?es = (k, x) # es" by (cases ?es) auto
      have "x \<noteq> t" "k = vruntime (attrs s x)" using t kv [of k x] unfolding e by auto
      then show ?thesis using e 1(5) by (intro bexI [of _ x]) simp_all
    qed
    moreover have "ready elems s' = insert t (ready elems s)" unfolding 1(3,4) by auto
    moreover have "vruntime (attrs s t) \<le> vruntime (attrs s' t)" using 1(5) by simp
    ultimately show ?case using 1(1,2) by blast
  qed
qed

theorem cfs_picks_least_vruntime_witness:
  "\<exists>s'. cfs_enqueue_ready sorted_queue 7 (cfs_new sorted_queue) = (Ok (), s') \<and> ready (\<lambda>q. q) s' = {7}"
proof -
  have I: "cfs_inv (\<lambda>q. q) (cfs_new sorted_queue)" by (simp add: cfs_inv_def cfs_new_def sorted_queue_def)
  have r: "ready (\<lambda>q. q) (cfs_new sorted_queue) = {}" by (simp add: cfs_new_def sorted_queue_def)
  have "7 \<notin> ready (\<lambda>q. q) (cfs_new sorted_queue)" "length (ready_tree (cfs_new sorted_queue)) < 2 ^ 40"
    by (simp_all add: cfs_new_def sorted_queue_def)
  from cfs_picks_least_vruntime [where now = 0, OF sq.rbtree_laws_axioms I this, THEN conjunct2] r show ?thesis by auto
qed

end
