(* ===== verification/Rw_Timer.thy ===== *)
theory Rw_Timer
  imports Rw_Kernel "HOL-Library.Multiset"
begin

text \<open>
  Timer events (src/kernel/src/timer_events.rs): every CPU has a heap of events with the time they are due; a tick runs
  the callbacks that are due. The callbacks and the state they act on are parameters of the list. The binary heap of the
  standard library is a list here; which of several events with the same time comes first is left open by the heap, and
  no property below depends on it.
\<close>

type_synonym timer_event_id = "nat \<times> nat"

record 'c timer_event =
  event_id :: timer_event_id
  callback :: 'c
  expired_time :: nat

text \<open>\<open>Ord\<close> is reversed, so that the greatest event of the heap is the earliest.\<close>

fun heap_peek :: "'c timer_event list \<Rightarrow> 'c timer_event option" where
  "heap_peek [] = None"
| "heap_peek (e # es) = (case heap_peek es of None \<Rightarrow> Some e | Some e' \<Rightarrow> Some (if expired_time e \<le> expired_time e' then e else e'))"

text \<open>\<open>add_event\<close>: the identifiers come from a global counter.\<close>

definition list_add_event :: "nat \<Rightarrow> nat \<Rightarrow> nat \<Rightarrow> nat \<Rightarrow> 'c \<Rightarrow> 'c timer_event list \<Rightarrow> timer_event_id \<times> 'c timer_event list" where
  "list_add_event cpuid next_id now time event evs =
     (let i = (cpuid, next_id) in (i, \<lparr>event_id = i, callback = event, expired_time = now + time\<rparr> # evs))"

definition list_remove_event :: "timer_event_id \<Rightarrow> 'c timer_event list \<Rightarrow> 'c timer_event list" where
  "list_remove_event i evs = filter (\<lambda>e. event_id e \<noteq> i) evs"

lemma heap_peek_None [simp]: "heap_peek evs = None \<longleftrightarrow> evs = []"
  by (induction evs) (auto split: option.splits)

lemma heap_peek_mem: "heap_peek evs = Some e \<Longrightarrow> e \<in> set evs \<and> (\<forall>e'\<in>set evs. expired_time e \<le> expired_time e')"
proof (induction evs arbitrary: e)
  case (Cons a evs)
  show ?case
  proof (cases "heap_peek evs")
    case None
    then show ?thesis using Cons.prems by simp
  next
    case (Some e')
    then show ?thesis using Cons.IH [OF Some] Cons.prems by (auto split: if_splits)
  qed
qed simp

function list_tick :: "('c \<Rightarrow> 's \<Rightarrow> 's) \<Rightarrow> nat \<Rightarrow> 'c timer_event list \<Rightarrow> 's \<Rightarrow> 'c timer_event list \<times> 's" where
  "list_tick run jiffies evs s =
     (case heap_peek evs of
        None \<Rightarrow> (evs, s)
      | Some e \<Rightarrow> if expired_time e > jiffies then (evs, s) else list_tick run jiffies (remove1 e evs) (run (callback e) s))"
  by pat_completeness auto
termination
  by (relation "measure (\<lambda>(run, jiffies, evs, s). length evs)")
    (auto dest!: heap_peek_mem simp: length_remove1 intro!: diff_less length_pos_if_in_set)

declare list_tick.simps [simp del]

text \<open>C20: Timer ticks. A tick runs exactly the callbacks of the events that are due, each once and in the order of their times, and keeps exactly
  the events that are not due yet.\<close>

theorem timer_tick_runs_due_events:
  "\<exists>fired. sorted (map expired_time fired) \<and> mset fired = mset (filter (\<lambda>e. expired_time e \<le> jiffies) evs) \<and>
     list_tick run jiffies evs s = (filter (\<lambda>e. expired_time e > jiffies) evs, fold (\<lambda>e. run (callback e)) fired s)"
proof (induction run jiffies evs s rule: list_tick.induct)
  case (1 run jiffies evs s)
  show ?case
  proof (cases "heap_peek evs")
    case None
    then show ?thesis by (auto simp: list_tick.simps)
  next
    case (Some e)
    note P = heap_peek_mem [OF Some]
    show ?thesis
    proof (cases "expired_time e > jiffies")
      case True
      then have "filter (\<lambda>e. expired_time e \<le> jiffies) evs = []" "filter (\<lambda>e. expired_time e > jiffies) evs = evs"
        using P by (fastforce simp: filter_empty_conv filter_id_conv)+
      then show ?thesis using Some True by (auto simp: list_tick.simps intro!: exI [of _ "[]"])
    next
      case False
      from "1.IH" [OF Some False] obtain fired where f: "sorted (map expired_time fired)"
        "mset fired = mset (filter (\<lambda>e. expired_time e \<le> jiffies) (remove1 e evs))"
        "list_tick run jiffies (remove1 e evs) (run (callback e) s) =
          (filter (\<lambda>e. expired_time e > jiffies) (remove1 e evs), fold (\<lambda>e. run (callback e)) fired (run (callback e) s))" by blast
      have "mset (e # fired) = mset (filter (\<lambda>e. expired_time e \<le> jiffies) evs)"
        using f(2) P False by (simp add: mset_filter mset_remove1 filter_remove1 flip: mset_filter)
      moreover have "sorted (map expired_time (e # fired))"
      proof -
        have "set fired \<subseteq> set evs" using mset_eq_setD [OF f(2)] set_remove1_subset [of e evs] by auto
        then show ?thesis using f(1) P by auto
      qed
      moreover have "filter (\<lambda>e. expired_time e > jiffies) (remove1 e evs) = filter (\<lambda>e. expired_time e > jiffies) evs"
        using False by (simp add: filter_remove1 remove1_idem)
      ultimately show ?thesis using Some False f(3) by (intro exI [of _ "e # fired"]) (simp add: list_tick.simps [of run jiffies evs])
    qed
  qed
qed

end
