(* ===== verification/Rw_Task.thy ===== *)
theory Rw_Task
  imports Rw_Sched Rw_Timer "HOL-Library.AList"
begin

text \<open>
  Tasks (src/kernel/src/proc/task.rs and id.rs), their sessions and groups (session.rs, group.rs), signals (signal.rs and
  src/common/signal_structs) and the scheduler loop (sched/mod.rs). A task is named by its tid; \<open>tasks\<close> holds the tasks
  that are not dropped yet, so that a weak reference upgrades exactly when its tid is there. The locks are not part of the
  model: every definition is one critical section or a sequence of them run without interruption, and a function that
  gives up the CPU is split at the switch. Files, directories of the file system and the tree of the scheduler are parameters; the
  address space, kernel stack and context of a task are not part of the record, apart from the trapframe.
\<close>

section \<open>Signals\<close>

datatype signal = SIGDEF | SIGHUP | SIGINT | SIGQUIT | SIGILL | SIGABRT | SIGKILL | SIGSEGV | SIGCONT | SIGSTOP | SIGTTIN

fun signal_num :: "signal \<Rightarrow> nat" where
  "signal_num SIGDEF = 0"
| "signal_num SIGHUP = 1"
| "signal_num SIGINT = 2"
| "signal_num SIGQUIT = 3"
| "signal_num SIGILL = 4"
| "signal_num SIGABRT = 6"
| "signal_num SIGKILL = 9"
| "signal_num SIGSEGV = 11"
| "signal_num SIGCONT = 18"
| "signal_num SIGSTOP = 19"
| "signal_num SIGTTIN = 21"

definition all_signals :: "signal list" where
  "all_signals = [SIGDEF, SIGHUP, SIGINT, SIGQUIT, SIGILL, SIGABRT, SIGKILL, SIGSEGV, SIGCONT, SIGSTOP, SIGTTIN]"

text \<open>\<open>Signal::try_from\<close>.\<close>

definition signal_of_num :: "nat \<Rightarrow> signal option" where
  "signal_of_num n = find (\<lambda>s. signal_num s = n) all_signals"

type_synonym signal_flags = u64

definition to_signal_flags :: "signal \<Rightarrow> signal_flags" where
  "to_signal_flags s = push_bit (signal_num s) 1"

definition flags_contain :: "signal_flags \<Rightarrow> signal_flags \<Rightarrow> bool" where
  "flags_contain fs f \<longleftrightarrow> fs AND f = f"

definition flags_remove :: "signal_flags \<Rightarrow> signal_flags \<Rightarrow> signal_flags" where
  "flags_remove fs f = fs AND NOT f"

text \<open>\<open>from_bits\<close> accepts the bits of the known signals only.\<close>

definition flag_of_bit :: "nat \<Rightarrow> signal_flags option" where
  "flag_of_bit n = (if signal_of_num n = None then None else Some (push_bit n 1))"

datatype proc_mask_how = BLOCKED | UNBLOCKED | SETMASK

record signal_action =
  sig_handler :: u64
  act_mask :: signal_flags

datatype signal_action_kind = Terminate | Stop | Continue | Ignored | UserHandler signal_action

definition MAX_SIG :: nat where "MAX_SIG = 31"

definition DEFAULT_SIGNAL_ACTIONS :: "signal_action_kind list" where
  "DEFAULT_SIGNAL_ACTIONS =
     (replicate (MAX_SIG + 1) Terminate)[signal_num SIGDEF := Ignored, signal_num SIGCONT := Continue, signal_num SIGSTOP := Stop, signal_num SIGTTIN := Stop]"

section \<open>Tasks\<close>

datatype task_state = Initialized | Running | Runable | Blocked | Interruptible | Waitting | Zombie

fun task_state_fmt :: "task_state \<Rightarrow> string" where
  "task_state_fmt Zombie = ''Z (zombie)''"
| "task_state_fmt Running = ''R (running)''"
| "task_state_fmt Runable = ''r (runnable)''"
| "task_state_fmt Initialized = ''i (initialized)''"
| "task_state_fmt Interruptible = ''I (interruptible)''"
| "task_state_fmt Waitting = ''W (waitting)''"
| "task_state_fmt Blocked = ''B (blocked)''"

definition MAX_TASKS :: nat where "MAX_TASKS = 128"
definition MAX_OPEN_FILES :: nat where "MAX_OPEN_FILES = 20"

text \<open>The trapframe in the order of its registers; only the program counter and the first argument are set here.\<close>

definition TF_LEN :: nat where "TF_LEN = 35"
definition TF_A0 :: nat where "TF_A0 = 11"
definition TF_SEPC :: nat where "TF_SEPC = 34"

definition set_arg0 :: "u64 \<Rightarrow> u64 list \<Rightarrow> u64 list" where
  "set_arg0 v tf = tf[TF_A0 := v]"

definition set_ret_pc :: "u64 \<Rightarrow> u64 list \<Rightarrow> u64 list" where
  "set_ret_pc v tf = tf[TF_SEPC := v]"

record ('i, 'f) task =
  t_name :: string
  tgid :: nat
  sid :: nat
  t_state :: task_state
  exit_status :: int
  is_killed :: bool
  is_frozen :: bool
  signal_mask :: signal_flags
  signals :: signal_flags
  signal_actions :: "signal_action_kind list"
  trapframe_backup :: "u64 list option"
  tframe :: "u64 list"
  sleep_timer_event :: "timer_event_id option"
  parent :: "nat option"
  children :: "nat list"
  cwd :: "'i option"
  o_files :: "'f option list"

record task_group =
  grp_leader_tid :: nat
  grp_tasks :: "nat list"

record session =
  leader_tid :: nat
  groups :: "(nat \<times> task_group) list"

text \<open>The callback of the only timer event of the kernel wakes a sleeping task.\<close>

record ('q, 'i, 'f) kern =
  tasks :: "nat \<Rightarrow> ('i, 'f) task option"
  task_table :: "nat list"
  next_id :: nat
  sessions :: "(nat \<times> session) list"
  sched_state :: "'q cfs"
  current :: "nat option"
  init_task :: "nat option"
  timers :: "nat \<Rightarrow> nat timer_event list"
  next_event_id :: nat
  cpuid :: nat
  timer_now :: nat

type_synonym ('q, 'i, 'f, 'a) kcall = "(('q, 'i, 'f) kern, kerror, 'a) call"

definition next_tid :: "('q, 'i, 'f, nat) kcall" where
  "next_tid = (\<lambda>s. (Ok (next_id s), s\<lparr>next_id := (next_id s + 1) mod usize_limit\<rparr>))"

definition set_init_task :: "nat \<Rightarrow> ('q, 'i, 'f, unit) kcall" where
  "set_init_task t = (\<lambda>s.
     if init_task s \<noteq> None then (Ok (), s)
     else if t \<in> set (task_table s) then (Ok (), s\<lparr>init_task := Some t\<rparr>) else (Panic, s))"

text \<open>Access to a task through a strong reference.\<close>

definition get_task :: "nat \<Rightarrow> ('q, 'i, 'f, ('i, 'f) task) kcall" where
  "get_task t = (\<lambda>s. case tasks s t of Some x \<Rightarrow> (Ok x, s) | None \<Rightarrow> (Panic, s))"

definition upd_task :: "nat \<Rightarrow> (('i, 'f) task \<Rightarrow> ('i, 'f) task) \<Rightarrow> ('q, 'i, 'f, unit) kcall" where
  "upd_task t f = (\<lambda>s. (Ok (), s\<lparr>tasks := (tasks s)(t := map_option f (tasks s t))\<rparr>))"

definition current_task_or_err :: "('q, 'i, 'f, nat) kcall" where
  "current_task_or_err = (\<lambda>s. case current s of Some t \<Rightarrow> (Ok t, s) | None \<Rightarrow> (Err (SysErr SysIOError), s))"

definition get_task_by_tid :: "nat \<Rightarrow> ('q, 'i, 'f, nat) kcall" where
  "get_task_by_tid t = (\<lambda>s. if t \<in> set (task_table s) then (Ok t, s) else (Err (SysErr SysNoSuchProcess), s))"

text \<open>The table is an index map of a fixed capacity; the order of its keys is not used.\<close>

definition table_insert :: "nat \<Rightarrow> ('q, 'i, 'f, unit) kcall" where
  "table_insert t = (\<lambda>s.
     if t \<in> set (task_table s) then (Ok (), s)
     else if length (task_table s) \<ge> MAX_TASKS then (Err (SysErr SysTooManyTasks), s)
     else (Ok (), s\<lparr>task_table := task_table s @ [t]\<rparr>))"

definition on_sched :: "('q, 'a) cfs_call \<Rightarrow> ('q, 'i, 'f, 'a) kcall" where
  "on_sched c = (\<lambda>s. case c (sched_state s) of (r, q) \<Rightarrow> (r, s\<lparr>sched_state := q\<rparr>))"

definition enqueue_ready :: "'q rbtree \<Rightarrow> nat \<Rightarrow> ('q, 'i, 'f, unit) kcall" where
  "enqueue_ready R t = on_sched (cfs_enqueue_ready R t)"

definition wakeup_unchecked :: "'q rbtree \<Rightarrow> nat \<Rightarrow> ('q, 'i, 'f, unit) kcall" where
  "wakeup_unchecked R t = bind (upd_task t (\<lambda>x. x\<lparr>t_state := Runable\<rparr>)) (\<lambda>_. enqueue_ready R t)"

text \<open>\<open>wakeup\<close> only logs when the task is not blocked.\<close>

definition wakeup :: "'q rbtree \<Rightarrow> nat \<Rightarrow> ('q, 'i, 'f, unit) kcall" where
  "wakeup R t = bind (get_task t) (\<lambda>x.
     if t_state x \<in> {Blocked, Waitting, Initialized, Interruptible} then wakeup_unchecked R t else ret ())"

definition remove_event :: "timer_event_id \<Rightarrow> ('q, 'i, 'f, unit) kcall" where
  "remove_event i = (\<lambda>s. (Ok (), s\<lparr>timers := (timers s)(fst i := list_remove_event i (timers s (fst i)))\<rparr>))"

definition wakeup_if_interruptible :: "'q rbtree \<Rightarrow> nat \<Rightarrow> ('q, 'i, 'f, unit) kcall" where
  "wakeup_if_interruptible R t = bind (get_task t) (\<lambda>x.
     if t_state x = Waitting \<or> t_state x = Interruptible then
       bind (case sleep_timer_event x of
               Some i \<Rightarrow> bind (upd_task t (\<lambda>x. x\<lparr>sleep_timer_event := None\<rparr>)) (\<lambda>_. remove_event i)
             | None \<Rightarrow> ret ()) (\<lambda>_. wakeup_unchecked R t)
     else ret ())"

definition wakeup_if_waiting :: "'q rbtree \<Rightarrow> nat \<Rightarrow> ('q, 'i, 'f, unit) kcall" where
  "wakeup_if_waiting R t = bind (get_task t) (\<lambda>x. if t_state x = Waitting then wakeup_unchecked R t else ret ())"

definition is_interrupted_by_signal :: "('i, 'f) task \<Rightarrow> bool" where
  "is_interrupted_by_signal x \<longleftrightarrow> signals x OR signal_mask x \<noteq> signal_mask x"

section \<open>Sessions and groups\<close>

definition group_new :: "nat \<Rightarrow> task_group" where
  "group_new t = \<lparr>grp_leader_tid = t, grp_tasks = [t]\<rparr>"

definition group_add_task :: "nat \<Rightarrow> task_group \<Rightarrow> task_group" where
  "group_add_task t g = g\<lparr>grp_tasks := (if t \<in> set (grp_tasks g) then grp_tasks g else t # grp_tasks g)\<rparr>"

text \<open>\<open>remove_task\<close> also tells whether the task was there.\<close>

definition group_remove_task :: "nat \<Rightarrow> task_group \<Rightarrow> bool \<times> task_group" where
  "group_remove_task t g = (t \<in> set (grp_tasks g), g\<lparr>grp_tasks := filter (\<lambda>x. x \<noteq> t) (grp_tasks g)\<rparr>)"

definition session_new :: "nat \<Rightarrow> session" where
  "session_new t = \<lparr>leader_tid = t, groups = [(t, group_new t)]\<rparr>"

definition session_try_add_task :: "nat \<Rightarrow> nat \<Rightarrow> session \<Rightarrow> bool \<times> session" where
  "session_try_add_task t g ses = (case map_of (groups ses) g of
     Some grp \<Rightarrow> (True, ses\<lparr>groups := AList.update g (group_add_task t grp) (groups ses)\<rparr>)
   | None \<Rightarrow> (False, ses))"

text \<open>The result tells whether the session has no group any more.\<close>

definition session_remove_task :: "nat \<Rightarrow> nat \<Rightarrow> session \<Rightarrow> bool \<times> session" where
  "session_remove_task t g ses =
     (let ses' = (case map_of (groups ses) g of
            Some grp \<Rightarrow>
              let grp' = snd (group_remove_task t grp) in
              if grp_tasks grp' = [] then ses\<lparr>groups := AList.delete g (groups ses)\<rparr> else ses\<lparr>groups := AList.update g grp' (groups ses)\<rparr>
          | None \<Rightarrow> ses)
      in (groups ses' = [], ses'))"

definition get_group :: "('i, 'f) task \<Rightarrow> ('q, 'i, 'f, task_group) kcall" where
  "get_group x = (\<lambda>s. case map_of (sessions s) (sid x) of
     None \<Rightarrow> (Err (SysErr SysNoSuchProcess), s)
   | Some ses \<Rightarrow> (case map_of (groups ses) (tgid x) of
       None \<Rightarrow> (Err (SysErr SysNoSuchProcess), s)
     | Some g \<Rightarrow> (Ok g, s)))"

definition try_add_task :: "nat \<Rightarrow> ('i, 'f) task \<Rightarrow> ('q, 'i, 'f, bool) kcall" where
  "try_add_task t x = (\<lambda>s. case map_of (sessions s) (sid x) of
     Some ses \<Rightarrow> (case session_try_add_task t (tgid x) ses of (b, ses') \<Rightarrow> (Ok b, s\<lparr>sessions := AList.update (sid x) ses' (sessions s)\<rparr>))
   | None \<Rightarrow> (Ok False, s))"

definition remove_task :: "nat \<Rightarrow> ('q, 'i, 'f, unit) kcall" where
  "remove_task t = bind (get_task t) (\<lambda>x s.
     case map_of (sessions s) (sid x) of
       Some ses \<Rightarrow> (case session_remove_task t (tgid x) ses of (none_left, ses') \<Rightarrow>
         if none_left then (Ok (), s\<lparr>sessions := AList.delete (sid x) (sessions s)\<rparr>)
         else (Ok (), s\<lparr>sessions := AList.update (sid x) ses' (sessions s)\<rparr>))
     | None \<Rightarrow> (Ok (), s))"

text \<open>\<open>Drop\<close> of a task, when its last reference is gone.\<close>

definition task_drop :: "nat \<Rightarrow> ('q, 'i, 'f, unit) kcall" where
  "task_drop t = bind (remove_task t) (\<lambda>_ s. (Ok (), s\<lparr>tasks := (tasks s)(t := None)\<rparr>))"

definition create_session :: "nat \<Rightarrow> ('q, 'i, 'f, unit) kcall" where
  "create_session t = bind (get_task t) (\<lambda>x.
     bind (\<lambda>s. case map_of (sessions s) (sid x) of
             Some ses \<Rightarrow> (case map_of (groups ses) (tgid x) of
               Some g \<Rightarrow>
                 if grp_leader_tid g = t then (Err (SysErr SysNotPermitted), s)
                 else (Ok (), s\<lparr>sessions := AList.update (sid x)
                        (ses\<lparr>groups := AList.update (tgid x) (snd (group_remove_task t g)) (groups ses)\<rparr>) (sessions s)\<rparr>)
             | None \<Rightarrow> (Ok (), s))
           | None \<Rightarrow> (Ok (), s)) (\<lambda>_ s.
     if map_of (sessions s) t \<noteq> None then (Err (SysErr SysNotPermitted), s)
     else upd_task t (\<lambda>x. x\<lparr>tgid := t, sid := t\<rparr>) (s\<lparr>sessions := AList.update t (session_new t) (sessions s)\<rparr>)))"

definition move_task_or_create_grp :: "nat \<Rightarrow> nat \<Rightarrow> nat \<Rightarrow> session \<Rightarrow> sys_error_kind + session" where
  "move_task_or_create_grp t old_tgid new_pgid ses = (case map_of (groups ses) old_tgid of
     None \<Rightarrow> Inl SysNoSuchProcess
   | Some old_group \<Rightarrow>
       if map_of (groups ses) new_pgid = None \<and> new_pgid \<noteq> t then Inl SysNoSuchProcess
       else case group_remove_task t old_group of (found, old_group') \<Rightarrow>
         if \<not> found then Inl SysNoSuchProcess
         else let gs = AList.update old_tgid old_group' (groups ses) in
           Inr (ses\<lparr>groups := (case map_of gs new_pgid of
             Some new_group \<Rightarrow> AList.update new_pgid (group_add_task t new_group) gs
           | None \<Rightarrow> AList.update t (group_new t) gs)\<rparr>))"

definition session_set_tgid :: "nat \<Rightarrow> nat \<Rightarrow> ('q, 'i, 'f, unit) kcall" where
  "session_set_tgid t new_tgid =
     bind current_task_or_err (\<lambda>c.
     bind (get_task c) (\<lambda>calling.
     bind (get_task t) (\<lambda>x.
       if sid x = t then fail (SysErr SysNotPermitted)
       else if sid calling \<noteq> sid x then fail (SysErr SysNotPermitted)
       else
         bind (if new_tgid = 0 then ret t
               else bind (get_task_by_tid new_tgid) (\<lambda>l.
                 if l \<noteq> t then bind (get_task l) (\<lambda>lx. if sid lx \<noteq> sid x then fail (SysErr SysNotPermitted) else ret new_tgid)
                 else ret new_tgid)) (\<lambda>g s.
           case map_of (sessions s) (sid x) of
             None \<Rightarrow> (Err (SysErr SysNotPermitted), s)
           | Some ses \<Rightarrow> (case move_task_or_create_grp t (tgid x) g ses of
               Inl e \<Rightarrow> (Err (SysErr e), s)
             | Inr ses' \<Rightarrow> upd_task t (\<lambda>x. x\<lparr>tgid := g\<rparr>) (s\<lparr>sessions := AList.update (sid x) ses' (sessions s)\<rparr>))))))"

definition set_sid :: "('q, 'i, 'f, unit) kcall" where
  "set_sid = bind current_task_or_err create_session"

definition target_task :: "nat \<Rightarrow> ('q, 'i, 'f, nat) kcall" where
  "target_task t = (if t = 0 then current_task_or_err else get_task_by_tid t)"

definition set_tgid :: "nat \<Rightarrow> nat \<Rightarrow> ('q, 'i, 'f, unit) kcall" where
  "set_tgid target new_tgid = bind (target_task target) (\<lambda>t. session_set_tgid t new_tgid)"

definition get_tgid :: "nat \<Rightarrow> ('q, 'i, 'f, nat) kcall" where
  "get_tgid t = bind (target_task t) (\<lambda>t. bind (get_task t) (\<lambda>x. ret (tgid x)))"

section \<open>Starting a task\<close>

definition task_new :: "string \<Rightarrow> nat \<Rightarrow> u64 list \<Rightarrow> ('i, 'f) task" where
  "task_new name t tf =
     \<lparr>t_name = name, tgid = t, sid = t, t_state = Initialized, exit_status = 0, is_killed = False, is_frozen = False,
      signal_mask = 0, signals = 0, signal_actions = DEFAULT_SIGNAL_ACTIONS, trapframe_backup = None, tframe = tf,
      sleep_timer_event = None, parent = None, children = [], cwd = None, o_files = replicate MAX_OPEN_FILES None\<rparr>"

text \<open>\<open>with_name\<close>, once the address space and the kernel stack have been allocated.\<close>

definition task_with_name :: "string \<Rightarrow> ('q, 'i, 'f, nat) kcall" where
  "task_with_name name =
     bind next_tid (\<lambda>t s. (Ok t, s\<lparr>tasks := (tasks s)(t \<mapsto> task_new name t (replicate TF_LEN 0)),
                                    sched_state := (sched_state s)\<lparr>attrs := (attrs (sched_state s))(t := cfs_attrs_default)\<rparr>\<rparr>))"

definition copy_o_files :: "('f \<Rightarrow> 'f) \<Rightarrow> 'f option list \<Rightarrow> 'f option list \<Rightarrow> 'f option list" where
  "copy_o_files dup others mine = map2 (\<lambda>o' m. case o' of Some f \<Rightarrow> Some (dup f) | None \<Rightarrow> m) others mine"

definition start_with_parent :: "'q rbtree \<Rightarrow> ('f \<Rightarrow> 'f) \<Rightarrow> nat \<Rightarrow> nat option \<Rightarrow> ('q, 'i, 'f, unit) kcall" where
  "start_with_parent R dup t par =
     bind (get_task t) (\<lambda>x.
     bind (assert_that (t_state x = Initialized)) (\<lambda>_.
     bind (table_insert t) (\<lambda>_.
     bind (case par of
             None \<Rightarrow> ret ()
           | Some p \<Rightarrow>
               bind (get_task p) (\<lambda>px.
               bind (upd_task t (\<lambda>x. x\<lparr>o_files := copy_o_files dup (o_files px) (o_files x), cwd := cwd px, parent := Some p,
                                       tgid := tgid px, sid := sid px\<rparr>)) (\<lambda>_.
               bind (upd_task p (\<lambda>px. px\<lparr>children := children px @ [t]\<rparr>)) (\<lambda>_.
               bind (get_task t) (\<lambda>x.
               bind (try_add_task t x) (\<lambda>_. ret ())))))) (\<lambda>_.
     wakeup R t))))"

definition task_start :: "'q rbtree \<Rightarrow> ('f \<Rightarrow> 'f) \<Rightarrow> nat \<Rightarrow> ('q, 'i, 'f, unit) kcall" where
  "task_start R dup t = (\<lambda>s. start_with_parent R dup t (current s) s)"

text \<open>\<open>fork\<close> and \<open>spawn\<close>: a task that cannot be started is dropped again with its last reference.\<close>

definition launch :: "'q rbtree \<Rightarrow> ('f \<Rightarrow> 'f) \<Rightarrow> string \<Rightarrow> ('q, 'i, 'f, nat) kcall" where
  "launch R dup name =
     bind (task_with_name name) (\<lambda>t s.
       case task_start R dup t s of
         (Ok _, s) \<Rightarrow> (Ok t, s)
       | (Err e, s) \<Rightarrow> bind (task_drop t) (\<lambda>_. fail e) s
       | (Panic, s) \<Rightarrow> (Panic, s))"

section \<open>Exit and wait\<close>

definition live_parent :: "nat \<Rightarrow> ('q, 'i, 'f, nat option) kcall" where
  "live_parent t = bind (get_task t) (\<lambda>x s.
     (Ok (case parent x of Some p \<Rightarrow> if tasks s p = None then None else Some p | None \<Rightarrow> None), s))"

definition reparent :: "nat \<Rightarrow> nat \<Rightarrow> ('q, 'i, 'f, unit) kcall" where
  "reparent t p =
     bind (upd_task p (\<lambda>x. x\<lparr>children := children x @ [t]\<rparr>)) (\<lambda>_. upd_task t (\<lambda>x. x\<lparr>parent := Some p\<rparr>))"

definition get_init_task :: "('q, 'i, 'f, nat) kcall" where
  "get_init_task = (\<lambda>s. case init_task s of Some t \<Rightarrow> (Ok t, s) | None \<Rightarrow> (Panic, s))"

definition parent_or_insert_init :: "nat \<Rightarrow> ('q, 'i, 'f, nat) kcall" where
  "parent_or_insert_init t =
     bind (live_parent t) (\<lambda>p.
       case p of
         Some p \<Rightarrow> ret p
       | None \<Rightarrow> bind get_init_task (\<lambda>i. bind (reparent t i) (\<lambda>_. ret i)))"

text \<open>The fold over the children that are not dropped; the result tells whether one of them is a zombie.\<close>

fun reparent_all :: "nat \<Rightarrow> nat list \<Rightarrow> bool \<Rightarrow> ('q, 'i, 'f, bool) kcall" where
  "reparent_all i [] contains_zombie s = (Ok contains_zombie, s)"
| "reparent_all i (c # cs) contains_zombie s =
     (if tasks s c = None then reparent_all i cs contains_zombie s
      else bind (reparent c i) (\<lambda>_. bind (get_task c) (\<lambda>x.
        reparent_all i cs (contains_zombie \<or> t_state x = Zombie))) s)"

definition clear_and_reparent_children :: "'q rbtree \<Rightarrow> nat \<Rightarrow> ('q, 'i, 'f, unit) kcall" where
  "clear_and_reparent_children R t =
     bind (get_task t) (\<lambda>x.
     bind (upd_task t (\<lambda>x. x\<lparr>children := []\<rparr>)) (\<lambda>_.
     bind get_init_task (\<lambda>i.
     bind (reparent_all i (children x) False) (\<lambda>z.
       if z then wakeup_if_waiting R i else ret ()))))"

text \<open>\<open>exit\<close> up to the switch to the scheduler, from which the task does not return.\<close>

definition exit :: "'q rbtree \<Rightarrow> int \<Rightarrow> ('q, 'i, 'f, unit) kcall" where
  "exit R status =
     bind (\<lambda>s. case current s of Some t \<Rightarrow> (Ok t, s) | None \<Rightarrow> (Panic, s)) (\<lambda>t.
     bind (upd_task t (\<lambda>x. x\<lparr>o_files := replicate MAX_OPEN_FILES None, cwd := None\<rparr>)) (\<lambda>_.
     bind (clear_and_reparent_children R t) (\<lambda>_.
     bind (parent_or_insert_init t) (\<lambda>p.
     bind (upd_task t (\<lambda>x. x\<lparr>exit_status := status, t_state := Zombie\<rparr>)) (\<lambda>_.
       wakeup_if_waiting R p)))))"

text \<open>\<open>remove_zombie_child\<close>: the child found, whether a child matched, and the children that stay.\<close>

fun zombie_loop :: "(nat \<Rightarrow> ('i, 'f) task option) \<Rightarrow> nat option \<Rightarrow> nat list \<Rightarrow> bool \<Rightarrow> nat option \<times> bool \<times> nat list" where
  "zombie_loop ts qtid [] have_kids = (None, have_kids, [])"
| "zombie_loop ts qtid (c # cs) have_kids =
     (case ts c of
        None \<Rightarrow> zombie_loop ts qtid cs have_kids
      | Some x \<Rightarrow>
          if qtid \<noteq> None \<and> qtid \<noteq> Some c then (case zombie_loop ts qtid cs have_kids of (r, k, cs') \<Rightarrow> (r, k, c # cs'))
          else if t_state x \<noteq> Zombie then
            if qtid \<noteq> None then (None, True, c # cs)
            else (case zombie_loop ts qtid cs True of (r, k, cs') \<Rightarrow> (r, k, c # cs'))
          else (Some c, True, cs))"

definition remove_zombie_child :: "nat \<Rightarrow> nat option \<Rightarrow> ('q, 'i, 'f, nat option \<times> bool) kcall" where
  "remove_zombie_child t qtid =
     bind (get_task t) (\<lambda>x s.
       case zombie_loop (tasks s) qtid (children x) False of (r, have_kids, cs) \<Rightarrow>
         bind (upd_task t (\<lambda>x. x\<lparr>children := cs\<rparr>)) (\<lambda>_.
         bind (case r of Some c \<Rightarrow> upd_task c (\<lambda>y. y\<lparr>parent := None\<rparr>) | None \<Rightarrow> ret ()) (\<lambda>_. ret (r, have_kids))) s)"

datatype wait_result = Collected nat int | NoChild | Wait

text \<open>One round of the loop of \<open>wait_with_xstatus\<close>, up to the switch; \<open>wait_resume\<close> is what follows the switch.\<close>

definition wait_round :: "nat option \<Rightarrow> ('q, 'i, 'f, wait_result) kcall" where
  "wait_round qtid =
     bind current_task_or_err (\<lambda>t.
     bind (get_task t) (\<lambda>x.
       if is_interrupted_by_signal x then fail (SysErr SysInterrupted)
       else bind (remove_zombie_child t qtid) (\<lambda>(r, have_kids).
         case r of
           Some c \<Rightarrow>
             bind (\<lambda>s. (Ok (), s\<lparr>task_table := filter (\<lambda>u. u \<noteq> c) (task_table s)\<rparr>)) (\<lambda>_.
             bind (get_task c) (\<lambda>cx. ret (Collected c (exit_status cx))))
         | None \<Rightarrow>
             if \<not> have_kids then ret NoChild
             else bind (upd_task t (\<lambda>x. x\<lparr>t_state := Waitting\<rparr>)) (\<lambda>_. ret Wait))))"

definition wait_resume :: "('q, 'i, 'f, unit) kcall" where
  "wait_resume =
     bind current_task_or_err (\<lambda>t.
     bind (get_task t) (\<lambda>x. if is_interrupted_by_signal x then fail (SysErr SysInterrupted) else ret ()))"

section \<open>File descriptors of a task\<close>

fun first_free :: "'f option list \<Rightarrow> nat option" where
  "first_free [] = None"
| "first_free (f # fs) = (if f = None then Some 0 else map_option Suc (first_free fs))"

definition allocate_fd_for :: "nat \<Rightarrow> 'f \<Rightarrow> ('q, 'i, 'f, nat) kcall" where
  "allocate_fd_for t file = bind (get_task t) (\<lambda>x.
     case first_free (o_files x) of
       Some i \<Rightarrow> bind (upd_task t (\<lambda>x. x\<lparr>o_files := (o_files x)[i := Some file]\<rparr>)) (\<lambda>_. ret i)
     | None \<Rightarrow> fail (SysErr SysTooManyOpenFiles))"

definition get_file :: "nat \<Rightarrow> nat \<Rightarrow> ('q, 'i, 'f, 'f) kcall" where
  "get_file t fd = bind (get_task t) (\<lambda>x.
     if fd < length (o_files x) then
       (case o_files x ! fd of Some f \<Rightarrow> ret f | None \<Rightarrow> fail (SysErr SysBadFileDescriptor))
     else fail (SysErr SysBadFileDescriptor))"

definition set_file :: "nat \<Rightarrow> nat \<Rightarrow> 'f \<Rightarrow> ('q, 'i, 'f, 'f option) kcall" where
  "set_file t fd file = bind (get_task t) (\<lambda>x.
     if fd < length (o_files x) then
       bind (upd_task t (\<lambda>x. x\<lparr>o_files := (o_files x)[fd := Some file]\<rparr>)) (\<lambda>_. ret (o_files x ! fd))
     else fail (SysErr SysBadFileDescriptor))"

section \<open>Sleeping and switching\<close>

definition TICK_TIME_DUR :: nat where "TICK_TIME_DUR = 10000000"

text \<open>\<open>sleep_rem\<close> up to the switch, with the time it started, and after it, with the time that remained.\<close>

definition sleep_begin :: "nat \<Rightarrow> ('q, 'i, 'f, nat) kcall" where
  "sleep_begin dur =
     bind current_task_or_err (\<lambda>t.
     bind (get_task t) (\<lambda>x.
       if is_interrupted_by_signal x then fail (SysErr SysInterrupted)
       else (\<lambda>s. case list_add_event (cpuid s) (next_event_id s) (timer_now s) (dur - TICK_TIME_DUR) t (timers s (cpuid s)) of (i, evs) \<Rightarrow>
         bind (upd_task t (\<lambda>x. x\<lparr>sleep_timer_event := Some i, t_state := Interruptible\<rparr>)) (\<lambda>_. ret (timer_now s))
           (s\<lparr>timers := (timers s)(cpuid s := evs), next_event_id := (next_event_id s + 1) mod usize_limit\<rparr>))))"

definition sleep_resume :: "nat \<Rightarrow> nat \<Rightarrow> ('q, 'i, 'f, nat option) kcall" where
  "sleep_resume dur start =
     bind current_task_or_err (\<lambda>t.
     bind (get_task t) (\<lambda>x.
     bind (assert_that (sleep_timer_event x = None)) (\<lambda>_ s.
       (Ok (if is_interrupted_by_signal x then Some (dur - (timer_now s - start)) else None), s))))"

text \<open>The callback of the event, run by a tick.\<close>

definition wake_sleeper :: "'q rbtree \<Rightarrow> nat \<Rightarrow> ('q, 'i, 'f, unit) kcall" where
  "wake_sleeper R t = bind (get_task t) (\<lambda>x.
     if sleep_timer_event x = None then ret ()
     else bind (upd_task t (\<lambda>x. x\<lparr>sleep_timer_event := None\<rparr>)) (\<lambda>_.
       if t_state x = Interruptible then wakeup R t else ret ()))"

text \<open>A tick on the CPU: the list of events is locked while it runs the callbacks.\<close>

definition timer_tick :: "'q rbtree \<Rightarrow> nat \<Rightarrow> ('q, 'i, 'f, unit) kcall" where
  "timer_tick R jiffies = (\<lambda>s.
     case list_tick (\<lambda>t (r, s). case r of Ok _ \<Rightarrow> wake_sleeper R t s | _ \<Rightarrow> (r, s)) jiffies (timers s (cpuid s)) (Ok (), s) of
       (evs, (r, s')) \<Rightarrow> (r, s'\<lparr>timers := (timers s')(cpuid s := evs)\<rparr>))"

definition yield_now :: "('q, 'i, 'f, unit) kcall" where
  "yield_now = (\<lambda>s. case current s of Some t \<Rightarrow> upd_task t (\<lambda>x. x\<lparr>t_state := Runable\<rparr>) s | None \<Rightarrow> (Ok (), s))"

definition suspend :: "nat \<Rightarrow> ('q, 'i, 'f, unit) kcall" where
  "suspend t = upd_task t (\<lambda>x. x\<lparr>t_state := Interruptible\<rparr>)"

text \<open>The loop of the scheduler: before the switch to a task, and after the task has switched back.\<close>

definition schedule :: "'q rbtree \<Rightarrow> ('q, 'i, 'f, nat option) kcall" where
  "schedule R = (\<lambda>s.
     bind (on_sched (cfs_pick_next_task R (timer_now s))) (\<lambda>r.
       case r of
         None \<Rightarrow> ret None
       | Some t \<Rightarrow>
           bind (get_task t) (\<lambda>x.
           bind (assert_that (t_state x = Runable)) (\<lambda>_.
           bind (upd_task t (\<lambda>x. x\<lparr>t_state := Running\<rparr>)) (\<lambda>_ s. (Ok (Some t), s\<lparr>current := Some t\<rparr>))))) s)"

definition switched_back :: "'q rbtree \<Rightarrow> nat \<Rightarrow> ('q, 'i, 'f, unit) kcall" where
  "switched_back R t =
     bind (get_task t) (\<lambda>x.
     bind (if t_state x = Runable then enqueue_ready R t else ret ()) (\<lambda>_ s. (Ok (), s\<lparr>current := None\<rparr>)))"

section \<open>Wait queues\<close>

text \<open>
  The guard of a wait queue (src/kernel/src/sync/wait.rs): the queue is a list of tids, held with the lock of the queue. The waits
  are split at the switch.
\<close>

definition wq_wakeup :: "'q rbtree \<Rightarrow> nat \<Rightarrow> ('q, 'i, 'f, unit) kcall" where
  "wq_wakeup R t = bind (get_task t) (\<lambda>x. if t_state x = Zombie then ret () else wakeup R t)"

definition wq_block :: "task_state \<Rightarrow> nat list \<Rightarrow> ('q, 'i, 'f, nat list) kcall" where
  "wq_block st queue = (\<lambda>s. case current s of
     None \<Rightarrow> (Ok queue, s)
   | Some t \<Rightarrow>
       bind (get_task t) (\<lambda>x.
       bind (assert_that (t_state x = Running)) (\<lambda>_.
       bind (upd_task t (\<lambda>x. x\<lparr>t_state := st\<rparr>)) (\<lambda>_. ret (queue @ [t])))) s)"

definition wq_wait :: "nat list \<Rightarrow> ('q, 'i, 'f, nat list) kcall" where
  "wq_wait = wq_block Blocked"

definition wq_interruptible_wait :: "nat list \<Rightarrow> ('q, 'i, 'f, nat list) kcall" where
  "wq_interruptible_wait = wq_block Interruptible"

text \<open>What follows the switch of \<open>interruptible_wait\<close>: true when the wait was interrupted.\<close>

definition wq_resume :: "nat list \<Rightarrow> ('q, 'i, 'f, bool \<times> nat list) kcall" where
  "wq_resume queue =
     bind current_task_or_err (\<lambda>t.
     bind (get_task t) (\<lambda>x.
       if is_interrupted_by_signal x then ret (True, filter (\<lambda>u. u \<noteq> t) queue) else ret (False, queue)))"

definition wq_signal :: "'q rbtree \<Rightarrow> nat list \<Rightarrow> ('q, 'i, 'f, bool \<times> nat list) kcall" where
  "wq_signal R queue = (case queue of
     [] \<Rightarrow> ret (False, [])
   | t # ts \<Rightarrow> bind (wq_wakeup R t) (\<lambda>_. ret (True, ts)))"

definition wq_signal_all :: "'q rbtree \<Rightarrow> nat list \<Rightarrow> ('q, 'i, 'f, nat) kcall" where
  "wq_signal_all R queue = bind (for_each queue (wq_wakeup R)) (\<lambda>_. ret (length queue))"

section \<open>Sending and handling signals\<close>

text \<open>A signal is sent to a task that is not dropped.\<close>

definition send_signal :: "'q rbtree \<Rightarrow> nat \<Rightarrow> signal_flags \<Rightarrow> ('q, 'i, 'f, unit) kcall" where
  "send_signal R t sig =
     (if sig = 0 then ret ()
      else bind (upd_task t (\<lambda>x. x\<lparr>signals := signals x OR sig\<rparr>)) (\<lambda>_.
           bind (get_task t) (\<lambda>x.
             if flags_contain (signal_mask x) sig then ret () else wakeup_if_interruptible R t)))"

text \<open>A signal for a group goes to its members that are not dropped.\<close>

fun group_signal :: "'q rbtree \<Rightarrow> nat list \<Rightarrow> signal \<Rightarrow> ('q, 'i, 'f, unit) kcall" where
  "group_signal R [] sig s = (Ok (), s)"
| "group_signal R (t # ts) sig s =
     (if tasks s t = None then group_signal R ts sig s
      else bind (send_signal R t (to_signal_flags sig)) (\<lambda>_. group_signal R ts sig) s)"

definition send_signal_to_current :: "'q rbtree \<Rightarrow> signal_flags \<Rightarrow> ('q, 'i, 'f, unit) kcall" where
  "send_signal_to_current R sig = bind current_task_or_err (\<lambda>t. send_signal R t sig)"

definition kill_group :: "'q rbtree \<Rightarrow> nat \<Rightarrow> signal option \<Rightarrow> ('q, 'i, 'f, unit) kcall" where
  "kill_group R t sig =
     bind (get_task t) (\<lambda>x.
     bind (get_group x) (\<lambda>g.
       case sig of Some sig \<Rightarrow> group_signal R (grp_tasks g) sig | None \<Rightarrow> ret ()))"

text \<open>\<open>tid\<close> is an \<open>i64\<close>; negating its least value overflows.\<close>

definition kill :: "'q rbtree \<Rightarrow> int \<Rightarrow> signal option \<Rightarrow> ('q, 'i, 'f, unit) kcall" where
  "kill R tid sig =
     bind current_task_or_err (\<lambda>c.
       if tid = 0 then kill_group R c sig
       else if tid = - 1 then fail (SysErr SysUnsupported)
       else
         bind (assert_that (tid \<noteq> - (2 ^ 63))) (\<lambda>_.
         bind (get_task_by_tid (nat \<bar>tid\<bar>)) (\<lambda>t.
         bind (get_task c) (\<lambda>cx.
         bind (get_task t) (\<lambda>x.
           if sid cx \<noteq> sid x then fail (SysErr SysNotPermitted)
           else if tid < - 1 then kill_group R t sig
           else case sig of Some sig \<Rightarrow> send_signal R t (to_signal_flags sig) | None \<Rightarrow> ret ())))))"

text \<open>The old mask is returned only when the mask is set.\<close>

definition sigprocmask :: "proc_mask_how \<Rightarrow> signal_flags \<Rightarrow> ('q, 'i, 'f, signal_flags) kcall" where
  "sigprocmask how m =
     bind current_task_or_err (\<lambda>t.
     bind (get_task t) (\<lambda>x.
       case how of
         BLOCKED \<Rightarrow> fail (SysErr SysUnsupported)
       | UNBLOCKED \<Rightarrow> fail (SysErr SysUnsupported)
       | SETMASK \<Rightarrow> bind (upd_task t (\<lambda>x. x\<lparr>signal_mask := m\<rparr>)) (\<lambda>_. ret (signal_mask x))))"

definition sigaction :: "signal \<Rightarrow> signal_action \<Rightarrow> ('q, 'i, 'f, signal_action option) kcall" where
  "sigaction signum act =
     (if signum = SIGKILL \<or> signum = SIGSTOP then fail (SysErr SysNotPermitted)
      else bind current_task_or_err (\<lambda>t.
           bind (get_task t) (\<lambda>x.
           bind (upd_task t (\<lambda>x. x\<lparr>signal_actions := (signal_actions x)[signal_num signum := UserHandler act]\<rparr>)) (\<lambda>_.
             ret (case signal_actions x ! signal_num signum of UserHandler old \<Rightarrow> Some old | _ \<Rightarrow> None)))))"

definition handle_action :: "signal \<Rightarrow> signal_action_kind \<Rightarrow> ('i, 'f) task \<Rightarrow> ('i, 'f) task" where
  "handle_action sig action x =
     (let bit' = to_signal_flags sig; done = (\<lambda>x. x\<lparr>signals := flags_remove (signals x) bit'\<rparr>) in
      case action of
        Terminate \<Rightarrow> done (x\<lparr>is_killed := True, exit_status := 128 + int (signal_num sig)\<rparr>)
      | Stop \<Rightarrow> done (x\<lparr>is_frozen := True\<rparr>)
      | Continue \<Rightarrow> done (x\<lparr>is_frozen := False\<rparr>)
      | Ignored \<Rightarrow> done x
      | UserHandler a \<Rightarrow>
          if flags_contain (act_mask a) bit' then x
          else done (x\<lparr>trapframe_backup := Some (tframe x),
                       tframe := set_arg0 (of_nat (signal_num sig)) (set_ret_pc (sig_handler a) (tframe x))\<rparr>))"

definition handle_one :: "nat \<Rightarrow> ('i, 'f) task \<Rightarrow> ('i, 'f) task" where
  "handle_one n x =
     (case flag_of_bit n of
        None \<Rightarrow> x
      | Some flag \<Rightarrow>
          if \<not> flags_contain (signals x) flag \<or> flags_contain (signal_mask x) flag then x
          else let sig = the (signal_of_num n); action = signal_actions x ! signal_num sig in
            if (case action of UserHandler a \<Rightarrow> True | _ \<Rightarrow> False) \<and> trapframe_backup x \<noteq> None then x
            else handle_action sig action x)"

definition handle_pending_signals :: "('i, 'f) task \<Rightarrow> ('i, 'f) task" where
  "handle_pending_signals x = fold handle_one [0..<MAX_SIG + 1] x"

text \<open>One round of the loop of \<open>handle_signals\<close>: true when the task goes on, false when it is suspended until a signal comes.\<close>

definition handle_signals_round :: "('q, 'i, 'f, bool) kcall" where
  "handle_signals_round =
     bind current_task_or_err (\<lambda>t.
     bind (upd_task t handle_pending_signals) (\<lambda>_.
     bind (get_task t) (\<lambda>x.
       if is_killed x \<or> \<not> is_frozen x then ret True
       else bind (suspend t) (\<lambda>_. ret False))))"

definition sigreturn :: "('q, 'i, 'f, unit) kcall" where
  "sigreturn =
     bind current_task_or_err (\<lambda>t.
     bind (get_task t) (\<lambda>x.
       case trapframe_backup x of
         Some tf \<Rightarrow> upd_task t (\<lambda>x. x\<lparr>trapframe_backup := None, tframe := tf\<rparr>)
       | None \<Rightarrow> fail (SysErr SysNotPermitted)))"

end
