(* ===== verification/Rw_TaskSpec.thy ===== *)
theory Rw_TaskSpec
  imports Rw_Task
begin

text \<open>
  The tasks of the kernel as a machine: a list of operations (launch, exit, wait, sleep, signals, ticks of the timer, the scheduler)
  runs on the state of Rw\_Task, and an invariant relates the states of the tasks, the tree of ready tasks, the task table and
  the timer events. The properties are that no run panics, that exit and wait hand over the exit status, that a sleeper is woken by its event, and how
  signals act.
\<close>

section \<open>Postconditions of calls\<close>

definition holds :: "('a \<Rightarrow> 's \<Rightarrow> bool) \<Rightarrow> ('s \<Rightarrow> bool) \<Rightarrow> ('e, 'a) outcome \<times> 's \<Rightarrow> bool" where
  "holds Q E rs \<longleftrightarrow> (case rs of (Ok a, s) \<Rightarrow> Q a s | (Err e, s) \<Rightarrow> E s | (Panic, s) \<Rightarrow> False)"

named_theorems holds_simps \<open>postconditions of the primitive calls\<close>

lemma holds_pair [holds_simps]:
  "holds Q E (Ok a, s) = Q a s" "holds Q E (Err e, s) = E s" "holds Q E (Panic, s) = False"
  by (simp_all add: holds_def)

lemma holds_bind [holds_simps]: "holds Q E (bind m k s) = holds (\<lambda>a s'. holds Q E (k a s')) E (m s)"
  by (auto simp: holds_def bind_def split: prod.splits outcome.splits)

lemma holds_ret [holds_simps]: "holds Q E (ret a s) = Q a s"
  by (simp add: holds_def)

lemma holds_fail [holds_simps]: "holds Q E (fail e s) = E s"
  by (simp add: holds_def)

lemma holds_assert [holds_simps]: "holds Q E (assert_that b s) = (b \<and> Q () s)"
  by (simp add: holds_def assert_that_def)

lemma holds_mono: "holds Q E rs \<Longrightarrow> (\<And>a s. Q a s \<Longrightarrow> Q' a s) \<Longrightarrow> (\<And>s. E s \<Longrightarrow> E' s) \<Longrightarrow> holds Q' E' rs"
  by (auto simp: holds_def split: prod.splits outcome.splits)

lemma holds_get_task [holds_simps]: "holds Q E (get_task t s) = (case tasks s t of Some x \<Rightarrow> Q x s | None \<Rightarrow> False)"
  by (simp add: get_task_def holds_def split: option.splits)

lemma holds_upd_task [holds_simps]: "holds Q E (upd_task t f s) = Q () (s\<lparr>tasks := (tasks s)(t := map_option f (tasks s t))\<rparr>)"
  by (simp add: upd_task_def holds_def)

lemma holds_current [holds_simps]: "holds Q E (current_task_or_err s) = (case current s of Some t \<Rightarrow> Q t s | None \<Rightarrow> E s)"
  by (simp add: current_task_or_err_def holds_def split: option.splits)

lemma holds_by_tid [holds_simps]: "holds Q E (get_task_by_tid t s) = (if t \<in> set (task_table s) then Q t s else E s)"
  by (simp add: get_task_by_tid_def holds_def)

lemma holds_init [holds_simps]: "holds Q E (get_init_task s) = (case init_task s of Some i \<Rightarrow> Q i s | None \<Rightarrow> False)"
  by (simp add: get_init_task_def holds_def split: option.splits)

lemma holds_remove_event [holds_simps]:
  "holds Q E (remove_event i s) = Q () (s\<lparr>timers := (timers s)(fst i := list_remove_event i (timers s (fst i)))\<rparr>)"
  by (simp add: remove_event_def holds_def)

section \<open>The invariant of the kernel\<close>

text \<open>The type of a task: the lengths of its arrays, the actions that cannot be changed, and a timer event only while it sleeps.\<close>

definition task_ok :: "('i, 'f) task \<Rightarrow> bool" where
  "task_ok x \<longleftrightarrow>
     length (signal_actions x) = MAX_SIG + 1 \<and> signal_actions x ! signal_num SIGKILL = Terminate \<and> signal_actions x ! signal_num SIGSTOP = Stop \<and>
     length (o_files x) = MAX_OPEN_FILES \<and> length (tframe x) = TF_LEN \<and> (\<forall>tf. trapframe_backup x = Some tf \<longrightarrow> length tf = TF_LEN) \<and>
     (t_state x \<noteq> Interruptible \<longrightarrow> sleep_timer_event x = None)"

text \<open>The timer events are exactly those of the tasks that sleep.\<close>

definition events_ok :: "('q, 'i, 'f) kern \<Rightarrow> bool" where
  "events_ok s \<longleftrightarrow>
     (\<forall>cpu. distinct (map event_id (timers s cpu))) \<and>
     (\<forall>cpu. \<forall>e\<in>set (timers s cpu). fst (event_id e) = cpu \<and> snd (event_id e) < next_event_id s \<and>
        (\<exists>x. tasks s (callback e) = Some x \<and> sleep_timer_event x = Some (event_id e))) \<and>
     (\<forall>t x i. tasks s t = Some x \<longrightarrow> sleep_timer_event x = Some i \<longrightarrow> (\<exists>e\<in>set (timers s (fst i)). event_id e = i \<and> callback e = t))"

lemma events_okD:
  assumes "events_ok s"
  shows "distinct (map event_id (timers s cpu))" "e \<in> set (timers s cpu) \<Longrightarrow> fst (event_id e) = cpu"
    "e \<in> set (timers s cpu) \<Longrightarrow> snd (event_id e) < next_event_id s"
    "e \<in> set (timers s cpu) \<Longrightarrow> \<exists>x. tasks s (callback e) = Some x \<and> sleep_timer_event x = Some (event_id e)"
    "tasks s t = Some x \<Longrightarrow> sleep_timer_event x = Some i \<Longrightarrow> \<exists>e\<in>set (timers s (fst i)). event_id e = i \<and> callback e = t"
  using assms unfolding events_ok_def by blast+

text \<open>A task other than the current one is in the tree of the scheduler exactly when it is runable.\<close>

definition kinv_mid :: "('q \<Rightarrow> (nat \<times> nat) list) \<Rightarrow> ('q, 'i, 'f) kern \<Rightarrow> bool" where
  "kinv_mid elems s \<longleftrightarrow>
     cfs_inv elems (sched_state s) \<and> distinct (task_table s) \<and> length (task_table s) \<le> MAX_TASKS \<and>
     ready elems (sched_state s) \<subseteq> set (task_table s) \<and> set (task_table s) \<subseteq> dom (tasks s) \<and>
     (\<forall>t x. tasks s t = Some x \<longrightarrow> task_ok x \<and> t < next_id s \<and> (t \<in> set (task_table s) \<or> t_state x \<in> {Initialized, Zombie}) \<and>
        (Some t \<noteq> current s \<longrightarrow> (t \<in> ready elems (sched_state s) \<longleftrightarrow> t_state x = Runable))) \<and>
     (\<forall>c. current s = Some c \<longrightarrow> c \<notin> ready elems (sched_state s) \<and> c \<in> set (task_table s)) \<and>
     (\<forall>i. init_task s = Some i \<longrightarrow> i \<in> dom (tasks s)) \<and> events_ok s"

definition kinv :: "('q \<Rightarrow> (nat \<times> nat) list) \<Rightarrow> ('q, 'i, 'f) kern \<Rightarrow> bool" where
  "kinv elems s \<longleftrightarrow> kinv_mid elems s \<and> (\<forall>c x. current s = Some c \<longrightarrow> tasks s c = Some x \<longrightarrow> t_state x = Running)"

lemma kinv_midD:
  assumes "kinv_mid elems s"
  shows "cfs_inv elems (sched_state s)" "distinct (task_table s)" "length (task_table s) \<le> MAX_TASKS"
    "ready elems (sched_state s) \<subseteq> set (task_table s)" "set (task_table s) \<subseteq> dom (tasks s)"
    "tasks s t = Some x \<Longrightarrow> task_ok x" "tasks s t = Some x \<Longrightarrow> t < next_id s"
    "tasks s t = Some x \<Longrightarrow> t \<in> set (task_table s) \<or> t_state x \<in> {Initialized, Zombie}"
    "tasks s t = Some x \<Longrightarrow> current s \<noteq> Some t \<Longrightarrow> t \<in> ready elems (sched_state s) \<longleftrightarrow> t_state x = Runable"
    "current s = Some t \<Longrightarrow> t \<notin> ready elems (sched_state s)" "current s = Some t \<Longrightarrow> t \<in> set (task_table s)"
    "init_task s = Some t \<Longrightarrow> \<exists>x. tasks s t = Some x" "events_ok s"
  using assms unfolding kinv_mid_def by auto

lemma kinvD: "kinv elems s \<Longrightarrow> kinv_mid elems s" "kinv elems s \<Longrightarrow> current s = Some c \<Longrightarrow> \<exists>x. tasks s c = Some x \<and> t_state x = Running"
  by (auto simp: kinv_def kinv_mid_def)

lemma kinv_midI:
  assumes "cfs_inv elems (sched_state s)" "distinct (task_table s)" "length (task_table s) \<le> MAX_TASKS"
    "ready elems (sched_state s) \<subseteq> set (task_table s)" "set (task_table s) \<subseteq> dom (tasks s)"
    "\<And>t x. tasks s t = Some x \<Longrightarrow> task_ok x \<and> t < next_id s \<and> (t \<in> set (task_table s) \<or> t_state x \<in> {Initialized, Zombie}) \<and>
       (Some t \<noteq> current s \<longrightarrow> (t \<in> ready elems (sched_state s) \<longleftrightarrow> t_state x = Runable))"
    "\<And>c. current s = Some c \<Longrightarrow> c \<notin> ready elems (sched_state s) \<and> c \<in> set (task_table s)"
    "\<And>i. init_task s = Some i \<Longrightarrow> i \<in> dom (tasks s)" "events_ok s"
  shows "kinv_mid elems s"
  using assms unfolding kinv_mid_def by blast

text \<open>Changes of a task that leave its state and its timer event alone; the state of the current task may change too.\<close>

lemma events_ok_upd:
  assumes "events_ok s" "\<And>x. tasks s t = Some x \<Longrightarrow> sleep_timer_event (f x) = sleep_timer_event x"
  shows "events_ok (s\<lparr>tasks := (tasks s)(t := map_option f (tasks s t))\<rparr>)"
  using assms unfolding events_ok_def by (auto split: if_splits) (metis option.map_sel option.sel)+

lemma kinv_mid_upd:
  assumes I: "kinv_mid elems s"
    and f: "\<And>x. tasks s t = Some x \<Longrightarrow> task_ok x \<Longrightarrow> task_ok (f x) \<and> sleep_timer_event (f x) = sleep_timer_event x \<and> (t_state (f x) = t_state x \<or> current s = Some t)"
  shows "kinv_mid elems (s\<lparr>tasks := (tasks s)(t := map_option f (tasks s t))\<rparr>)"
proof -
  have E: "events_ok (s\<lparr>tasks := (tasks s)(t := map_option f (tasks s t))\<rparr>)"
    by (rule events_ok_upd [OF kinv_midD(13) [OF I]]) (use f kinv_midD(6) [OF I] in blast)
  show ?thesis
  proof (rule kinv_midI, goal_cases)
    case (6 u x)
    show ?case
    proof (cases "u = t")
      case True
      then obtain y where y: "tasks s t = Some y" "x = f y" using 6 by auto
      note F = f [OF y(1) kinv_midD(6) [OF I y(1)]]
      show ?thesis using F True y kinv_midD(7,8,9) [OF I y(1)] kinv_midD(11) [OF I, of t] by (auto split: if_splits)
    next
      case False
      then show ?thesis using 6 kinv_midD(6,7,8,9) [OF I, of u x] by simp
    qed
  next
    case (5) then show ?case using kinv_midD(5) [OF I] by (auto simp: dom_def)
  next
    case (8 i) then show ?case using kinv_midD(12) [OF I, of i] by (auto simp: dom_def)
  qed (use kinv_midD [OF I] E in \<open>simp_all\<close>)
qed

section \<open>Waking a task\<close>

lemma events_ok_cong:
  assumes "events_ok s" "timers s' = timers s" "next_event_id s' = next_event_id s"
    "\<And>t. map_option sleep_timer_event (tasks s' t) = map_option sleep_timer_event (tasks s t)"
  shows "events_ok s'"
proof -
  have T: "(\<exists>x. tasks s' t = Some x \<and> sleep_timer_event x = i) \<longleftrightarrow> (\<exists>x. tasks s t = Some x \<and> sleep_timer_event x = i)" for t i
    using assms(4) [of t] by (cases "tasks s t"; cases "tasks s' t") auto
  have T': "(\<forall>t x i. tasks s' t = Some x \<longrightarrow> sleep_timer_event x = Some i \<longrightarrow> P t i) \<longleftrightarrow>
      (\<forall>t i. (\<exists>x. tasks s' t = Some x \<and> sleep_timer_event x = Some i) \<longrightarrow> P t i)" for P s' by blast
  show ?thesis using assms(1) unfolding events_ok_def assms(2,3) T' T .
qed

context rbtree_laws
begin

lemma ready_few: "kinv_mid elems s \<Longrightarrow> length (elems (ready_tree (sched_state s))) \<le> 128"
proof -
  assume I: "kinv_mid elems s"
  let ?ts = "map snd (elems (ready_tree (sched_state s)))"
  have "distinct ?ts" using kinv_midD(1) [OF I] by (simp add: cfs_inv_def)
  then have "length ?ts = card (set ?ts)" by (rule distinct_card [symmetric])
  also have "\<dots> \<le> card (set (task_table s))" using kinv_midD(4) [OF I] by (intro card_mono) auto
  also have "\<dots> \<le> 128" using card_length [of "task_table s"] kinv_midD(3) [OF I] by (simp add: MAX_TASKS_def)
  finally show ?thesis by simp
qed

lemma enqueue_ok:
  assumes I: "kinv_mid elems s" and nr: "t \<notin> ready elems (sched_state s)"
  obtains q where "cfs_enqueue_ready R t (sched_state s) = (Ok (), q)" "cfs_inv elems q" "ready elems q = insert t (ready elems (sched_state s))"
proof -
  have few: "length (elems (ready_tree (sched_state s))) < 2 ^ 40" using ready_few [OF I] by simp
  from cfs_enqueue_spec [OF kinv_midD(1) [OF I] nr few] obtain q ys zs where
    q: "cfs_enqueue_ready R t (sched_state s) = (Ok (), q)" "cfs_inv elems q" "elems (ready_tree (sched_state s)) = ys @ zs"
      "elems (ready_tree q) = ys @ (vruntime (attrs q t), t) # zs" by metis
  have "ready elems q = insert t (ready elems (sched_state s))" unfolding q(3,4) by auto
  then show thesis using q by (intro that)
qed

lemma wakeup_unchecked_ok:
  assumes I: "kinv_mid elems s" and x: "tasks s t = Some x" and st: "t_state x \<notin> {Runable, Zombie}" "t \<in> set (task_table s)"
    and ev: "sleep_timer_event x = None" and c: "current s \<noteq> Some t"
  obtains q where "wakeup_unchecked R t s = (Ok (), s\<lparr>tasks := (tasks s)(t \<mapsto> x\<lparr>t_state := Runable\<rparr>), sched_state := q\<rparr>)"
    "kinv_mid elems (s\<lparr>tasks := (tasks s)(t \<mapsto> x\<lparr>t_state := Runable\<rparr>), sched_state := q\<rparr>)"
    "ready elems q = insert t (ready elems (sched_state s))"
proof -
  let ?s = "s\<lparr>tasks := (tasks s)(t \<mapsto> x\<lparr>t_state := Runable\<rparr>)\<rparr>"
  have nr: "t \<notin> ready elems (sched_state s)" using kinv_midD(9) [OF I x c] st by simp
  obtain q where q: "cfs_enqueue_ready R t (sched_state s) = (Ok (), q)" "cfs_inv elems q"
    and rq: "ready elems q = insert t (ready elems (sched_state s))" by (rule enqueue_ok [OF I nr])
  have w: "wakeup_unchecked R t s = (Ok (), ?s\<lparr>sched_state := q\<rparr>)"
    using q(1) x by (simp add: wakeup_unchecked_def upd_task_def enqueue_ready_def on_sched_def bind_def)
  have "kinv_mid elems (?s\<lparr>sched_state := q\<rparr>)"
  proof (rule kinv_midI, goal_cases)
    case (6 u y)
    show ?case
    proof (cases "u = t")
      case True
      then show ?thesis using 6 kinv_midD(6,7,8) [OF I x] st ev rq by (auto simp: task_ok_def)
    next
      case False
      then show ?thesis using 6 kinv_midD(6,7,8,9) [OF I, of u y] rq by simp
    qed
  next
    case (9) show ?case by (rule events_ok_cong [OF kinv_midD(13) [OF I]]) (use x in simp_all)
  qed (use kinv_midD [OF I] q(2) rq st c x in \<open>auto\<close>)
  then show thesis using w rq by (intro that [of q]) simp_all
qed

end

section \<open>What the operations keep\<close>

text \<open>A task that has been started, has not exited, and is not asleep on a timer.\<close>

definition alive :: "('q, 'i, 'f) kern \<Rightarrow> nat \<Rightarrow> bool" where
  "alive s t \<longleftrightarrow> (\<exists>x. tasks s t = Some x \<and> t_state x \<notin> {Initialized, Zombie} \<and> sleep_timer_event x = None)"

lemma alive_tasks: "tasks s' = tasks s \<Longrightarrow> alive s' t = alive s t"
  by (simp add: alive_def)

text \<open>An operation keeps the invariant, the current task and its state, the init task, the live tasks and those that are blocked; a task that waits for a child is at most woken.\<close>

definition kpres :: "('q \<Rightarrow> (nat \<times> nat) list) \<Rightarrow> ('q, 'i, 'f) kern \<Rightarrow> ('q, 'i, 'f) kern \<Rightarrow> bool" where
  "kpres elems s s' \<longleftrightarrow> kinv_mid elems s' \<and> current s' = current s \<and> init_task s' = init_task s \<and>
     (\<forall>t x. tasks s t = Some x \<longrightarrow> t_state x \<in> {Blocked, Waitting, Runable} \<or> current s = Some t \<longrightarrow>
        (\<exists>x'. tasks s' t = Some x' \<and> (t_state x' = t_state x \<or> t_state x = Waitting \<and> t_state x' = Runable \<and> current s \<noteq> Some t))) \<and>
     (\<forall>t. alive s t \<longrightarrow> alive s' t)"

lemma current_live: "kinv_mid elems s \<Longrightarrow> current s = Some c \<Longrightarrow> \<exists>x. tasks s c = Some x"
  using kinv_midD(5,11) [of elems s] by blast

lemma table_live: "kinv_mid elems s \<Longrightarrow> t \<in> set (task_table s) \<Longrightarrow> \<exists>x. tasks s t = Some x"
  using kinv_midD(5) [of elems s] by blast

definition busy :: "('q, 'i, 'f) kern \<Rightarrow> bool" where
  "busy s \<longleftrightarrow> (\<forall>c x. current s = Some c \<longrightarrow> tasks s c = Some x \<longrightarrow> t_state x \<notin> {Blocked, Waitting, Interruptible, Initialized})"

lemma busy_timers [simp]: "busy (s\<lparr>timers := z\<rparr>) = busy s"
  by (simp add: busy_def)

lemma kpres_refl: "kinv_mid elems s \<Longrightarrow> kpres elems s s"
  by (simp add: kpres_def)

lemma kpresD:
  assumes "kpres elems s s'"
  shows "current s' = current s" "init_task s' = init_task s"
    "tasks s t = Some x \<Longrightarrow> t_state x = Blocked \<or> current s = Some t \<Longrightarrow> \<exists>x'. tasks s' t = Some x' \<and> t_state x' = t_state x"
    "tasks s t = Some x \<Longrightarrow> t_state x \<in> {Waitting, Runable} \<Longrightarrow> \<exists>x'. tasks s' t = Some x' \<and> t_state x' \<in> {t_state x, Runable}"
    "alive s t \<Longrightarrow> alive s' t"
  using assms unfolding kpres_def by fastforce+

lemma kpres_trans:
  assumes "kpres elems s s'" "kpres elems s' s''"
  shows "kpres elems s s''"
proof -
  have "\<exists>x'. tasks s'' t = Some x' \<and> (t_state x' = t_state x \<or> t_state x = Waitting \<and> t_state x' = Runable \<and> current s \<noteq> Some t)"
    if x: "tasks s t = Some x" and y: "t_state x \<in> {Blocked, Waitting, Runable} \<or> current s = Some t" for t x
  proof -
    obtain x' where x': "tasks s' t = Some x'" "t_state x' = t_state x \<or> t_state x = Waitting \<and> t_state x' = Runable \<and> current s \<noteq> Some t"
      using assms(1) x y unfolding kpres_def by blast
    then have "t_state x' \<in> {Blocked, Waitting, Runable} \<or> current s' = Some t" using y assms(1) unfolding kpres_def by auto
    then obtain x'' where "tasks s'' t = Some x''" "t_state x'' = t_state x' \<or> t_state x' = Waitting \<and> t_state x'' = Runable \<and> current s' \<noteq> Some t"
      using assms(2) x'(1) unfolding kpres_def by blast
    then show ?thesis using x'(2) assms(1) unfolding kpres_def by auto
  qed
  then show ?thesis using assms unfolding kpres_def by simp
qed

lemma kpres_mid: "kpres elems s s' \<Longrightarrow> kinv_mid elems s'"
  by (simp add: kpres_def)

lemma kpres_busy: "kinv_mid elems s \<Longrightarrow> kpres elems s s' \<Longrightarrow> busy s \<Longrightarrow> busy s'"
  using current_live [of elems s] kpresD(1,3) [of elems s s'] unfolding busy_def by (metis option.inject)

lemma kinv_busy: "kinv elems s \<Longrightarrow> busy s"
  by (auto simp: kinv_def busy_def)

lemma kpres_kinv: "kinv elems s \<Longrightarrow> kpres elems s s' \<Longrightarrow> kinv elems s'"
  using kinvD(2) [of elems s] kpresD(1,3) [of elems s s'] kpres_mid [of elems s s'] unfolding kinv_def by (metis option.inject)

lemma kinv_mid_irrelevant [simp]:
  "kinv_mid elems (s\<lparr>sessions := z\<rparr>) = kinv_mid elems s" "kinv_mid elems (s\<lparr>timer_now := n\<rparr>) = kinv_mid elems s" "kinv_mid elems (s\<lparr>cpuid := n\<rparr>) = kinv_mid elems s"
  by (simp_all add: kinv_mid_def events_ok_def)

lemma kpres_sessions [simp]: "kpres elems s (s'\<lparr>sessions := z\<rparr>) = kpres elems s s'" "kpres elems (s\<lparr>sessions := z\<rparr>) s' = kpres elems s s'"
  by (simp_all add: kpres_def alive_def)

lemma kpres_upd:
  assumes I: "kinv_mid elems s"
    and f: "\<And>x. tasks s t = Some x \<Longrightarrow> task_ok x \<Longrightarrow> task_ok (f x) \<and> sleep_timer_event (f x) = sleep_timer_event x \<and> t_state (f x) = t_state x"
  shows "kpres elems s (s\<lparr>tasks := (tasks s)(t := map_option f (tasks s t))\<rparr>)"
  using kinv_mid_upd [OF I, of t f] f kinv_midD(6) [OF I] by (auto simp: kpres_def alive_def)

text \<open>A sequence of calls keeps what its parts keep.\<close>

abbreviation khold :: "('q \<Rightarrow> (nat \<times> nat) list) \<Rightarrow> ('q, 'i, 'f) kern \<Rightarrow> (kerror, 'a) outcome \<times> ('q, 'i, 'f) kern \<Rightarrow> bool" where
  "khold elems s \<equiv> holds (\<lambda>_. kpres elems s) (kpres elems s)"

abbreviation kdone :: "('q \<Rightarrow> (nat \<times> nat) list) \<Rightarrow> ('q, 'i, 'f) kern \<Rightarrow> (kerror, 'a) outcome \<times> ('q, 'i, 'f) kern \<Rightarrow> bool" where
  "kdone elems s \<equiv> holds (\<lambda>_. kpres elems s) (\<lambda>_. False)"

lemma kdone_khold: "kdone elems s rs \<Longrightarrow> khold elems s rs"
  by (erule holds_mono) simp_all

lemma kdone_trans: "kpres elems s s' \<Longrightarrow> kdone elems s' rs \<Longrightarrow> kdone elems s rs"
  by (erule holds_mono) (auto intro: kpres_trans)

lemma khold_trans: "kpres elems s s' \<Longrightarrow> khold elems s' rs \<Longrightarrow> khold elems s rs"
  by (erule holds_mono) (auto intro: kpres_trans)

lemma khold_bind:
  assumes "khold elems s (m s)" "\<And>a s'. kpres elems s s' \<Longrightarrow> khold elems s' (k a s')"
  shows "khold elems s (bind m k s)"
  unfolding holds_bind
proof (rule holds_mono [OF assms(1)])
  fix a s' assume p: "kpres elems s s'"
  show "khold elems s (k a s')" by (rule holds_mono [OF assms(2) [OF p]]) (erule kpres_trans [OF p])+
qed

lemma kdone_bind:
  assumes "kdone elems s (m s)" "\<And>a s'. kpres elems s s' \<Longrightarrow> kdone elems s' (k a s')"
  shows "kdone elems s (bind m k s)"
  unfolding holds_bind by (rule holds_mono [OF assms(1)]) (auto intro: kdone_trans assms(2))

lemma kdone_upd:
  assumes "kinv_mid elems s"
    and "\<And>x. tasks s t = Some x \<Longrightarrow> task_ok x \<Longrightarrow> task_ok (f x) \<and> sleep_timer_event (f x) = sleep_timer_event x \<and> t_state (f x) = t_state x"
  shows "kdone elems s (upd_task t f s)"
  using kpres_upd [OF assms] by (simp add: holds_simps)

lemma khold_upd:
  assumes "kinv_mid elems s"
    and "\<And>x. tasks s t = Some x \<Longrightarrow> task_ok x \<Longrightarrow> task_ok (f x) \<and> sleep_timer_event (f x) = sleep_timer_event x \<and> t_state (f x) = t_state x"
  shows "khold elems s (upd_task t f s)"
  using kpres_upd [OF assms] by (simp add: holds_simps)

lemma khold_ret: "kinv_mid elems s \<Longrightarrow> khold elems s (ret a s)"
  by (simp add: holds_simps kpres_refl)

lemma khold_fail: "kinv_mid elems s \<Longrightarrow> khold elems s (fail e s)"
  by (simp add: holds_simps kpres_refl)

lemma dead_task:
  assumes "kinv_mid elems s" "tasks s t = None"
  shows "t \<notin> set (task_table s)" "current s \<noteq> Some t"
  using table_live [OF assms(1), of t] current_live [OF assms(1), of t] assms(2) by auto

context rbtree_laws
begin

lemma khold_wake:
  assumes I: "kinv_mid elems s" and b: "busy s" and x: "tasks s t = Some x" and st: "t_state x \<in> {Waitting, Interruptible, Initialized}" "t \<in> set (task_table s)"
    and ev: "sleep_timer_event x = None"
  shows "kdone elems s (wakeup_unchecked R t s)"
proof -
  have c: "current s \<noteq> Some t" using b x st by (auto simp: busy_def)
  have "t_state x \<notin> {Runable, Zombie}" using st by auto
  then obtain q where "wakeup_unchecked R t s = (Ok (), s\<lparr>tasks := (tasks s)(t \<mapsto> x\<lparr>t_state := Runable\<rparr>), sched_state := q\<rparr>)"
    "kinv_mid elems (s\<lparr>tasks := (tasks s)(t \<mapsto> x\<lparr>t_state := Runable\<rparr>), sched_state := q\<rparr>)"
    by (rule wakeup_unchecked_ok [OF I x _ st(2) ev c])
  then show ?thesis using c x st by (auto simp: holds_simps kpres_def alive_def)
qed

lemma khold_wake_waiting:
  assumes I: "kinv_mid elems s" and b: "busy s" and x: "tasks s t = Some x"
  shows "kdone elems s (wakeup_if_waiting R t s)"
proof (cases "t_state x = Waitting")
  case True
  then have "t \<in> set (task_table s)" "sleep_timer_event x = None" using kinv_midD(6,8) [OF I x] by (auto simp: task_ok_def)
  then show ?thesis using khold_wake [OF I b x] True x by (simp add: wakeup_if_waiting_def holds_simps)
next
  case False
  then show ?thesis using x I by (simp add: wakeup_if_waiting_def holds_simps kpres_refl)
qed

text \<open>A task that is woken out of its sleep loses its event.\<close>

lemma clear_event_ok:
  assumes I: "kinv_mid elems s" and x: "tasks s t = Some x" "sleep_timer_event x = Some i"
  shows "kpres elems s (s\<lparr>tasks := (tasks s)(t \<mapsto> x\<lparr>sleep_timer_event := None\<rparr>), timers := (timers s)(fst i := list_remove_event i (timers s (fst i)))\<rparr>)"
proof -
  let ?s = "s\<lparr>tasks := (tasks s)(t \<mapsto> x\<lparr>sleep_timer_event := None\<rparr>), timers := (timers s)(fst i := list_remove_event i (timers s (fst i)))\<rparr>"
  have st: "t_state x = Interruptible" using kinv_midD(6) [OF I x(1)] x(2) by (simp add: task_ok_def)
  note E = kinv_midD(13) [OF I]
  have o: "callback e = t" if "e \<in> set (timers s cpu)" "event_id e = i" for e cpu
  proof -
    from events_okD(5) [OF E x] obtain e' where e': "e' \<in> set (timers s (fst i))" "event_id e' = i" "callback e' = t" by blast
    have "cpu = fst i" using events_okD(2) [OF E that(1)] that(2) by simp
    then have "e = e'" using events_okD(1) [OF E, of cpu] that e' by (metis distinct_map inj_onD)
    then show ?thesis using e' by simp
  qed
  have "events_ok ?s"
  proof -
    have "distinct (map event_id (timers ?s cpu))" for cpu
      using events_okD(1) [OF E, of cpu] by (auto simp: list_remove_event_def distinct_map_filter)
    moreover have "fst (event_id e) = cpu \<and> snd (event_id e) < next_event_id s \<and> (\<exists>x. tasks ?s (callback e) = Some x \<and> sleep_timer_event x = Some (event_id e))"
      if "e \<in> set (timers ?s cpu)" for cpu e
    proof -
      have m: "e \<in> set (timers s cpu)" using that by (auto simp: list_remove_event_def split: if_splits)
      obtain y where y: "tasks s (callback e) = Some y" "sleep_timer_event y = Some (event_id e)" using events_okD(4) [OF E m] by blast
      have "event_id e \<noteq> i" using that events_okD(2) [OF E m] by (auto simp: list_remove_event_def split: if_splits)
      then have "callback e \<noteq> t" using y x by auto
      then show ?thesis using y events_okD(2,3) [OF E m] by simp
    qed
    moreover have "\<exists>e\<in>set (timers ?s (fst j)). event_id e = j \<and> callback e = u" if "tasks ?s u = Some y" "sleep_timer_event y = Some j" for u y j
    proof -
      have u: "u \<noteq> t" "tasks s u = Some y" using that by (auto split: if_splits)
      from events_okD(5) [OF E u(2) that(2)] obtain e where e: "e \<in> set (timers s (fst j))" "event_id e = j" "callback e = u" by blast
      have "j \<noteq> i" using o [OF e(1)] e u by auto
      then show ?thesis using e by (auto simp: list_remove_event_def)
    qed
    ultimately show ?thesis unfolding events_ok_def by simp
  qed
  moreover have "kinv_mid elems ?s"
  proof (rule kinv_midI, goal_cases)
    case (6 u y)
    then show ?case using kinv_midD(6,7,8,9) [OF I, of u] x(1) st by (auto simp: task_ok_def split: if_splits)
  qed (use kinv_midD [OF I] calculation x in \<open>auto\<close>)
  ultimately show ?thesis using x st by (auto simp: kpres_def alive_def)
qed

lemma khold_wake_interruptible:
  assumes I: "kinv_mid elems s" and b: "busy s" and x: "tasks s t = Some x"
  shows "kdone elems s (wakeup_if_interruptible R t s)"
proof (cases "t_state x = Waitting \<or> t_state x = Interruptible")
  case False
  then show ?thesis using x I by (simp add: wakeup_if_interruptible_def holds_simps kpres_refl)
next
  case True
  have tab: "t \<in> set (task_table s)" using kinv_midD(8) [OF I x] True by auto
  show ?thesis
  proof (cases "sleep_timer_event x")
    case None
    then show ?thesis using khold_wake [OF I b x] True tab x by (auto simp: wakeup_if_interruptible_def holds_simps)
  next
    case (Some i)
    let ?s = "s\<lparr>tasks := (tasks s)(t \<mapsto> x\<lparr>sleep_timer_event := None\<rparr>), timers := (timers s)(fst i := list_remove_event i (timers s (fst i)))\<rparr>"
    note C = clear_event_ok [OF I x Some]
    have "kdone elems ?s (wakeup_unchecked R t ?s)"
      by (rule khold_wake [OF kpres_mid [OF C] kpres_busy [OF I C b]]) (use True tab in auto)
    then have "kdone elems s (wakeup_unchecked R t ?s)" by (rule kdone_trans [OF C])
    then show ?thesis using True Some x by (simp add: wakeup_if_interruptible_def holds_simps)
  qed
qed

lemma khold_send_signal:
  assumes I: "kinv_mid elems s" and b: "busy s" and x: "tasks s t = Some x"
  shows "kdone elems s (send_signal R t sig s)"
proof -
  let ?x = "x\<lparr>signals := signals x OR sig\<rparr>" let ?s = "s\<lparr>tasks := (tasks s)(t \<mapsto> ?x)\<rparr>"
  have U: "kpres elems s ?s" using kpres_upd [OF I, of t "\<lambda>x. x\<lparr>signals := signals x OR sig\<rparr>"] x by (simp add: task_ok_def)
  have "kdone elems ?s (wakeup_if_interruptible R t ?s)"
    by (rule khold_wake_interruptible [OF kpres_mid [OF U] kpres_busy [OF I U b]]) simp
  then have "kdone elems s (wakeup_if_interruptible R t ?s)" by (rule kdone_trans [OF U])
  then show ?thesis using x U I by (auto simp: send_signal_def holds_simps kpres_refl)
qed

lemma khold_group_signal: "kinv_mid elems s \<Longrightarrow> busy s \<Longrightarrow> khold elems s (group_signal R ts sig s)"
proof (induction ts arbitrary: s)
  case Nil
  then show ?case by (simp add: holds_simps kpres_refl)
next
  case (Cons t ts)
  show ?case
  proof (cases "tasks s t")
    case None
    then show ?thesis using Cons by simp
  next
    case (Some x)
    have "khold elems s (bind (send_signal R t (to_signal_flags sig)) (\<lambda>_. group_signal R ts sig) s)"
      by (rule khold_bind, rule kdone_khold, rule khold_send_signal [OF Cons.prems Some]) (blast intro: Cons.IH kpres_mid kpres_busy Cons.prems)
    then show ?thesis using Some by simp
  qed
qed

lemma khold_kill_group: "kinv_mid elems s \<Longrightarrow> busy s \<Longrightarrow> tasks s t = Some x \<Longrightarrow> khold elems s (kill_group R t sig s)"
  by (auto simp: kill_group_def holds_simps get_group_def kpres_refl khold_group_signal split: option.splits)

lemma khold_kill:
  assumes I: "kinv_mid elems s" and b: "busy s" and n: "tid \<noteq> - (2 ^ 63)"
  shows "khold elems s (kill R tid sig s)"
proof -
  note live = dead_task [OF I]
  show ?thesis
    using I n khold_kill_group [OF I b] kdone_khold [OF khold_send_signal [OF I b]]
    by (auto simp: kill_def holds_simps kpres_refl dest: live split: option.splits)
qed

text \<open>Sessions do not matter for the invariant.\<close>

lemma khold_remove_task: "kinv_mid elems s \<Longrightarrow> tasks s t = Some x \<Longrightarrow> khold elems s (remove_task t s)"
  by (auto simp: remove_task_def holds_simps kpres_refl split: option.splits prod.splits)

lemma khold_try_add: "kinv_mid elems s \<Longrightarrow> khold elems s (try_add_task t x s)"
  by (auto simp: try_add_task_def holds_simps kpres_refl split: option.splits prod.splits)

lemma khold_create_session:
  assumes I: "kinv_mid elems s" and x: "tasks s t = Some x"
  shows "khold elems s (create_session t s)"
proof -
  have U: "kpres elems s (s\<lparr>tasks := (tasks s)(t := map_option (\<lambda>x. x\<lparr>tgid := t, sid := t\<rparr>) (tasks s t))\<rparr>)"
    by (rule kpres_upd [OF I]) (simp add: task_ok_def)
  have c: "s\<lparr>sessions := z, tasks := w\<rparr> = s\<lparr>tasks := w, sessions := z\<rparr>" for z w by simp
  show ?thesis
    using x U I unfolding create_session_def by (auto simp: holds_simps kpres_refl c split: option.splits)
qed

lemma khold_set_tgid:
  assumes I: "kinv_mid elems s"
  shows "khold elems s (set_tgid target g s)"
proof -
  note live = dead_task [OF I]
  have U: "kpres elems s (s\<lparr>tasks := (tasks s)(t := map_option (\<lambda>x. x\<lparr>tgid := h\<rparr>) (tasks s t))\<rparr>)" for t h
    by (rule kpres_upd [OF I]) (simp add: task_ok_def)
  have c: "s\<lparr>sessions := z, tasks := w\<rparr> = s\<lparr>tasks := w, sessions := z\<rparr>" for z w by simp
  have S: "khold elems s (session_set_tgid t g s)" if "tasks s t = Some x" for t x
  proof -
    have "kpres elems s (s\<lparr>tasks := (tasks s)(t \<mapsto> x\<lparr>tgid := h\<rparr>)\<rparr>)" for h using U [of t h] that by simp
    then show ?thesis using that I unfolding session_set_tgid_def
      by (auto simp: holds_simps kpres_refl c dest: live split: option.splits sum.splits)
  qed
  show ?thesis
    using S I unfolding set_tgid_def target_task_def by (auto simp: holds_simps kpres_refl dest!: table_live [OF I] current_live [OF I] split: option.splits)
qed

lemma drop_ok:
  assumes I: "kinv_mid elems s" and x: "tasks s t = Some x" and t: "t \<notin> set (task_table s)" "init_task s \<noteq> Some t"
  shows "kpres elems s (s\<lparr>tasks := (tasks s)(t := None)\<rparr>)"
proof -
  have st: "t_state x \<in> {Initialized, Zombie}" using kinv_midD(8) [OF I x] t by auto
  have ev: "sleep_timer_event x = None" using kinv_midD(6) [OF I x] st by (auto simp: task_ok_def)
  have c: "current s \<noteq> Some t" using kinv_midD(11) [OF I] t by auto
  let ?s = "s\<lparr>tasks := (tasks s)(t := None)\<rparr>"
  have nr: "t \<notin> ready elems (sched_state s)" using kinv_midD(4) [OF I] t by auto
  have "events_ok ?s"
    using events_okD [OF kinv_midD(13) [OF I]] x ev unfolding events_ok_def by (auto, metis option.distinct(1) option.inject)
  then have "kinv_mid elems ?s"
    by (intro kinv_midI) (use kinv_midD [OF I] t c nr in \<open>auto split: if_splits\<close>)
  then show ?thesis using c x st by (auto simp: kpres_def alive_def)
qed

lemma khold_drop:
  assumes I: "kinv_mid elems s" and x: "tasks s t = Some x" and t: "t \<notin> set (task_table s)" "init_task s \<noteq> Some t"
  shows "khold elems s (task_drop t s)"
proof -
  have c: "s\<lparr>sessions := z, tasks := w\<rparr> = s\<lparr>tasks := w, sessions := z\<rparr>" for z w by simp
  show ?thesis
    using x drop_ok [OF assms] by (auto simp: task_drop_def remove_task_def holds_simps c split: option.splits prod.splits)
qed

end

text \<open>A new task.\<close>

lemma cfs_inv_attrs:
  assumes "cfs_inv elems q" "t \<notin> ready elems q"
  shows "cfs_inv elems (q\<lparr>attrs := (attrs q)(t := a)\<rparr>)"
proof -
  have n: "(k, t) \<notin> set (elems (ready_tree q))" for k using assms(2) by force
  have "map (weight_of ((attrs q)(t := a)) \<circ> snd) (elems (ready_tree q)) = map (weight_of (attrs q) \<circ> snd) (elems (ready_tree q))"
    using n by (auto simp: weight_of_def)
  moreover have "\<forall>(k, u)\<in>set (elems (ready_tree q)). k = vruntime (((attrs q)(t := a)) u)"
    using assms(1) n unfolding cfs_inv_def by auto
  ultimately show ?thesis using assms(1) unfolding cfs_inv_def by (simp del: map_eq_conv)
qed

lemma task_ok_new: "length tf = TF_LEN \<Longrightarrow> task_ok (task_new name t tf)"
  by (simp add: task_ok_def task_new_def DEFAULT_SIGNAL_ACTIONS_def MAX_SIG_def)

lemma events_ok_add:
  assumes E: "events_ok s" and t: "tasks s t = None" "sleep_timer_event x = None"
    and s': "timers s' = timers s" "next_event_id s' = next_event_id s" "tasks s' = (tasks s)(t \<mapsto> x)"
  shows "events_ok s'"
proof -
  have "callback e \<noteq> t" if "e \<in> set (timers s cpu)" for e cpu using events_okD(4) [OF E that] t(1) by auto
  then show ?thesis using events_okD [OF E] t unfolding events_ok_def s' by (simp del: split_paired_All)
qed

lemma new_task_ok:
  assumes I: "kinv_mid elems s" and n: "next_id s + 1 < usize_limit"
  obtains s' where "task_with_name name s = (Ok (next_id s), s')" "kpres elems s s'" "tasks s' (next_id s) = Some (task_new name (next_id s) (replicate TF_LEN 0))"
    "next_id s \<notin> set (task_table s')" "task_table s' = task_table s"
proof -
  let ?t = "next_id s" let ?x = "task_new name ?t (replicate TF_LEN 0)"
  let ?q = "(sched_state s)\<lparr>attrs := (attrs (sched_state s))(?t := cfs_attrs_default)\<rparr>"
  let ?s = "s\<lparr>next_id := ?t + 1, tasks := (tasks s)(?t \<mapsto> ?x), sched_state := ?q\<rparr>"
  have fresh: "tasks s ?t = None" using kinv_midD(7) [OF I, of ?t] by (cases "tasks s ?t") auto
  have nt: "?t \<notin> set (task_table s)" "current s \<noteq> Some ?t" by (rule dead_task [OF I fresh])+
  have nr: "?t \<notin> ready elems (sched_state s)" using kinv_midD(4) [OF I] nt by auto
  have e: "task_with_name name s = (Ok ?t, ?s)" using n by (simp add: task_with_name_def next_tid_def bind_def)
  have "kinv_mid elems ?s"
  proof (rule kinv_midI, goal_cases)
    case 1 show ?case using cfs_inv_attrs [OF kinv_midD(1) [OF I] nr] by simp
  next
    case (6 u y)
    show ?case
    proof (cases "u = ?t")
      case True
      then show ?thesis using 6 task_ok_new [of "replicate TF_LEN 0" name ?t] nr by (auto simp: task_new_def)
    next
      case False
      then show ?thesis using 6 kinv_midD(6,7,8,9) [OF I, of u y] by auto
    qed
  next
    case 9
    show ?case by (rule events_ok_add [OF kinv_midD(13) [OF I] fresh, where x = ?x]) (simp_all add: task_new_def)
  qed (use kinv_midD [OF I] in \<open>auto\<close>)
  then have "kpres elems s ?s" using fresh nt by (auto simp: kpres_def alive_def)
  then show thesis using e nt by (intro that [of ?s]) simp_all
qed

lemma table_insert_ok:
  assumes I: "kinv_mid elems s" and x: "tasks s t = Some x" and t: "t \<notin> set (task_table s)" "length (task_table s) < MAX_TASKS"
  shows "kpres elems s (s\<lparr>task_table := task_table s @ [t]\<rparr>)"
proof -
  let ?s = "s\<lparr>task_table := task_table s @ [t]\<rparr>"
  have "events_ok ?s" by (rule events_ok_cong [OF kinv_midD(13) [OF I]]) simp_all
  then have "kinv_mid elems ?s"
    by (intro kinv_midI) (use kinv_midD [OF I] t x in \<open>auto\<close>)
  then show ?thesis by (simp add: kpres_def alive_def)
qed

context rbtree_laws
begin

lemma khold_start:
  assumes I: "kinv_mid elems s" and b: "busy s" and x: "tasks s t = Some x" "t_state x = Initialized" "t \<notin> set (task_table s)"
  shows "holds (\<lambda>_. kpres elems s) (\<lambda>s'. s' = s) (task_start R dup t s)"
proof (cases "length (task_table s) \<ge> MAX_TASKS")
  case True
  then show ?thesis using x by (simp add: task_start_def start_with_parent_def table_insert_def holds_simps)
next
  case False
  let ?s1 = "s\<lparr>task_table := task_table s @ [t]\<rparr>"
  have c: "current s \<noteq> Some t" using kinv_midD(11) [OF I] x by auto
  have P1: "kpres elems s ?s1" using table_insert_ok [OF I x(1,3)] False by simp
  have wake: "kdone elems s (wakeup R t s')" if P: "kpres elems s s'" and y: "tasks s' t = Some y" "t_state y = Initialized" "t \<in> set (task_table s')" for s' y
  proof -
    have "sleep_timer_event y = None" using kinv_midD(6) [OF kpres_mid [OF P] y(1)] y(2) by (simp add: task_ok_def)
    then have "kdone elems s' (wakeup R t s')"
      using khold_wake [OF kpres_mid [OF P] kpres_busy [OF I P b] y(1)] y by (simp add: wakeup_def holds_simps)
    then show ?thesis by (rule kdone_trans [OF P])
  qed
  show ?thesis
  proof (cases "current s")
    case None
    have "kdone elems s (wakeup R t ?s1)" by (rule wake [OF P1]) (use x in simp_all)
    then have "holds (\<lambda>_. kpres elems s) (\<lambda>s'. s' = s) (wakeup R t ?s1)" by (rule holds_mono) simp_all
    then show ?thesis using None False x by (simp add: task_start_def start_with_parent_def table_insert_def holds_simps)
  next
    case (Some p)
    obtain px where px: "tasks s p = Some px" using current_live [OF I Some] by blast
    have pt: "p \<noteq> t" using c Some by auto
    let ?f = "\<lambda>x. x\<lparr>o_files := copy_o_files dup (o_files px) (o_files x), cwd := cwd px, parent := Some p, tgid := tgid px, sid := sid px\<rparr>"
    let ?s2 = "?s1\<lparr>tasks := (tasks ?s1)(t := map_option ?f (tasks ?s1 t))\<rparr>"
    let ?s3 = "?s2\<lparr>tasks := (tasks ?s2)(p := map_option (\<lambda>px. px\<lparr>children := children px @ [t]\<rparr>) (tasks ?s2 p))\<rparr>"
    have "kpres elems ?s1 ?s2"
      by (rule kpres_upd [OF kpres_mid [OF P1]]) (use kinv_midD(6) [OF I px] in \<open>auto simp: task_ok_def copy_o_files_def\<close>)
    then have P2: "kpres elems s ?s2" by (rule kpres_trans [OF P1])
    have "kpres elems ?s2 ?s3" by (rule kpres_upd [OF kpres_mid [OF P2]]) (auto simp: task_ok_def)
    then have P3: "kpres elems s ?s3" by (rule kpres_trans [OF P2])
    have t3: "tasks ?s3 t = Some (?f x)" "t_state (?f x) = Initialized" "t \<in> set (task_table ?s3)" using x pt by simp_all
    have "kdone elems s (wakeup R t (?s3\<lparr>sessions := z\<rparr>))" for z
      by (rule wake [of _ "?f x"]) (use P3 t3 in \<open>simp_all\<close>)
    note W1 = holds_mono [OF this, of "\<lambda>_. kpres elems s" "\<lambda>s'. s' = s"]
    note W2 = holds_mono [OF wake [OF P3 t3], of "\<lambda>_. kpres elems s" "\<lambda>s'. s' = s"]
    note W = W1 [simplified] W2 [simplified]
    show ?thesis using W Some False x px pt
      by (simp add: task_start_def start_with_parent_def table_insert_def holds_simps try_add_task_def split: option.splits prod.splits)
  qed
qed

lemma khold_launch:
  assumes I: "kinv_mid elems s" and b: "busy s" and n: "next_id s + 1 < usize_limit"
  shows "khold elems s (launch R dup name s)"
proof -
  let ?t = "next_id s" let ?x = "task_new name ?t (replicate TF_LEN 0)"
  obtain s' where s': "task_with_name name s = (Ok ?t, s')" and P: "kpres elems s s'" and x: "tasks s' ?t = Some ?x"
    and t: "?t \<notin> set (task_table s')" "task_table s' = task_table s" by (rule new_task_ok [OF I n])
  have i: "init_task s' \<noteq> Some ?t" using P kinv_midD(12) [OF I, of ?t] kinv_midD(7) [OF I, of ?t] by (auto simp: kpres_def)
  have "holds (\<lambda>_. kpres elems s') (\<lambda>s''. s'' = s') (task_start R dup ?t s')"
    by (rule khold_start [OF kpres_mid [OF P] kpres_busy [OF I P b] x]) (use t in \<open>simp_all add: task_new_def\<close>)
  moreover have "khold elems s (bind (task_drop ?t) (\<lambda>_. fail e) s')" for e :: kerror
    unfolding holds_bind by (rule holds_mono [OF khold_drop [OF kpres_mid [OF P] x t(1) i]]) (auto simp: holds_simps intro: kpres_trans [OF P])
  ultimately show ?thesis
    unfolding launch_def bind_Ok [where m = "task_with_name name", OF s']
    by (cases "task_start R dup ?t s'"; cases "fst (task_start R dup ?t s')") (simp_all add: holds_pair kpres_trans [OF P])
qed

end

section \<open>Leaving the CPU\<close>

definition kstep_ok :: "('q \<Rightarrow> (nat \<times> nat) list) \<Rightarrow> ('q, 'i, 'f) kern \<Rightarrow> ('q, 'i, 'f) kern \<Rightarrow> bool" where
  "kstep_ok elems s s' \<longleftrightarrow> kinv elems s' \<and> init_task s' = init_task s \<and>
     (\<forall>t x. tasks s t = Some x \<longrightarrow> t_state x \<in> {Blocked, Runable} \<longrightarrow> current s \<noteq> Some t \<longrightarrow>
        (\<exists>x'. tasks s' t = Some x' \<and> (t_state x' = t_state x \<or> t_state x = Runable \<and> current s' = Some t))) \<and>
     (\<forall>t. alive s t \<longrightarrow> current s \<noteq> Some t \<longrightarrow> alive s' t)"

text \<open>Blocked and runable tasks other than the current one stay so, apart from the one the scheduler picks, and live tasks other than the current one stay alive.\<close>

lemma kpresD_run: "kpres elems s s' \<Longrightarrow> tasks s t = Some x \<Longrightarrow> t_state x \<in> {Blocked, Runable} \<Longrightarrow> \<exists>x'. tasks s' t = Some x' \<and> t_state x' = t_state x"
  using kpresD(3,4) [of elems s s' t x] by fastforce

lemma kpres_step: "kinv elems s \<Longrightarrow> kpres elems s s' \<Longrightarrow> kstep_ok elems s s'"
  using kpres_kinv [of elems s s'] kpresD(2) [of elems s s'] kpresD_run [of elems s s'] kpresD(5) [of elems s s'] unfolding kstep_ok_def by blast

lemma kpres_then_step: "kpres elems s s' \<Longrightarrow> kstep_ok elems s' s'' \<Longrightarrow> kstep_ok elems s s''"
  using kpresD(1,2,5) [of elems s s'] kpresD_run [of elems s s'] unfolding kstep_ok_def by (metis (no_types, lifting))

definition leave :: "'q rbtree \<Rightarrow> ('q, 'i, 'f, unit) kcall" where
  "leave R = (\<lambda>s. case current s of Some c \<Rightarrow> switched_back R c s | None \<Rightarrow> (Ok (), s))"

context rbtree_laws
begin

lemma leave_ok:
  assumes I: "kinv_mid elems s" and c: "current s = Some c" and x: "tasks s c = Some x"
  shows "holds (\<lambda>_ s'. kstep_ok elems s s' \<and> tasks s' = tasks s \<and> task_table s' = task_table s) (\<lambda>_. False) (leave R s)"
proof (cases "t_state x = Runable")
  case True
  obtain q where q: "cfs_enqueue_ready R c (sched_state s) = (Ok (), q)" "cfs_inv elems q" "ready elems q = insert c (ready elems (sched_state s))"
    by (rule enqueue_ok [OF I kinv_midD(10) [OF I c]])
  let ?s = "s\<lparr>sched_state := q, current := None\<rparr>"
  have "events_ok ?s" by (rule events_ok_cong [OF kinv_midD(13) [OF I]]) simp_all
  then have "kinv_mid elems ?s"
  proof (intro kinv_midI, goal_cases)
    case (6 u y)
    then show ?case using kinv_midD(6,7,8,9) [OF I, of u y] q(3) c x True by (cases "u = c") simp_all
  qed (use kinv_midD [OF I] q c in \<open>auto\<close>)
  then show ?thesis
    using c x True q by (simp add: leave_def switched_back_def enqueue_ready_def on_sched_def holds_simps kstep_ok_def kinv_def alive_def)
next
  case False
  let ?s = "s\<lparr>current := None\<rparr>"
  have "events_ok ?s" by (rule events_ok_cong [OF kinv_midD(13) [OF I]]) simp_all
  then have "kinv_mid elems ?s"
  proof (intro kinv_midI, goal_cases)
    case (6 u y)
    then show ?case using kinv_midD(6,7,8,9) [OF I, of u y] kinv_midD(10) [OF I, of u] c x False by (cases "u = c") simp_all
  qed (use kinv_midD [OF I] c in \<open>auto\<close>)
  then show ?thesis
    using c x False by (simp add: leave_def switched_back_def holds_simps kstep_ok_def kinv_def alive_def)
qed

text \<open>The current task sets its state and leaves.\<close>

lemma block_ok:
  assumes I: "kinv_mid elems s" and c: "current s = Some c"
    and f: "\<And>x. task_ok x \<Longrightarrow> tasks s c = Some x \<Longrightarrow> task_ok (f x) \<and> sleep_timer_event (f x) = sleep_timer_event x"
  shows "holds (\<lambda>_. kstep_ok elems s) (\<lambda>_. False) (leave R (s\<lparr>tasks := (tasks s)(c := map_option f (tasks s c))\<rparr>))"
proof -
  let ?s = "s\<lparr>tasks := (tasks s)(c := map_option f (tasks s c))\<rparr>"
  obtain x where x: "tasks s c = Some x" using current_live [OF I c] by blast
  have "kinv_mid elems ?s" by (rule kinv_mid_upd [OF I]) (use f c in blast)
  from leave_ok [OF this, of c "f x"] c x
  have "holds (\<lambda>_. kstep_ok elems ?s) (\<lambda>_. False) (leave R ?s)" by (auto elim: holds_mono)
  then show ?thesis by (rule holds_mono) (use c in \<open>auto simp: kstep_ok_def alive_def\<close>)
qed

lemma khold_reparent: "kinv_mid elems s \<Longrightarrow> kdone elems s (reparent t p s)"
  unfolding reparent_def
  by (rule kdone_bind, rule kdone_upd) (auto simp: task_ok_def intro!: kdone_upd kpres_mid)

lemma khold_reparent_all: "kinv_mid elems s \<Longrightarrow> kdone elems s (reparent_all i cs z s)"
proof (induction cs arbitrary: z s)
  case Nil
  then show ?case by (simp add: holds_simps kpres_refl)
next
  case (Cons c cs)
  show ?case
  proof (cases "tasks s c")
    case None
    then show ?thesis using Cons by simp
  next
    case (Some x)
    have "holds (\<lambda>_ s'. kpres elems s s' \<and> tasks s' c \<noteq> None) (\<lambda>_. False) (reparent c i s)"
      using Some khold_reparent [OF Cons.prems, of c i] by (auto simp: reparent_def holds_simps)
    then have "kdone elems s (bind (reparent c i) (\<lambda>_. bind (get_task c) (\<lambda>x. reparent_all i cs (z \<or> t_state x = Zombie))) s)"
      unfolding holds_bind
      by (rule holds_mono) (auto simp: holds_get_task split: option.splits intro: kdone_trans Cons.IH kpres_mid)
    then show ?thesis using Some by simp
  qed
qed

lemma khold_clear_children:
  assumes I: "kinv_mid elems s" and b: "busy s" and x: "tasks s t = Some x" and i: "init_task s = Some i"
  shows "kdone elems s (clear_and_reparent_children R t s)"
proof -
  let ?s = "s\<lparr>tasks := (tasks s)(t := map_option (\<lambda>x. x\<lparr>children := []\<rparr>) (tasks s t))\<rparr>"
  have U: "kpres elems s ?s" by (rule kpres_upd [OF I]) (simp add: task_ok_def)
  have W: "kdone elems s ((if z then wakeup_if_waiting R i else ret ()) s')" if P: "kpres elems s s'" for z s'
  proof -
    have "init_task s' = Some i" using P i by (simp add: kpres_def)
    then obtain y where "tasks s' i = Some y" using kinv_midD(12) [OF kpres_mid [OF P]] by blast
    from khold_wake_waiting [OF kpres_mid [OF P] kpres_busy [OF I P b] this] P
    show ?thesis by (auto simp: holds_simps intro: kdone_trans)
  qed
  have "kdone elems s (bind (reparent_all i (children x) False) (\<lambda>z. if z then wakeup_if_waiting R i else ret ()) ?s)"
    unfolding holds_bind
    by (rule holds_mono [OF kdone_trans [OF U khold_reparent_all [OF kpres_mid [OF U]]]]) (rule W)
  then show ?thesis using x i by (simp add: clear_and_reparent_children_def holds_simps)
qed

lemma khold_parent:
  assumes I: "kinv_mid elems s" and x: "tasks s t = Some x" and i: "init_task s = Some i"
  shows "holds (\<lambda>p s'. kpres elems s s' \<and> tasks s' p \<noteq> None) (\<lambda>_. False) (parent_or_insert_init t s)"
proof -
  obtain y where y: "tasks s i = Some y" using kinv_midD(12) [OF I i] by blast
  have "holds (\<lambda>_ s'. kpres elems s s' \<and> tasks s' i \<noteq> None) (\<lambda>_. False) (reparent t i s)"
    using y khold_reparent [OF I, of t i] by (auto simp: reparent_def holds_simps)
  then show ?thesis
    using x i kpres_refl [OF I] by (auto simp: parent_or_insert_init_def live_parent_def holds_simps split: option.splits elim: holds_mono)
qed

lemma exit_ok:
  assumes I: "kinv elems s" and c: "current s = Some c" and i: "init_task s = Some i"
  shows "holds (\<lambda>_. kstep_ok elems s) (\<lambda>_. False) (bind (exit R status) (\<lambda>_. leave R) s)"
proof -
  obtain x where x: "tasks s c = Some x" "t_state x = Running" using kinvD(2) [OF I c] by blast
  have E: "kdone elems s (bind (upd_task c (\<lambda>x. x\<lparr>o_files := replicate MAX_OPEN_FILES None, cwd := None\<rparr>)) (\<lambda>_. clear_and_reparent_children R c) s)"
  proof (rule kdone_bind, goal_cases)
    case 1 show ?case by (rule kdone_upd [OF kinvD(1) [OF I]]) (simp add: task_ok_def)
  next
    case (2 a s')
    have "init_task s' = Some i" "\<exists>x. tasks s' c = Some x" using 2 c i current_live [OF kpres_mid [OF 2]] by (auto simp: kpres_def)
    then show ?case using khold_clear_children [OF kpres_mid [OF 2] kpres_busy [OF kinvD(1) [OF I] 2 kinv_busy [OF I]]] by blast
  qed
  have F: "holds (\<lambda>_. kstep_ok elems s) (\<lambda>_. False)
      (bind (parent_or_insert_init c) (\<lambda>p. bind (upd_task c (\<lambda>x. x\<lparr>exit_status := status, t_state := Zombie\<rparr>)) (\<lambda>_. bind (wakeup_if_waiting R p) (\<lambda>_. leave R))) s1)"
    if P: "kpres elems s s1" for s1
  proof -
    let ?f = "\<lambda>x. x\<lparr>exit_status := status, t_state := Zombie\<rparr>"
    have c1: "current s1 = Some c" and i1: "init_task s1 = Some i" using P c i by (simp_all add: kpres_def)
    obtain x1 where x1: "tasks s1 c = Some x1" "t_state x1 = Running" using P x c unfolding kpres_def by metis
    have W: "holds (\<lambda>_. kstep_ok elems s) (\<lambda>_. False) (bind (wakeup_if_waiting R p) (\<lambda>_. leave R) (s2\<lparr>tasks := (tasks s2)(c := map_option ?f (tasks s2 c))\<rparr>))"
      if P2: "kpres elems s1 s2" and p: "tasks s2 p \<noteq> None" for p s2
    proof -
      have c2: "current s2 = Some c" using P2 c1 by (simp add: kpres_def)
      obtain x2 where x2: "tasks s2 c = Some x2" "t_state x2 = Running" using P2 x1 c1 unfolding kpres_def by metis
      let ?s2 = "s2\<lparr>tasks := (tasks s2)(c := map_option ?f (tasks s2 c))\<rparr>"
      have M: "kinv_mid elems ?s2" by (rule kinv_mid_upd [OF kpres_mid [OF P2]]) (use c2 x2 in \<open>auto simp: task_ok_def\<close>)
      obtain y where y: "tasks ?s2 p = Some y" using p x2 by (cases "p = c") auto
      have b: "busy ?s2" using c2 x2 by (auto simp: busy_def)
      have "holds (\<lambda>_. kstep_ok elems ?s2) (\<lambda>_. False) (leave R s3)" if P3: "kpres elems ?s2 s3" for s3
      proof -
        have "current s3 = Some c" using P3 c2 by (simp add: kpres_def)
        moreover obtain x3 where "tasks s3 c = Some x3" using current_live [OF kpres_mid [OF P3] calculation] by blast
        ultimately show ?thesis using leave_ok [OF kpres_mid [OF P3]] kpres_then_step [OF P3] by (blast intro: holds_mono)
      qed
      then have "holds (\<lambda>_. kstep_ok elems ?s2) (\<lambda>_. False) (bind (wakeup_if_waiting R p) (\<lambda>_. leave R) ?s2)"
        unfolding holds_bind using khold_wake_waiting [OF M b y] by (blast intro: holds_mono)
      moreover have "kstep_ok elems s s'" if k: "kstep_ok elems ?s2 s'" for s'
      proof -
        have "\<exists>x'. tasks s' t = Some x' \<and> (t_state x' = t_state y \<or> t_state y = Runable \<and> current s' = Some t)"
          if "tasks s t = Some y" "t_state y \<in> {Blocked, Runable}" "t \<noteq> c" for t y
          using kpresD_run [OF kpres_trans [OF P P2] that(1,2)] that k c2 unfolding kstep_ok_def by auto
        moreover have "alive s' t" if "alive s t" "t \<noteq> c" for t
          using kpresD(5) [OF kpres_trans [OF P P2] that(1)] that(2) k c2 by (auto simp: kstep_ok_def alive_def)
        ultimately show ?thesis using k c kpresD(2) [OF kpres_trans [OF P P2]] unfolding kstep_ok_def by auto
      qed
      ultimately show ?thesis by (blast intro: holds_mono)
    qed
    show ?thesis
      unfolding holds_bind [of _ _ "parent_or_insert_init c"]
      by (rule holds_mono [OF khold_parent [OF kpres_mid [OF P] x1(1) i1]]) (use W in \<open>auto simp: holds_bind [of _ _ "upd_task c _"] holds_upd_task\<close>)
  qed
  have "holds (\<lambda>_. kstep_ok elems s) (\<lambda>_. False)
      (bind (bind (upd_task c (\<lambda>x. x\<lparr>o_files := replicate MAX_OPEN_FILES None, cwd := None\<rparr>)) (\<lambda>_. clear_and_reparent_children R c)) (\<lambda>_.
         bind (parent_or_insert_init c) (\<lambda>p. bind (upd_task c (\<lambda>x. x\<lparr>exit_status := status, t_state := Zombie\<rparr>)) (\<lambda>_. bind (wakeup_if_waiting R p) (\<lambda>_. leave R)))) s)"
    unfolding holds_bind [of _ _ "bind _ _"]
    by (rule holds_mono [OF E]) (auto intro: holds_mono [OF F] kpres_step [OF I])
  then show ?thesis using c by (simp add: exit_def holds_simps)
qed

end

section \<open>Waiting for a child\<close>

lemma zombie_loop_Some:
  "zombie_loop ts q cs k = (Some c, k', cs') \<Longrightarrow> c \<in> set cs \<and> (\<exists>x. ts c = Some x \<and> t_state x = Zombie) \<and> (q = None \<or> q = Some c)"
  by (induction ts q cs k arbitrary: k' cs' rule: zombie_loop.induct) (auto split: option.splits if_splits prod.splits)

lemma table_remove_ok:
  assumes I: "kinv_mid elems s" and x: "tasks s t = Some x" "t_state x = Zombie" and c: "current s \<noteq> Some t"
  shows "kpres elems s (s\<lparr>task_table := filter (\<lambda>u. u \<noteq> t) (task_table s)\<rparr>)"
proof -
  let ?s = "s\<lparr>task_table := filter (\<lambda>u. u \<noteq> t) (task_table s)\<rparr>"
  have nr: "t \<notin> ready elems (sched_state s)" using kinv_midD(9) [OF I x(1) c] x(2) by simp
  have "events_ok ?s" by (rule events_ok_cong [OF kinv_midD(13) [OF I]]) simp_all
  then have "kinv_mid elems ?s"
  proof (intro kinv_midI, goal_cases)
    case 3 show ?case using kinv_midD(3) [OF I] length_filter_le [of "\<lambda>u. u \<noteq> t" "task_table s"] by (simp del: length_filter_le)
  next
    case (6 u y)
    then show ?case using kinv_midD(6,7,8,9) [OF I, of u y] x by (cases "u = t") auto
  qed (use kinv_midD [OF I] nr c in \<open>auto\<close>)
  then show ?thesis by (simp add: kpres_def alive_def)
qed

lemma zombie_child_ok:
  assumes I: "kinv_mid elems s" and x: "tasks s t = Some x"
  shows "holds (\<lambda>(r, k) s'. kpres elems s s' \<and> (\<forall>c. r = Some c \<longrightarrow> (\<exists>y. tasks s' c = Some y \<and> t_state y = Zombie))) (\<lambda>_. False) (remove_zombie_child t q s)"
proof -
  obtain r k cs where z: "zombie_loop (tasks s) q (children x) False = (r, k, cs)" by (cases "zombie_loop (tasks s) q (children x) False")
  let ?s = "s\<lparr>tasks := (tasks s)(t := map_option (\<lambda>x. x\<lparr>children := cs\<rparr>) (tasks s t))\<rparr>"
  have U: "kpres elems s ?s" by (rule kpres_upd [OF I]) (simp add: task_ok_def)
  show ?thesis
  proof (cases r)
    case None
    then show ?thesis using x z U by (simp add: remove_zombie_child_def holds_simps)
  next
    case (Some c)
    let ?s' = "?s\<lparr>tasks := (tasks ?s)(c := map_option (\<lambda>y. y\<lparr>parent := None\<rparr>) (tasks ?s c))\<rparr>"
    have "kpres elems ?s ?s'" by (rule kpres_upd [OF kpres_mid [OF U]]) (simp add: task_ok_def)
    then have "kpres elems s ?s'" by (rule kpres_trans [OF U])
    moreover obtain y where "tasks s c = Some y" "t_state y = Zombie" using zombie_loop_Some z Some by blast
    ultimately show ?thesis using x z Some by (auto simp: remove_zombie_child_def holds_simps)
  qed
qed

context rbtree_laws
begin

lemma wait_ok:
  assumes I: "kinv elems s"
  shows "holds (\<lambda>_. kstep_ok elems s) (kstep_ok elems s) (bind (wait_round q) (\<lambda>r. if r = Wait then leave R else ret ()) s)"
proof (cases "current s")
  case None
  then show ?thesis using kpres_step [OF I kpres_refl [OF kinvD(1) [OF I]]] by (simp add: wait_round_def holds_simps)
next
  case (Some c)
  obtain x where x: "tasks s c = Some x" "t_state x = Running" using kinvD(2) [OF I Some] by blast
  note R0 = kpres_step [OF I kpres_refl [OF kinvD(1) [OF I]]]
  show ?thesis
  proof (cases "is_interrupted_by_signal x")
    case True
    then show ?thesis using Some x R0 by (simp add: wait_round_def holds_simps)
  next
    case False
    have C: "kpres elems s (s'\<lparr>task_table := filter (\<lambda>u. u \<noteq> z) (task_table s')\<rparr>)"
      if P: "kpres elems s s'" and z: "tasks s' z = Some y" "t_state y = Zombie" for s' z y
    proof -
      have "current s' \<noteq> Some z" using P z x Some by (fastforce simp: kpres_def)
      then show ?thesis by (rule kpres_trans [OF P table_remove_ok [OF kpres_mid [OF P] z]])
    qed
    have L: "holds (\<lambda>_. kstep_ok elems s) (kstep_ok elems s) (leave R (s'\<lparr>tasks := (tasks s')(c := map_option (\<lambda>x. x\<lparr>t_state := Waitting\<rparr>) (tasks s' c))\<rparr>))"
      if P: "kpres elems s s'" for s'
    proof -
      have c': "current s' = Some c" using P Some by (simp add: kpres_def)
      have "task_ok (y\<lparr>t_state := Waitting\<rparr>)" if "task_ok y" "tasks s' c = Some y" for y
        using that P x Some by (fastforce simp: kpres_def task_ok_def)
      then have "holds (\<lambda>_. kstep_ok elems s') (\<lambda>_. False) (leave R (s'\<lparr>tasks := (tasks s')(c := map_option (\<lambda>x. x\<lparr>t_state := Waitting\<rparr>) (tasks s' c))\<rparr>))"
        by (intro block_ok [OF kpres_mid [OF P] c']) auto
      then show ?thesis by (rule holds_mono) (auto intro: kpres_then_step [OF P])
    qed
    show ?thesis
      unfolding wait_round_def holds_simps using Some x False
      by (auto simp: holds_simps intro!: holds_mono [OF zombie_child_ok [OF kinvD(1) [OF I] x(1)]] kpres_step [OF I] C L split: option.splits prod.splits)
  qed
qed

end

section \<open>Sleeping\<close>

lemma sleep_state_ok:
  assumes I: "kinv_mid elems s" and c: "current s = Some c" and x: "tasks s c = Some x" "sleep_timer_event x = None"
    and n: "next_event_id s + 1 < usize_limit"
  defines "i \<equiv> (cpuid s, next_event_id s)"
  shows "kinv_mid elems (s\<lparr>timers := (timers s)(cpuid s := \<lparr>event_id = i, callback = c, expired_time = d\<rparr> # timers s (cpuid s)),
    next_event_id := next_event_id s + 1, tasks := (tasks s)(c \<mapsto> x\<lparr>sleep_timer_event := Some i, t_state := Interruptible\<rparr>)\<rparr>)"
proof (rule kinv_midI, goal_cases)
  case (6 u y)
  then show ?case using kinv_midD(6,7,8,9) [OF I, of u] kinv_midD(11) [OF I c] c x by (cases "u = c") (auto simp: task_ok_def)
next
  case 9
  note E = events_okD [OF kinv_midD(13) [OF I]]
  have cb: "callback e \<noteq> c" if "e \<in> set (timers s cpu)" for e cpu using E(4) [OF that] x by auto
  have fr: "(cpuid s, next_event_id s) \<notin> event_id ` set (timers s cpu)" for cpu
  proof
    assume "(cpuid s, next_event_id s) \<in> event_id ` set (timers s cpu)"
    then obtain e where "e \<in> set (timers s cpu)" "event_id e = (cpuid s, next_event_id s)" by (metis imageE)
    then show False using E(3) by fastforce
  qed
  have "snd (event_id e) < next_event_id s + 1" if "e \<in> set (timers s cpu)" for e cpu using E(3) [OF that] by simp
  then show ?case
    unfolding events_ok_def using E(1,2,4,5) cb fr x(1) by (auto simp: i_def simp del: split_paired_All)
qed (use kinv_midD [OF I] c in \<open>auto\<close>)

context rbtree_laws
begin

lemma sleep_ok:
  assumes I: "kinv elems s" and n: "next_event_id s + 1 < usize_limit"
  shows "holds (\<lambda>_. kstep_ok elems s) (kstep_ok elems s) (bind (sleep_begin d) (\<lambda>_. leave R) s)"
proof (cases "current s")
  case None
  then show ?thesis using kpres_step [OF I kpres_refl [OF kinvD(1) [OF I]]] by (simp add: sleep_begin_def holds_simps)
next
  case (Some c)
  obtain x where x: "tasks s c = Some x" "t_state x = Running" using kinvD(2) [OF I Some] by blast
  have e: "sleep_timer_event x = None" using kinv_midD(6) [OF kinvD(1) [OF I] x(1)] x(2) by (simp add: task_ok_def)
  let ?i = "(cpuid s, next_event_id s)"
  let ?s = "s\<lparr>timers := (timers s)(cpuid s := \<lparr>event_id = ?i, callback = c, expired_time = timer_now s + (d - TICK_TIME_DUR)\<rparr> # timers s (cpuid s)),
    next_event_id := next_event_id s + 1, tasks := (tasks s)(c \<mapsto> x\<lparr>sleep_timer_event := Some ?i, t_state := Interruptible\<rparr>)\<rparr>"
  have M: "kinv_mid elems ?s" using sleep_state_ok [OF kinvD(1) [OF I] Some x(1) e n] .
  have "holds (\<lambda>_. kstep_ok elems ?s) (\<lambda>_. False) (leave R ?s)"
    by (rule holds_mono [OF leave_ok [OF M, of c]]) (use Some in auto)
  then have "holds (\<lambda>_. kstep_ok elems s) (kstep_ok elems s) (leave R ?s)"
    by (rule holds_mono) (use Some x in \<open>auto simp: kstep_ok_def alive_def\<close>)
  then show ?thesis using Some x n kpres_step [OF I kpres_refl [OF kinvD(1) [OF I]]]
    by (simp add: sleep_begin_def list_add_event_def holds_simps Let_def)
qed

text \<open>The callback of an event of the list that is being run; the list is locked and still holds the events of the other CPUs.\<close>

lemma wake_sleeper_ok:
  assumes I: "kinv_mid elems (s\<lparr>timers := (timers s)(cpu := evs)\<rparr>)" and b: "busy s" and e: "e \<in> set evs"
  shows "holds (\<lambda>_ s'. kpres elems (s\<lparr>timers := (timers s)(cpu := evs)\<rparr>) (s'\<lparr>timers := (timers s')(cpu := remove1 e evs)\<rparr>) \<and> timers s' = timers s \<and>
      (\<exists>x. tasks s' (callback e) = Some x \<and> t_state x = Runable) \<and>
      (\<forall>t x. tasks s t = Some x \<longrightarrow> t_state x = Runable \<longrightarrow> (\<exists>x. tasks s' t = Some x \<and> t_state x = Runable))) (\<lambda>_. False) (wake_sleeper R (callback e) s)"
proof -
  let ?t = "callback e" let ?s = "s\<lparr>timers := (timers s)(cpu := evs)\<rparr>"
  have em: "e \<in> set (timers ?s cpu)" using e by simp
  from events_okD(4) [OF kinv_midD(13) [OF I] em] obtain x where x: "tasks s ?t = Some x" "sleep_timer_event x = Some (event_id e)" by auto
  have st: "t_state x = Interruptible" using kinv_midD(6) [OF I, of ?t x] x by (simp add: task_ok_def)
  have f: "fst (event_id e) = cpu" by (rule events_okD(2) [OF kinv_midD(13) [OF I] em])
  have rm: "list_remove_event (event_id e) evs = remove1 e evs"
  proof -
    have d: "distinct (map event_id evs)" using events_okD(1) [OF kinv_midD(13) [OF I], of cpu] by simp
    have "event_id y = event_id e \<longleftrightarrow> y = e" if "y \<in> set evs" for y using d that e by (auto simp: distinct_map inj_on_def)
    then have "filter (\<lambda>y. event_id y \<noteq> event_id e) evs = filter ((\<noteq>) e) evs" by (auto intro: filter_cong)
    then show ?thesis using d by (simp add: list_remove_event_def distinct_remove1_removeAll distinct_map removeAll_filter_not_eq)
  qed
  let ?u = "x\<lparr>sleep_timer_event := None\<rparr>"
  let ?s1 = "s\<lparr>tasks := (tasks s)(?t \<mapsto> ?u), timers := (timers s)(cpu := remove1 e evs)\<rparr>"
  have C: "kpres elems ?s ?s1" using clear_event_ok [OF I, of ?t x "event_id e"] x f by (simp add: rm)
  have t1: "?t \<in> set (task_table ?s1)" using kinv_midD(8) [OF I, of ?t x] x st by simp
  have c1: "current ?s1 \<noteq> Some ?t" using b x st by (auto simp: busy_def)
  obtain q where q: "wakeup_unchecked R ?t ?s1 = (Ok (), ?s1\<lparr>tasks := (tasks ?s1)(?t \<mapsto> ?u\<lparr>t_state := Runable\<rparr>), sched_state := q\<rparr>)"
    "kinv_mid elems (?s1\<lparr>tasks := (tasks ?s1)(?t \<mapsto> ?u\<lparr>t_state := Runable\<rparr>), sched_state := q\<rparr>)"
    by (rule wakeup_unchecked_ok [OF kpres_mid [OF C], of ?t ?u]) (use t1 c1 st in simp_all)
  let ?s2 = "s\<lparr>tasks := (tasks s)(?t \<mapsto> ?u\<lparr>t_state := Runable\<rparr>), sched_state := q\<rparr>"
  have w: "wakeup R ?t (s\<lparr>tasks := (tasks s)(?t \<mapsto> ?u)\<rparr>) = (Ok (), ?s2)"
  proof -
    have "cfs_enqueue_ready R ?t (sched_state s) = (Ok (), q)"
      using q(1) by (auto simp: wakeup_unchecked_def upd_task_def enqueue_ready_def on_sched_def bind_def split: prod.splits dest: arg_cong [of _ _ sched_state])
    then show ?thesis using st by (simp add: wakeup_def get_task_def wakeup_unchecked_def upd_task_def enqueue_ready_def on_sched_def bind_def)
  qed
  have "?s1\<lparr>tasks := (tasks ?s1)(?t \<mapsto> ?u\<lparr>t_state := Runable\<rparr>), sched_state := q\<rparr> = ?s2\<lparr>timers := (timers ?s2)(cpu := remove1 e evs)\<rparr>" by simp
  then have "kinv_mid elems (?s2\<lparr>timers := (timers ?s2)(cpu := remove1 e evs)\<rparr>)" using q(2) by metis
  then have "kpres elems ?s (?s2\<lparr>timers := (timers ?s2)(cpu := remove1 e evs)\<rparr>)"
    using x st c1 by (auto simp: kpres_def alive_def)
  then show ?thesis using x st w by (simp add: wake_sleeper_def holds_simps)
qed

lemma tick_loop_ok:
  assumes "kinv_mid elems (s\<lparr>timers := (timers s)(cpu := evs)\<rparr>)" "busy s"
  shows "\<exists>s'. list_tick (\<lambda>t (r, s). case r of Ok _ \<Rightarrow> wake_sleeper R t s | _ \<Rightarrow> (r, s)) j evs (Ok (), s) = (filter (\<lambda>e. expired_time e > j) evs, (Ok (), s')) \<and>
    kpres elems (s\<lparr>timers := (timers s)(cpu := evs)\<rparr>) (s'\<lparr>timers := (timers s')(cpu := filter (\<lambda>e. expired_time e > j) evs)\<rparr>) \<and> timers s' = timers s \<and>
    (\<forall>e\<in>set evs. expired_time e \<le> j \<longrightarrow> (\<exists>x. tasks s' (callback e) = Some x \<and> t_state x = Runable)) \<and>
    (\<forall>t x. tasks s t = Some x \<longrightarrow> t_state x = Runable \<longrightarrow> (\<exists>x. tasks s' t = Some x \<and> t_state x = Runable))"
  using assms
proof (induction "length evs" arbitrary: evs s rule: less_induct)
  case less
  let ?run = "\<lambda>t (r, s). case r of Ok _ \<Rightarrow> wake_sleeper R t s | _ \<Rightarrow> (r, s)"
  show ?case
  proof (cases "heap_peek evs")
    case None
    then show ?thesis using less.prems by (simp add: list_tick.simps kpres_refl)
  next
    case (Some e)
    note P = heap_peek_mem [OF Some]
    show ?thesis
    proof (cases "expired_time e > j")
      case True
      then have "filter (\<lambda>e. expired_time e > j) evs = evs" "\<forall>e\<in>set evs. j < expired_time e" using P by (auto simp: filter_id_conv)
      then show ?thesis using Some True less.prems by (auto simp: list_tick.simps kpres_refl)
    next
      case False
      have e: "e \<in> set evs" using P by blast
      from wake_sleeper_ok [OF less.prems e] obtain s1 where s1: "wake_sleeper R (callback e) s = (Ok (), s1)"
        "kpres elems (s\<lparr>timers := (timers s)(cpu := evs)\<rparr>) (s1\<lparr>timers := (timers s1)(cpu := remove1 e evs)\<rparr>)" "timers s1 = timers s"
        "\<exists>x. tasks s1 (callback e) = Some x \<and> t_state x = Runable"
        "\<forall>t x. tasks s t = Some x \<longrightarrow> t_state x = Runable \<longrightarrow> (\<exists>x. tasks s1 t = Some x \<and> t_state x = Runable)"
        by (auto simp: holds_def split: prod.splits outcome.splits)
      have b1: "busy s1" using kpres_busy [OF less.prems(1) s1(2)] less.prems(2) by simp
      have len: "length (remove1 e evs) < length evs" using e length_pos_if_in_set [OF e] by (simp add: length_remove1)
      from less.hyps [OF len kpres_mid [OF s1(2)] b1] obtain s' where
        s': "list_tick ?run j (remove1 e evs) (Ok (), s1) = (filter (\<lambda>e. expired_time e > j) (remove1 e evs), (Ok (), s'))"
          "kpres elems (s1\<lparr>timers := (timers s1)(cpu := remove1 e evs)\<rparr>) (s'\<lparr>timers := (timers s')(cpu := filter (\<lambda>e. expired_time e > j) (remove1 e evs))\<rparr>)"
          "timers s' = timers s1" "\<forall>e\<in>set (remove1 e evs). expired_time e \<le> j \<longrightarrow> (\<exists>x. tasks s' (callback e) = Some x \<and> t_state x = Runable)"
          "\<forall>t x. tasks s1 t = Some x \<longrightarrow> t_state x = Runable \<longrightarrow> (\<exists>x. tasks s' t = Some x \<and> t_state x = Runable)" by blast
      have f: "filter (\<lambda>e. expired_time e > j) (remove1 e evs) = filter (\<lambda>e. expired_time e > j) evs"
        using False by (simp add: filter_remove1 remove1_idem)
      have "set evs \<subseteq> insert e (set (remove1 e evs))" by (metis in_set_remove1 insert_iff subsetI)
      then have "\<forall>e\<in>set evs. expired_time e \<le> j \<longrightarrow> (\<exists>x. tasks s' (callback e) = Some x \<and> t_state x = Runable)"
        using s'(4,5) s1(4) by blast
      moreover have "list_tick ?run j evs (Ok (), s) = (filter (\<lambda>e. expired_time e > j) evs, (Ok (), s'))"
        using Some False s1(1) s'(1) f by (simp add: list_tick.simps [of _ _ evs])
      moreover note kpres_trans [OF s1(2) s'(2), unfolded f]
      moreover have "timers s' = timers s" using s1(3) s'(3) by simp
      moreover have "\<forall>t x. tasks s t = Some x \<longrightarrow> t_state x = Runable \<longrightarrow> (\<exists>x. tasks s' t = Some x \<and> t_state x = Runable)" using s1(5) s'(5) by blast
      ultimately show ?thesis by blast
    qed
  qed
qed

lemma tick_ok:
  assumes I: "kinv_mid elems s" and b: "busy s"
  obtains s' where "timer_tick R j s = (Ok (), s')" "kpres elems s s'"
    "\<And>e. e \<in> set (timers s (cpuid s)) \<Longrightarrow> expired_time e \<le> j \<Longrightarrow> \<exists>x. tasks s' (callback e) = Some x \<and> t_state x = Runable"
proof -
  have same: "s\<lparr>timers := (timers s)(cpuid s := timers s (cpuid s))\<rparr> = s" by simp
  have "kinv_mid elems (s\<lparr>timers := (timers s)(cpuid s := timers s (cpuid s))\<rparr>)" unfolding same by (rule I)
  from tick_loop_ok [OF this b, of j] obtain s' where s':
    "list_tick (\<lambda>t (r, s). case r of Ok _ \<Rightarrow> wake_sleeper R t s | _ \<Rightarrow> (r, s)) j (timers s (cpuid s)) (Ok (), s) =
       (filter (\<lambda>e. expired_time e > j) (timers s (cpuid s)), (Ok (), s'))"
    "kpres elems s (s'\<lparr>timers := (timers s')(cpuid s := filter (\<lambda>e. expired_time e > j) (timers s (cpuid s)))\<rparr>)"
    "\<forall>e\<in>set (timers s (cpuid s)). expired_time e \<le> j \<longrightarrow> (\<exists>x. tasks s' (callback e) = Some x \<and> t_state x = Runable)"
    unfolding same by blast
  show thesis by (rule that) (use s' in \<open>auto simp: timer_tick_def\<close>)
qed

lemma schedule_ok:
  assumes I: "kinv elems s" and c: "current s = None"
  shows "holds (\<lambda>r s'. kstep_ok elems s s' \<and> current s' = r \<and> (r = None \<longleftrightarrow> (\<forall>t x. tasks s t = Some x \<longrightarrow> t_state x \<noteq> Runable))) (\<lambda>_. False) (schedule R s)"
proof (rule cfs_pick_spec [OF kinv_midD(1) [OF kinvD(1) [OF I]], of "timer_now s"], goal_cases)
  note M = kinvD(1) [OF I]
  case 1
  have "kstep_ok elems s s" using I by (simp add: kstep_ok_def)
  moreover have "t_state x \<noteq> Runable" if "tasks s t = Some x" for t x using kinv_midD(9) [OF M that] c 1(2) by simp
  ultimately show ?case using 1 c by (auto simp: schedule_def on_sched_def holds_simps)
next
  note M = kinvD(1) [OF I]
  case (2 k t q)
  have d: "distinct (map snd (elems (ready_tree (sched_state s))))" using kinv_midD(1) [OF M] by (simp add: cfs_inv_def)
  have rq: "ready elems q = ready elems (sched_state s) - {t}" "t \<in> ready elems (sched_state s)" using d unfolding 2(2) by auto
  have tt: "t \<in> set (task_table s)" using rq(2) kinv_midD(4) [OF M] by blast
  obtain x where x: "tasks s t = Some x" using table_live [OF M tt] by blast
  have st: "t_state x = Runable" using kinv_midD(9) [OF M x] c rq(2) by simp
  let ?s = "s\<lparr>sched_state := q, tasks := (tasks s)(t \<mapsto> x\<lparr>t_state := Running\<rparr>), current := Some t\<rparr>"
  have "events_ok ?s" by (rule events_ok_cong [OF kinv_midD(13) [OF M]]) (use x in simp_all)
  then have "kinv_mid elems ?s"
  proof (intro kinv_midI, goal_cases)
    case (6 u y)
    then show ?case using kinv_midD(6,7,8,9) [OF M, of u] rq x st c tt by (cases "u = t") (auto simp: task_ok_def)
  qed (use kinv_midD [OF M] rq tt 2(3) in \<open>auto\<close>)
  then have "kstep_ok elems s ?s" using x st by (auto simp: kstep_ok_def kinv_def alive_def)
  then show ?case using 2 c x st by (auto simp: schedule_def on_sched_def holds_simps)
qed

end

section \<open>Signals and files keep the type of a task\<close>

definition same_run :: "('i, 'f) task \<Rightarrow> ('i, 'f) task \<Rightarrow> bool" where
  "same_run x y \<longleftrightarrow> (task_ok x \<longrightarrow> task_ok y) \<and> sleep_timer_event y = sleep_timer_event x \<and> t_state y = t_state x"

lemma handle_action_same: "same_run x (handle_action sig a x)"
  by (auto simp: same_run_def handle_action_def task_ok_def Let_def set_arg0_def set_ret_pc_def split: signal_action_kind.splits)

lemma handle_one_same: "same_run x (handle_one n x)"
  using handle_action_same by (auto simp: handle_one_def Let_def same_run_def split: option.splits)

lemma handle_pending_same: "same_run x (handle_pending_signals x)"
proof -
  have "same_run x (fold handle_one ns x)" for ns
    by (induction ns arbitrary: x) (use handle_one_same in \<open>fastforce simp: same_run_def\<close>)+
  then show ?thesis unfolding handle_pending_signals_def .
qed

lemma kpres_put:
  assumes I: "kinv_mid elems s" and x: "tasks s t = Some x" "same_run x y"
  shows "kpres elems s (s\<lparr>tasks := (tasks s)(t \<mapsto> y)\<rparr>)"
  using kpres_upd [OF I, of t "\<lambda>_. y"] x by (auto simp: same_run_def)

lemma signal_num_inj: "signal_num a = signal_num b \<longleftrightarrow> a = b"
  by (cases a; cases b) simp_all

lemma signal_num_bound: "signal_num a < MAX_SIG + 1"
  by (cases a) (simp_all add: MAX_SIG_def)

lemma khold_sigaction: "kinv_mid elems s \<Longrightarrow> khold elems s (sigaction sig act s)"
proof -
  assume I: "kinv_mid elems s"
  have "same_run x (x\<lparr>signal_actions := (signal_actions x)[signal_num sig := UserHandler act]\<rparr>)" if "sig \<noteq> SIGKILL" "sig \<noteq> SIGSTOP" for x :: "('b, 'c) task"
  proof -
    have "signal_num sig \<noteq> signal_num SIGKILL" "signal_num sig \<noteq> signal_num SIGSTOP" using that by (simp_all only: signal_num_inj not_False_eq_True)
    then show ?thesis by (simp add: same_run_def task_ok_def nth_list_update_neq del: signal_num.simps)
  qed
  then show ?thesis using I current_live [OF I] by (auto simp: sigaction_def holds_simps kpres_refl split: option.splits intro: kpres_put)
qed

section \<open>Waking the tasks of a wait queue\<close>

text \<open>The tasks of a wait queue are not asleep on a timer and have been started.\<close>

definition waiter :: "('q, 'i, 'f) kern \<Rightarrow> nat \<Rightarrow> bool" where
  "waiter s t \<longleftrightarrow> (case tasks s t of Some x \<Rightarrow> sleep_timer_event x = None \<and> t_state x \<noteq> Initialized | None \<Rightarrow> False)"

definition woken :: "task_state \<Rightarrow> task_state" where
  "woken st = (if st \<in> {Blocked, Waitting, Interruptible} then Runable else st)"

context rbtree_laws
begin

lemma wq_wakeup_ok:
  assumes I: "kinv elems s" and x: "tasks s t = Some x" "sleep_timer_event x = None" "t_state x \<noteq> Initialized"
  shows "holds (\<lambda>_ s'. kinv elems s' \<and> init_task s' = init_task s \<and> current s' = current s \<and>
      tasks s' = (if t_state x \<in> {Blocked, Waitting, Interruptible} then (tasks s)(t \<mapsto> x\<lparr>t_state := Runable\<rparr>) else tasks s)) (\<lambda>_. False) (wq_wakeup R t s)"
proof (cases "t_state x \<in> {Blocked, Waitting, Interruptible}")
  case False
  then show ?thesis using I x by (auto simp: wq_wakeup_def wakeup_def holds_simps)
next
  case True
  note M = kinvD(1) [OF I]
  have c: "current s \<noteq> Some t" using kinvD(2) [OF I, of t] x True by auto
  have tt: "t \<in> set (task_table s)" using kinv_midD(8) [OF M x(1)] True by auto
  obtain q where q: "wakeup_unchecked R t s = (Ok (), s\<lparr>tasks := (tasks s)(t \<mapsto> x\<lparr>t_state := Runable\<rparr>), sched_state := q\<rparr>)"
    "kinv_mid elems (s\<lparr>tasks := (tasks s)(t \<mapsto> x\<lparr>t_state := Runable\<rparr>), sched_state := q\<rparr>)"
    by (rule wakeup_unchecked_ok [OF M x(1) _ tt x(2) c]) (use True in auto)
  have "kinv elems (s\<lparr>tasks := (tasks s)(t \<mapsto> x\<lparr>t_state := Runable\<rparr>), sched_state := q\<rparr>)"
    using q(2) c kinvD(2) [OF I] by (auto simp: kinv_def)
  then show ?thesis using q(1) x True by (auto simp: wq_wakeup_def wakeup_def holds_simps)
qed

lemma wake_all_ok:
  assumes "kinv elems s" "list_all (waiter s) ts"
  shows "holds (\<lambda>_ s'. kinv elems s' \<and> init_task s' = init_task s \<and> current s' = current s \<and>
      (\<forall>t. t \<notin> set ts \<longrightarrow> tasks s' t = tasks s t) \<and>
      (\<forall>t\<in>set ts. \<exists>x x'. tasks s t = Some x \<and> tasks s' t = Some x' \<and>
         t_state x' = woken (t_state x)) \<and> (\<forall>t. alive s t \<longrightarrow> alive s' t)) (\<lambda>_. False) (wq_signal_all R ts s)"
proof -
  have "holds (\<lambda>_ s'. kinv elems s' \<and> init_task s' = init_task s \<and> current s' = current s \<and>
      (\<forall>t. t \<notin> set ts \<longrightarrow> tasks s' t = tasks s t) \<and>
      (\<forall>t\<in>set ts. \<exists>x x'. tasks s t = Some x \<and> tasks s' t = Some x' \<and>
         t_state x' = woken (t_state x)) \<and> (\<forall>t. alive s t \<longrightarrow> alive s' t)) (\<lambda>_. False) (for_each ts (wq_wakeup R) s)"
    using assms
  proof (induction ts arbitrary: s)
    case Nil
    then show ?case by (simp add: holds_simps)
  next
    case (Cons t ts)
    obtain x where x: "tasks s t = Some x" "sleep_timer_event x = None" "t_state x \<noteq> Initialized" using Cons.prems(2) by (auto simp: waiter_def split: option.splits)
    show ?case
      unfolding for_each.simps holds_bind
    proof (rule holds_mono [OF wq_wakeup_ok [OF Cons.prems(1) x]], elim conjE, goal_cases)
      case (1 a s')
      have W: "list_all (waiter s') ts"
        using Cons.prems(2) x 1(4) by (auto simp: list_all_iff waiter_def split: if_splits option.splits)
      show ?case
      proof (rule holds_mono [OF Cons.IH [OF 1(1) W]], elim conjE, goal_cases)
        case (1 b s'')
        note A = this and B = \<open>tasks s' = _\<close>
        have t': "\<exists>y. tasks s' t = Some y \<and> t_state y = woken (t_state x) \<and> woken (t_state y) = woken (t_state x)" using B x by (auto simp: woken_def)
        have "\<exists>x x'. tasks s u = Some x \<and> tasks s'' u = Some x' \<and> t_state x' = woken (t_state x)" if "u \<in> set (t # ts)" for u
        proof (cases "u = t")
          case True
          then show ?thesis using A(4,5) t' x by (cases "t \<in> set ts") force+
        next
          case False
          then have "tasks s' u = tasks s u" "u \<in> set ts" using B that by auto
          then show ?thesis using A(5) by metis
        qed
        moreover have "alive s'' u" if "alive s u" for u using A(6) that B x by (auto simp: alive_def)
        ultimately show ?case using A(1-4) B \<open>init_task s' = _\<close> \<open>current s' = _\<close> by auto
      qed simp
    qed simp
  qed
  then show ?thesis unfolding wq_signal_all_def holds_bind holds_ret .
qed

end

section \<open>Exit and wait\<close>

text \<open>The task \<open>c\<close> is a child of \<open>p\<close>, as both see it.\<close>

definition child_of :: "nat \<Rightarrow> nat \<Rightarrow> ('q, 'i, 'f) kern \<Rightarrow> bool" where
  "child_of c p s \<longleftrightarrow> (\<exists>x px. tasks s c = Some x \<and> parent x = Some p \<and> tasks s p = Some px \<and> c \<in> set (children px))"

lemma child_of_upd:
  assumes "child_of c p s" "\<And>x. tasks s t = Some x \<Longrightarrow> (t = c \<longrightarrow> parent (f x) = parent x) \<and> (t = p \<longrightarrow> set (children x) \<subseteq> set (children (f x)))"
  shows "child_of c p (s\<lparr>tasks := (tasks s)(t := map_option f (tasks s t))\<rparr>)"
  using assms unfolding child_of_def by fastforce

lemma child_of_reparent: "child_of c p s \<Longrightarrow> t \<noteq> c \<Longrightarrow> holds (\<lambda>_. child_of c p) (\<lambda>_. False) (reparent t i s)"
  unfolding reparent_def holds_bind holds_upd_task by (intro child_of_upd) auto

lemma child_of_reparent_all: "child_of c p s \<Longrightarrow> c \<notin> set cs \<Longrightarrow> holds (\<lambda>_. child_of c p) (\<lambda>_. True) (reparent_all i cs z s)"
proof (induction cs arbitrary: s z)
  case (Cons d cs)
  show ?case
  proof (cases "tasks s d")
    case None
    then show ?thesis using Cons by simp
  next
    case (Some y)
    have "holds (\<lambda>_ s'. child_of c p s' \<and> tasks s' d \<noteq> None) (\<lambda>_. False) (reparent d i s)"
      using child_of_reparent [OF Cons.prems(1), of d i] Cons.prems(2) Some by (auto simp: reparent_def holds_simps)
    then have "holds (\<lambda>_. child_of c p) (\<lambda>_. True) (bind (reparent d i) (\<lambda>_. bind (get_task d) (\<lambda>x. reparent_all i cs (z \<or> t_state x = Zombie))) s)"
      unfolding holds_bind by (rule holds_mono) (use Cons in \<open>auto simp: holds_get_task split: option.splits\<close>)
    then show ?thesis using Some by simp
  qed
qed (simp add: holds_simps)

lemma wake_waiting_tasks:
  assumes "wakeup_if_waiting R t s = (Ok (), s')"
  shows "\<exists>x q. tasks s t = Some x \<and> s' = (if t_state x = Waitting then s\<lparr>tasks := (tasks s)(t \<mapsto> x\<lparr>t_state := Runable\<rparr>), sched_state := q\<rparr> else s)"
proof (cases "tasks s t")
  case None
  then show ?thesis using assms by (simp add: wakeup_if_waiting_def get_task_def bind_def)
next
  case (Some x)
  show ?thesis
  proof (cases "t_state x = Waitting")
    case True
    obtain r q where "cfs_enqueue_ready R t (sched_state s) = (r, q)" by fastforce
    then have "s' = s\<lparr>tasks := (tasks s)(t \<mapsto> x\<lparr>t_state := Runable\<rparr>), sched_state := q\<rparr>"
      using assms Some True by (simp add: wakeup_if_waiting_def wakeup_unchecked_def enqueue_ready_def on_sched_def get_task_def upd_task_def bind_def)
    then show ?thesis using Some True by auto
  next
    case False
    then show ?thesis using assms Some by (simp add: wakeup_if_waiting_def get_task_def bind_def)
  qed
qed

lemma holdsD: "holds Q E rs \<Longrightarrow> rs = (Ok a, s') \<Longrightarrow> Q a s'"
  by (simp add: holds_def)

lemma child_of_clear:
  assumes "clear_and_reparent_children R t s = (Ok (), s')" "child_of c p s" "tasks s t = Some x" "c \<notin> set (children x)" "p \<noteq> t"
  shows "child_of c p s'"
proof -
  obtain i z s1 where i: "init_task s = Some i"
    and r: "reparent_all i (children x) False (s\<lparr>tasks := (tasks s)(t := map_option (\<lambda>x. x\<lparr>children := []\<rparr>) (tasks s t))\<rparr>) = (Ok z, s1)"
    and w: "(if z then wakeup_if_waiting R i else ret ()) s1 = (Ok (), s')"
    using assms(1,3) by (auto simp: clear_and_reparent_children_def bind_eq_Ok get_task_def upd_task_def get_init_task_def split: option.splits)
  have "child_of c p (s\<lparr>tasks := (tasks s)(t := map_option (\<lambda>x. x\<lparr>children := []\<rparr>) (tasks s t))\<rparr>)"
    by (rule child_of_upd [OF assms(2)]) (use assms(5) in auto)
  from holdsD [OF child_of_reparent_all [OF this assms(4)] r] have "child_of c p s1" .
  then show ?thesis using w wake_waiting_tasks [of R i s1 s'] by (cases z) (auto simp: child_of_def)
qed

context rbtree_laws
begin

lemma exit_effect:
  assumes I: "kinv elems s" and c: "current s = Some c" and i: "init_task s = Some i" and x: "tasks s c = Some x" "c \<notin> set (children x)"
    and fam: "child_of c p s" "p \<noteq> c" and px: "tasks s p = Some px" and e: "bind (exit R status) (\<lambda>_. leave R) s = (Ok (), s')"
  shows "(\<exists>y. tasks s' c = Some y \<and> t_state y = Zombie \<and> exit_status y = status) \<and> child_of c p s' \<and>
    (t_state px = Waitting \<longrightarrow> (\<exists>py. tasks s' p = Some py \<and> t_state py = Runable))"
proof -
  let ?s1 = "s\<lparr>tasks := (tasks s)(c := map_option (\<lambda>x. x\<lparr>o_files := replicate MAX_OPEN_FILES None, cwd := None\<rparr>) (tasks s c))\<rparr>"
  let ?z = "\<lambda>x. x\<lparr>exit_status := status, t_state := Zombie\<rparr>"
  from e c obtain s2 p' s3 s5 where cl: "clear_and_reparent_children R c ?s1 = (Ok (), s2)" and pa: "parent_or_insert_init c s2 = (Ok p', s3)"
    and w: "wakeup_if_waiting R p' (s3\<lparr>tasks := (tasks s3)(c := map_option ?z (tasks s3 c))\<rparr>) = (Ok (), s5)" and l: "leave R s5 = (Ok (), s')"
    by (auto simp: exit_def bind_eq_Ok upd_task_def)
  have P1: "kpres elems s ?s1" by (rule kpres_upd [OF kinvD(1) [OF I]]) (simp add: task_ok_def)
  have c1: "child_of c p ?s1" by (rule child_of_upd [OF fam(1)]) auto
  have P2: "kpres elems s s2"
    using holdsD [OF khold_clear_children [OF kpres_mid [OF P1] kpres_busy [OF kinvD(1) [OF I] P1 kinv_busy [OF I]], of c] cl] x i kpres_trans [OF P1] by simp
  have c2: "child_of c p s2" by (rule child_of_clear [OF cl c1, where x = "x\<lparr>o_files := replicate MAX_OPEN_FILES None, cwd := None\<rparr>"]) (use x fam in simp_all)
  then have p': "p' = p" "s3 = s2"
    using pa by (auto simp: parent_or_insert_init_def live_parent_def child_of_def bind_def get_task_def)
  obtain y where y: "tasks s2 c = Some y" using c2 by (auto simp: child_of_def)
  obtain py where py: "tasks s2 p = Some py" "t_state px = Waitting \<longrightarrow> t_state py \<in> {Waitting, Runable}"
    using kpresD(4) [OF P2 px] c2 by (fastforce simp: child_of_def)
  let ?s4 = "s2\<lparr>tasks := (tasks s2)(c \<mapsto> ?z y)\<rparr>"
  have w4: "wakeup_if_waiting R p ?s4 = (Ok (), s5)" using w p' y by simp
  have t5: "tasks s5 = (tasks ?s4)(p \<mapsto> (if t_state py = Waitting then py\<lparr>t_state := Runable\<rparr> else py))"
  proof -
    have "tasks ?s4 p = Some py" using py fam(2) by simp
    with wake_waiting_tasks [OF w4] obtain q where "s5 = (if t_state py = Waitting then ?s4\<lparr>tasks := (tasks ?s4)(p \<mapsto> py\<lparr>t_state := Runable\<rparr>), sched_state := q\<rparr> else ?s4)" by (metis option.inject)
    then show ?thesis using \<open>tasks ?s4 p = Some py\<close> by (cases "t_state py = Waitting") (simp_all del: fun_upd_apply add: fun_upd_idem)
  qed
  have "tasks s' = tasks s5"
    using l by (auto simp: leave_def switched_back_def bind_def get_task_def enqueue_ready_def on_sched_def split: option.splits if_splits prod.splits outcome.splits)
  then have t': "tasks s' c = Some (?z y)" "tasks s' p = Some (if t_state py = Waitting then py\<lparr>t_state := Runable\<rparr> else py)"
    using t5 fam(2) by simp_all
  have "child_of c p s'" using c2 t' y py(1) by (auto simp: child_of_def)
  then show ?thesis using t' py(2) by auto
qed

end

text \<open>The children a wait asks for.\<close>

definition wait_candidates :: "(nat \<Rightarrow> ('i, 'f) task option) \<Rightarrow> nat option \<Rightarrow> nat list \<Rightarrow> nat set" where
  "wait_candidates ts q cs = {c \<in> set cs. ts c \<noteq> None \<and> (q = None \<or> q = Some c)}"

lemma zombie_loop_None:
  "zombie_loop ts q cs k = (None, k', cs') \<Longrightarrow>
    (\<forall>c\<in>wait_candidates ts q cs. \<forall>x. ts c = Some x \<longrightarrow> t_state x \<noteq> Zombie) \<and> (k' \<longleftrightarrow> k \<or> wait_candidates ts q cs \<noteq> {})"
  by (induction ts q cs k arbitrary: k' cs' rule: zombie_loop.induct)
    (auto simp: wait_candidates_def split: option.splits if_splits prod.splits)

lemma wait_effect:
  assumes "kinv elems s" "current s = Some p" "tasks s p = Some px" "\<not> is_interrupted_by_signal px"
  shows "\<exists>r s'. wait_round q s = (Ok r, s') \<and>
    (case r of
       Collected c status \<Rightarrow> c \<in> wait_candidates (tasks s) q (children px) \<and> c \<notin> set (task_table s') \<and>
         (\<exists>y. tasks s c = Some y \<and> t_state y = Zombie \<and> exit_status y = status)
     | NoChild \<Rightarrow> wait_candidates (tasks s) q (children px) = {}
     | Wait \<Rightarrow> wait_candidates (tasks s) q (children px) \<noteq> {} \<and> (\<forall>c\<in>wait_candidates (tasks s) q (children px). \<forall>x. tasks s c = Some x \<longrightarrow> t_state x \<noteq> Zombie) \<and>
         (\<exists>x. tasks s' p = Some x \<and> t_state x = Waitting))"
proof -
  obtain r k cs where z: "zombie_loop (tasks s) q (children px) False = (r, k, cs)" by (cases "zombie_loop (tasks s) q (children px) False")
  show ?thesis
  proof (cases r)
    case None
    note Z = zombie_loop_None [OF z [unfolded None]]
    show ?thesis using assms(2-4) z None Z
      by (cases k) (simp_all add: wait_round_def remove_zombie_child_def current_task_or_err_def get_task_def upd_task_def bind_def)
  next
    case (Some c)
    obtain y where y: "c \<in> set (children px)" "tasks s c = Some y" "t_state y = Zombie" "q = None \<or> q = Some c"
      using zombie_loop_Some [OF z [unfolded Some]] by blast
    have "c \<noteq> p" using kinvD(2) [OF assms(1,2)] y by auto
    then show ?thesis using assms(2-4) z Some y
      by (simp add: wait_round_def remove_zombie_child_def current_task_or_err_def get_task_def upd_task_def bind_def wait_candidates_def)
  qed
qed

section \<open>Delivery of signals\<close>

lemma signal_of_num_Some: "signal_of_num n = Some sig \<longleftrightarrow> signal_num sig = n"
  by (cases sig) (auto simp: signal_of_num_def all_signals_def split: if_splits)

lemma flags_contain_bit:
  assumes "n < 64"
  shows "flags_contain fs (push_bit n 1) \<longleftrightarrow> bit fs n"
proof
  assume "flags_contain fs (push_bit n 1)"
  then have "bit (fs AND push_bit n 1) n" using assms by (simp add: flags_contain_def bit_simps)
  then show "bit fs n" by (simp add: bit_simps)
next
  assume "bit fs n"
  then show "flags_contain fs (push_bit n 1)" by (auto simp: flags_contain_def bit_simps intro!: bit_eqI)
qed

lemma flags_remove_bit: "n < 64 \<Longrightarrow> bit (flags_remove fs (push_bit n 1)) m \<longleftrightarrow> bit fs m \<and> m \<noteq> n"
  by (auto simp: flags_remove_def bit_simps dest: bit_imp_le_length)

lemmas flags_contain_pow = flags_contain_bit [unfolded push_bit_of_1]
lemmas flags_remove_pow = flags_remove_bit [unfolded push_bit_of_1]

text \<open>What \<open>handle_one\<close> does with one signal number.\<close>

definition due :: "('i, 'f) task \<Rightarrow> signal \<Rightarrow> bool" where
  "due x sig \<longleftrightarrow> bit (signals x) (signal_num sig) \<and> \<not> bit (signal_mask x) (signal_num sig)"

lemma handle_one_eq:
  "handle_one n x = (case signal_of_num n of
     None \<Rightarrow> x
   | Some sig \<Rightarrow> if due x sig \<and> \<not> ((\<exists>a. signal_actions x ! n = UserHandler a) \<and> trapframe_backup x \<noteq> None) then handle_action sig (signal_actions x ! n) x else x)"
proof (cases "signal_of_num n")
  case (Some sig)
  then have n: "signal_num sig = n" by (simp add: signal_of_num_Some)
  then have "n < 64" using signal_num_bound [of sig] by (simp add: MAX_SIG_def)
  then show ?thesis using Some n
    by (auto simp: handle_one_def flag_of_bit_def flags_contain_pow due_def Let_def split: signal_action_kind.splits)
qed (simp add: handle_one_def flag_of_bit_def)

text \<open>What every step keeps, with the trapframe at the start in \<open>x\<close>.\<close>

definition delivered :: "('i, 'f) task \<Rightarrow> ('i, 'f) task \<Rightarrow> bool" where
  "delivered x y \<longleftrightarrow> signal_actions y = signal_actions x \<and> signal_mask y = signal_mask x \<and> (\<forall>n. bit (signals y) n \<longrightarrow> bit (signals x) n) \<and>
     (is_killed x \<longrightarrow> is_killed y) \<and>
     (trapframe_backup y = trapframe_backup x \<and> tframe y = tframe x \<or>
      trapframe_backup x = None \<and> trapframe_backup y = Some (tframe x) \<and>
      (\<exists>sig a. due x sig \<and> signal_actions x ! signal_num sig = UserHandler a \<and> \<not> bit (act_mask a) (signal_num sig) \<and> \<not> bit (signals y) (signal_num sig) \<and>
         tframe y = set_arg0 (of_nat (signal_num sig)) (set_ret_pc (sig_handler a) (tframe x))))"

lemma handle_one_delivered:
  assumes "delivered x y"
  shows "delivered x (handle_one n y)"
proof (cases "signal_of_num n")
  case None
  then show ?thesis using assms by (simp add: handle_one_eq)
next
  case (Some sig)
  then have n: "signal_num sig = n" by (simp add: signal_of_num_Some)
  then have n64: "n < 64" using signal_num_bound [of sig] by (simp add: MAX_SIG_def)
  have b: "bit (flags_remove fs (to_signal_flags sig)) m \<longleftrightarrow> bit fs m \<and> m \<noteq> n" for fs m
    using flags_remove_pow [OF n64] n by (simp add: to_signal_flags_def)
  have c: "flags_contain fs (to_signal_flags sig) \<longleftrightarrow> bit fs n" for fs using flags_contain_pow [OF n64] n by (simp add: to_signal_flags_def)
  have dn: "due x sig" if "due y sig" using that assms by (auto simp: due_def delivered_def)
  show ?thesis
  proof (cases "signal_actions y ! n")
    case (UserHandler a)
    then show ?thesis using assms Some n dn
      by (auto simp: handle_one_eq handle_action_def Let_def b c delivered_def)
  qed (use assms Some n in \<open>auto simp: handle_one_eq handle_action_def Let_def b delivered_def\<close>)
qed

lemma fold_delivered: "delivered x y \<Longrightarrow> delivered x (fold handle_one ns y)"
  by (induction ns arbitrary: y) (simp_all add: handle_one_delivered)

lemma delivered_refl: "delivered x x"
  by (simp add: delivered_def)

lemma handle_pending_delivered: "delivered x (handle_pending_signals x)"
  unfolding handle_pending_signals_def by (rule fold_delivered [OF delivered_refl])

lemma handle_one_keeps: "signal_mask (handle_one n x) = signal_mask x" "signal_actions (handle_one n x) = signal_actions x"
  by (auto simp: handle_one_eq handle_action_def Let_def split: option.splits signal_action_kind.splits)

lemma handle_one_other_bit:
  assumes "n \<noteq> m"
  shows "bit (signals (handle_one n x)) m = bit (signals x) m"
proof -
  have "bit (flags_remove fs (2 ^ signal_num sig)) m \<longleftrightarrow> bit fs m" if "signal_num sig = n" for fs sig
    using flags_remove_pow [of "signal_num sig" fs m] signal_num_bound [of sig] that assms by (simp add: MAX_SIG_def)
  then show ?thesis
    by (auto simp: handle_one_eq handle_action_def Let_def to_signal_flags_def signal_of_num_Some split: option.splits signal_action_kind.splits)
qed

lemma pending_kill:
  assumes "task_ok x" "due x SIGKILL"
  shows "is_killed (handle_pending_signals x) \<and> \<not> bit (signals (handle_pending_signals x)) (signal_num SIGKILL)"
proof -
  have "9 \<in> set [0..<MAX_SIG + 1]" by (simp add: MAX_SIG_def)
  then obtain ms ns where split: "[0..<MAX_SIG + 1] = ms @ 9 # ns" "9 \<notin> set ms" by (blast dest: split_list_first)
  define y where "y = fold handle_one ms x"
  have keep: "9 \<notin> set ks \<Longrightarrow> bit (signals (fold handle_one ks z)) 9 = bit (signals z) 9 \<and> signal_mask (fold handle_one ks z) = signal_mask z \<and>
      signal_actions (fold handle_one ks z) = signal_actions z" for ks and z :: "('a, 'b) task"
    by (induction ks arbitrary: z) (simp_all add: handle_one_other_bit handle_one_keeps)
  have y: "due y SIGKILL" "signal_actions y ! 9 = Terminate"
    using keep [OF split(2), of x] assms by (simp_all add: y_def due_def task_ok_def)
  have s9: "signal_of_num 9 = Some SIGKILL" by (simp add: signal_of_num_Some)
  define z where "z = handle_one 9 y"
  have z: "is_killed z" "\<not> bit (signals z) 9"
    using y s9 flags_remove_pow [of 9] by (simp_all add: z_def handle_one_eq handle_action_def Let_def to_signal_flags_def)
  have "is_killed (fold handle_one ns z)" "\<not> bit (signals (fold handle_one ns z)) 9"
    using fold_delivered [OF delivered_refl, of z ns] z by (auto simp: delivered_def)
  moreover have "handle_pending_signals x = fold handle_one ns z" unfolding handle_pending_signals_def split by (simp add: y_def z_def)
  ultimately show ?thesis by (simp only: signal_num.simps simp_thms)
qed

section \<open>Runs of the kernel\<close>

text \<open>
  The operations a run consists of, on one CPU. Those that give up the CPU include the return to the scheduler. \<open>KWait\<close>, \<open>KSleep\<close> and their \<open>Resume\<close>
  operations are the two halves of \<open>wait_with_xstatus\<close> and \<open>sleep_rem\<close>; \<open>KBlock\<close> and \<open>KWake\<close> are what wait queues do.
\<close>

datatype 'f kop =
    KLaunch string | KSetInit nat | KExit int | KWait "nat option" | KWaitResume | KSleep nat | KSleepResume nat nat | KYield | KSignals
  | KKill int "signal option" | KMask proc_mask_how signal_flags | KAction signal signal_action | KSigreturn | KSid | KTgid nat nat
  | KFd 'f | KSetFd nat 'f | KBlock bool | KWake "nat list" | KDrop nat | KTick nat | KSchedule | KCharge | KAdvance nat

abbreviation and_ret :: "('s, 'e, 'a) call \<Rightarrow> ('s, 'e, unit) call" where
  "and_ret m \<equiv> bind m (\<lambda>_. ret ())"

fun kop_run :: "'q rbtree \<Rightarrow> ('f \<Rightarrow> 'f) \<Rightarrow> 'f kop \<Rightarrow> ('q, 'i, 'f, unit) kcall" where
  "kop_run R dup (KLaunch name) = and_ret (launch R dup name)"
| "kop_run R dup (KSetInit t) = set_init_task t"
| "kop_run R dup (KExit status) = bind (exit R status) (\<lambda>_. leave R)"
| "kop_run R dup (KWait q) = bind (wait_round q) (\<lambda>r. if r = Wait then leave R else ret ())"
| "kop_run R dup KWaitResume = wait_resume"
| "kop_run R dup (KSleep d) = bind (sleep_begin d) (\<lambda>_. leave R)"
| "kop_run R dup (KSleepResume d start) = and_ret (sleep_resume d start)"
| "kop_run R dup KYield = bind yield_now (\<lambda>_. leave R)"
| "kop_run R dup KSignals = bind handle_signals_round (\<lambda>go. if go then ret () else leave R)"
| "kop_run R dup (KKill tid sig) = kill R tid sig"
| "kop_run R dup (KMask how m) = and_ret (sigprocmask how m)"
| "kop_run R dup (KAction sig act) = and_ret (sigaction sig act)"
| "kop_run R dup KSigreturn = sigreturn"
| "kop_run R dup KSid = set_sid"
| "kop_run R dup (KTgid t g) = set_tgid t g"
| "kop_run R dup (KFd file) = bind current_task_or_err (\<lambda>t. and_ret (allocate_fd_for t file))"
| "kop_run R dup (KSetFd fd file) = bind current_task_or_err (\<lambda>t. and_ret (set_file t fd file))"
| "kop_run R dup (KBlock interruptible) = bind (if interruptible then wq_interruptible_wait [] else wq_wait []) (\<lambda>_. leave R)"
| "kop_run R dup (KWake ts) = and_ret (wq_signal_all R ts)"
| "kop_run R dup (KDrop t) = task_drop t"
| "kop_run R dup (KTick jiffies) = timer_tick R jiffies"
| "kop_run R dup KSchedule = and_ret (schedule R)"
| "kop_run R dup KCharge = (\<lambda>s. on_sched (and_ret (cfs_tick (current s) (timer_now s))) s)"
| "kop_run R dup (KAdvance d) = (\<lambda>s. (Ok (), s\<lparr>timer_now := timer_now s + d\<rparr>))"

text \<open>
  When an operation can be run: identifiers are not exhausted, the init task does not exit, a task is dropped once no table refers to it, the scheduler runs
  when no task does, and the accounting of the run time does not overflow.
\<close>

fun kop_allowed :: "'f kop \<Rightarrow> ('q, 'i, 'f) kern \<Rightarrow> bool" where
  "kop_allowed (KLaunch name) s \<longleftrightarrow> next_id s + 1 < usize_limit"
| "kop_allowed (KSetInit t) s \<longleftrightarrow> t \<in> set (task_table s)"
| "kop_allowed (KExit status) s \<longleftrightarrow> current s \<noteq> None \<and> init_task s \<noteq> None \<and> current s \<noteq> init_task s"
| "kop_allowed (KSleep d) s \<longleftrightarrow> next_event_id s + 1 < usize_limit"
| "kop_allowed (KKill tid sig) s \<longleftrightarrow> - (2 ^ 63) < tid"
| "kop_allowed (KWake ts) s \<longleftrightarrow> list_all (waiter s) ts"
| "kop_allowed (KDrop t) s \<longleftrightarrow> tasks s t \<noteq> None \<and> t \<notin> set (task_table s) \<and> init_task s \<noteq> Some t"
| "kop_allowed KSchedule s \<longleftrightarrow> current s = None"
| "kop_allowed KCharge s \<longleftrightarrow> fst (cfs_tick (current s) (timer_now s) (sched_state s)) \<noteq> Panic"
| "kop_allowed op s \<longleftrightarrow> True"

fun krun :: "'q rbtree \<Rightarrow> ('f \<Rightarrow> 'f) \<Rightarrow> 'f kop list \<Rightarrow> ('q, 'i, 'f) kern \<Rightarrow> ('q, 'i, 'f) kern option" where
  "krun R dup [] s = Some s"
| "krun R dup (op # ops) s =
     (if kop_allowed op s then (case kop_run R dup op s of (Panic, _) \<Rightarrow> None | (_, s') \<Rightarrow> krun R dup ops s')
      else krun R dup ops s)"

definition kern_boot :: "'q rbtree \<Rightarrow> nat \<Rightarrow> ('q, 'i, 'f) kern" where
  "kern_boot R cpu =
     \<lparr>tasks = (\<lambda>_. None), task_table = [], next_id = 6300, sessions = [], sched_state = cfs_new R, current = None, init_task = None,
      timers = (\<lambda>_. []), next_event_id = 0, cpuid = cpu, timer_now = 0\<rparr>"

text \<open>An operation that wakes the tasks in \<open>W\<close> moves no other task that is blocked or runable, except that the scheduler may pick a runable one.\<close>

definition kmoves :: "('q \<Rightarrow> (nat \<times> nat) list) \<Rightarrow> nat set \<Rightarrow> ('q, 'i, 'f) kern \<Rightarrow> ('q, 'i, 'f) kern \<Rightarrow> bool" where
  "kmoves elems W s s' \<longleftrightarrow> kinv elems s' \<and>
     (\<forall>t x. t \<notin> W \<longrightarrow> tasks s t = Some x \<longrightarrow> t_state x \<in> {Blocked, Runable} \<longrightarrow> current s \<noteq> Some t \<longrightarrow>
        (\<exists>x'. tasks s' t = Some x' \<and> (t_state x' = t_state x \<or> t_state x = Runable \<and> current s' = Some t))) \<and>
     (\<forall>t. alive s t \<longrightarrow> current s \<noteq> Some t \<longrightarrow> alive s' t)"

fun wakes :: "'f kop \<Rightarrow> nat set" where
  "wakes (KWake ts) = set ts"
| "wakes op = {}"

lemma kmoves_refl: "kinv elems s \<Longrightarrow> kmoves elems W s s"
  by (simp add: kmoves_def)

lemma kmoves_tasks: "kinv elems s' \<Longrightarrow> tasks s' = tasks s \<Longrightarrow> kmoves elems W s s'"
  by (simp add: kmoves_def alive_def)

lemma kstep_kmoves: "kstep_ok elems s s' \<Longrightarrow> kmoves elems W s s'"
  by (simp add: kstep_ok_def kmoves_def)

lemma khold_moves: "kinv elems s \<Longrightarrow> khold elems s rs \<Longrightarrow> holds (\<lambda>_. kmoves elems W s) (kmoves elems W s) rs"
  by (erule holds_mono) (blast intro: kstep_kmoves kpres_step)+

lemma kstep_moves: "holds (\<lambda>_. kstep_ok elems s) (kstep_ok elems s) rs \<Longrightarrow> holds (\<lambda>_. kmoves elems W s) (kmoves elems W s) rs"
  by (erule holds_mono) (blast intro: kstep_kmoves)+

lemma kstep_done: "holds (\<lambda>_. kstep_ok elems s) (\<lambda>_. False) rs \<Longrightarrow> holds (\<lambda>_. kmoves elems W s) (kmoves elems W s) rs"
  by (erule holds_mono) (blast intro: kstep_kmoves)+

lemma kinv_upd:
  assumes I: "kinv elems s" and x: "tasks s t = Some x" "same_run x y"
  shows "kinv elems (s\<lparr>tasks := (tasks s)(t \<mapsto> y)\<rparr>)"
  by (rule kpres_kinv [OF I kpres_put [OF kinvD(1) [OF I] x]])

lemma kmoves_upd:
  assumes I: "kinv elems s" and x: "tasks s t = Some x" "same_run x y"
  shows "kmoves elems W s (s\<lparr>tasks := (tasks s)(t \<mapsto> y)\<rparr>)"
  by (rule kstep_kmoves [OF kpres_step [OF I kpres_put [OF kinvD(1) [OF I] x]]])

lemma current_ok: "kinv elems s \<Longrightarrow> current s = Some c \<Longrightarrow> \<exists>x. tasks s c = Some x \<and> t_state x = Running \<and> task_ok x \<and> sleep_timer_event x = None"
  using kinvD(2) [of elems s c] kinv_midD(6) [of elems s c] kinvD(1) [of elems s] by (auto simp: task_ok_def)

lemma holds_on_sched [holds_simps]:
  "holds Q E (on_sched c s) = holds (\<lambda>a q. Q a (s\<lparr>sched_state := q\<rparr>)) (\<lambda>q. E (s\<lparr>sched_state := q\<rparr>)) (c (sched_state s))"
  by (simp add: on_sched_def holds_def split: prod.splits outcome.splits)

lemma charge_ok:
  assumes I: "kinv elems s" and a: "kop_allowed KCharge s"
  shows "holds (\<lambda>_. kmoves elems W s) (kmoves elems W s) (kop_run R dup KCharge s)"
proof (cases "current s")
  case None
  then show ?thesis using I by (simp add: cfs_tick_def holds_simps kmoves_refl)
next
  case (Some c)
  note M = kinvD(1) [OF I]
  have "kinv elems (s\<lparr>sched_state := (sched_state s)\<lparr>attrs := (attrs (sched_state s))(c := b)\<rparr>\<rparr>)" (is "kinv elems ?s") for b
  proof -
    have "cfs_inv elems (sched_state ?s)" using cfs_inv_attrs [OF kinv_midD(1) [OF M] kinv_midD(10) [OF M Some]] by simp
    moreover have "events_ok ?s" by (rule events_ok_cong [OF kinv_midD(13) [OF M]]) simp_all
    ultimately have "kinv_mid elems ?s" by (intro kinv_midI) (use kinv_midD [OF M] in \<open>auto\<close>)
    then show ?thesis using I by (simp add: kinv_def)
  qed
  moreover have "\<exists>b v. cfs_tick (Some c) (timer_now s) (sched_state s) = (Ok b, (sched_state s)\<lparr>attrs := (attrs (sched_state s))(c := v)\<rparr>)"
    using a Some by (auto simp: cfs_tick_def Let_def assert_that_def bind_def split: if_splits)
  ultimately show ?thesis using Some by (auto simp: holds_simps intro!: kmoves_tasks)
qed

context rbtree_laws
begin

lemma yield_ok:
  assumes I: "kinv elems s" and st: "st \<in> {Runable, Blocked, Interruptible}" and c: "current s = Some c" "tasks s c = Some x"
  shows "holds (\<lambda>_. kmoves elems W s) (kmoves elems W s) (leave R (s\<lparr>tasks := (tasks s)(c \<mapsto> x\<lparr>t_state := st\<rparr>)\<rparr>))"
proof -
  have "holds (\<lambda>_. kstep_ok elems s) (\<lambda>_. False) (leave R (s\<lparr>tasks := (tasks s)(c := map_option (\<lambda>x. x\<lparr>t_state := st\<rparr>) (tasks s c))\<rparr>))"
    by (rule block_ok [OF kinvD(1) [OF I] c(1)]) (use current_ok [OF I c(1)] st in \<open>auto simp: task_ok_def\<close>)
  then show ?thesis using c kstep_done [where W = W] by fastforce
qed

lemma signals_ok:
  assumes I: "kinv elems s"
  shows "holds (\<lambda>_. kmoves elems W s) (kmoves elems W s) (kop_run R dup KSignals s)"
proof (cases "current s")
  case None
  then show ?thesis using I by (simp add: handle_signals_round_def holds_simps kmoves_refl)
next
  case (Some c)
  obtain x where x: "tasks s c = Some x" using current_ok [OF I Some] by blast
  let ?s = "s\<lparr>tasks := (tasks s)(c \<mapsto> handle_pending_signals x)\<rparr>"
  have K: "kinv elems ?s" by (rule kinv_upd [OF I x handle_pending_same])
  have "holds (\<lambda>_. kmoves elems W ?s) (kmoves elems W ?s) (leave R (?s\<lparr>tasks := (tasks ?s)(c \<mapsto> (handle_pending_signals x)\<lparr>t_state := Interruptible\<rparr>)\<rparr>))"
    by (rule yield_ok [OF K]) (use Some in simp_all)
  then have "holds (\<lambda>_. kmoves elems W s) (kmoves elems W s) (leave R (?s\<lparr>tasks := (tasks ?s)(c \<mapsto> (handle_pending_signals x)\<lparr>t_state := Interruptible\<rparr>)\<rparr>))"
    by (rule holds_mono) (use Some x handle_pending_same [of x] in \<open>auto simp: kmoves_def alive_def same_run_def\<close>)
  then show ?thesis using kmoves_upd [OF I x handle_pending_same] Some x by (simp add: handle_signals_round_def suspend_def holds_simps)
qed

lemma kop_moves:
  assumes I: "kinv elems s" and a: "kop_allowed op s"
  shows "holds (\<lambda>_. kmoves elems (wakes op) s) (kmoves elems (wakes op) s) (kop_run R dup op s)"
proof (cases op)
  case (KLaunch n)
  then show ?thesis using khold_launch [OF kinvD(1) [OF I] kinv_busy [OF I]] a by (auto simp: holds_simps intro: khold_moves [OF I])
next
  case (KSetInit t)
  then have "kinv elems (s\<lparr>init_task := Some t\<rparr>)" using I a unfolding kinv_def kinv_mid_def events_ok_def by auto
  then show ?thesis using KSetInit I a by (simp add: set_init_task_def holds_simps kmoves_refl kmoves_tasks)
next
  case (KExit st)
  then show ?thesis using exit_ok [OF I] a by (auto intro!: kstep_done)
next
  case (KWait q)
  then show ?thesis using wait_ok [OF I] by (auto intro: kstep_moves)
next
  case KWaitResume
  then show ?thesis using I current_ok [OF I] by (auto simp: kmoves_refl wait_resume_def holds_simps split: option.splits)
next
  case (KSleep d)
  then show ?thesis using sleep_ok [OF I] a by (auto intro: kstep_moves)
next
  case (KSleepResume d st)
  then show ?thesis using I current_ok [OF I] by (auto simp: kmoves_refl sleep_resume_def holds_simps split: option.splits)
next
  case KYield
  then show ?thesis using I current_ok [OF I] yield_ok [OF I] by (auto simp: kmoves_refl yield_now_def upd_task_def leave_def holds_simps split: option.splits)
next
  case KSignals
  then show ?thesis using signals_ok [OF I] by blast
next
  case (KKill tid sig)
  then show ?thesis using khold_moves [OF I khold_kill [OF kinvD(1) [OF I] kinv_busy [OF I]]] a by simp
next
  case (KMask how m)
  then show ?thesis using I current_ok [OF I] kmoves_upd [OF I] by (auto simp: kmoves_refl sigprocmask_def holds_simps same_run_def task_ok_def split: option.splits proc_mask_how.splits)
next
  case (KAction sig act)
  then show ?thesis using khold_moves [OF I khold_sigaction [OF kinvD(1) [OF I]]] by (simp add: holds_simps)
next
  case KSigreturn
  then show ?thesis using I current_ok [OF I] kmoves_upd [OF I] by (auto simp: kmoves_refl sigreturn_def holds_simps same_run_def task_ok_def split: option.splits)
next
  case KSid
  then show ?thesis using I current_ok [OF I] khold_moves [OF I khold_create_session [OF kinvD(1) [OF I]]] by (auto simp: kmoves_refl set_sid_def holds_simps split: option.splits)
next
  case (KTgid t g)
  then show ?thesis using khold_moves [OF I khold_set_tgid [OF kinvD(1) [OF I]]] by simp
next
  case (KFd f)
  then show ?thesis using I current_ok [OF I] kmoves_upd [OF I] by (auto simp: kmoves_refl allocate_fd_for_def holds_simps same_run_def task_ok_def split: option.splits)
next
  case (KSetFd fd f)
  then show ?thesis using I current_ok [OF I] kmoves_upd [OF I] by (auto simp: kmoves_refl set_file_def holds_simps same_run_def task_ok_def split: option.splits)
next
  case (KBlock i)
  then show ?thesis using I current_ok [OF I] yield_ok [OF I]
    by (auto simp: kmoves_refl wq_wait_def wq_interruptible_wait_def wq_block_def leave_def holds_simps split: option.splits)
next
  case (KWake ts)
  then show ?thesis using wake_all_ok [OF I, of ts] a by (auto simp: holds_simps kmoves_def elim!: holds_mono)
next
  case (KDrop t)
  then show ?thesis using a khold_moves [OF I khold_drop [OF kinvD(1) [OF I]]] by auto
next
  case (KTick j)
  obtain s' where "timer_tick R j s = (Ok (), s')" "kpres elems s s'" by (rule tick_ok [OF kinvD(1) [OF I] kinv_busy [OF I]])
  then show ?thesis using KTick kstep_kmoves [OF kpres_step [OF I]] by (simp add: holds_simps)
next
  case KSchedule
  then show ?thesis using schedule_ok [OF I] a by (auto simp: holds_simps intro: kstep_kmoves elim!: holds_mono)
next
  case KCharge
  then show ?thesis using charge_ok [OF I] a by simp
next
  case (KAdvance d)
  then show ?thesis using I kmoves_tasks [of elems "s\<lparr>timer_now := timer_now s + d\<rparr>" s] by (simp add: holds_simps kinv_def)
qed

lemma kop_ok: "kinv elems s \<Longrightarrow> kop_allowed op s \<Longrightarrow> holds (\<lambda>_. kinv elems) (kinv elems) (kop_run R dup op s)"
  by (rule holds_mono [OF kop_moves [of s op dup]]) (simp_all add: kmoves_def)

lemma krun_ok: "kinv elems s \<Longrightarrow> \<exists>s'. krun R dup ops s = Some s' \<and> kinv elems s'"
proof (induction ops arbitrary: s)
  case (Cons op ops)
  show ?case
  proof (cases "kop_allowed op s")
    case True
    from kop_ok [OF Cons.prems True, of dup] Cons.IH True show ?thesis
      by (fastforce simp: holds_def split: prod.splits outcome.splits)
  next
    case False
    then show ?thesis using Cons by simp
  qed
qed simp

lemma kinv_boot: "kinv elems (kern_boot R cpu)"
proof -
  have "cfs_inv elems (cfs_new R)" by (simp add: cfs_inv_def cfs_new_def elems_new)
  then show ?thesis by (simp add: kinv_def kinv_mid_def kern_boot_def events_ok_def cfs_new_def elems_new)
qed

end



text \<open>C24: Sleepers wake. In every state a run can reach, a task with a pending timer event is blocked in an interruptible sleep and its event is in the list of its CPU; the tick at which the
  event is due makes the task runable and puts it into the tree of the scheduler.\<close>

theorem sleepers_wake:
  assumes L: "rbtree_laws R elems" and r: "krun R dup ops (kern_boot R cpu) = Some s" and x: "tasks s t = Some x" "sleep_timer_event x = Some i"
  shows "t_state x = Interruptible \<and>
    (\<exists>e\<in>set (timers s (fst i)). event_id e = i \<and> callback e = t \<and>
      (fst i = cpuid s \<and> expired_time e \<le> j \<longrightarrow>
        (\<exists>s' x'. timer_tick R j s = (Ok (), s') \<and> tasks s' t = Some x' \<and> t_state x' = Runable \<and> t \<in> ready elems (sched_state s'))))"
proof -
  have I: "kinv elems s" by (metis L r option.inject rbtree_laws.kinv_boot rbtree_laws.krun_ok)
  note M = kinvD(1) [OF I]
  have st: "t_state x = Interruptible" using kinv_midD(6) [OF M x(1)] x(2) by (auto simp: task_ok_def)
  obtain e where e: "e \<in> set (timers s (fst i))" "event_id e = i" "callback e = t" using events_okD(5) [OF kinv_midD(13) [OF M] x] by blast
  obtain s' where s': "timer_tick R j s = (Ok (), s')" "kpres elems s s'"
    "\<And>e. e \<in> set (timers s (cpuid s)) \<Longrightarrow> expired_time e \<le> j \<Longrightarrow> \<exists>x. tasks s' (callback e) = Some x \<and> t_state x = Runable"
    by (rule rbtree_laws.tick_ok [OF L M kinv_busy [OF I]]) blast
  have c: "current s' \<noteq> Some t" using s'(2) x st kinv_busy [OF I] by (auto simp: kpres_def busy_def)
  have "\<exists>x'. tasks s' t = Some x' \<and> t_state x' = Runable \<and> t \<in> ready elems (sched_state s')" if "fst i = cpuid s" "expired_time e \<le> j"
    using s'(3) [of e] e that kinv_midD(9) [OF kpres_mid [OF s'(2)], of t] c by auto
  then show ?thesis using st e s'(1) by blast
qed

lemmas kern_eval = bind_def launch_def task_with_name_def next_tid_def task_new_def task_start_def start_with_parent_def get_task_def table_insert_def
  wakeup_def wakeup_unchecked_def upd_task_def enqueue_ready_def on_sched_def cfs_enqueue_ready_def cfs_attrs_default_def cfs_new_def sorted_queue_def
  nice_to_weight_def NICE_TO_WEIGHT_def set_init_task_def schedule_def cfs_pick_next_task_def MAX_TASKS_def usize_limit_def kern_boot_def
  sleep_begin_def current_task_or_err_def is_interrupted_by_signal_def list_add_event_def TICK_TIME_DUR_def leave_def switched_back_def
  try_add_task_def copy_o_files_def wait_round_def remove_zombie_child_def get_init_task_def exit_def clear_and_reparent_children_def parent_or_insert_init_def
  live_parent_def wakeup_if_waiting_def

lemma sleeper_run:
  "\<exists>s x. krun sorted_queue id [KLaunch ''init'', KSetInit 6300, KSchedule, KSleep 10000005] (kern_boot sorted_queue 0 :: ((nat \<times> nat) list, unit, unit) kern) = Some s \<and>
     tasks s 6300 = Some x \<and> sleep_timer_event x = Some (0, 0) \<and> map expired_time (timers s 0) = [5] \<and> cpuid s = 0"
  by (simp add: kern_eval Let_def)

theorem sleepers_wake_witness:
  "\<exists>s x i. krun sorted_queue id [KLaunch ''init'', KSetInit 6300, KSchedule, KSleep 10000005] (kern_boot sorted_queue 0) = Some (s :: ((nat \<times> nat) list, unit, unit) kern) \<and>
     tasks s 6300 = Some x \<and> sleep_timer_event x = Some i \<and>
     (\<exists>s' x'. timer_tick sorted_queue 5 s = (Ok (), s') \<and> tasks s' 6300 = Some x' \<and> t_state x' = Runable)"
proof -
  obtain s :: "((nat \<times> nat) list, unit, unit) kern" and x i where
    r: "krun sorted_queue id [KLaunch ''init'', KSetInit 6300, KSchedule, KSleep 10000005] (kern_boot sorted_queue 0) = Some s"
      and x: "tasks s 6300 = Some x" "sleep_timer_event x = Some i" and t: "map expired_time (timers s 0) = [5]" "cpuid s = 0" "fst i = 0"
    using sleeper_run by auto
  from sleepers_wake [OF sq.rbtree_laws_axioms r x, of 5] t show ?thesis using r x by auto
qed

text \<open>C22: Exit. In every state a run can reach, when a task that knows its parent exits, the call succeeds: the task becomes a zombie with the exit status and stays a child of its
  parent, the invariant holds, no task runs, and a parent that waits for a child is runable and in the tree of the scheduler: its wake-up is not lost.\<close>

theorem exit_notifies_parent:
  assumes L: "rbtree_laws R elems" and r: "krun R dup ops (kern_boot R cpu) = Some s"
    and c: "current s = Some c" "init_task s = Some i" "c \<noteq> i" "tasks s c = Some x" "c \<notin> set (children x)"
    and p: "parent x = Some p" "p \<noteq> c" "tasks s p = Some px" "c \<in> set (children px)"
  shows "\<exists>s' y py. kop_run R dup (KExit status) s = (Ok (), s') \<and> kinv elems s' \<and> current s' = None \<and>
    tasks s' c = Some y \<and> t_state y = Zombie \<and> exit_status y = status \<and> tasks s' p = Some py \<and> c \<in> set (children py) \<and>
    (t_state px = Waitting \<longrightarrow> t_state py = Runable \<and> p \<in> ready elems (sched_state s'))"
proof -
  have I: "kinv elems s" by (metis L r option.inject rbtree_laws.kinv_boot rbtree_laws.krun_ok)
  have ch: "child_of c p s" using c(4) p by (auto simp: child_of_def)
  from rbtree_laws.exit_ok [OF L I c(1,2), of status] obtain s' where
    e: "bind (exit R status) (\<lambda>_. leave R) s = (Ok (), s')" and k: "kinv elems s'" by (auto simp: holds_def kstep_ok_def split: prod.splits outcome.splits)
  note E = rbtree_laws.exit_effect [OF L I c(1,2,4,5) ch p(2,3) e]
  obtain y py where y: "tasks s' c = Some y" "t_state y = Zombie" "exit_status y = status" "tasks s' p = Some py" "c \<in> set (children py)"
    "t_state px = Waitting \<longrightarrow> t_state py = Runable"
    using E by (auto simp: child_of_def)
  have cur: "current s' = None" using kinvD(2) [OF k, of c] y(1,2) e
    by (auto simp: leave_def switched_back_def bind_def split: prod.splits outcome.splits option.splits if_splits)
  have "p \<in> ready elems (sched_state s')" if "t_state py = Runable" using kinv_midD(9) [OF kinvD(1) [OF k] y(4)] cur that by simp
  then show ?thesis using e k cur y by auto
qed

lemma exit_run:
  "\<exists>s x px. krun sorted_queue id [KLaunch ''init'', KSetInit 6300, KSchedule, KLaunch ''sh'', KWait None, KSchedule] (kern_boot sorted_queue 0 :: ((nat \<times> nat) list, unit, unit) kern) = Some s \<and>
     current s = Some 6301 \<and> init_task s = Some 6300 \<and> tasks s 6301 = Some x \<and> children x = [] \<and> parent x = Some 6300 \<and>
     tasks s 6300 = Some px \<and> children px = [6301] \<and> t_state px = Waitting"
  by (simp add: kern_eval Let_def)

theorem exit_notifies_parent_witness:
  "\<exists>s s' y py. krun sorted_queue id [KLaunch ''init'', KSetInit 6300, KSchedule, KLaunch ''sh'', KWait None, KSchedule] (kern_boot sorted_queue 0 :: ((nat \<times> nat) list, unit, unit) kern) = Some s \<and>
     kop_run sorted_queue id (KExit 3) s = (Ok (), s') \<and> tasks s' 6301 = Some y \<and> t_state y = Zombie \<and> exit_status y = 3 \<and> tasks s' 6300 = Some py \<and> t_state py = Runable"
proof -
  obtain s :: "((nat \<times> nat) list, unit, unit) kern" and x px where
    r: "krun sorted_queue id [KLaunch ''init'', KSetInit 6300, KSchedule, KLaunch ''sh'', KWait None, KSchedule] (kern_boot sorted_queue 0) = Some s"
      and x: "current s = Some 6301" "init_task s = Some 6300" "tasks s 6301 = Some x" "children x = []" "parent x = Some 6300"
        "tasks s 6300 = Some px" "children px = [6301]" "t_state px = Waitting" using exit_run by auto
  have "(6301 :: nat) \<noteq> 6300" "6301 \<notin> set (children x)" "(6300 :: nat) \<noteq> 6301" "6301 \<in> set (children px)" using x by simp_all
  from exit_notifies_parent [OF sq.rbtree_laws_axioms r x(1,2) this(1) x(3) this(2) x(5) this(3) x(6) this(4), of 3] show ?thesis using r x(8) by auto
qed

text \<open>C23: Wait. In every state a run can reach, a task without pending signals that waits gets exactly one of: a zombie child it asked for, with the exit status
  of this child, which leaves the task table; the answer that it has no such child; or, when it has such children but none is a zombie yet, it waits.\<close>

theorem wait_collects_child:
  assumes L: "rbtree_laws R elems" and r: "krun R dup ops (kern_boot R cpu) = Some s"
    and p: "current s = Some p" "tasks s p = Some px" "\<not> is_interrupted_by_signal px"
  shows "\<exists>r s'. wait_round q s = (Ok r, s') \<and>
    (case r of
       Collected c status \<Rightarrow> c \<in> wait_candidates (tasks s) q (children px) \<and> c \<notin> set (task_table s') \<and>
         (\<exists>y. tasks s c = Some y \<and> t_state y = Zombie \<and> exit_status y = status)
     | NoChild \<Rightarrow> wait_candidates (tasks s) q (children px) = {}
     | Wait \<Rightarrow> wait_candidates (tasks s) q (children px) \<noteq> {} \<and> (\<forall>c\<in>wait_candidates (tasks s) q (children px). \<forall>x. tasks s c = Some x \<longrightarrow> t_state x \<noteq> Zombie) \<and>
         (\<exists>x. tasks s' p = Some x \<and> t_state x = Waitting))"
proof -
  have "kinv elems s" by (metis L r option.inject rbtree_laws.kinv_boot rbtree_laws.krun_ok)
  then show ?thesis by (rule wait_effect [OF _ p])
qed

lemma wait_run:
  "\<exists>s px y. krun sorted_queue id [KLaunch ''init'', KSetInit 6300, KSchedule, KLaunch ''sh'', KWait None, KSchedule, KExit 3, KSchedule]
       (kern_boot sorted_queue 0 :: ((nat \<times> nat) list, unit, unit) kern) = Some s \<and>
     current s = Some 6300 \<and> tasks s 6300 = Some px \<and> children px = [6301] \<and> \<not> is_interrupted_by_signal px \<and>
     tasks s 6301 = Some y \<and> t_state y = Zombie \<and> exit_status y = 3"
  by (simp add: kern_eval Let_def)

theorem wait_collects_child_witness:
  "\<exists>s s'. krun sorted_queue id [KLaunch ''init'', KSetInit 6300, KSchedule, KLaunch ''sh'', KWait None, KSchedule, KExit 3, KSchedule]
       (kern_boot sorted_queue 0 :: ((nat \<times> nat) list, unit, unit) kern) = Some s \<and> wait_round None s = (Ok (Collected 6301 3), s') \<and> 6301 \<notin> set (task_table s')"
proof -
  obtain s :: "((nat \<times> nat) list, unit, unit) kern" and px y where
    r: "krun sorted_queue id [KLaunch ''init'', KSetInit 6300, KSchedule, KLaunch ''sh'', KWait None, KSchedule, KExit 3, KSchedule] (kern_boot sorted_queue 0) = Some s"
      and x: "current s = Some 6300" "tasks s 6300 = Some px" "\<not> is_interrupted_by_signal px" "children px = [6301]"
        "tasks s 6301 = Some y" "t_state y = Zombie" "exit_status y = 3" using wait_run by auto
  have "wait_candidates (tasks s) None (children px) = {6301}" using x by (auto simp: wait_candidates_def)
  with wait_collects_child [OF sq.rbtree_laws_axioms r x(1-3), of None] show ?thesis
    using r x(5-7) by (elim exE conjE, rename_tac w s', case_tac w) auto
qed

text \<open>C25: Signal handlers return. When a task without a handler under way handles its pending signals, either its trapframe is untouched, or exactly one handler of a pending, unmasked signal is entered: the
  program counter is the handler's, the first argument the number of the signal, and the signal is no longer pending; \<open>sigreturn\<close> then restores the interrupted trapframe exactly. While a handler is under way no other one is entered.\<close>

theorem signal_handler_returns:
  assumes c: "current s = Some c" "tasks s c = Some x" and y: "y = handle_pending_signals x"
  shows "(if trapframe_backup x \<noteq> None then trapframe_backup y = trapframe_backup x \<and> tframe y = tframe x
     else trapframe_backup y = None \<and> tframe y = tframe x \<or>
       (\<exists>sig a s'. due x sig \<and> signal_actions x ! signal_num sig = UserHandler a \<and> \<not> due y sig \<and>
          tframe y = set_arg0 (of_nat (signal_num sig)) (set_ret_pc (sig_handler a) (tframe x)) \<and>
          sigreturn (s\<lparr>tasks := (tasks s)(c \<mapsto> y)\<rparr>) = (Ok (), s') \<and> tasks s' c = Some (y\<lparr>trapframe_backup := None, tframe := tframe x\<rparr>)))"
  using handle_pending_delivered [of x] c unfolding y
  by (auto simp: delivered_def due_def sigreturn_def current_task_or_err_def get_task_def upd_task_def bind_def)

text \<open>A task with a handler for a pending \<open>SIGINT\<close>.\<close>

definition handler_task :: "(unit, unit) task" where
  "handler_task = (task_new ''t'' 1 (replicate TF_LEN 0))\<lparr>signals := to_signal_flags SIGINT,
     signal_actions := DEFAULT_SIGNAL_ACTIONS[signal_num SIGINT := UserHandler \<lparr>sig_handler = 0x1000, act_mask = 0\<rparr>]\<rparr>"

theorem signal_handler_returns_witness:
  "\<exists>sig a s'. due handler_task sig \<and> signal_actions handler_task ! signal_num sig = UserHandler a \<and>
     tframe (handle_pending_signals handler_task) = set_arg0 (of_nat (signal_num sig)) (set_ret_pc (sig_handler a) (replicate TF_LEN 0)) \<and>
     sigreturn ((kern_boot sorted_queue 0)\<lparr>current := Some 1, tasks := [1 \<mapsto> handle_pending_signals handler_task]\<rparr>) = (Ok (), s') \<and>
     tasks s' 1 = Some ((handle_pending_signals handler_task)\<lparr>trapframe_backup := None, tframe := replicate TF_LEN 0\<rparr>)"
proof -
  have n: "trapframe_backup handler_task = None" "tframe handler_task = replicate TF_LEN 0" by (simp_all add: handler_task_def task_new_def)
  have l: "0 < MAX_SIG + 1" "Suc 0 < MAX_SIG + 1" "Suc (Suc 0) < MAX_SIG + 1" by (simp_all add: MAX_SIG_def)
  have u: "[0..<MAX_SIG + 1] = 0 # 1 # 2 # [3..<MAX_SIG + 1]"
    by (simp only: upt_conv_Cons [OF l(1) [unfolded One_nat_def]] upt_conv_Cons [OF l(2) [unfolded One_nat_def]] upt_conv_Cons [OF l(3) [unfolded One_nat_def]]
      One_nat_def numeral_2_eq_2 numeral_3_eq_3)
  have d: "due handler_task SIGINT" "signals handler_task = 4" "signal_mask handler_task = 0" by (simp_all add: handler_task_def due_def to_signal_flags_def task_new_def)
  have one: "handle_one 0 handler_task = handler_task" "handle_one 1 handler_task = handler_task"
    using d(2,3) by (simp_all add: handle_one_def flag_of_bit_def flags_contain_def)
  have a2: "signal_actions handler_task ! 2 = UserHandler \<lparr>sig_handler = 0x1000, act_mask = 0\<rparr>"
    by (simp add: handler_task_def DEFAULT_SIGNAL_ACTIONS_def MAX_SIG_def)
  have s2: "signal_of_num 2 = Some SIGINT" by (simp add: signal_of_num_Some)
  have "trapframe_backup (handle_one 2 handler_task) \<noteq> None"
    using d(1) n(1) by (simp add: handle_one_eq s2 a2 handle_action_def flags_contain_def to_signal_flags_def)
  then have "trapframe_backup (handle_pending_signals handler_task) \<noteq> None"
    using fold_delivered [OF delivered_refl, of "handle_one 2 handler_task" "[3..<MAX_SIG + 1]"]
    unfolding handle_pending_signals_def u by (auto simp: one [simplified] delivered_def simp del: upt_Suc)
  with signal_handler_returns [of "(kern_boot sorted_queue 0)\<lparr>current := Some 1, tasks := [1 \<mapsto> handler_task]\<rparr>" 1 handler_task, OF _ _ refl] n
  show ?thesis by auto
qed

text \<open>C26: Types of tasks, and \<open>SIGKILL\<close>. In every state a run can reach, each task has 32 signal actions, 20 file slots and a trapframe of 35 registers, and its
  actions for \<open>SIGKILL\<close> and \<open>SIGSTOP\<close> are the default ones; so a pending \<open>SIGKILL\<close> that is not masked kills the task when it handles its signals.\<close>

theorem tasks_well_typed:
  assumes L: "rbtree_laws R elems" and r: "krun R dup ops (kern_boot R cpu) = Some s" and x: "tasks s t = Some x"
  shows "length (signal_actions x) = 32 \<and> length (o_files x) = 20 \<and> length (tframe x) = 35 \<and>
    signal_actions x ! signal_num SIGKILL = Terminate \<and> signal_actions x ! signal_num SIGSTOP = Stop \<and>
    (due x SIGKILL \<longrightarrow> is_killed (handle_pending_signals x) \<and> \<not> due (handle_pending_signals x) SIGKILL)"
proof -
  have "kinv elems s" by (metis L r option.inject rbtree_laws.kinv_boot rbtree_laws.krun_ok)
  then have "task_ok x" using kinv_midD(6) [OF kinvD(1) x] by blast
  then show ?thesis using pending_kill [of x] by (auto simp: task_ok_def due_def MAX_SIG_def MAX_OPEN_FILES_def TF_LEN_def)
qed

theorem tasks_well_typed_witness:
  "\<exists>s x. krun sorted_queue id [KLaunch ''init'', KSetInit 6300, KSchedule, KLaunch ''sh'', KWait None, KSchedule] (kern_boot sorted_queue 0 :: ((nat \<times> nat) list, unit, unit) kern) = Some s \<and>
     tasks s 6301 = Some x \<and> length (signal_actions x) = 32 \<and> signal_actions x ! signal_num SIGKILL = Terminate"
proof -
  obtain s :: "((nat \<times> nat) list, unit, unit) kern" and x where
    r: "krun sorted_queue id [KLaunch ''init'', KSetInit 6300, KSchedule, KLaunch ''sh'', KWait None, KSchedule] (kern_boot sorted_queue 0) = Some s"
      and x: "tasks s 6301 = Some x" using exit_run by auto
  from tasks_well_typed [OF sq.rbtree_laws_axioms r x] r x show ?thesis by auto
qed

end
