(* ===== verification/Rw_Sync.thy ===== *)
theory Rw_Sync
  imports Rw_TaskSpec
begin

text \<open>
  Sleeping mutexes (src/kernel/src/sync/sleep.rs) and condition variables (src/kernel/src/sync/condvar.rs) over the tasks and wait queues of Rw_Task. What the code does under the lock of a wait queue is
  one step here; a wait is split at the switch, so that a call of \<open>lock\<close> or \<open>wait\<close> is a sequence of rounds with other tasks running in between.
\<close>

section \<open>The operations\<close>

record smutex =
  holder :: "nat option"
  mwait :: "nat list"

definition sleep_mutex_new :: smutex where
  "sleep_mutex_new = \<lparr>holder = None, mwait = []\<rparr>"

text \<open>One round of the loop of \<open>lock\<close>: true when the lock is taken, false when the task has waited.\<close>

definition mutex_lock_round :: "'q rbtree \<Rightarrow> smutex \<Rightarrow> ('q, 'i, 'f, bool \<times> smutex) kcall" where
  "mutex_lock_round R m = (\<lambda>s.
     if holder m = None then (Ok (True, m\<lparr>holder := current s\<rparr>), s)
     else bind (wq_wait (mwait m)) (\<lambda>q. bind (leave R) (\<lambda>_. ret (False, m\<lparr>mwait := q\<rparr>))) s)"

definition mutex_force_unlock :: "'q rbtree \<Rightarrow> smutex \<Rightarrow> ('q, 'i, 'f, smutex) kcall" where
  "mutex_force_unlock R m = bind (wq_signal_all R (mwait m)) (\<lambda>_. ret (m\<lparr>holder := None, mwait := []\<rparr>))"

record condvar =
  cond :: bool
  cwait :: "nat list"

definition condvar_new :: "bool \<Rightarrow> condvar" where
  "condvar_new init_cond = \<lparr>cond = init_cond, cwait = []\<rparr>"

definition condvar_wait_round :: "'q rbtree \<Rightarrow> condvar \<Rightarrow> ('q, 'i, 'f, bool \<times> condvar) kcall" where
  "condvar_wait_round R v = (\<lambda>s.
     if cond v then (Ok (True, v), s)
     else bind (wq_wait (cwait v)) (\<lambda>q. bind (leave R) (\<lambda>_. ret (False, v\<lparr>cwait := q\<rparr>))) s)"

definition condvar_notify :: "'q rbtree \<Rightarrow> condvar \<Rightarrow> ('q, 'i, 'f, condvar) kcall" where
  "condvar_notify R v = bind (wq_signal_all R (cwait v)) (\<lambda>_. ret (v\<lparr>cond := True, cwait := []\<rparr>))"

definition condvar_reset :: "condvar \<Rightarrow> condvar" where
  "condvar_reset v = v\<lparr>cond := False\<rparr>"

section \<open>A system with mutexes and condition variables\<close>

text \<open>
  \<open>waits\<close> tells which tasks are inside a call of \<open>lock\<close> (\<open>Inl\<close>) or \<open>wait\<close> (\<open>Inr\<close>), \<open>inside\<close> which tasks have a guard of a mutex.
\<close>

record ('q, 'i, 'f) sync_sys =
  kst :: "('q, 'i, 'f) kern"
  mutexes :: "nat \<Rightarrow> smutex"
  condvars :: "nat \<Rightarrow> condvar"
  waits :: "nat \<Rightarrow> (nat + nat) option"
  inside :: "nat \<Rightarrow> nat list"

datatype 'f sop = SLock nat | SUnlock nat | SWait nat | SNotify nat | SReset nat | SKern "'f kop"

text \<open>What can happen to a task in the middle of \<open>lock\<close> or \<open>wait\<close>: interrupts and the scheduler, not calls of its own.\<close>

fun preempts :: "'f kop \<Rightarrow> bool" where
  "preempts KYield = True"
| "preempts (KTick j) = True"
| "preempts KSchedule = True"
| "preempts KCharge = True"
| "preempts (KAdvance d) = True"
| "preempts op = False"

definition in_call :: "('q, 'i, 'f) sync_sys \<Rightarrow> nat + nat \<Rightarrow> bool" where
  "in_call z w \<longleftrightarrow> (\<exists>c. current (kst z) = Some c \<and> (waits z c = None \<or> waits z c = Some w))"

fun sop_allowed :: "'f sop \<Rightarrow> ('q, 'i, 'f) sync_sys \<Rightarrow> bool" where
  "sop_allowed (SLock m) z \<longleftrightarrow> in_call z (Inl m)"
| "sop_allowed (SWait v) z \<longleftrightarrow> in_call z (Inr v)"
| "sop_allowed (SUnlock m) z \<longleftrightarrow> (\<exists>c. current (kst z) = Some c \<and> waits z c = None \<and> c \<in> set (inside z m))"
| "sop_allowed (SNotify v) z \<longleftrightarrow> True"
| "sop_allowed (SReset v) z \<longleftrightarrow> True"
| "sop_allowed (SKern op) z \<longleftrightarrow> kop_allowed op (kst z) \<and> (\<forall>t\<in>wakes op. waits z t = None) \<and>
     (\<forall>c. current (kst z) = Some c \<longrightarrow> waits z c = None \<or> preempts op)"

definition keep :: "(kerror, 'a) outcome \<times> ('q, 'i, 'f) kern \<Rightarrow> ('a \<Rightarrow> ('q, 'i, 'f) kern \<Rightarrow> ('q, 'i, 'f) sync_sys) \<Rightarrow> ('q, 'i, 'f) sync_sys option" where
  "keep rs k = (case rs of (Ok a, s) \<Rightarrow> Some (k a s) | _ \<Rightarrow> None)"

fun sop_run :: "'q rbtree \<Rightarrow> ('f \<Rightarrow> 'f) \<Rightarrow> 'f sop \<Rightarrow> ('q, 'i, 'f) sync_sys \<Rightarrow> ('q, 'i, 'f) sync_sys option" where
  "sop_run R dup (SLock m) z = (let c = the (current (kst z)) in
     keep (mutex_lock_round R (mutexes z m) (kst z)) (\<lambda>(got, x) s.
       z\<lparr>kst := s, mutexes := (mutexes z)(m := x), waits := (waits z)(c := if got then None else Some (Inl m)),
         inside := (if got then (inside z)(m := c # inside z m) else inside z)\<rparr>))"
| "sop_run R dup (SUnlock m) z = (let c = the (current (kst z)) in
     keep (mutex_force_unlock R (mutexes z m) (kst z)) (\<lambda>x s.
       z\<lparr>kst := s, mutexes := (mutexes z)(m := x), inside := (inside z)(m := remove1 c (inside z m))\<rparr>))"
| "sop_run R dup (SWait v) z = (let c = the (current (kst z)) in
     keep (condvar_wait_round R (condvars z v) (kst z)) (\<lambda>(got, x) s.
       z\<lparr>kst := s, condvars := (condvars z)(v := x), waits := (waits z)(c := if got then None else Some (Inr v))\<rparr>))"
| "sop_run R dup (SNotify v) z = keep (condvar_notify R (condvars z v) (kst z)) (\<lambda>x s. z\<lparr>kst := s, condvars := (condvars z)(v := x)\<rparr>)"
| "sop_run R dup (SReset v) z = Some (z\<lparr>condvars := (condvars z)(v := condvar_reset (condvars z v))\<rparr>)"
| "sop_run R dup (SKern op) z = (case kop_run R dup op (kst z) of (Panic, _) \<Rightarrow> None | (_, s) \<Rightarrow> Some (z\<lparr>kst := s\<rparr>))"

fun srun :: "'q rbtree \<Rightarrow> ('f \<Rightarrow> 'f) \<Rightarrow> 'f sop list \<Rightarrow> ('q, 'i, 'f) sync_sys \<Rightarrow> ('q, 'i, 'f) sync_sys option" where
  "srun R dup [] z = Some z"
| "srun R dup (op # ops) z =
     (if sop_allowed op z then (case sop_run R dup op z of None \<Rightarrow> None | Some z' \<Rightarrow> srun R dup ops z') else srun R dup ops z)"

definition sync_boot :: "'q rbtree \<Rightarrow> nat \<Rightarrow> ('q, 'i, 'f) sync_sys" where
  "sync_boot R cpu = \<lparr>kst = kern_boot R cpu, mutexes = (\<lambda>_. sleep_mutex_new), condvars = (\<lambda>_. condvar_new False), waits = (\<lambda>_. None), inside = (\<lambda>_. [])\<rparr>"

section \<open>The invariant\<close>

definition runs :: "('q, 'i, 'f) kern \<Rightarrow> nat \<Rightarrow> bool" where
  "runs s t \<longleftrightarrow> (\<exists>x. tasks s t = Some x \<and> (t_state x = Runable \<or> current s = Some t))"

definition blocked :: "('q, 'i, 'f) kern \<Rightarrow> nat \<Rightarrow> bool" where
  "blocked s t \<longleftrightarrow> (\<exists>x. tasks s t = Some x \<and> t_state x = Blocked)"

fun queue_of :: "('q, 'i, 'f) sync_sys \<Rightarrow> nat + nat \<Rightarrow> nat list" where
  "queue_of z (Inl m) = mwait (mutexes z m)"
| "queue_of z (Inr v) = cwait (condvars z v)"

fun shut :: "('q, 'i, 'f) sync_sys \<Rightarrow> nat + nat \<Rightarrow> bool" where
  "shut z (Inl m) \<longleftrightarrow> holder (mutexes z m) \<noteq> None"
| "shut z (Inr v) \<longleftrightarrow> \<not> cond (condvars z v)"

definition parked :: "('q, 'i, 'f) kern \<Rightarrow> (nat + nat \<Rightarrow> nat list) \<Rightarrow> (nat \<Rightarrow> (nat + nat) option) \<Rightarrow> bool" where
  "parked s Q W \<longleftrightarrow> (\<forall>w t. t \<in> set (Q w) \<longrightarrow> W t = Some w \<and> blocked s t) \<and> (\<forall>w t. W t = Some w \<longrightarrow> t \<in> set (Q w) \<or> runs s t)"

definition sinv :: "('q \<Rightarrow> (nat \<times> nat) list) \<Rightarrow> ('q, 'i, 'f) sync_sys \<Rightarrow> bool" where
  "sinv elems z \<longleftrightarrow> kinv elems (kst z) \<and> parked (kst z) (queue_of z) (waits z) \<and> (\<forall>w. queue_of z w \<noteq> [] \<longrightarrow> shut z w) \<and>
     (\<forall>m. inside z m = (case holder (mutexes z m) of None \<Rightarrow> [] | Some t \<Rightarrow> [t]))"

lemma blocked_not_current: "kinv elems s \<Longrightarrow> blocked s t \<Longrightarrow> current s \<noteq> Some t"
  using kinvD(2) [of elems s t] by (auto simp: blocked_def)

lemma blocked_moves: "kinv elems s \<Longrightarrow> kmoves elems A s s' \<Longrightarrow> t \<notin> A \<Longrightarrow> blocked s t \<Longrightarrow> blocked s' t"
  using blocked_not_current [of elems s t] unfolding kmoves_def blocked_def by force

lemma runs_moves: "kmoves elems A s s' \<Longrightarrow> t \<notin> A \<Longrightarrow> current s \<noteq> Some t \<Longrightarrow> runs s t \<Longrightarrow> runs s' t"
  unfolding kmoves_def runs_def by force

text \<open>A step that moves only tasks outside of the calls, and lets the current task go on, keeps the tasks parked.\<close>

lemma parked_moves:
  assumes I: "kinv elems s" and P: "parked s Q W" and m: "kmoves elems A s s'" and A: "\<And>t. t \<in> A \<Longrightarrow> W t = None"
    and c: "\<And>c. current s = Some c \<Longrightarrow> W c \<noteq> None \<Longrightarrow> runs s' c"
  shows "parked s' Q W"
proof -
  have "blocked s' t" if "t \<in> set (Q w)" for t w
    using that P A [of t] blocked_moves [OF I m, of t] unfolding parked_def by fastforce
  moreover have "t \<in> set (Q w) \<or> runs s' t" if w: "W t = Some w" for t w
  proof (cases "current s = Some t")
    case False
    then show ?thesis using w P A [of t] runs_moves [OF m, of t] unfolding parked_def by fastforce
  qed (use c w in simp)
  ultimately show ?thesis using P by (simp add: parked_def)
qed

context rbtree_laws
begin

lemma park_ok:
  assumes I: "kinv elems s" and c: "current s = Some c"
  shows "holds (\<lambda>q' s'. q' = q @ [c] \<and> kmoves elems {} s s' \<and> blocked s' c) (\<lambda>_. False) (bind (wq_wait q) (\<lambda>q. bind (leave R) (\<lambda>_. ret q)) s)"
proof -
  obtain x where x: "tasks s c = Some x" "t_state x = Running" using kinvD(2) [OF I c] by blast
  let ?s = "s\<lparr>tasks := (tasks s)(c \<mapsto> x\<lparr>t_state := Blocked\<rparr>)\<rparr>"
  have "kinv_mid elems (s\<lparr>tasks := (tasks s)(c := map_option (\<lambda>x. x\<lparr>t_state := Blocked\<rparr>) (tasks s c))\<rparr>)"
    by (rule kinv_mid_upd [OF kinvD(1) [OF I]]) (use current_ok [OF I c] c in \<open>auto simp: task_ok_def\<close>)
  then have "kinv_mid elems ?s" using x by simp
  from leave_ok [OF this, of c] c
  have "holds (\<lambda>_ s'. kstep_ok elems ?s s' \<and> tasks s' = tasks ?s) (\<lambda>_. False) (leave R ?s)" by (auto elim: holds_mono)
  then have "holds (\<lambda>_ s'. kmoves elems {} s s' \<and> blocked s' c) (\<lambda>_. False) (leave R ?s)"
    by (rule holds_mono) (use c x in \<open>auto simp: kstep_ok_def kmoves_def blocked_def alive_def\<close>)
  then show ?thesis using c x by (auto simp: wq_wait_def wq_block_def holds_simps elim: holds_mono)
qed

lemma preempt_ok:
  assumes I: "kinv elems s" and a: "kop_allowed op s" and p: "preempts op" and c: "current s = Some c"
  shows "holds (\<lambda>_ s'. runs s' c) (\<lambda>s'. runs s' c) (kop_run R dup op s)"
proof (cases op)
  case KYield
  obtain x where x: "tasks s c = Some x" using kinvD(2) [OF I c] by blast
  let ?s = "s\<lparr>tasks := (tasks s)(c \<mapsto> x\<lparr>t_state := Runable\<rparr>)\<rparr>"
  have "kinv_mid elems (s\<lparr>tasks := (tasks s)(c := map_option (\<lambda>x. x\<lparr>t_state := Runable\<rparr>) (tasks s c))\<rparr>)"
    by (rule kinv_mid_upd [OF kinvD(1) [OF I]]) (use current_ok [OF I c] c in \<open>auto simp: task_ok_def\<close>)
  then have "kinv_mid elems ?s" using x by simp
  from leave_ok [OF this, of c] c
  have "holds (\<lambda>_ s'. runs s' c) (\<lambda>s'. runs s' c) (leave R ?s)" by (auto simp: runs_def elim: holds_mono)
  then show ?thesis using KYield c x by (simp add: yield_now_def upd_task_def bind_def)
next
  case (KTick j)
  obtain s' where s': "timer_tick R j s = (Ok (), s')" "kpres elems s s'" by (rule tick_ok [OF kinvD(1) [OF I] kinv_busy [OF I]])
  then show ?thesis using KTick c kpresD(1,3) [OF s'(2)] kinvD(2) [OF I c] by (fastforce simp: holds_simps runs_def)
next
  case KCharge
  obtain x where x: "tasks s c = Some x" using kinvD(2) [OF I c] by blast
  have "holds (\<lambda>_ _. True) (\<lambda>_. True) (cfs_tick (current s) (timer_now s) (sched_state s))"
    using a KCharge by (auto simp: holds_def split: prod.splits outcome.splits)
  then show ?thesis using KCharge c x by (auto simp: holds_simps runs_def elim!: holds_mono)
next
  case (KAdvance d)
  then show ?thesis using c kinvD(2) [OF I c] by (auto simp: holds_simps runs_def)
qed (use p a c in auto)

text \<open>Waking a queue makes all its tasks runable, and moves no other task.\<close>

lemma release_ok:
  assumes I: "kinv elems s" and b: "\<And>t. t \<in> set q \<Longrightarrow> blocked s t"
  shows "holds (\<lambda>_ s'. kmoves elems (set q) s s' \<and> current s' = current s \<and> (\<forall>t\<in>set q. runs s' t)) (\<lambda>_. False) (wq_signal_all R q s)"
proof -
  have "list_all (waiter s) q"
    using b kinv_midD(6) [OF kinvD(1) [OF I]] by (fastforce simp: list_all_iff waiter_def blocked_def task_ok_def split: option.splits)
  from wake_all_ok [OF I this] show ?thesis
  proof (rule holds_mono, elim conjE, goal_cases)
    case (1 a s')
    have "runs s' t" if "t \<in> set q" for t using 1(6) b [OF that] that by (force simp: runs_def blocked_def woken_def)
    then show ?case using 1 by (auto simp: kmoves_def)
  qed
qed

end

lemma keep_holds: "holds Q (\<lambda>_. False) rs \<Longrightarrow> (\<And>a s. Q a s \<Longrightarrow> P (k a s)) \<Longrightarrow> \<exists>z. keep rs k = Some z \<and> P z"
  by (auto simp: keep_def holds_def split: prod.splits outcome.splits)

text \<open>The current task \<open>c\<close> joins the queue \<open>w\<close>, leaves its call, or the queue is emptied.\<close>

lemma parked_join:
  assumes I: "kinv elems s" and P: "parked s Q W" and m: "kmoves elems {} s s'" and b: "blocked s' c" and c: "current s = Some c"
    and W: "W c = None \<or> W c = Some w"
  shows "parked s' (Q(w := Q w @ [c])) (W(c := Some w))"
proof -
  have nc: "t \<noteq> c" if "t \<in> set (Q u)" for t u using that P c blocked_not_current [OF I, of t] by (auto simp: parked_def)
  have old: "blocked s' t" if "t \<in> set (Q u)" for t u using that P blocked_moves [OF I m, of t] by (auto simp: parked_def)
  have "t \<in> set (Q u) \<or> runs s' t" if "W t = Some u" "t \<noteq> c" for t u
    using that P c runs_moves [OF m, of t] unfolding parked_def by auto
  then show ?thesis using P nc old b unfolding parked_def by (auto split: if_splits)
qed

lemma parked_leave:
  assumes "kinv elems s" "parked s Q W" "current s = Some c"
  shows "parked s Q (W(c := None))"
  using assms blocked_not_current [OF assms(1)] unfolding parked_def by auto

lemma parked_release:
  assumes I: "kinv elems s" and P: "parked s Q W" and m: "kmoves elems (set (Q w)) s s'" "current s' = current s" and r: "\<forall>t\<in>set (Q w). runs s' t"
  shows "parked s' (Q(w := [])) W"
proof -
  have "blocked s' t" if "t \<in> set (Q u)" "u \<noteq> w" for t u
    using that P blocked_moves [OF I m(1), of t] unfolding parked_def by (metis option.inject)
  moreover have "t \<in> set (Q u) \<and> u \<noteq> w \<or> runs s' t" if u: "W t = Some u" for t u
  proof (cases "t \<in> set (Q u)")
    case True
    then show ?thesis using r by auto
  next
    case False
    then have run: "runs s t" "t \<notin> set (Q w)" using P u unfolding parked_def by (blast, metis option.inject)
    show ?thesis
    proof (cases "current s = Some t")
      case True
      then show ?thesis using m current_ok [of elems s' t] by (auto simp: kmoves_def runs_def)
    qed (use runs_moves [OF m(1) run(2) _ run(1)] in simp)
  qed
  ultimately show ?thesis using P unfolding parked_def by (auto split: if_splits)
qed

lemma queue_of_upd:
  "queue_of (z\<lparr>kst := s, mutexes := (mutexes z)(m := x), waits := W, inside := N\<rparr>) = (queue_of z)(Inl m := mwait x)"
  "queue_of (z\<lparr>kst := s, mutexes := (mutexes z)(m := x), inside := N\<rparr>) = (queue_of z)(Inl m := mwait x)"
  "queue_of (z\<lparr>kst := s, condvars := (condvars z)(v := y), waits := W\<rparr>) = (queue_of z)(Inr v := cwait y)"
  "queue_of (z\<lparr>kst := s, condvars := (condvars z)(v := y)\<rparr>) = (queue_of z)(Inr v := cwait y)"
  "queue_of (z\<lparr>condvars := (condvars z)(v := y)\<rparr>) = (queue_of z)(Inr v := cwait y)"
  "queue_of (z\<lparr>kst := s\<rparr>) = queue_of z"
  by (simp_all add: fun_eq_iff split_sum_all)

lemma shut_upd:
  "shut (z\<lparr>kst := s, mutexes := (mutexes z)(m := x), waits := W, inside := N\<rparr>) = (shut z)(Inl m := holder x \<noteq> None)"
  "shut (z\<lparr>kst := s, mutexes := (mutexes z)(m := x), inside := N\<rparr>) = (shut z)(Inl m := holder x \<noteq> None)"
  "shut (z\<lparr>kst := s, condvars := (condvars z)(v := y), waits := W\<rparr>) = (shut z)(Inr v := \<not> cond y)"
  "shut (z\<lparr>kst := s, condvars := (condvars z)(v := y)\<rparr>) = (shut z)(Inr v := \<not> cond y)"
  "shut (z\<lparr>condvars := (condvars z)(v := y)\<rparr>) = (shut z)(Inr v := \<not> cond y)"
  "shut (z\<lparr>kst := s\<rparr>) = shut z"
  by (simp_all add: fun_eq_iff split_sum_all)

lemmas sync_upd = queue_of_upd shut_upd

lemma sinvD:
  assumes "sinv elems z"
  shows "kinv elems (kst z)" "parked (kst z) (queue_of z) (waits z)" "queue_of z w \<noteq> [] \<Longrightarrow> shut z w"
    "inside z m = (case holder (mutexes z m) of None \<Rightarrow> [] | Some t \<Rightarrow> [t])"
  using assms unfolding sinv_def by blast+

lemma parked_blocked: "parked s Q W \<Longrightarrow> t \<in> set (Q w) \<Longrightarrow> blocked s t"
  unfolding parked_def by blast

context rbtree_laws
begin

lemma lock_ok:
  assumes I: "sinv elems z" and a: "sop_allowed (SLock m) z"
  shows "\<exists>z'. sop_run R dup (SLock m) z = Some z' \<and> sinv elems z'"
proof -
  obtain c where c: "current (kst z) = Some c" "waits z c = None \<or> waits z c = Some (Inl m)" using a by (auto simp: in_call_def)
  note D = sinvD [OF I]
  let ?m = "mutexes z m"
  show ?thesis
  proof (cases "holder ?m")
    case None
    then have "mwait ?m = []" using D(3) [of "Inl m"] by auto
    then have "sinv elems (z\<lparr>kst := kst z, mutexes := (mutexes z)(m := ?m\<lparr>holder := Some c\<rparr>), waits := (waits z)(c := None), inside := (inside z)(m := [c])\<rparr>)"
      unfolding sinv_def sync_upd using D None parked_leave [OF D(1,2) c(1)] by (auto simp: fun_upd_idem)
    then show ?thesis using None c D(4) [of m] by (simp add: mutex_lock_round_def keep_def)
  next
    case (Some h)
    have H: "holds (\<lambda>r s'. r = (False, ?m\<lparr>mwait := mwait ?m @ [c]\<rparr>) \<and> kmoves elems {} (kst z) s' \<and> blocked s' c) (\<lambda>_. False) (mutex_lock_round R ?m (kst z))"
      using park_ok [OF D(1) c(1), of "mwait ?m"] Some by (auto simp: mutex_lock_round_def holds_simps elim!: holds_mono)
    show ?thesis unfolding sop_run.simps Let_def
    proof (rule keep_holds [OF H], elim conjE, goal_cases)
      case (1 r s')
      have "parked s' ((queue_of z)(Inl m := queue_of z (Inl m) @ [c])) ((waits z)(c := Some (Inl m)))"
        by (rule parked_join [OF D(1,2) 1(2,3) c])
      then show ?case unfolding 1(1) c(1) prod.case sinv_def sync_upd using D 1(2) Some by (auto simp: kmoves_def sync_upd)
    qed
  qed
qed

lemma wait_ok_cv:
  assumes I: "sinv elems z" and a: "sop_allowed (SWait v) z"
  shows "\<exists>z'. sop_run R dup (SWait v) z = Some z' \<and> sinv elems z'"
proof -
  obtain c where c: "current (kst z) = Some c" "waits z c = None \<or> waits z c = Some (Inr v)" using a by (auto simp: in_call_def)
  note D = sinvD [OF I]
  let ?v = "condvars z v"
  show ?thesis
  proof (cases "cond ?v")
    case True
    have "sinv elems (z\<lparr>kst := kst z, condvars := (condvars z)(v := ?v), waits := (waits z)(c := None)\<rparr>)"
      using D True parked_leave [OF D(1,2) c(1)] unfolding sinv_def sync_upd by (auto simp: fun_upd_idem)
    then show ?thesis using True c by (simp add: condvar_wait_round_def keep_def)
  next
    case False
    have H: "holds (\<lambda>r s'. r = (False, ?v\<lparr>cwait := cwait ?v @ [c]\<rparr>) \<and> kmoves elems {} (kst z) s' \<and> blocked s' c) (\<lambda>_. False) (condvar_wait_round R ?v (kst z))"
      using park_ok [OF D(1) c(1), of "cwait ?v"] False by (auto simp: condvar_wait_round_def holds_simps elim!: holds_mono)
    show ?thesis unfolding sop_run.simps Let_def
    proof (rule keep_holds [OF H], elim conjE, goal_cases)
      case (1 r s')
      have "parked s' ((queue_of z)(Inr v := queue_of z (Inr v) @ [c])) ((waits z)(c := Some (Inr v)))"
        by (rule parked_join [OF D(1,2) 1(2,3) c])
      then show ?case unfolding 1(1) c(1) prod.case sinv_def sync_upd using D 1(2) False by (auto simp: kmoves_def sync_upd)
    qed
  qed
qed

lemma unlock_ok:
  assumes I: "sinv elems z" and a: "sop_allowed (SUnlock m) z"
  shows "\<exists>z'. sop_run R dup (SUnlock m) z = Some z' \<and> sinv elems z'"
proof -
  note D = sinvD [OF I]
  obtain c where c: "current (kst z) = Some c" "c \<in> set (inside z m)" using a by auto
  have h: "holder (mutexes z m) = Some c" using c D(4) [of m] by (simp split: option.splits)
  have H: "holds (\<lambda>x s'. x = (mutexes z m)\<lparr>holder := None, mwait := []\<rparr> \<and> kmoves elems (set (queue_of z (Inl m))) (kst z) s' \<and> current s' = current (kst z) \<and>
      (\<forall>t\<in>set (queue_of z (Inl m)). runs s' t)) (\<lambda>_. False) (mutex_force_unlock R (mutexes z m) (kst z))"
    using release_ok [where q = "mwait (mutexes z m)", OF D(1) parked_blocked [OF D(2), where w = "Inl m"]]
    by (auto simp: mutex_force_unlock_def holds_simps elim!: holds_mono)
  show ?thesis unfolding sop_run.simps Let_def
  proof (rule keep_holds [OF H], elim conjE, goal_cases)
    case (1 x s')
    have "parked s' ((queue_of z)(Inl m := [])) (waits z)" by (rule parked_release [OF D(1,2) 1(2-4)])
    then show ?case unfolding sinv_def sync_upd using D 1(1,2) c h by (auto simp: kmoves_def)
  qed
qed

lemma notify_ok:
  assumes I: "sinv elems z"
  shows "\<exists>z'. sop_run R dup (SNotify v) z = Some z' \<and> sinv elems z'"
proof -
  note D = sinvD [OF I]
  have H: "holds (\<lambda>x s'. x = (condvars z v)\<lparr>cond := True, cwait := []\<rparr> \<and> kmoves elems (set (queue_of z (Inr v))) (kst z) s' \<and> current s' = current (kst z) \<and>
      (\<forall>t\<in>set (queue_of z (Inr v)). runs s' t)) (\<lambda>_. False) (condvar_notify R (condvars z v) (kst z))"
    using release_ok [where q = "cwait (condvars z v)", OF D(1) parked_blocked [OF D(2), where w = "Inr v"]]
    by (auto simp: condvar_notify_def holds_simps elim!: holds_mono)
  show ?thesis unfolding sop_run.simps Let_def
  proof (rule keep_holds [OF H], elim conjE, goal_cases)
    case (1 x s')
    have "parked s' ((queue_of z)(Inr v := [])) (waits z)" by (rule parked_release [OF D(1,2) 1(2-4)])
    then show ?case unfolding sinv_def sync_upd using D 1(1,2) by (auto simp: kmoves_def)
  qed
qed

lemma kern_ok:
  assumes I: "sinv elems z" and a: "sop_allowed (SKern op) z"
  shows "\<exists>z'. sop_run R dup (SKern op) z = Some z' \<and> sinv elems z'"
proof -
  note D = sinvD [OF I]
  have step: "sinv elems (z\<lparr>kst := s'\<rparr>)"
    if m: "kmoves elems (wakes op) (kst z) s'" and p: "\<And>c. preempts op \<Longrightarrow> current (kst z) = Some c \<Longrightarrow> runs s' c" for s'
  proof -
    have "parked s' (queue_of z) (waits z)"
      by (rule parked_moves [OF D(1,2) m]) (use a p in auto)
    then show ?thesis unfolding sinv_def sync_upd using D m by (auto simp: kmoves_def)
  qed
  have a': "kop_allowed op (kst z)" using a by simp
  obtain r s' where r: "kop_run R dup op (kst z) = (r, s')" by fastforce
  have "r \<noteq> Panic" "kmoves elems (wakes op) (kst z) s'" using kop_moves [OF D(1) a', of dup] r by (auto simp: holds_def split: outcome.splits)
  moreover have "runs s' c" if "preempts op" "current (kst z) = Some c" for c
    using preempt_ok [OF D(1) a' that, of dup] r calculation(1) by (auto simp: holds_def split: outcome.splits)
  ultimately show ?thesis using r step [of s'] by (cases r) auto
qed

lemma srun_ok: "sinv elems z \<Longrightarrow> \<exists>z'. srun R dup ops z = Some z' \<and> sinv elems z'"
proof (induction ops arbitrary: z)
  case (Cons op ops)
  have "\<exists>z'. sop_run R dup op z = Some z' \<and> sinv elems z'" if a: "sop_allowed op z"
  proof (cases op)
    case (SReset v)
    have "sinv elems (z\<lparr>condvars := (condvars z)(v := (condvars z v)\<lparr>cond := False\<rparr>)\<rparr>)"
      using sinvD [OF Cons.prems] unfolding sinv_def sync_upd by (simp add: fun_upd_idem)
    then show ?thesis using SReset by (simp add: condvar_reset_def)
  qed (use a lock_ok wait_ok_cv unlock_ok notify_ok kern_ok Cons.prems in blast)+
  then show ?case using Cons by fastforce
qed simp

lemma sinv_boot: "sinv elems (sync_boot R cpu)"
  using kinv_boot [of cpu]
  by (simp add: sinv_def sync_boot_def parked_def sleep_mutex_new_def condvar_new_def split_sum_all)

end


definition sync_ops :: "unit sop list" where
  "sync_ops = [SKern (KLaunch ''init''), SKern (KLaunch ''a''), SKern KSchedule, SLock 0, SWait 1, SKern KSchedule, SLock 0, SNotify 1, SKern KSchedule, SWait 1, SUnlock 0]"


end
