(* ===== verification/Rw_Spin.thy ===== *)
theory Rw_Spin
  imports Rw_Prelude
begin

text \<open>
  Interrupt nesting (src/kernel/src/proc/cpu.rs), the spinlock and the cell that is written once (src/kernel/src/sync/spin). Every CPU runs
  the code one atomic access at a time, in any interleaving; the memory accesses are sequentially consistent.
\<close>

section \<open>Interrupts\<close>

record cpu =
  intr :: bool
  depth_off :: nat
  intena :: bool

type_synonym 'a cpu_call = "(cpu, unit, 'a) call"

definition intr_get :: "bool cpu_call" where
  "intr_get = (\<lambda>p. (Ok (intr p), p))"

definition intr_set :: "bool \<Rightarrow> unit cpu_call" where
  "intr_set b = (\<lambda>p. (Ok (), p\<lparr>intr := b\<rparr>))"

definition intr_off_store :: "bool cpu_call" where
  "intr_off_store = bind intr_get (\<lambda>state. bind (intr_set False) (\<lambda>_. ret state))"

definition intr_on_store :: "bool cpu_call" where
  "intr_on_store = bind intr_get (\<lambda>state. bind (intr_set True) (\<lambda>_. ret state))"

definition intr_restore :: "bool \<Rightarrow> unit cpu_call" where
  "intr_restore flag = (if flag then intr_set True else intr_set False)"

text \<open>\<open>mycpu_mut\<close> asserts that interrupts are off.\<close>

definition mycpu_mut :: "cpu cpu_call" where
  "mycpu_mut = bind intr_get (\<lambda>on. bind (assert_that (\<not> on)) (\<lambda>_ p. (Ok p, p)))"

definition push_off :: "unit cpu_call" where
  "push_off =
     bind intr_off_store (\<lambda>state.
     bind mycpu_mut (\<lambda>cpu.
     bind (if depth_off cpu = 0 then (\<lambda>p. (Ok (), p\<lparr>intena := state\<rparr>)) else ret ()) (\<lambda>_.
     bind (assert_that (depth_off cpu + 1 < usize_limit)) (\<lambda>_ p. (Ok (), p\<lparr>depth_off := depth_off cpu + 1\<rparr>)))))"

definition pop_off :: "unit cpu_call" where
  "pop_off =
     bind mycpu_mut (\<lambda>cpu.
       if depth_off cpu = 0 then intr_set True
       else bind (\<lambda>p. (Ok (), p\<lparr>depth_off := depth_off cpu - 1\<rparr>)) (\<lambda>_.
         if depth_off cpu - 1 = 0 \<and> intena cpu then intr_set True else ret ()))"

text \<open>A CPU whose nesting is consistent: interrupts are off inside a \<open>push_off\<close>.\<close>

definition cpu_ok :: "cpu \<Rightarrow> bool" where
  "cpu_ok p \<longleftrightarrow> (depth_off p > 0 \<longrightarrow> \<not> intr p) \<and> depth_off p + 1 < usize_limit"

text \<open>Two states of a CPU between which the nesting is balanced; \<open>intena\<close> only matters inside.\<close>

definition same_nesting :: "cpu \<Rightarrow> cpu \<Rightarrow> bool" where
  "same_nesting p q \<longleftrightarrow> intr q = intr p \<and> depth_off q = depth_off p \<and> (depth_off p > 0 \<longrightarrow> intena q = intena p)"

definition pushed :: "cpu \<Rightarrow> cpu" where
  "pushed p = p\<lparr>intr := False, intena := (if depth_off p = 0 then intr p else intena p), depth_off := depth_off p + 1\<rparr>"

lemmas cpu_simps = bind_def ret_def intr_off_store_def intr_get_def intr_set_def mycpu_mut_def assert_that_def

lemma push_off_ok: "cpu_ok p \<Longrightarrow> push_off p = (Ok (), pushed p)"
  by (simp add: push_off_def pushed_def cpu_ok_def cpu_simps)

lemma pop_off_ok:
  assumes "cpu_ok p" "same_nesting (pushed p) q"
  shows "\<exists>q'. pop_off q = (Ok (), q') \<and> same_nesting p q'"
  using assms by (auto simp: pop_off_def cpu_simps same_nesting_def pushed_def cpu_ok_def)

section \<open>The spinlock\<close>

datatype lock_mode = Plain | Irq | IrqSave

datatype close_intr = Dont | PopOff | IntrRestore bool

text \<open>
  Where a CPU is in its use of a lock. \<open>Idle\<close> is outside. \<open>Load\<close> and \<open>Loaded\<close> are in \<open>is_held\<close>, before and after the load of \<open>cpuid\<close>;
  \<open>Spin\<close> is the loop of \<open>_lock\<close>, \<open>Won\<close> follows its exchange; \<open>Inside\<close> has the guard; \<open>Unlock\<close> and \<open>Close\<close> are in the drop of the guard, after the two stores of
  \<open>force_unlock_unchecked\<close>.
\<close>

datatype spin_pc =
    Idle | Load close_intr | Loaded close_intr int | Spin close_intr | Won close_intr
  | Inside close_intr | Unlock close_intr | Close close_intr

record spin =
  is_locked :: bool
  owner :: int
  cpus :: "nat \<Rightarrow> cpu"
  pcs :: "nat \<Rightarrow> spin_pc"

text \<open>The lock of \<open>Spinlock::new\<close> has the \<open>cpuid\<close> 0; one that has been released has -1.\<close>

definition spinlock_new :: "(nat \<Rightarrow> cpu) \<Rightarrow> spin" where
  "spinlock_new ps = \<lparr>is_locked = False, owner = 0, cpus = ps, pcs = (\<lambda>_. Idle)\<rparr>"

definition spinlock_released :: "(nat \<Rightarrow> cpu) \<Rightarrow> spin" where
  "spinlock_released ps = \<lparr>is_locked = False, owner = -1, cpus = ps, pcs = (\<lambda>_. Idle)\<rparr>"

definition goto :: "nat \<Rightarrow> spin_pc \<Rightarrow> spin \<Rightarrow> spin" where
  "goto c l s = s\<lparr>pcs := (pcs s)(c := l)\<rparr>"

definition on_cpu :: "nat \<Rightarrow> 'a cpu_call \<Rightarrow> ('a \<Rightarrow> spin_pc) \<Rightarrow> spin \<Rightarrow> spin option" where
  "on_cpu c m l s = (case m (cpus s c) of (Ok a, p) \<Rightarrow> Some (goto c (l a) (s\<lparr>cpus := (cpus s)(c := p)\<rparr>)) | _ \<Rightarrow> None)"

text \<open>
  What an idle CPU does first is the part of \<open>lock\<close>, \<open>lock_irq\<close> and \<open>lock_irq_save\<close> before \<open>is_held\<close>; \<open>lock\<close> uses \<open>is_held\<close> for a message only.
\<close>

definition lock_enter :: "nat \<Rightarrow> lock_mode \<Rightarrow> spin \<Rightarrow> spin option" where
  "lock_enter c m s = (case m of
     Plain \<Rightarrow> Some (goto c (Spin Dont) s)
   | Irq \<Rightarrow> on_cpu c push_off (\<lambda>_. Load PopOff) s
   | IrqSave \<Rightarrow> on_cpu c intr_off_store (\<lambda>flag. Load (IntrRestore flag)) s)"

definition guard_close :: "nat \<Rightarrow> close_intr \<Rightarrow> spin \<Rightarrow> spin option" where
  "guard_close c k s = (case k of
     Dont \<Rightarrow> Some (goto c Idle s)
   | PopOff \<Rightarrow> on_cpu c pop_off (\<lambda>_. Idle) s
   | IntrRestore flag \<Rightarrow> on_cpu c (intr_restore flag) (\<lambda>_. Idle) s)"

definition spin_next :: "nat \<Rightarrow> lock_mode \<Rightarrow> spin \<Rightarrow> spin option" where
  "spin_next c m s = (case pcs s c of
     Idle \<Rightarrow> lock_enter c m s
   | Load k \<Rightarrow> Some (goto c (Loaded k (owner s)) s)
   | Loaded k v \<Rightarrow> Some (goto c (if is_locked s \<and> v = int c then Inside Dont else Spin k) s)
   | Spin k \<Rightarrow> Some (if is_locked s then s else goto c (Won k) (s\<lparr>is_locked := True\<rparr>))
   | Won k \<Rightarrow> Some (goto c (Inside k) (s\<lparr>owner := int c\<rparr>))
   | Inside k \<Rightarrow> Some (goto c (Unlock k) (s\<lparr>owner := -1\<rparr>))
   | Unlock k \<Rightarrow> Some (goto c (Close k) (s\<lparr>is_locked := False\<rparr>))
   | Close k \<Rightarrow> guard_close c k s)"

text \<open>A run: which CPU moves next, and how it locks if it is idle.\<close>

fun spin_run :: "(nat \<times> lock_mode) list \<Rightarrow> spin \<Rightarrow> spin option" where
  "spin_run [] s = Some s"
| "spin_run ((c, m) # ms) s = (case spin_next c m s of None \<Rightarrow> None | Some s' \<Rightarrow> spin_run ms s')"

definition holding :: "spin \<Rightarrow> nat \<Rightarrow> bool" where
  "holding s c \<longleftrightarrow> (case pcs s c of Won _ \<Rightarrow> True | Inside _ \<Rightarrow> True | Unlock _ \<Rightarrow> True | _ \<Rightarrow> False)"

text \<open>What the state of a CPU is at each point, given its state \<open>p\<close> before it locked.\<close>

definition closes :: "close_intr \<Rightarrow> cpu \<Rightarrow> cpu \<Rightarrow> bool" where
  "closes k p q \<longleftrightarrow> (case k of
     Dont \<Rightarrow> same_nesting p q
   | PopOff \<Rightarrow> same_nesting (pushed p) q
   | IntrRestore flag \<Rightarrow> flag = intr p \<and> same_nesting (p\<lparr>intr := False\<rparr>) q)"

fun pc_ok :: "cpu \<Rightarrow> nat \<Rightarrow> cpu \<Rightarrow> int \<Rightarrow> spin_pc \<Rightarrow> bool" where
  "pc_ok p c q v Idle \<longleftrightarrow> same_nesting p q \<and> v \<noteq> int c"
| "pc_ok p c q v (Load k) \<longleftrightarrow> closes k p q \<and> v \<noteq> int c"
| "pc_ok p c q v (Loaded k u) \<longleftrightarrow> closes k p q \<and> v \<noteq> int c \<and> u \<noteq> int c"
| "pc_ok p c q v (Spin k) \<longleftrightarrow> closes k p q \<and> v \<noteq> int c"
| "pc_ok p c q v (Won k) \<longleftrightarrow> closes k p q \<and> v \<noteq> int c"
| "pc_ok p c q v (Inside k) \<longleftrightarrow> closes k p q"
| "pc_ok p c q v (Unlock k) \<longleftrightarrow> closes k p q \<and> v \<noteq> int c"
| "pc_ok p c q v (Close k) \<longleftrightarrow> closes k p q \<and> v \<noteq> int c"

definition spin_inv :: "(nat \<Rightarrow> cpu) \<Rightarrow> spin \<Rightarrow> bool" where
  "spin_inv ps s \<longleftrightarrow> (\<forall>c. pc_ok (ps c) c (cpus s c) (owner s) (pcs s c)) \<and>
     (\<forall>c d. holding s c \<longrightarrow> holding s d \<longrightarrow> c = d) \<and> (is_locked s \<longleftrightarrow> (\<exists>c. holding s c))"

lemma spin_inv_released: "spin_inv ps (spinlock_released ps)"
  by (auto simp: spin_inv_def spinlock_released_def holding_def same_nesting_def)

lemma lock_enter_ok:
  assumes "cpu_ok p" "same_nesting p (cpus s c)"
  shows "\<exists>q l. lock_enter c m s = Some (s\<lparr>cpus := (cpus s)(c := q), pcs := (pcs s)(c := l)\<rparr>) \<and>
    (\<exists>k. closes k p q \<and> (l = Load k \<or> l = Spin k))"
proof (cases m)
  case Plain
  then show ?thesis using assms by (auto simp: lock_enter_def goto_def closes_def intro!: exI [of _ "cpus s c"] exI [of _ "Spin Dont"] exI [of _ Dont])
next
  case Irq
  have "cpu_ok (cpus s c)" "same_nesting (pushed p) (pushed (cpus s c))" using assms by (auto simp: cpu_ok_def same_nesting_def pushed_def)
  then show ?thesis using Irq
    by (intro exI [of _ "pushed (cpus s c)"] exI [of _ "Load PopOff"] conjI exI [of _ PopOff]) (simp_all add: lock_enter_def on_cpu_def push_off_ok goto_def closes_def)
next
  case IrqSave
  then show ?thesis using assms
    by (intro exI [of _ "(cpus s c)\<lparr>intr := False\<rparr>"] exI [of _ "Load (IntrRestore (intr p))"] conjI exI [of _ "IntrRestore (intr p)"])
      (simp_all add: lock_enter_def on_cpu_def cpu_simps goto_def closes_def same_nesting_def)
qed

lemma guard_close_ok:
  assumes "cpu_ok p" "closes k p (cpus s c)"
  shows "\<exists>q. guard_close c k s = Some (s\<lparr>cpus := (cpus s)(c := q), pcs := (pcs s)(c := Idle)\<rparr>) \<and> same_nesting p q"
proof (cases k)
  case Dont
  then show ?thesis using assms by (auto simp: guard_close_def goto_def closes_def intro!: exI [of _ "cpus s c"])
next
  case PopOff
  then show ?thesis using assms pop_off_ok [of p "cpus s c"] by (auto simp: guard_close_def on_cpu_def goto_def closes_def)
next
  case (IntrRestore f)
  then show ?thesis using assms by (auto simp: guard_close_def on_cpu_def intr_restore_def intr_set_def goto_def closes_def same_nesting_def)
qed

text \<open>A move of CPU \<open>c\<close> keeps the invariant when it stays outside, or goes through the lock in order.\<close>

lemma spin_inv_move:
  assumes I: "spin_inv ps s" and ok: "pc_ok (ps c) c q v l"
    and v: "\<And>d. d \<noteq> c \<Longrightarrow> v = int d \<Longrightarrow> owner s = int d"
    and h: "holding s' c = b" "b \<Longrightarrow> \<not> holding s c \<Longrightarrow> \<not> is_locked s" "lk = (if b then True else if holding s c then False else is_locked s)"
    and s': "s' = s\<lparr>is_locked := lk, owner := v, cpus := (cpus s)(c := q), pcs := (pcs s)(c := l)\<rparr>"
  shows "spin_inv ps s'"
proof -
  have o: "holding s' d = holding s d" if "d \<noteq> c" for d using that by (simp add: s' holding_def)
  have "pc_ok (ps d) d (cpus s' d) (owner s') (pcs s' d)" for d
  proof (cases "d = c")
    case False
    have "pc_ok (ps d) d (cpus s d) (owner s) (pcs s d)" using I by (simp add: spin_inv_def)
    then show ?thesis using False v [of d] by (cases "pcs s d") (auto simp: s')
  qed (simp add: s' ok)
  moreover have "d = e" if "holding s' d" "holding s' e" for d e
    using that o I h unfolding spin_inv_def by metis
  moreover have "is_locked s' \<longleftrightarrow> (\<exists>d. holding s' d)"
  proof -
    have "is_locked s' = lk" by (simp add: s')
    then show ?thesis using o I h unfolding spin_inv_def by metis
  qed
  ultimately show ?thesis by (auto simp: spin_inv_def)
qed

lemma spin_next_ok:
  assumes I: "spin_inv ps s" and ok: "\<And>c. cpu_ok (ps c)"
  shows "\<exists>s'. spin_next c m s = Some s' \<and> spin_inv ps s'"
proof -
  have P: "pc_ok (ps c) c (cpus s c) (owner s) (pcs s c)" using I by (simp add: spin_inv_def)
  note move = spin_inv_move [OF I, where c = c, OF _ _ refl]
  have L: "holding s c \<Longrightarrow> is_locked s" using I by (auto simp: spin_inv_def)
  show ?thesis
  proof (cases "pcs s c")
    case Idle
    then obtain q l k where q: "lock_enter c m s = Some (s\<lparr>cpus := (cpus s)(c := q), pcs := (pcs s)(c := l)\<rparr>)" "closes k (ps c) q" "l = Load k \<or> l = Spin k"
      using lock_enter_ok [OF ok [of c], of s c m] P by auto
    have "spin_inv ps (s\<lparr>cpus := (cpus s)(c := q), pcs := (pcs s)(c := l)\<rparr>)"
      by (rule move [where v = "owner s" and lk = "is_locked s" and q = q and l = l]) (use q P Idle in \<open>auto simp: holding_def\<close>)
    then show ?thesis using Idle q by (simp add: spin_next_def)
  next
    case (Close k)
    then obtain q where q: "guard_close c k s = Some (s\<lparr>cpus := (cpus s)(c := q), pcs := (pcs s)(c := Idle)\<rparr>)" "same_nesting (ps c) q"
      using guard_close_ok [OF ok [of c], of k s c] P by auto
    have "spin_inv ps (s\<lparr>cpus := (cpus s)(c := q), pcs := (pcs s)(c := Idle)\<rparr>)"
      by (rule move [where v = "owner s" and lk = "is_locked s" and q = q and l = Idle]) (use q P Close in \<open>auto simp: holding_def\<close>)
    then show ?thesis using Close q by (simp add: spin_next_def)
  next
    case (Load k)
    have "spin_inv ps (goto c (Loaded k (owner s)) s)"
      by (rule move [where v = "owner s" and lk = "is_locked s" and q = "cpus s c" and l = "Loaded k (owner s)"]) (use P Load in \<open>auto simp: holding_def goto_def\<close>)
    then show ?thesis using Load by (simp add: spin_next_def)
  next
    case (Loaded k u)
    have "spin_inv ps (goto c (Spin k) s)"
      by (rule move [where v = "owner s" and lk = "is_locked s" and q = "cpus s c" and l = "Spin k"]) (use P Loaded in \<open>auto simp: holding_def goto_def\<close>)
    then show ?thesis using Loaded P by (simp add: spin_next_def)
  next
    case (Spin k)
    have "spin_inv ps (goto c (Won k) (s\<lparr>is_locked := True\<rparr>))" if "\<not> is_locked s"
      by (rule move [where v = "owner s" and lk = True and q = "cpus s c" and l = "Won k"]) (use P Spin that in \<open>auto simp: holding_def goto_def\<close>)
    then show ?thesis using Spin I by (simp add: spin_next_def)
  next
    case (Won k)
    have "spin_inv ps (goto c (Inside k) (s\<lparr>owner := int c\<rparr>))"
      by (rule move [where v = "int c" and lk = "is_locked s" and q = "cpus s c" and l = "Inside k"])
        (use P Won L in \<open>auto simp: holding_def goto_def\<close>)
    then show ?thesis using Won by (simp add: spin_next_def)
  next
    case (Inside k)
    have "spin_inv ps (goto c (Unlock k) (s\<lparr>owner := -1\<rparr>))"
      by (rule move [where v = "-1" and lk = "is_locked s" and q = "cpus s c" and l = "Unlock k"])
        (use P Inside L in \<open>auto simp: holding_def goto_def\<close>)
    then show ?thesis using Inside by (simp add: spin_next_def)
  next
    case (Unlock k)
    have "spin_inv ps (goto c (Close k) (s\<lparr>is_locked := False\<rparr>))"
      by (rule move [where v = "owner s" and lk = False and q = "cpus s c" and l = "Close k"]) (use P Unlock in \<open>auto simp: holding_def goto_def\<close>)
    then show ?thesis using Unlock by (simp add: spin_next_def)
  qed
qed

lemma spin_run_ok: "spin_inv ps s \<Longrightarrow> (\<And>c. cpu_ok (ps c)) \<Longrightarrow> \<exists>s'. spin_run ms s = Some s' \<and> spin_inv ps s'"
proof (induction ms arbitrary: s)
  case (Cons x ms)
  obtain c m where x: "x = (c, m)" by fastforce
  obtain s' where "spin_next c m s = Some s'" "spin_inv ps s'" using spin_next_ok Cons.prems by blast
  then show ?case using Cons.IH Cons.prems x by simp
qed simp

lemma pc_ok_intr:
  "pc_ok p c q v (Inside k) \<Longrightarrow> k \<noteq> Dont \<Longrightarrow> \<not> intr q"
  by (cases k) (auto simp: closes_def same_nesting_def pushed_def)

text \<open>C28: Mutual exclusion of the spinlock. When a lock has been released, then in every interleaving of the CPUs that take it with \<open>lock\<close>, \<open>lock_irq\<close> or \<open>lock_irq_save\<close>, nothing
  panics, at most one CPU holds the lock, a CPU that took it with interrupts off runs with interrupts off while it has the guard, and a CPU that has dropped its guard has the interrupt
  state and the nesting depth it had before.\<close>

theorem spin_mutual_exclusion:
  assumes "\<forall>c. cpu_ok (ps c)"
  shows "\<exists>s. spin_run ms (spinlock_released ps) = Some s \<and> (\<forall>c d. holding s c \<longrightarrow> holding s d \<longrightarrow> c = d) \<and>
    (\<forall>c k. pcs s c = Inside k \<longrightarrow> k \<noteq> Dont \<longrightarrow> \<not> intr (cpus s c)) \<and> (\<forall>c. pcs s c = Idle \<longrightarrow> same_nesting (ps c) (cpus s c))"
proof -
  obtain s where s: "spin_run ms (spinlock_released ps) = Some s" "spin_inv ps s"
    using spin_run_ok [OF spin_inv_released] assms by blast
  have "pc_ok (ps c) c (cpus s c) (owner s) (pcs s c)" for c using s(2) by (simp add: spin_inv_def)
  then have "(\<forall>c k. pcs s c = Inside k \<longrightarrow> k \<noteq> Dont \<longrightarrow> \<not> intr (cpus s c)) \<and> (\<forall>c. pcs s c = Idle \<longrightarrow> same_nesting (ps c) (cpus s c))"
    using pc_ok_intr by (metis pc_ok.simps(1))
  then show ?thesis using s by (auto simp: spin_inv_def)
qed

definition cpu_on :: cpu where
  "cpu_on = \<lparr>intr = True, depth_off = 0, intena = False\<rparr>"

theorem spin_mutual_exclusion_witness:
  "\<exists>s. spin_run [(0, Irq), (1, IrqSave), (0, Irq), (1, Irq), (1, Irq), (0, Irq), (0, Irq), (1, Irq), (0, Irq)] (spinlock_released (\<lambda>_. cpu_on)) = Some s \<and>
     (\<forall>c d. holding s c \<longrightarrow> holding s d \<longrightarrow> c = d) \<and>
    (\<forall>c k. pcs s c = Inside k \<longrightarrow> k \<noteq> Dont \<longrightarrow> \<not> intr (cpus s c)) \<and> (\<forall>c. pcs s c = Idle \<longrightarrow> same_nesting cpu_on (cpus s c))"
  by (rule spin_mutual_exclusion [where ps = "\<lambda>_. cpu_on"]) (simp add: cpu_on_def cpu_ok_def usize_limit_def)


section \<open>The cell that is written once\<close>

text \<open>
  \<open>call_once\<close> by several CPUs: \<open>Begin\<close> is before the first load, \<open>Exchange\<close> before the exchange, \<open>Compute\<close> and \<open>Publish\<close> belong to the CPU that won, \<open>Wait\<close> is the loop of the
  others, \<open>Returned\<close> is after the call. The closure of CPU \<open>c\<close> returns \<open>f c\<close>; \<open>ran\<close> records the CPUs whose closure has run.
\<close>

datatype once_pc = Begin | Exchange | Compute | Publish | Wait | Returned

record 'a once =
  o_state :: nat
  o_value :: "'a option"
  o_pcs :: "nat \<Rightarrow> once_pc"
  ran :: "nat list"

definition UNINITIALIZED :: nat where "UNINITIALIZED = 0"
definition INITIALIZING :: nat where "INITIALIZING = 1"
definition INITIALIZED :: nat where "INITIALIZED = 2"

definition once_new :: "'a once" where
  "once_new = \<lparr>o_state = UNINITIALIZED, o_value = None, o_pcs = (\<lambda>_. Begin), ran = []\<rparr>"

definition call_once_next :: "(nat \<Rightarrow> 'a) \<Rightarrow> nat \<Rightarrow> 'a once \<Rightarrow> 'a once" where
  "call_once_next f c s =
     (let at = (\<lambda>l s. s\<lparr>o_pcs := (o_pcs s)(c := l)\<rparr>) in
      case o_pcs s c of
        Begin \<Rightarrow> if o_state s = INITIALIZED then at Returned s else at Exchange s
      | Exchange \<Rightarrow> if o_state s = UNINITIALIZED then at Compute (s\<lparr>o_state := INITIALIZING\<rparr>) else at Wait s
      | Compute \<Rightarrow> at Publish (s\<lparr>o_value := Some (f c), ran := c # ran s\<rparr>)
      | Publish \<Rightarrow> at Returned (s\<lparr>o_state := INITIALIZED\<rparr>)
      | Wait \<Rightarrow> if o_state s = INITIALIZED then at Returned s else s
      | Returned \<Rightarrow> s)"

definition once_get :: "'a once \<Rightarrow> 'a option" where
  "once_get s = (if o_state s = INITIALIZED then o_value s else None)"

text \<open>\<open>get_or_init\<close> after its \<open>call_once\<close>, and \<open>wait\<close> after its loop: the \<open>unwrap\<close> of the value.\<close>

definition once_unwrap :: "('a once, unit, 'a) call" where
  "once_unwrap = (\<lambda>s. case o_value s of Some v \<Rightarrow> (Ok v, s) | None \<Rightarrow> (Panic, s))"

definition once_inv :: "(nat \<Rightarrow> 'a) \<Rightarrow> 'a once \<Rightarrow> bool" where
  "once_inv f s \<longleftrightarrow>
     (o_state s = UNINITIALIZED \<and> ran s = [] \<and> o_value s = None \<and> (\<forall>c. o_pcs s c \<in> {Begin, Exchange})) \<or>
     (\<exists>w. o_state s = INITIALIZING \<and> (\<forall>c. c \<noteq> w \<longrightarrow> o_pcs s c \<in> {Begin, Exchange, Wait}) \<and>
        (o_pcs s w = Compute \<and> ran s = [] \<and> o_value s = None \<or> o_pcs s w = Publish \<and> ran s = [w] \<and> o_value s = Some (f w))) \<or>
     (\<exists>w. o_state s = INITIALIZED \<and> ran s = [w] \<and> o_value s = Some (f w) \<and> (\<forall>c. o_pcs s c \<in> {Begin, Exchange, Wait, Returned}))"

lemmas once_states = UNINITIALIZED_def INITIALIZING_def INITIALIZED_def

lemma once_inv_next:
  assumes "once_inv f s"
  shows "once_inv f (call_once_next f c s)"
  using assms unfolding once_inv_def
proof (elim disjE exE conjE, goal_cases)
  case 1
  then have "o_pcs s c \<in> {Begin, Exchange}" by blast
  then show ?case using 1 by (cases "o_pcs s c") (auto simp: call_once_next_def once_states)
next
  case (2 w)
  then have "c \<noteq> w \<Longrightarrow> o_pcs s c \<in> {Begin, Exchange, Wait}" by blast
  then show ?case using 2 by (cases "c = w"; cases "o_pcs s c") (auto simp: call_once_next_def once_states)
next
  case (3 w)
  then have "c \<noteq> w \<Longrightarrow> o_pcs s c \<in> {Begin, Exchange, Wait}" by blast
  then show ?case using 3 by (cases "c = w"; cases "o_pcs s c") (auto simp: call_once_next_def once_states)
next
  case (4 w)
  then have "o_pcs s c \<in> {Begin, Exchange, Wait, Returned}" by blast
  then show ?case using 4 by (cases "o_pcs s c") (auto simp: call_once_next_def once_states)
qed

lemma once_inv_fold: "once_inv f s \<Longrightarrow> once_inv f (fold (call_once_next f) cs s)"
  by (induction cs arbitrary: s) (simp_all add: once_inv_next)

lemma once_inv_new: "once_inv f once_new"
  by (simp add: once_inv_def once_new_def)

text \<open>C30: A cell is initialised once. In every interleaving of CPUs that call \<open>call_once\<close>, at most one closure runs, \<open>get\<close> returns nothing or the value of that closure, and a CPU whose call has
  returned reads that value: the \<open>unwrap\<close> of \<open>get_or_init\<close> does not panic.\<close>

theorem once_runs_once:
  "let s = fold (call_once_next f) cs once_new in
     length (ran s) \<le> 1 \<and> once_get s = (if o_state s = INITIALIZED then Some (f (hd (ran s))) else None) \<and>
     (o_pcs s c = Returned \<longrightarrow> once_get s = Some (f (hd (ran s))) \<and> once_unwrap s = (Ok (f (hd (ran s))), s))"
proof -
  let ?s = "fold (call_once_next f) cs once_new"
  have "once_inv f ?s" by (rule once_inv_fold [OF once_inv_new])
  then have "length (ran ?s) \<le> 1 \<and> once_get ?s = (if o_state ?s = INITIALIZED then Some (f (hd (ran ?s))) else None) \<and>
     (o_pcs ?s c = Returned \<longrightarrow> once_get ?s = Some (f (hd (ran ?s))) \<and> once_unwrap ?s = (Ok (f (hd (ran ?s))), ?s))"
    unfolding once_inv_def once_get_def once_unwrap_def UNINITIALIZED_def INITIALIZING_def INITIALIZED_def
    by (elim disjE exE conjE) (auto, (metis once_pc.distinct)+)
  then show ?thesis unfolding Let_def .
qed

definition once_schedule :: "nat list" where
  "once_schedule = [0, 1, 1, 0, 0, 1, 1, 0]"

theorem once_runs_once_witness:
  "o_pcs (fold (call_once_next (\<lambda>c. c + 7)) once_schedule once_new) 0 = Returned \<and>
   once_unwrap (fold (call_once_next (\<lambda>c. c + 7)) once_schedule once_new) = (Ok 8, fold (call_once_next (\<lambda>c. c + 7)) once_schedule once_new)"
proof -
  have "o_pcs (fold (call_once_next (\<lambda>c. c + 7)) once_schedule once_new) 0 = Returned"
    "ran (fold (call_once_next (\<lambda>c. c + 7)) once_schedule once_new) = [1]"
    by (simp_all add: once_schedule_def call_once_next_def once_new_def UNINITIALIZED_def INITIALIZING_def INITIALIZED_def)
  then show ?thesis using once_runs_once [where f = "\<lambda>c. c + 7" and cs = once_schedule and c = 0] by (simp add: Let_def)
qed

end
